(* ===== verification/Prelude.thy ===== *)
theory Prelude
  imports Main "HOL-Library.Sublist"
begin

text \<open>
  The prelude of the development: the part of Rust's standard library the modelled
  code uses on text (\<open>str\<close>, \<open>char\<close>, \<open>Vec<char>\<close>), with the facts about it that
  the components share.

  A Rust \<open>str\<close> is a list of Unicode scalar values; here it is a \<open>char list\<close>, and a
  \<open>char\<close> of the model stands for the scalar value with the same number, so the model
  covers the text whose characters are below 256. Character classes follow Unicode on
  that range (\<open>is_ws\<close> is \<open>char::is_whitespace\<close>, \<open>is_alnum\<close> is
  \<open>char::is_alphanumeric\<close>). A scan by index over a \<open>Vec<char>\<close> is written as a
  recursion over the rest of the text; a byte offset into a string is the list in
  front of it.

  The collection \<open>text_simps\<close> holds the rewrite rules for these functions.
\<close>

named_theorems text_simps \<open>rewrite rules for the text functions\<close>
named_theorems scan_intros \<open>introduction rules for facts about scanners\<close>

type_synonym str = "char list"

subsection \<open>Characters\<close>

abbreviation SQ :: char where "SQ \<equiv> CHR 0x27" \<comment> \<open>single quote\<close>
abbreviation DQ :: char where "DQ \<equiv> CHR 0x22" \<comment> \<open>double quote\<close>
abbreviation BSL :: char where "BSL \<equiv> CHR 0x5C" \<comment> \<open>backslash\<close>
abbreviation BTK :: char where "BTK \<equiv> CHR 0x60" \<comment> \<open>backtick\<close>
abbreviation NL :: char where "NL \<equiv> CHR 0x0A" \<comment> \<open>newline\<close>
abbreviation TAB :: char where "TAB \<equiv> CHR 0x09" \<comment> \<open>tab\<close>
abbreviation CR :: char where "CR \<equiv> CHR 0x0D" \<comment> \<open>carriage return\<close>
abbreviation SPC :: char where "SPC \<equiv> CHR 0x20" \<comment> \<open>space\<close>

definition code_of :: "char \<Rightarrow> nat" where
  "code_of c = of_char c"

definition is_ws :: "char \<Rightarrow> bool" where
  "is_ws c = (let n = code_of c in (9 \<le> n \<and> n \<le> 13) \<or> n = 32 \<or> n = 133 \<or> n = 160)"

definition is_ascii_ws :: "char \<Rightarrow> bool" where
  "is_ascii_ws c = (let n = code_of c in n = 9 \<or> n = 10 \<or> n = 12 \<or> n = 13 \<or> n = 32)"

definition is_ascii_digit :: "char \<Rightarrow> bool" where
  "is_ascii_digit c = (let n = code_of c in 48 \<le> n \<and> n \<le> 57)"

definition is_ascii_upper :: "char \<Rightarrow> bool" where
  "is_ascii_upper c = (let n = code_of c in 65 \<le> n \<and> n \<le> 90)"

definition is_ascii_lower :: "char \<Rightarrow> bool" where
  "is_ascii_lower c = (let n = code_of c in 97 \<le> n \<and> n \<le> 122)"

definition is_ascii_alpha :: "char \<Rightarrow> bool" where
  "is_ascii_alpha c = (is_ascii_upper c \<or> is_ascii_lower c)"

definition is_ascii_alnum :: "char \<Rightarrow> bool" where
  "is_ascii_alnum c = (is_ascii_alpha c \<or> is_ascii_digit c)"

definition is_ascii_hexdigit :: "char \<Rightarrow> bool" where
  "is_ascii_hexdigit c = (let n = code_of c in
     is_ascii_digit c \<or> (65 \<le> n \<and> n \<le> 70) \<or> (97 \<le> n \<and> n \<le> 102))"

text \<open>\<open>char::is_alphanumeric\<close> below 256: the ASCII letters and digits, the Latin-1 letters
  and the superscript and fraction digits.\<close>

definition is_alnum :: "char \<Rightarrow> bool" where
  "is_alnum c = (let n = code_of c in is_ascii_alnum c
     \<or> n = 170 \<or> n = 178 \<or> n = 179 \<or> n = 181 \<or> n = 185 \<or> n = 186 \<or> (188 \<le> n \<and> n \<le> 190)
     \<or> (192 \<le> n \<and> n \<noteq> 215 \<and> n \<noteq> 247))"

definition lower_char :: "char \<Rightarrow> char" where
  "lower_char c = (if is_ascii_upper c then char_of (code_of c + 32) else c)"

definition upper_char :: "char \<Rightarrow> char" where
  "upper_char c = (if is_ascii_lower c then char_of (code_of c - 32) else c)"

definition to_ascii_lowercase :: "str \<Rightarrow> str" where
  "to_ascii_lowercase s = map lower_char s"

definition to_ascii_uppercase :: "str \<Rightarrow> str" where
  "to_ascii_uppercase s = map upper_char s"

definition eq_ignore_ascii_case :: "str \<Rightarrow> str \<Rightarrow> bool" where
  "eq_ignore_ascii_case a b = (to_ascii_lowercase a = to_ascii_lowercase b)"

subsection \<open>Prefixes, substrings, splitting\<close>

fun strip_prefix :: "str \<Rightarrow> str \<Rightarrow> str option" where
  "strip_prefix [] s = Some s"
| "strip_prefix (p # ps) [] = None"
| "strip_prefix (p # ps) (c # cs) = (if p = c then strip_prefix ps cs else None)"

definition starts_with :: "str \<Rightarrow> str \<Rightarrow> bool" where
  "starts_with p s = (strip_prefix p s \<noteq> None)"

definition strip_suffix :: "str \<Rightarrow> str \<Rightarrow> str option" where
  "strip_suffix p s = map_option rev (strip_prefix (rev p) (rev s))"

definition ends_with :: "str \<Rightarrow> str \<Rightarrow> bool" where
  "ends_with p s = (strip_suffix p s \<noteq> None)"

definition ends_char :: "char \<Rightarrow> str \<Rightarrow> bool" where
  "ends_char c s = (s \<noteq> [] \<and> last s = c)"

definition starts_char :: "char \<Rightarrow> str \<Rightarrow> bool" where
  "starts_char c s = (case s of [] \<Rightarrow> False | x # _ \<Rightarrow> x = c)"

definition first_char :: "str \<Rightarrow> char option" where
  "first_char s = (case s of [] \<Rightarrow> None | x # _ \<Rightarrow> Some x)"

definition last_char :: "str \<Rightarrow> char option" where
  "last_char s = (if s = [] then None else Some (last s))"

fun str_contains :: "str \<Rightarrow> str \<Rightarrow> bool" where
  "str_contains p [] = (p = [])"
| "str_contains p (c # cs) = (starts_with p (c # cs) \<or> str_contains p cs)"

definition contains_any :: "str \<Rightarrow> str \<Rightarrow> bool" where
  "contains_any cs s = list_ex (\<lambda>c. List.member cs c) s"

abbreviation contains_char :: "char \<Rightarrow> str \<Rightarrow> bool" where
  "contains_char c s \<equiv> List.member s c"

text \<open>\<open>str::split_once\<close>; the index \<open>str::find\<close> returns is the length of the first part.\<close>

fun split_once :: "str \<Rightarrow> str \<Rightarrow> (str \<times> str) option" where
  "split_once p [] = (if p = [] then Some ([], []) else None)"
| "split_once p (c # cs) =
     (case strip_prefix p (c # cs) of
        Some r \<Rightarrow> Some ([], r)
      | None \<Rightarrow> map_option (\<lambda>(a, b). (c # a, b)) (split_once p cs))"

definition rsplit_once :: "str \<Rightarrow> str \<Rightarrow> (str \<times> str) option" where
  "rsplit_once p s = map_option (\<lambda>(a, b). (rev b, rev a)) (split_once (rev p) (rev s))"

text \<open>\<open>str::match_indices\<close>: the non-overlapping occurrences from left to right, each given as
  the text before it and the text after it.\<close>

function match_indices_from :: "str \<Rightarrow> str \<Rightarrow> str \<Rightarrow> (str \<times> str) list" where
  "match_indices_from p before s =
     (case s of [] \<Rightarrow> []
      | c # cs \<Rightarrow>
        (case strip_prefix p s of
           Some r \<Rightarrow> (if p = [] then [] else (before, r) # match_indices_from p (before @ p) r)
         | None \<Rightarrow> match_indices_from p (before @ [c]) cs))"
  by pat_completeness auto

lemma strip_prefix_Some_iff [text_simps]: "strip_prefix p s = Some r \<longleftrightarrow> s = p @ r"
  by (induction p s rule: strip_prefix.induct) auto

termination match_indices_from
  by (relation "measure (\<lambda>(p, b, s). length s)") (auto simp: strip_prefix_Some_iff)

definition match_indices :: "str \<Rightarrow> str \<Rightarrow> (str \<times> str) list" where
  "match_indices p s = match_indices_from p [] s"

text \<open>Every occurrence, overlapping ones included: the loops that resume one character after
  the start of the last match.\<close>

fun occurrences_from :: "str \<Rightarrow> str \<Rightarrow> str \<Rightarrow> (str \<times> str) list" where
  "occurrences_from p before [] = []"
| "occurrences_from p before (c # cs) =
     (case strip_prefix p (c # cs) of
        Some r \<Rightarrow> (before, r) # occurrences_from p (before @ [c]) cs
      | None \<Rightarrow> occurrences_from p (before @ [c]) cs)"

definition occurrences :: "str \<Rightarrow> str \<Rightarrow> (str \<times> str) list" where
  "occurrences p s = occurrences_from p [] s"

text \<open>\<open>str::split\<close> on a character predicate: one more part than there are matches.\<close>

fun split_by :: "(char \<Rightarrow> bool) \<Rightarrow> str \<Rightarrow> str list" where
  "split_by P [] = [[]]"
| "split_by P (c # cs) =
     (if P c then [] # split_by P cs
      else (case split_by P cs of [] \<Rightarrow> [[c]] | w # ws \<Rightarrow> (c # w) # ws))"

definition split_any :: "str \<Rightarrow> str \<Rightarrow> str list" where
  "split_any seps s = split_by (\<lambda>c. List.member seps c) s"

definition split_whitespace :: "str \<Rightarrow> str list" where
  "split_whitespace s = filter (\<lambda>w. w \<noteq> []) (split_by is_ws s)"

definition trim_start :: "str \<Rightarrow> str" where
  "trim_start s = dropWhile is_ws s"

definition trim_end :: "str \<Rightarrow> str" where
  "trim_end s = rev (dropWhile is_ws (rev s))"

definition trim :: "str \<Rightarrow> str" where
  "trim s = trim_end (trim_start s)"

definition trim_start_matches :: "(char \<Rightarrow> bool) \<Rightarrow> str \<Rightarrow> str" where
  "trim_start_matches P s = dropWhile P s"

definition trim_end_matches :: "(char \<Rightarrow> bool) \<Rightarrow> str \<Rightarrow> str" where
  "trim_end_matches P s = rev (dropWhile P (rev s))"

definition trim_matches :: "(char \<Rightarrow> bool) \<Rightarrow> str \<Rightarrow> str" where
  "trim_matches P s = trim_end_matches P (trim_start_matches P s)"

text \<open>\<open>str::lines\<close>: a line ends at a newline, one carriage return in front of it is dropped,
  and text after the last newline is a line only when there is some.\<close>

definition strip_cr :: "str \<Rightarrow> str" where
  "strip_cr l = (if ends_char CR l then butlast l else l)"

definition str_lines :: "str \<Rightarrow> str list" where
  "str_lines s = (let ps = split_by (\<lambda>c. c = NL) s in
     map strip_cr (butlast ps) @ (if last ps = [] then [] else [last ps]))"

definition str_join :: "str \<Rightarrow> str list \<Rightarrow> str" where
  "str_join sep ws = concat (case ws of [] \<Rightarrow> [] | w # vs \<Rightarrow> w # map (\<lambda>v. sep @ v) vs)"

subsection \<open>Facts\<close>

lemma trim_start_Cons: "trim_start (c # cs) = (if is_ws c then trim_start cs else c # cs)"
  by (simp add: trim_start_def)

lemma trim_start_idem [text_simps]: "trim_start (trim_start s) = trim_start s"
  by (simp add: trim_start_def)

lemma trim_end_idem [text_simps]: "trim_end (trim_end s) = trim_end s"
  by (simp add: trim_end_def)

lemma trim_end_prefix: "prefix (trim_end s) s"
proof -
  have "s = trim_end s @ rev (takeWhile is_ws (rev s))"
    by (metis rev_append rev_rev_ident takeWhile_dropWhile_id trim_end_def)
  then show ?thesis by (metis prefixI)
qed

lemma trim_start_trim_end: "trim_start (trim_end (trim_start s)) = trim_end (trim_start s)"
proof (cases "trim_end (trim_start s)")
  case Nil
  then show ?thesis by (simp add: trim_start_def)
next
  case (Cons c cs)
  with trim_end_prefix [of "trim_start s"] obtain ds where "trim_start s = c # ds"
    by (auto simp: prefix_def)
  then have "\<not> is_ws c" by (metis hd_dropWhile list.distinct(1) list.sel(1) trim_start_def)
  with Cons show ?thesis by (simp add: trim_start_def)
qed

lemma trim_trim [text_simps, simp]: "trim (trim s) = trim s"
  by (simp add: trim_def trim_start_trim_end trim_end_idem)

lemma set_trim_start: "set (trim_start s) \<subseteq> set s"
  by (auto simp: trim_start_def dest: set_dropWhileD)

lemma set_trim_end: "set (trim_end s) \<subseteq> set s"
  by (auto simp: trim_end_def dest: set_dropWhileD)

lemma set_trim: "set (trim s) \<subseteq> set s"
  using set_trim_start set_trim_end by (fastforce simp: trim_def)

lemma trim_subseq: "subseq (trim s) s"
proof -
  have "suffix (trim_start s) s" by (simp add: trim_start_def suffix_dropWhile)
  moreover have "prefix (trim s) (trim_start s)" by (simp add: trim_def trim_end_prefix)
  ultimately show ?thesis
    by (meson prefix_imp_subseq subseq_order.trans suffix_imp_subseq)
qed

lemma split_by_not_Nil [simp]: "split_by P s \<noteq> []"
  by (cases s) (auto split: list.splits)

lemma split_by_no_sep: "list_all (\<lambda>c. \<not> P c) s \<Longrightarrow> split_by P s = [s]"
  by (induction s) auto

lemma split_by_append_sep:
  "list_all (\<lambda>c. \<not> P c) a \<Longrightarrow> P c \<Longrightarrow> split_by P (a @ c # s) = a # split_by P s"
  by (induction a) auto

lemma split_by_parts: "w \<in> set (split_by P s) \<Longrightarrow> list_all (\<lambda>c. \<not> P c) w"
  by (induction s arbitrary: w) (auto split: if_splits list.splits)

lemma starts_with_iff [text_simps]: "starts_with p s \<longleftrightarrow> prefix p s"
  unfolding starts_with_def prefix_def by (metis not_None_eq strip_prefix_Some_iff)

lemma strip_suffix_Some_iff [text_simps]: "strip_suffix p s = Some r \<longleftrightarrow> s = r @ p"
  by (auto simp: strip_suffix_def strip_prefix_Some_iff)
     (metis rev_append rev_rev_ident)

lemma ends_with_iff [text_simps]: "ends_with p s \<longleftrightarrow> suffix p s"
  unfolding ends_with_def suffix_def by (metis not_None_eq strip_suffix_Some_iff)

lemma str_contains_iff [text_simps]: "str_contains p s \<longleftrightarrow> sublist p s"
  by (induction s) (auto simp: starts_with_iff sublist_Cons_right)

lemma contains_any_iff [text_simps]: "contains_any cs s \<longleftrightarrow> (\<exists>c\<in>set s. c \<in> set cs)"
  by (simp add: contains_any_def list_ex_iff)

lemma split_once_Some: "split_once p s = Some (a, b) \<Longrightarrow> s = a @ p @ b"
  by (induction p s arbitrary: a b rule: split_once.induct)
     (auto split: if_splits option.splits simp: strip_prefix_Some_iff)

lemma split_once_None: "split_once p s = None \<longleftrightarrow> \<not> sublist p s"
  by (induction p s rule: split_once.induct)
     (auto split: option.splits simp: sublist_Cons_right strip_prefix_Some_iff prefix_def,
      metis option.distinct(1) strip_prefix_Some_iff)

lemma split_whitespace_words: "w \<in> set (split_whitespace s) \<Longrightarrow> w \<noteq> [] \<and> list_all (\<lambda>c. \<not> is_ws c) w"
  by (auto simp: split_whitespace_def dest: split_by_parts)

subsection \<open>Lines with their terminators\<close>

definition unlines_nl :: "str list \<Rightarrow> str" where
  "unlines_nl ls = concat (map (\<lambda>l. l @ [NL]) ls)"

lemma unlines_nl_simps [simp]:
  "unlines_nl [] = []" "unlines_nl (l # ls) = l @ NL # unlines_nl ls"
  "unlines_nl (ls @ ms) = unlines_nl ls @ unlines_nl ms"
  by (simp_all add: unlines_nl_def)

lemma split_by_unlines:
  "\<forall>l\<in>set ls. NL \<notin> set l \<Longrightarrow> split_by (\<lambda>c. c = NL) (unlines_nl ls) = ls @ [[]]"
proof (induction ls)
  case (Cons a ls)
  then have "list_all (\<lambda>c. c \<noteq> NL) a" by (auto simp: list_all_iff)
  with Cons show ?case using split_by_append_sep [of "\<lambda>c. c = NL" a NL "unlines_nl ls"] by simp
qed simp

lemma str_lines_unlines:
  assumes "\<forall>l\<in>set ls. NL \<notin> set l \<and> CR \<notin> set l"
  shows "str_lines (unlines_nl ls) = ls"
proof -
  have "strip_cr l = l" if "l \<in> set ls" for l
    using assms that by (metis ends_char_def last_in_set strip_cr_def)
  then show ?thesis using assms by (simp add: str_lines_def split_by_unlines map_idI)
qed

end
