(* ===== verification/Shell_Lexer.thy ===== *)
theory Shell_Lexer
  imports Prelude
begin

text \<open>
  The shell lexer of the permission crate: \<open>heredoc.rs\<close> (stripping quoted heredoc
  bodies) and \<open>compound.rs\<close> (splitting a command into segments, splitting a segment
  into words, decoding a word, dropping an environment prefix, stripping the redirects
  that touch no file, and the attestability scan). Everything else in the crate reads a
  command through these functions.

  The index loops over \<open>Vec<char>\<close> are recursions over the rest of the text, with the
  loop's mutable variables as arguments.
\<close>

subsection \<open>Quoted heredoc bodies (heredoc.rs)\<close>

record heredoc_start =
  hs_delim :: str
  hs_tab_strip :: bool

definition read_quoted_delim :: "str \<Rightarrow> (str \<times> str) option" where
  "read_quoted_delim s =
     (case s of [] \<Rightarrow> None
      | c # cs \<Rightarrow>
        if c = SQ \<or> c = DQ then
          (case dropWhile (\<lambda>x. x \<noteq> c) cs of
             [] \<Rightarrow> None
           | _ # r \<Rightarrow> Some (takeWhile (\<lambda>x. x \<noteq> c) cs, r))
        else if c = BSL then
          (let d = takeWhile (\<lambda>x. is_alnum x \<or> x = CHR ''_'') cs in
           if d = [] then None
           else Some (d, dropWhile (\<lambda>x. is_alnum x \<or> x = CHR ''_'') cs))
        else None)"

definition heredoc_operand :: "str \<Rightarrow> bool \<times> str" where
  "heredoc_operand rest =
     (let tab = starts_char (CHR ''-'') rest;
          r = (if tab then tl rest else rest)
      in (tab, dropWhile (\<lambda>c. c = SPC) r))"

function quoted_heredoc_starts :: "str \<Rightarrow> heredoc_start list" where
  "quoted_heredoc_starts (a # b # rest) =
     (if a = CHR ''<'' \<and> b = CHR ''<'' \<and> starts_char (CHR ''<'') rest
      then quoted_heredoc_starts (tl rest)
      else if a = CHR ''<'' \<and> b = CHR ''<'' then
        (case read_quoted_delim (snd (heredoc_operand rest)) of
           Some (d, r) \<Rightarrow>
             \<lparr>hs_delim = d, hs_tab_strip = fst (heredoc_operand rest)\<rparr> # quoted_heredoc_starts r
         | None \<Rightarrow> quoted_heredoc_starts (b # rest))
      else quoted_heredoc_starts (b # rest))"
| "quoted_heredoc_starts [a] = []"
| "quoted_heredoc_starts [] = []"
  by pat_completeness auto

lemma length_dropWhile_le' [simp]: "length (dropWhile P xs) \<le> length xs"
  by (rule length_dropWhile_le)

lemma dropWhile_shorter: "dropWhile P xs = y # ys \<Longrightarrow> length ys < length xs"
  using length_dropWhile_le [of P xs] by simp

lemma read_quoted_delim_shorter: "read_quoted_delim s = Some (d, r) \<Longrightarrow> length r < length s"
proof -
  assume some: "read_quoted_delim s = Some (d, r)"
  then obtain c cs where s: "s = c # cs" by (cases s) (auto simp: read_quoted_delim_def)
  have "(\<exists>q P. dropWhile P cs = q # r) \<or> (\<exists>P. r = dropWhile P cs)"
    using some by (simp add: read_quoted_delim_def s Let_def split: if_splits list.splits) blast+
  then show ?thesis
    using length_dropWhile_le [of _ cs] by (auto simp: s less_Suc_eq_le dest!: dropWhile_shorter)
qed

lemma heredoc_operand_shorter: "length (snd (heredoc_operand rest)) \<le> length rest"
  by (auto simp: heredoc_operand_def Let_def intro: le_trans [OF length_dropWhile_le])

lemma heredoc_delim_shorter:
  "read_quoted_delim (snd (heredoc_operand rest)) = Some (d, r) \<Longrightarrow> length r < length rest"
  using read_quoted_delim_shorter [of "snd (heredoc_operand rest)" d r]
    heredoc_operand_shorter [of rest] by simp

termination quoted_heredoc_starts
  by (relation "measure length") (auto dest!: heredoc_delim_shorter)

text \<open>The body of one heredoc: the lines written in its place, the body lines handed to the
  caller, and the lines left for the outer loop.\<close>

fun heredoc_body :: "heredoc_start \<Rightarrow> str list \<Rightarrow> str list \<times> str list \<times> str list" where
  "heredoc_body st [] = ([], [], [])"
| "heredoc_body st (l # ls) =
     (if (if hs_tab_strip st then dropWhile (\<lambda>c. c = TAB) l else l) = hs_delim st
      then ([l], [], ls)
      else (case heredoc_body st ls of (out, body, rest) \<Rightarrow>
              (''_HEREDOC_BODY_'' # out, l # body, rest)))"

fun heredoc_bodies :: "heredoc_start list \<Rightarrow> str list \<Rightarrow> str list \<times> str list \<times> str list" where
  "heredoc_bodies [] ls = ([], [], ls)"
| "heredoc_bodies (st # sts) ls =
     (case heredoc_body st ls of (out, body, rest) \<Rightarrow>
      (case heredoc_bodies sts rest of (out', body', rest') \<Rightarrow>
        (out @ out', body @ body', rest')))"

lemma heredoc_body_shorter: "heredoc_body st ls = (out, body, rest) \<Longrightarrow> length rest \<le> length ls"
  by (induction ls arbitrary: out body rest) (auto split: if_splits prod.splits)

lemma heredoc_bodies_shorter:
  "heredoc_bodies sts ls = (out, body, rest) \<Longrightarrow> length rest \<le> length ls"
proof (induction sts arbitrary: ls out body rest)
  case (Cons st sts)
  then show ?case
    by (fastforce split: prod.splits dest: heredoc_body_shorter intro: le_trans)
qed simp

function walk_lines :: "str list \<Rightarrow> str list \<times> str list" where
  "walk_lines [] = ([], [])"
| "walk_lines (l # ls) =
     (case heredoc_bodies (quoted_heredoc_starts l) ls of (out, body, rest) \<Rightarrow>
      (case walk_lines rest of (out', body') \<Rightarrow> (l # out @ out', body @ body')))"
  by pat_completeness auto
termination
  by (relation "measure length") (auto simp: less_Suc_eq_le dest!: heredoc_bodies_shorter [OF sym])

definition strip_quoted_heredoc_bodies :: "str \<Rightarrow> str" where
  "strip_quoted_heredoc_bodies content = unlines_nl (fst (walk_lines (str_lines content)))"

definition quoted_heredoc_bodies :: "str \<Rightarrow> str list" where
  "quoted_heredoc_bodies content = snd (walk_lines (str_lines content))"

subsection \<open>Splitting a command into segments (compound.rs)\<close>

definition heredoc_word_char :: "char \<Rightarrow> bool" where
  "heredoc_word_char c = (\<not> is_ws c \<and> \<not> List.member '';|&<>()'' c)"

text \<open>\<open>read_heredoc\<close>, called on the text after the two angle brackets: what is appended to the
  segment, where scanning resumes, and the delimiter with its tab-stripping flag.\<close>

definition read_heredoc :: "str \<Rightarrow> str \<times> str \<times> (str \<times> bool) option" where
  "read_heredoc rest =
     (let strip_tabs = starts_char (CHR ''-'') rest;
          r = (if strip_tabs then tl rest else rest);
          word = takeWhile heredoc_word_char r;
          name = trim_matches (\<lambda>c. c = SQ \<or> c = DQ) word
      in (''<<'' @ (if strip_tabs then ''-'' else []) @ word,
          dropWhile heredoc_word_char r,
          if name = [] then None else Some (name, strip_tabs)))"

function skip_heredoc_body :: "str \<Rightarrow> bool \<Rightarrow> str \<Rightarrow> str" where
  "skip_heredoc_body delim strip_tabs s =
     (if s = [] then []
      else let line = takeWhile (\<lambda>c. c \<noteq> NL) s;
               rest = drop 1 (dropWhile (\<lambda>c. c \<noteq> NL) s);
               l = (if strip_tabs then dropWhile (\<lambda>c. c = TAB) line else line)
           in if l = delim then rest else skip_heredoc_body delim strip_tabs rest)"
  by pat_completeness auto

lemma drop_dropWhile_shorter: "s \<noteq> [] \<Longrightarrow> length (drop 1 (dropWhile P s)) < length s"
  using length_dropWhile_le [of P s] by (cases s) (simp_all add: less_Suc_eq_le)

termination skip_heredoc_body
  by (relation "measure (\<lambda>(d, t, s). length s)") (use drop_dropWhile_shorter in auto)

declare skip_heredoc_body.simps [simp del]

lemma skip_heredoc_body_le: "length (skip_heredoc_body d t s) \<le> length s"
proof (induction s arbitrary: d t rule: length_induct)
  case (1 s)
  let ?r = "drop 1 (dropWhile (\<lambda>c. c \<noteq> NL) s)"
  show ?case
  proof (cases "s = []")
    case False
    then have "length ?r < length s" by (rule drop_dropWhile_shorter)
    with "1.IH" have "length (skip_heredoc_body d t ?r) \<le> length s"
      by (meson le_trans less_imp_le)
    with \<open>length ?r < length s\<close> False show ?thesis
      by (subst skip_heredoc_body.simps) (simp add: Let_def)
  qed (simp add: skip_heredoc_body.simps)
qed

definition push_seg :: "str \<Rightarrow> str list" where
  "push_seg s = (let t = trim s in if t = [] then [] else [t])"

text \<open>The scanner of \<open>split_compound\<close>. The arguments are the loop's variables: the rest of the
  text, the current segment, the two quote flags, the paren depth and the pending heredoc; the
  segments pushed are the result.\<close>

function split_scan ::
  "str \<Rightarrow> str \<Rightarrow> bool \<Rightarrow> bool \<Rightarrow> nat \<Rightarrow> (str \<times> bool) option \<Rightarrow> str list" where
  "split_scan [] cur in_single in_double depth heredoc = push_seg cur"
| "split_scan (c # cs) cur in_single in_double depth heredoc =
     (if c = SQ \<and> \<not> in_double then
        split_scan cs (cur @ [c]) (\<not> in_single) in_double depth heredoc
      else if c = DQ \<and> \<not> in_single then
        split_scan cs (cur @ [c]) in_single (\<not> in_double) depth heredoc
      else if in_single \<or> in_double then
        split_scan cs (cur @ [c]) in_single in_double depth heredoc
      else if c = CHR ''('' then
        split_scan cs (cur @ [c]) in_single in_double (Suc depth) heredoc
      else if c = CHR '')'' then
        split_scan cs (cur @ [c]) in_single in_double (depth - 1) heredoc
      else if 0 < depth then
        split_scan cs (cur @ [c]) in_single in_double depth heredoc
      else if c = CHR ''<'' \<and> starts_char (CHR ''<'') cs then
        (case read_heredoc (drop 1 cs) of (pushed, rest, found) \<Rightarrow>
           split_scan rest (cur @ pushed) in_single in_double depth
             (if found = None then heredoc else found))
      else if (c = CHR ''&'' \<or> c = CHR ''|'') \<and> starts_char c cs then
        push_seg cur @ split_scan (drop 1 cs) [] in_single in_double depth heredoc
      else if c = NL then
        (let rest = (case heredoc of None \<Rightarrow> cs
                     | Some (delim, strip_tabs) \<Rightarrow> skip_heredoc_body delim strip_tabs cs)
         in if ends_char BSL cur
            then split_scan rest (butlast cur) in_single in_double depth None
            else push_seg cur @ split_scan rest [] in_single in_double depth None)
      else if c = CHR ''&'' \<and> \<not> starts_char (CHR ''>'') cs \<and> \<not> ends_char (CHR ''>'') cur then
        push_seg cur @ split_scan cs [] in_single in_double depth heredoc
      else if c = CHR '';'' \<or> c = CHR ''|'' then
        push_seg cur @ split_scan cs [] in_single in_double depth heredoc
      else split_scan cs (cur @ [c]) in_single in_double depth heredoc)"
  by pat_completeness auto

lemma read_heredoc_le: "read_heredoc s = (p, r, f) \<Longrightarrow> length r \<le> length s"
  by (auto simp: read_heredoc_def Let_def intro: le_trans [OF length_dropWhile_le])

lemma skip_case_le:
  "length (case h of None \<Rightarrow> cs | Some (d, t) \<Rightarrow> skip_heredoc_body d t cs) \<le> length cs"
  by (auto simp: skip_heredoc_body_le split: option.splits)

termination split_scan
  by (relation "measure (\<lambda>(s, _). length s)")
     (auto simp: less_Suc_eq_le skip_case_le dest!: read_heredoc_le [OF sym])

definition split_compound :: "str \<Rightarrow> str list" where
  "split_compound cmd = split_scan cmd [] False False 0 None"

subsection \<open>Words\<close>

definition span_push :: "str option \<Rightarrow> str \<Rightarrow> str option" where
  "span_push cur t = Some (case cur of None \<Rightarrow> t | Some w \<Rightarrow> w @ t)"

definition span_emit :: "str option \<Rightarrow> str list" where
  "span_emit cur = (case cur of None \<Rightarrow> [] | Some w \<Rightarrow> [w])"

text \<open>\<open>shell_word_spans\<close>: the state is the word since its start (\<open>None\<close> between words) and the open
  quote.\<close>

function span_scan :: "str \<Rightarrow> str option \<Rightarrow> char option \<Rightarrow> str list" where
  "span_scan [] cur quote = span_emit cur"
| "span_scan (c # cs) cur (Some open_q) =
     (if c = BSL \<and> open_q = DQ then
        span_scan (drop 1 cs) (span_push cur (c # take 1 cs)) (Some open_q)
      else span_scan cs (span_push cur [c]) (if c = open_q then None else Some open_q))"
| "span_scan (c # cs) cur None =
     (if c = SQ \<or> c = DQ then span_scan cs (span_push cur [c]) (Some c)
      else if c = BSL then span_scan (drop 1 cs) (span_push cur (c # take 1 cs)) None
      else if is_ascii_ws c then span_emit cur @ span_scan cs None None
      else span_scan cs (span_push cur [c]) None)"
  by pat_completeness auto
termination
  by (relation "measure (\<lambda>(s, _). length s)") auto

definition shell_word_spans :: "str \<Rightarrow> str list" where
  "shell_word_spans s = span_scan s None None"

function decode_scan :: "str \<Rightarrow> str \<Rightarrow> bool \<Rightarrow> bool \<Rightarrow> str option" where
  "decode_scan [] out in_single in_double =
     (if in_single \<or> in_double then None else Some out)"
| "decode_scan (c # cs) out in_single in_double =
     (if c = SQ \<and> \<not> in_double then decode_scan cs out (\<not> in_single) in_double
      else if c = DQ \<and> \<not> in_single then decode_scan cs out in_single (\<not> in_double)
      else if c = BSL \<and> \<not> in_single then
        (case cs of [] \<Rightarrow> None
         | n # rest \<Rightarrow> decode_scan rest (out @ [n]) in_single in_double)
      else decode_scan cs (out @ [c]) in_single in_double)"
  by pat_completeness auto
termination
  by (relation "measure (\<lambda>(s, _). length s)") auto

definition decode_shell_word :: "str \<Rightarrow> str option" where
  "decode_shell_word raw =
     (if contains_any [CHR ''$'', BTK] raw then None else decode_scan raw [] False False)"

definition strip_quotes :: "str \<Rightarrow> str" where
  "strip_quotes s =
     (if 2 \<le> length s \<and> (hd s = DQ \<or> hd s = SQ) \<and> hd s = last s
      then butlast (tl s) else s)"

subsection \<open>Environment assignments\<close>

definition refused_env_names :: "str list" where
  "refused_env_names =
     [''TMPDIR'', ''TMPPREFIX'', ''HOME'', ''CURL_HOME'', ''HTTP_PROXY'', ''HTTPS_PROXY'',
      ''ALL_PROXY'', ''http_proxy'', ''https_proxy'', ''all_proxy'', ''GIT_SSH_COMMAND'',
      ''LD_PRELOAD'', ''LD_LIBRARY_PATH'', ''DYLD_INSERT_LIBRARIES'', ''DYLD_LIBRARY_PATH'']"

definition ident_char :: "char \<Rightarrow> bool" where
  "ident_char c = (is_ascii_alnum c \<or> c = CHR ''_'')"

definition is_env_assignment :: "str \<Rightarrow> bool" where
  "is_env_assignment word =
     (case split_once ''='' word of
        None \<Rightarrow> False
      | Some (name, v) \<Rightarrow>
          if List.member refused_env_names name \<or> contains_char (CHR ''['') name then False
          else (case name of [] \<Rightarrow> False
                | c # cs \<Rightarrow> (is_ascii_alpha c \<or> c = CHR ''_'') \<and> list_all ident_char cs
                    \<and> \<not> contains_any ([BTK, BSL] @ ''$();|&<>'') v))"

definition is_assignment_only :: "str \<Rightarrow> bool" where
  "is_assignment_only segment =
     (case split_whitespace segment of [] \<Rightarrow> False
      | w # ws \<Rightarrow> is_env_assignment w \<and> list_all is_env_assignment ws)"

function assignment_prefix_scan :: "nat \<Rightarrow> str \<Rightarrow> nat \<Rightarrow> nat" where
  "assignment_prefix_scan seg_len rest consumed =
     (let word = takeWhile (\<lambda>c. \<not> is_ws c) rest;
          after = dropWhile (\<lambda>c. \<not> is_ws c) rest;
          gap = takeWhile is_ws after
      in if \<not> is_env_assignment word then consumed
         else if after = [] then seg_len
         else assignment_prefix_scan seg_len (dropWhile is_ws after)
                (consumed + length word + length gap))"
  by pat_completeness auto

lemma is_env_assignment_nonempty: "is_env_assignment w \<Longrightarrow> w \<noteq> []"
  by (auto simp: is_env_assignment_def)

lemma dropWhile_dropWhile_shorter:
  assumes "takeWhile P s \<noteq> []"
  shows "length (dropWhile Q (dropWhile P s)) < length s"
proof -
  have "length s = length (takeWhile P s) + length (dropWhile P s)"
    by (metis length_append takeWhile_dropWhile_id)
  moreover have "length (dropWhile Q (dropWhile P s)) \<le> length (dropWhile P s)"
    by (rule length_dropWhile_le)
  moreover have "0 < length (takeWhile P s)" using assms by simp
  ultimately show ?thesis by linarith
qed

termination assignment_prefix_scan
  by (relation "measure (\<lambda>(t, s, n). length s)")
     (auto intro!: dropWhile_dropWhile_shorter dest: is_env_assignment_nonempty)

declare assignment_prefix_scan.simps [simp del]

definition assignment_prefix_len :: "str \<Rightarrow> nat" where
  "assignment_prefix_len segment = assignment_prefix_scan (length segment) segment 0"

text \<open>The loop of \<open>normalize_shell_command\<close>: \<open>rest\<close> is the command from the cursor on, \<open>keep\<close> the
  text from \<open>keep_from\<close> on; \<open>None\<close> is the early return for a segment that is no slice.\<close>

fun normalize_scan :: "str list \<Rightarrow> str \<Rightarrow> str option \<Rightarrow> str option option" where
  "normalize_scan [] rest keep = Some keep"
| "normalize_scan (seg # segs) rest keep =
     (case split_once seg rest of
        None \<Rightarrow> None
      | Some (_, after) \<Rightarrow>
          normalize_scan segs after
            (if keep \<noteq> None \<or> is_assignment_only seg then keep
             else Some (drop (assignment_prefix_len seg) (seg @ after))))"

definition normalize_shell_command :: "str \<Rightarrow> str" where
  "normalize_shell_command command =
     (case normalize_scan (split_compound command) command None of
        None \<Rightarrow> trim command
      | Some None \<Rightarrow> []
      | Some (Some k) \<Rightarrow> trim k)"

subsection \<open>Safe redirects and attestability\<close>

definition is_blank :: "char \<Rightarrow> bool" where
  "is_blank c = (c = SPC \<or> c = TAB)"

definition is_boundary :: "char option \<Rightarrow> bool" where
  "is_boundary nxt =
     (case nxt of None \<Rightarrow> True | Some c \<Rightarrow> List.member ([SPC, TAB, NL, CR] @ '');|'') c)"

definition expect_char :: "char \<Rightarrow> str \<Rightarrow> str option" where
  "expect_char c s = (case s of [] \<Rightarrow> None | x # r \<Rightarrow> if x = c then Some r else None)"

definition bounded_rest :: "str \<Rightarrow> str option" where
  "bounded_rest r = (if is_boundary (first_char r) then Some r else None)"

definition skip_blanks :: "str \<Rightarrow> str" where
  "skip_blanks s = dropWhile is_blank s"

definition skip_fd :: "str \<Rightarrow> str \<Rightarrow> str" where
  "skip_fd fds s = (case s of [] \<Rightarrow> [] | x # r \<Rightarrow> if List.member fds x then r else s)"

definition redirect_form_a :: "str \<Rightarrow> str option" where
  "redirect_form_a s =
     Option.bind (expect_char (CHR ''2'') s) (\<lambda>r.
     Option.bind (expect_char (CHR ''>'') (skip_blanks r)) (\<lambda>r.
     Option.bind (expect_char (CHR ''&'') (skip_blanks r)) (\<lambda>r.
     Option.bind (expect_char (CHR ''1'') (skip_blanks r)) bounded_rest)))"

definition redirect_form_b :: "str \<Rightarrow> str option" where
  "redirect_form_b s =
     Option.bind (expect_char (CHR ''>'') (skip_blanks (skip_fd ''012'' s))) (\<lambda>r.
     Option.bind (strip_prefix ''/dev/null'' (skip_blanks r)) bounded_rest)"

definition redirect_form_c :: "str \<Rightarrow> str option" where
  "redirect_form_c s =
     Option.bind (expect_char (CHR ''<'') (skip_blanks s)) (\<lambda>r.
     Option.bind (strip_prefix ''/dev/null'' (skip_blanks r)) bounded_rest)"

definition redirect_form_d :: "str \<Rightarrow> str option" where
  "redirect_form_d s =
     Option.bind (expect_char (CHR ''>'') (skip_blanks (skip_fd ''01'' s))) (\<lambda>r.
     Option.bind (expect_char (CHR ''&'') (skip_blanks r)) (\<lambda>r.
     Option.bind (expect_char (CHR ''2'') (skip_blanks r)) bounded_rest))"

definition match_safe_redirect :: "str \<Rightarrow> str option" where
  "match_safe_redirect s =
     (case redirect_form_a s of Some r \<Rightarrow> Some r | None \<Rightarrow>
      (case redirect_form_b s of Some r \<Rightarrow> Some r | None \<Rightarrow>
       (case redirect_form_c s of Some r \<Rightarrow> Some r | None \<Rightarrow> redirect_form_d s)))"

function strip_safe_redirects :: "str \<Rightarrow> str" where
  "strip_safe_redirects [] = []"
| "strip_safe_redirects (c # cs) =
     (case match_safe_redirect (c # cs) of
        Some r \<Rightarrow> strip_safe_redirects r
      | None \<Rightarrow> c # strip_safe_redirects cs)"
  by pat_completeness auto

lemma expect_char_Some_iff: "expect_char c s = Some r \<longleftrightarrow> s = c # r"
  by (auto simp: expect_char_def split: list.splits)

lemma bounded_rest_Some_iff: "bounded_rest s = Some r \<longleftrightarrow> s = r \<and> is_boundary (first_char r)"
  by (auto simp: bounded_rest_def)

lemma skip_blanks_length: "length (skip_blanks s) \<le> length s"
  by (simp add: skip_blanks_def)

lemma skip_fd_length: "length (skip_fd f s) \<le> length s"
  by (auto simp: skip_fd_def split: list.splits)

lemmas redirect_form_defs =
  redirect_form_a_def redirect_form_b_def redirect_form_c_def redirect_form_d_def

lemma expect_blank_shorter:
  "expect_char c (skip_blanks s) = Some r \<Longrightarrow> length r < length s"
  using skip_blanks_length [of s] by (auto simp: expect_char_Some_iff)

lemma expect_fd_shorter:
  "expect_char c (skip_blanks (skip_fd f s)) = Some r \<Longrightarrow> length r < length s"
  using expect_blank_shorter [of c "skip_fd f s" r] skip_fd_length [of f s] by simp

lemma dev_null_shorter:
  "strip_prefix ''/dev/null'' (skip_blanks s) = Some r \<Longrightarrow> length r < length s"
  using skip_blanks_length [of s] by (auto simp: strip_prefix_Some_iff)

lemma expect_char_shorter: "expect_char c s = Some r \<Longrightarrow> length r < length s"
  by (simp add: expect_char_Some_iff)

lemma redirect_form_shorter:
  "redirect_form_a s = Some r \<Longrightarrow> length r < length s"
  "redirect_form_b s = Some r \<Longrightarrow> length r < length s"
  "redirect_form_c s = Some r \<Longrightarrow> length r < length s"
  "redirect_form_d s = Some r \<Longrightarrow> length r < length s"
  unfolding redirect_form_defs bind_eq_Some_conv bounded_rest_Some_iff
  by (elim exE conjE, drule expect_char_shorter expect_fd_shorter expect_blank_shorter,
      (drule expect_blank_shorter dev_null_shorter)+, simp)+

lemma match_safe_redirect_shorter: "match_safe_redirect s = Some r \<Longrightarrow> length r < length s"
  by (auto simp: match_safe_redirect_def split: option.splits dest: redirect_form_shorter)

termination strip_safe_redirects
  by (relation "measure length") (auto dest: match_safe_redirect_shorter)

text \<open>\<open>QuoteScan::next\<close>: the character read, the rest of the text and the two quote flags.\<close>

fun quote_next :: "str \<Rightarrow> bool \<Rightarrow> bool \<Rightarrow> (char \<times> str \<times> bool \<times> bool) option" where
  "quote_next [] in_single in_double = None"
| "quote_next (c # cs) in_single in_double =
     (if in_double \<and> c = BSL then Some (c, drop 1 cs, in_single, in_double)
      else Some (c, cs, (if c = SQ \<and> \<not> in_double then \<not> in_single else in_single),
                 (if c = DQ \<and> \<not> in_single then \<not> in_double else in_double)))"

lemma quote_next_shorter: "quote_next s a b = Some (c, r, a', b') \<Longrightarrow> length r < length s"
  by (cases s) (auto split: if_splits)

function attest_scan :: "str \<Rightarrow> bool \<Rightarrow> bool \<Rightarrow> bool" where
  "attest_scan s in_single in_double =
     (case quote_next s in_single in_double of
        None \<Rightarrow> \<not> in_single \<and> \<not> in_double
      | Some (c, r, sq, dq) \<Rightarrow>
          if sq then attest_scan r sq dq
          else if c = BTK then False
          else if c = CHR ''$'' \<and> starts_char (CHR ''('') r then False
          else if dq then attest_scan r sq dq
          else if c = CHR ''<'' \<and> starts_char (CHR ''<'') r then
            (case first_char (drop 1 r) of
               None \<Rightarrow> False
             | Some a \<Rightarrow> if List.member [SQ, DQ, CHR ''-'', BSL] a
                         then attest_scan (drop 1 r) sq dq else False)
          else if c = CHR ''>'' \<or> c = CHR ''<'' then False
          else attest_scan r sq dq)"
  by pat_completeness auto
termination
  by (relation "measure (\<lambda>(s, _). length s)") (auto dest!: quote_next_shorter)

declare attest_scan.simps [simp del]

definition is_attestable :: "str \<Rightarrow> bool" where
  "is_attestable segment =
     attest_scan (strip_quoted_heredoc_bodies (strip_safe_redirects segment)) False False"

function balance_scan :: "str \<Rightarrow> bool \<Rightarrow> bool \<Rightarrow> bool" where
  "balance_scan s in_single in_double =
     (case quote_next s in_single in_double of
        None \<Rightarrow> \<not> in_single \<and> \<not> in_double
      | Some (c, r, sq, dq) \<Rightarrow> balance_scan r sq dq)"
  by pat_completeness auto
termination
  by (relation "measure (\<lambda>(s, _). length s)") (auto dest!: quote_next_shorter)

declare balance_scan.simps [simp del]

definition quotes_balanced :: "str \<Rightarrow> bool" where
  "quotes_balanced s = balance_scan s False False"

definition compound_safe :: "str list \<Rightarrow> bool" where
  "compound_safe segments = (segments \<noteq> [] \<and> list_all is_attestable segments)"

subsection \<open>Facts about the splitter\<close>

lemma push_seg_trimmed: "seg \<in> set (push_seg s) \<Longrightarrow> seg \<noteq> [] \<and> trim seg = seg"
  by (auto simp: push_seg_def Let_def split: if_splits)

declare split_scan.simps [simp del]

text \<open>One turn of the loop either goes on with the current segment or pushes it.\<close>

lemma split_scan_turn:
  obtains (go_on) r cur' sq' dq' d' h' where "length r \<le> length cs"
      "split_scan (c # cs) cur sq dq d h = split_scan r cur' sq' dq' d' h'"
    | (pushed) r sq' dq' d' h' where "length r \<le> length cs"
      "split_scan (c # cs) cur sq dq d h = push_seg cur @ split_scan r [] sq' dq' d' h'"
proof -
  obtain p r f where rh: "read_heredoc (drop 1 cs) = (p, r, f)" by (cases "read_heredoc (drop 1 cs)")
  then have len: "length r \<le> length cs" "length (drop 1 cs) \<le> length cs"
    using read_heredoc_le [OF rh] by simp_all
  define Q where "Q X \<longleftrightarrow>
      (\<exists>r cur' sq' dq' d' h'. length r \<le> length cs \<and> X = split_scan r cur' sq' dq' d' h') \<or>
      (\<exists>r sq' dq' d' h'. length r \<le> length cs \<and> X = push_seg cur @ split_scan r [] sq' dq' d' h')"
    for X
  have Q: "length r \<le> length cs \<Longrightarrow> Q (split_scan r cur' sq' dq' d' h')"
      "length r \<le> length cs \<Longrightarrow> Q (push_seg cur @ split_scan r [] sq' dq' d' h')"
      for r cur' sq' dq' d' h'
    unfolding Q_def by blast+
  have "Q (split_scan (c # cs) cur sq dq d h)"
    by (simp only: split_scan.simps rh Let_def prod.case split: if_split)
       (simp add: Q len(1) len(2) [simplified] skip_case_le)
  then show thesis using that unfolding Q_def by blast
qed

lemma split_scan_trimmed:
  "seg \<in> set (split_scan s cur sq dq d h) \<Longrightarrow> seg \<noteq> [] \<and> trim seg = seg"
proof (induction s arbitrary: cur sq dq d h seg rule: length_induct)
  case (1 s)
  show ?case
  proof (cases s)
    case Nil
    with 1 show ?thesis by (auto simp: split_scan.simps dest: push_seg_trimmed)
  next
    case (Cons c cs)
    have IH: "seg' \<noteq> [] \<and> trim seg' = seg'"
      if "seg' \<in> set (split_scan r cur' sq' dq' d' h')" "length r \<le> length cs"
      for r cur' sq' dq' d' h' seg'
      using that "1.IH" Cons by (auto simp: less_Suc_eq_le)
    show ?thesis
      by (rule split_scan_turn [of cs c cur sq dq d h])
         (use "1.prems" Cons in \<open>auto dest: IH push_seg_trimmed\<close>)
  qed
qed

text \<open>Every segment the splitter returns is a non-empty text with no surrounding white space.\<close>

lemma split_compound_trimmed:
  "seg \<in> set (split_compound cmd) \<Longrightarrow> seg \<noteq> [] \<and> trim seg = seg"
  by (auto simp: split_compound_def dest: split_scan_trimmed)

text \<open>The characters of plain text: nothing that opens a quote, a group or a heredoc.\<close>

definition no_quoting :: "char \<Rightarrow> bool" where
  "no_quoting c = (c \<noteq> SQ \<and> c \<noteq> DQ \<and> c \<noteq> CHR ''('' \<and> c \<noteq> CHR ''<'')"

definition no_separator :: "char \<Rightarrow> bool" where
  "no_separator c = (c \<noteq> CHR '';'' \<and> c \<noteq> CHR ''|'' \<and> c \<noteq> NL)"

lemma push_seg_all: "list_all P s \<Longrightarrow> seg \<in> set (push_seg s) \<Longrightarrow> list_all P seg"
  using set_trim [of s] by (auto simp: push_seg_def Let_def list_all_iff split: if_splits)

lemma list_all_butlast: "list_all P s \<Longrightarrow> list_all P (butlast s)"
  by (auto simp: list_all_iff dest: in_set_butlastD)

lemma split_scan_plain:
  assumes "no_quoting c"
  shows "split_scan (c # cs) cur False False 0 None =
     (if (c = CHR ''&'' \<or> c = CHR ''|'') \<and> starts_char c cs
      then push_seg cur @ split_scan (drop 1 cs) [] False False 0 None
      else if c = NL \<and> ends_char BSL cur then split_scan cs (butlast cur) False False 0 None
      else if c = NL \<or> c = CHR '';'' \<or> c = CHR ''|''
        \<or> c = CHR ''&'' \<and> \<not> starts_char (CHR ''>'') cs \<and> \<not> ends_char (CHR ''>'') cur
      then push_seg cur @ split_scan cs [] False False 0 None
      else split_scan cs (cur @ [c]) False False 0 None)"
  using assms by (simp add: split_scan.simps no_quoting_def)

lemma split_scan_no_separator:
  assumes "list_all no_quoting s" "list_all no_separator cur"
  shows "seg \<in> set (split_scan s cur False False 0 None) \<Longrightarrow> list_all no_separator seg"
  using assms
proof (induction s arbitrary: cur seg rule: length_induct)
  case (1 s)
  show ?case
  proof (cases s)
    case Nil
    with 1 show ?thesis by (auto simp: split_scan.simps dest: push_seg_all)
  next
    case (Cons c cs)
    have c: "no_quoting c" and tail: "list_all no_quoting cs" "list_all no_quoting (drop 1 cs)"
      using 1 Cons by (auto simp: list_all_iff dest: in_set_dropD)
    define ok where "ok X \<longleftrightarrow> (\<forall>seg\<in>set X. list_all no_separator seg)" for X
    have ok: "ok (X @ Y) \<longleftrightarrow> ok X \<and> ok Y" "ok (push_seg cur)" for X Y
      using push_seg_all [OF "1.prems"(3)] by (auto simp: ok_def)
    have IH: "ok (split_scan r cur' False False 0 None)"
      if "list_all no_quoting r" "length r \<le> length cs" "list_all no_separator cur'" for r cur'
      using "1.IH" that by (auto simp: Cons less_Suc_eq_le ok_def)
    have "ok (split_scan (c # cs) cur False False 0 None)"
      unfolding split_scan_plain [OF c]
      using "1.prems"(3) tail
      by (simp add: ok IH list_all_butlast no_separator_def [of c] split: if_split)
    with "1.prems"(1) Cons show ?thesis by (auto simp: ok_def)
  qed
qed

text \<open>In a command with no quote, no parenthesis and no redirect operator, no separator is hidden
  inside a segment: none contains a semicolon, a pipe or a newline.\<close>

lemma split_compound_no_separator:
  assumes "list_all no_quoting cmd" and "seg \<in> set (split_compound cmd)"
  shows "CHR '';'' \<notin> set seg \<and> CHR ''|'' \<notin> set seg \<and> NL \<notin> set seg"
  using split_scan_no_separator [OF assms(1), of "[]" seg] assms(2)
  by (auto simp: split_compound_def no_separator_def list_all_iff)

text \<open>The separators of plain text, and the reference definition of splitting it.\<close>

definition is_separator :: "char \<Rightarrow> bool" where
  "is_separator c = (c = CHR '';'' \<or> c = CHR ''|'' \<or> c = CHR ''&'' \<or> c = NL)"

definition plain_char :: "char \<Rightarrow> bool" where
  "plain_char c = (no_quoting c \<and> c \<noteq> CHR ''>'' \<and> c \<noteq> BSL)"

definition split_plain :: "str \<Rightarrow> str list" where
  "split_plain cmd = concat (map push_seg (split_by is_separator cmd))"

lemma split_plain_sep:
  "list_all (\<lambda>c. \<not> is_separator c) cur \<Longrightarrow> is_separator c \<Longrightarrow>
   split_plain (cur @ c # s) = push_seg cur @ split_plain s"
  by (simp add: split_plain_def split_by_append_sep)

lemma push_seg_Nil [simp]: "push_seg [] = []"
  by (simp add: push_seg_def trim_def trim_start_def trim_end_def)

lemma ends_char_plain: "list_all plain_char cur \<Longrightarrow> \<not> plain_char c \<Longrightarrow> \<not> ends_char c cur"
  by (auto simp: ends_char_def list_all_iff dest: last_in_set)

lemma starts_char_plain: "list_all plain_char cur \<Longrightarrow> \<not> plain_char c \<Longrightarrow> \<not> starts_char c cur"
  by (auto simp: starts_char_def list_all_iff split: list.splits)

lemma split_scan_eq_plain:
  assumes "list_all plain_char s" "list_all plain_char cur" "list_all (\<lambda>c. \<not> is_separator c) cur"
  shows "split_scan s cur False False 0 None = split_plain (cur @ s)"
  using assms
proof (induction s arbitrary: cur rule: length_induct)
  case (1 s)
  show ?case
  proof (cases s)
    case Nil
    with 1 show ?thesis by (simp add: split_scan.simps split_plain_def split_by_no_sep)
  next
    case (Cons c cs)
    with "1.prems" have c: "no_quoting c" "plain_char c" and cs: "list_all plain_char cs"
      by (auto simp: plain_char_def [of c])
    have not: "\<not> starts_char (CHR ''>'') cs" "\<not> ends_char (CHR ''>'') cur" "\<not> ends_char BSL cur"
      using starts_char_plain [OF cs] ends_char_plain [OF "1.prems"(2)]
      by (simp_all add: plain_char_def)
    have IH: "split_scan r cur' False False 0 None = split_plain (cur' @ r)"
      if "length r \<le> length cs" "list_all plain_char r" "list_all plain_char cur'"
        "list_all (\<lambda>c. \<not> is_separator c) cur'" for r cur'
      using "1.IH" that by (auto simp: Cons less_Suc_eq_le)
    note sep = split_plain_sep [OF "1.prems"(3)]
    show ?thesis
    proof (cases "(c = CHR ''&'' \<or> c = CHR ''|'') \<and> starts_char c cs")
      case True
      then obtain ds where ds: "cs = c # ds" by (auto simp: starts_char_def split: list.splits)
      with True cs have "split_scan ds [] False False 0 None = split_plain ds" "is_separator c"
        using IH [of ds "[]"] by (auto simp: is_separator_def)
      with True ds sep [of c cs] split_plain_sep [of "[]" c ds] show ?thesis
        by (simp add: Cons split_scan_plain [OF c(1)])
    next
      case False
      have "split_scan cs [] False False 0 None = split_plain cs" using IH [of cs "[]"] cs by simp
      moreover have "\<not> is_separator c \<Longrightarrow>
          split_scan cs (cur @ [c]) False False 0 None = split_plain (cur @ s)"
        using IH [of cs "cur @ [c]"] cs c(2) "1.prems" by (simp add: Cons)
      ultimately show ?thesis
        unfolding Cons split_scan_plain [OF c(1)] if_not_P [OF False]
        using not sep [of c cs] by (auto simp: is_separator_def Cons)
    qed
  qed
qed

text \<open>On plain text (no quote, parenthesis, redirect or backslash) the splitter is the textbook
  one: cut at every semicolon, pipe, ampersand and newline, trim the parts and drop the empty ones;
  the doubled operators are not a case of their own.\<close>

lemma split_compound_eq_plain:
  "list_all plain_char cmd \<Longrightarrow> split_compound cmd = split_plain cmd"
  by (simp add: split_compound_def split_scan_eq_plain)


end
