(* ===== verification/Tool_Api.thy ===== *)
theory Tool_Api
  imports Prelude
begin

text \<open>
  The ports of the api crate the permission gate is written against: the JSON values a call carries
  and the required-argument check (\<open>tool.rs\<close>), the side-effect levels and the fence queries
  (\<open>sandbox.rs\<close>), the credential paths (\<open>sandbox/credentials.rs\<close>) and the path normalisation with
  the directory capabilities a call needs outside the fence (\<open>sandbox/boundary.rs\<close>).

  The file system is not part of the program. A \<open>host\<close> record holds the four queries the code makes
  (\<open>canonicalize\<close>, \<open>exists\<close>, \<open>is_file\<close>, \<open>is_dir\<close>), and every definition that makes one takes the
  record as an argument. A fence is a trait object; the record \<open>containment\<close> holds its answers.
\<close>

subsection \<open>JSON values\<close>

datatype json =
    JNull
  | JBool bool
  | JInt int
  | JFloat str \<comment> \<open>a number that is no integer, by its text\<close>
  | JString str
  | JArray "json list"
  | JObject "(str \<times> json) list"

fun json_get :: "json \<Rightarrow> str \<Rightarrow> json option" where
  "json_get (JObject kvs) k = map_of kvs k"
| "json_get _ k = None"

fun json_str :: "json \<Rightarrow> str option" where
  "json_str (JString s) = Some s"
| "json_str _ = None"

fun json_bool :: "json \<Rightarrow> bool option" where
  "json_bool (JBool b) = Some b"
| "json_bool _ = None"

fun json_array :: "json \<Rightarrow> json list option" where
  "json_array (JArray vs) = Some vs"
| "json_array _ = None"

fun json_is_object :: "json \<Rightarrow> bool" where
  "json_is_object (JObject _) = True"
| "json_is_object _ = False"

fun as_i64 :: "json \<Rightarrow> int option" where
  "as_i64 (JInt i) = (if - (2 ^ 63) \<le> i \<and> i < 2 ^ 63 then Some i else None)"
| "as_i64 _ = None"

text \<open>\<open>Value::as_u64\<close>.\<close>

definition as_u64 :: "json \<Rightarrow> nat option" where
  "as_u64 v = (case v of JInt i \<Rightarrow> if 0 \<le> i \<and> i < 2 ^ 64 then Some (nat i) else None | _ \<Rightarrow> None)"

definition get_str :: "json \<Rightarrow> str \<Rightarrow> str option" where
  "get_str v k = Option.bind (json_get v k) json_str"

subsection \<open>Tools (tool.rs)\<close>

definition is_shell_tool :: "str \<Rightarrow> bool" where
  "is_shell_tool tool_name =
     List.member [''bash'', ''sh'', ''exec'', ''shell''] (to_ascii_lowercase tool_name)"

definition writes_files :: "str \<Rightarrow> bool" where
  "writes_files tool_name =
     List.member [''write'', ''edit'', ''multiedit'', ''patch'', ''str_replace'']
       (to_ascii_lowercase tool_name)"

definition declared_type :: "json \<Rightarrow> str \<Rightarrow> str option" where
  "declared_type schema name =
     Option.bind (json_get schema ''properties'') (\<lambda>ps.
     Option.bind (json_get ps name) (\<lambda>p. get_str p ''type''))"

definition is_usable :: "json option \<Rightarrow> str option \<Rightarrow> bool \<Rightarrow> bool" where
  "is_usable v declared empty_usable =
     (case v of None \<Rightarrow> False
      | Some x \<Rightarrow>
        if declared = Some ''string'' then
          (case x of JString t \<Rightarrow> empty_usable \<or> t \<noteq> [] | _ \<Rightarrow> False)
        else if declared = Some ''integer'' then (case x of JInt _ \<Rightarrow> True | _ \<Rightarrow> False)
        else if declared = Some ''number'' then
          (case x of JInt _ \<Rightarrow> True | JFloat _ \<Rightarrow> True | _ \<Rightarrow> False)
        else if declared = Some ''boolean'' then (case x of JBool _ \<Rightarrow> True | _ \<Rightarrow> False)
        else if declared = Some ''object'' then json_is_object x
        else if declared = Some ''array'' then json_array x \<noteq> None
        else x \<noteq> JNull)"

definition describe_argument :: "json \<Rightarrow> str \<Rightarrow> str" where
  "describe_argument schema name =
     (case declared_type schema name of
        Some kind \<Rightarrow> name @ '' ('' @ kind @ '')''
      | None \<Rightarrow> name)"

text \<open>\<open>Tool::invalid_required_arguments\<close>; the schema and the arguments that may be empty are what the
  tool's \<open>input_schema\<close> and \<open>empty_usable_arguments\<close> return.\<close>

definition invalid_required_arguments :: "json \<Rightarrow> str list \<Rightarrow> json \<Rightarrow> str list" where
  "invalid_required_arguments schema empty_usable input =
     (case Option.bind (json_get schema ''required'') json_array of
        None \<Rightarrow> []
      | Some vs \<Rightarrow>
        (let required = List.map_filter json_str vs in
         if \<not> json_is_object input then map (describe_argument schema) required
         else map (describe_argument schema)
                (filter (\<lambda>name. \<not> is_usable (json_get input name) (declared_type schema name)
                                   (List.member empty_usable name)) required)))"

subsection \<open>The fence port (sandbox.rs)\<close>

datatype side_effect = SE_None | SE_Filesystem | SE_Network | SE_Exec

fun se_label :: "side_effect \<Rightarrow> str" where
  "se_label SE_None = ''none''"
| "se_label SE_Filesystem = ''filesystem''"
| "se_label SE_Network = ''network''"
| "se_label SE_Exec = ''exec''"

record fpath =
  fp_abs :: bool
  fp_comps :: "str list"

datatype coverage = Fenced "fpath list" | Unfenced

datatype fence_axis = Axis_Writes | Axis_Reads | Axis_Network

record fence_capability =
  fc_writes :: bool
  fc_reads :: bool
  fc_network :: bool

definition fc_none :: fence_capability where
  "fc_none = \<lparr>fc_writes = False, fc_reads = False, fc_network = False\<rparr>"

definition fc_filesystem :: fence_capability where
  "fc_filesystem = \<lparr>fc_writes = True, fc_reads = True, fc_network = False\<rparr>"

fun confines :: "fence_capability \<Rightarrow> fence_axis \<Rightarrow> bool" where
  "confines c Axis_Writes = fc_writes c"
| "confines c Axis_Reads = fc_reads c"
| "confines c Axis_Network = fc_network c"

text \<open>The answers of a \<open>Containment\<close> trait object; the methods with a default body are optional
  overrides, and \<open>containment_\<close>-functions apply the default.\<close>

record containment =
  c_coverage :: coverage
  c_capability_override :: "fence_capability option"
  c_would_block :: "side_effect \<Rightarrow> str option"
  c_boundary_root :: "fpath option"
  c_boundary_dirs :: "fpath list"
  c_write_dirs_override :: "fpath list option"
  c_denies_control_writes :: bool

definition containment_capability :: "containment \<Rightarrow> fence_capability" where
  "containment_capability c =
     (case c_capability_override c of
        Some k \<Rightarrow> k
      | None \<Rightarrow> (case c_coverage c of Fenced _ \<Rightarrow> fc_filesystem | Unfenced \<Rightarrow> fc_none))"

definition boundary_write_dirs :: "containment \<Rightarrow> fpath list" where
  "boundary_write_dirs c =
     (case c_write_dirs_override c of Some ds \<Rightarrow> ds | None \<Rightarrow> c_boundary_dirs c)"

subsection \<open>Credential paths (sandbox/credentials.rs)\<close>

definition CREDENTIAL_FILES :: "str list" where
  "CREDENTIAL_FILES =
     [''.bashrc'', ''.bash_profile'', ''.zshrc'', ''.zprofile'', ''.profile'', ''.credentials.json'',
      ''.mcp.json'', ''.netrc'', ''.npmrc'', ''.pypirc'']"

definition CREDENTIAL_DIRS :: "str list" where
  "CREDENTIAL_DIRS =
     [''.ssh'', ''.claude/commands'', ''.claude/agents'', ''.aws'', ''.gnupg'', ''.kube'', ''.docker'']"

definition ends_word :: "char \<Rightarrow> bool" where
  "ends_word c = List.member ([SQ, DQ, BTK] @ '';&|)<>'') c"

definition cred_name_char :: "char \<Rightarrow> bool" where
  "cred_name_char c = (is_ascii_alnum c \<or> c = CHR ''_'' \<or> c = CHR ''-'')"

definition opens_component :: "char option \<Rightarrow> bool" where
  "opens_component before = (case before of None \<Rightarrow> True | Some c \<Rightarrow> \<not> cred_name_char c)"

definition closes_component :: "bool \<Rightarrow> char option \<Rightarrow> bool" where
  "closes_component directory after =
     (case after of None \<Rightarrow> True
      | Some c \<Rightarrow> if directory then c = CHR ''/'' \<or> is_ws c \<or> ends_word c
                  else \<not> cred_name_char c)"

definition names_component :: "str \<Rightarrow> str \<Rightarrow> bool \<Rightarrow> bool" where
  "names_component lower name directory =
     list_ex (\<lambda>(before, after). opens_component (last_char before)
                \<and> closes_component directory (first_char after))
       (occurrences name lower)"

definition slashed :: "str \<Rightarrow> str" where
  "slashed s = map (\<lambda>c. if c = BSL then CHR ''/'' else c) s"

definition names_credential_path :: "str \<Rightarrow> bool" where
  "names_credential_path content =
     (let lower = to_ascii_lowercase (slashed content) in
      list_ex (\<lambda>name. names_component lower name False) CREDENTIAL_FILES \<or>
      list_ex (\<lambda>name. names_component lower name True) CREDENTIAL_DIRS)"

subsection \<open>Paths\<close>

text \<open>A \<open>std::path::Path\<close> by its components, as \<open>Path::components\<close> normalises them: empty components
  and every \<open>.\<close> but a leading one of a relative path are dropped, \<open>..\<close> is kept.\<close>

definition parse_path :: "str \<Rightarrow> fpath" where
  "parse_path s =
     (let parts = filter (\<lambda>w. w \<noteq> []) (split_by (\<lambda>c. c = CHR ''/'') s);
          absolute = starts_char (CHR ''/'') s
      in \<lparr>fp_abs = absolute,
          fp_comps = (if \<not> absolute \<and> parts \<noteq> [] \<and> hd parts = ''.'' then [''.''] else []) @
                     filter (\<lambda>w. w \<noteq> ''.'') parts\<rparr>)"

definition path_is_empty :: "fpath \<Rightarrow> bool" where
  "path_is_empty p = (\<not> fp_abs p \<and> fp_comps p = [])"

definition path_starts_with :: "fpath \<Rightarrow> fpath \<Rightarrow> bool" where
  "path_starts_with p base =
     (fp_abs p = fp_abs base \<and> take (length (fp_comps base)) (fp_comps p) = fp_comps base)"

definition path_join :: "fpath \<Rightarrow> fpath \<Rightarrow> fpath" where
  "path_join base p =
     (if fp_abs p then p
      else if path_is_empty base then p
      else base\<lparr>fp_comps := fp_comps base @ filter (\<lambda>w. w \<noteq> ''.'') (fp_comps p)\<rparr>)"

definition path_parent :: "fpath \<Rightarrow> fpath option" where
  "path_parent p = (if fp_comps p = [] then None else Some (p\<lparr>fp_comps := butlast (fp_comps p)\<rparr>))"

definition path_file_name :: "fpath \<Rightarrow> str option" where
  "path_file_name p =
     (if fp_comps p = [] \<or> last (fp_comps p) = ''..'' \<or> last (fp_comps p) = ''.''
      then None else Some (last (fp_comps p)))"

text \<open>The file-system queries of the host.\<close>

record host =
  h_canonicalize :: "fpath \<Rightarrow> fpath option"
  h_exists :: "fpath \<Rightarrow> bool"
  h_is_file :: "fpath \<Rightarrow> bool"
  h_is_dir :: "fpath \<Rightarrow> bool"

subsection \<open>Bounds and directory capabilities (sandbox/boundary.rs)\<close>

definition is_within_bounds :: "fpath \<Rightarrow> fpath \<Rightarrow> fpath list \<Rightarrow> bool" where
  "is_within_bounds candidate root additional =
     (path_starts_with candidate root \<or> list_ex (path_starts_with candidate) additional)"

function normalize_climb :: "host \<Rightarrow> fpath \<Rightarrow> str list \<Rightarrow> fpath option" where
  "normalize_climb h existing tail =
     (if h_exists h existing
      then map_option (\<lambda>c. c\<lparr>fp_comps := fp_comps c @ tail\<rparr>) (h_canonicalize h existing)
      else (case path_file_name existing of None \<Rightarrow> None
            | Some name \<Rightarrow>
              (case path_parent existing of None \<Rightarrow> None
               | Some p \<Rightarrow> normalize_climb h p (name # tail))))"
  by pat_completeness auto
termination
  by (relation "measure (\<lambda>(h, p, t). length (fp_comps p))")
     (auto simp: path_parent_def split: if_splits)

declare normalize_climb.simps [simp del]

definition normalize_tool_path :: "host \<Rightarrow> fpath \<Rightarrow> fpath option" where
  "normalize_tool_path h base =
     (case h_canonicalize h base of
        Some c \<Rightarrow> Some c
      | None \<Rightarrow> normalize_climb h base [])"

definition is_session_temp_name :: "str \<Rightarrow> bool" where
  "is_session_temp_name name =
     (case strip_prefix ''hy-tmp-'' name of None \<Rightarrow> False
      | Some rest \<Rightarrow>
        (case split_once ''-'' rest of None \<Rightarrow> False
         | Some (pid, seq) \<Rightarrow> pid \<noteq> [] \<and> list_all is_ascii_digit pid
             \<and> seq \<noteq> [] \<and> list_all is_ascii_hexdigit seq))"

text \<open>The loop over the growing prefix: \<open>pre\<close> is the prefix without the component at hand.\<close>

fun remap_scan :: "host \<Rightarrow> fpath \<Rightarrow> str list \<Rightarrow> bool \<Rightarrow> str list \<Rightarrow> fpath option" where
  "remap_scan h current pre absolute [] = None"
| "remap_scan h current pre absolute (c # cs) =
     (let here = \<lparr>fp_abs = absolute, fp_comps = pre @ [c]\<rparr> in
      if (case path_file_name here of None \<Rightarrow> False | Some name \<Rightarrow> is_session_temp_name name)
         \<and> \<not> h_is_dir h here \<and> path_parent here = path_parent current
      then Some (current\<lparr>fp_comps := fp_comps current @ cs\<rparr>)
      else remap_scan h current (pre @ [c]) absolute cs)"

definition remap_stale_session_tmpdir :: "host \<Rightarrow> fpath \<Rightarrow> fpath \<Rightarrow> fpath option" where
  "remap_stale_session_tmpdir h p current =
     (if path_is_empty current \<or> path_starts_with p current then None
      else remap_scan h current [] (fp_abs p) (fp_comps p))"

datatype boundary_access = ReadOnly | ReadWrite

record boundary_grant =
  bg_directory :: fpath
  bg_access :: boundary_access

definition boundary_path_uses_parent :: "str \<Rightarrow> bool" where
  "boundary_path_uses_parent tool_name = writes_files tool_name"

definition glob_directory :: "str \<Rightarrow> str" where
  "glob_directory pattern =
     (let pre = takeWhile (\<lambda>c. \<not> List.member ''*?['' c) pattern;
          dir = (case rsplit_once ''/'' pre of Some (d, _) \<Rightarrow> d | None \<Rightarrow> pre)
      in trim_end_matches (\<lambda>c. c = CHR ''/'') dir)"

definition path_args_for_boundary :: "str \<Rightarrow> json option \<Rightarrow> str list" where
  "path_args_for_boundary tool_name input =
     (case input of None \<Rightarrow> []
      | Some v \<Rightarrow>
        (let tool = to_ascii_lowercase tool_name;
             path_arg = (case get_str v ''path'' of Some p \<Rightarrow> [p] | None \<Rightarrow> [])
         in if boundary_path_uses_parent tool \<or> tool = ''grep'' \<or> tool = ''read'' then path_arg
            else if tool = ''glob'' then
              path_arg @
              (case get_str v ''pattern'' of None \<Rightarrow> []
               | Some pattern \<Rightarrow>
                 (let d = glob_directory pattern in if d = [] then [] else [d]))
            else []))"

text \<open>The directory one path argument needs: \<open>None\<close> when it is in bounds or names a temporary directory
  that is re-rooted.\<close>

definition grant_for :: "host \<Rightarrow> str \<Rightarrow> boundary_access \<Rightarrow> fpath \<Rightarrow> fpath list \<Rightarrow> str \<Rightarrow> boundary_grant option" where
  "grant_for h tool_name access root additional supplied =
     (let candidate = path_join root (parse_path supplied) in
      if list_ex (\<lambda>dir. remap_stale_session_tmpdir h candidate dir \<noteq> None) additional then None
      else (let resolved = normalize_tool_path h candidate in
        if (case resolved of None \<Rightarrow> False | Some p \<Rightarrow> is_within_bounds p root additional) then None
        else (let target = (case resolved of Some p \<Rightarrow> p | None \<Rightarrow> candidate);
                  up = (case path_parent target of Some p \<Rightarrow> p | None \<Rightarrow> target);
                  directory = (if access = ReadWrite then up
                               else if eq_ignore_ascii_case tool_name ''read'' \<or> h_is_file h target
                               then up else target)
              in Some \<lparr>bg_directory = directory, bg_access = access\<rparr>)))"

fun push_grant :: "boundary_grant list \<Rightarrow> boundary_grant option \<Rightarrow> boundary_grant list" where
  "push_grant gs None = gs"
| "push_grant gs (Some g) = (if List.member gs g then gs else gs @ [g])"

definition boundary_grants_for ::
  "host \<Rightarrow> str \<Rightarrow> json option \<Rightarrow> fpath \<Rightarrow> fpath list \<Rightarrow> fpath list \<Rightarrow> boundary_grant list" where
  "boundary_grants_for h tool_name input root read_dirs write_dirs =
     (let access = (if boundary_path_uses_parent tool_name then ReadWrite else ReadOnly);
          additional = (case access of ReadOnly \<Rightarrow> read_dirs | ReadWrite \<Rightarrow> write_dirs)
      in foldl (\<lambda>gs supplied. push_grant gs (grant_for h tool_name access root additional supplied))
           [] (path_args_for_boundary tool_name input))"

end
