(* ===== verification/Git_Safety.thy ===== *)
theory Git_Safety
  imports Shell_Lexer Tool_Api
begin

text \<open>
  The git classifier (\<open>git_safety.rs\<close>) with the interpreter unwrapping it shares with the detectors
  (\<open>interpreter_inline_code\<close> and \<open>expand_inline_interpreter\<close> of \<open>pipeline/detection.rs\<close>): which git
  subcommands of a shell command move history or discard work.
\<close>

subsection \<open>Interpreter inline code (pipeline/detection.rs)\<close>

text \<open>The text up to the closing quote; inside double quotes a backslash hides the next character.\<close>

fun quoted_body :: "char \<Rightarrow> str \<Rightarrow> str option" where
  "quoted_body q [] = None"
| "quoted_body q (c # cs) =
     (if q = DQ \<and> c = BSL then
        (case cs of [] \<Rightarrow> None | e # rest \<Rightarrow> map_option (\<lambda>b. c # e # b) (quoted_body q rest))
      else if c = q then Some []
      else map_option ((#) c) (quoted_body q cs))"

definition inline_flag :: "str \<Rightarrow> str option" where
  "inline_flag cmd =
     (if List.member [''bash'', ''sh'', ''dash'', ''zsh'', ''ksh'', ''fish'', ''python'', ''python2'',
                      ''python3''] cmd then Some ''-c''
      else if List.member [''node'', ''perl'', ''ruby''] cmd then Some ''-e''
      else None)"

definition interpreter_word :: "str \<Rightarrow> str option" where
  "interpreter_word content =
     (case split_whitespace content of [] \<Rightarrow> None
      | first # rest \<Rightarrow>
          if to_ascii_lowercase first = ''env''
          then (case rest of [] \<Rightarrow> None | second # _ \<Rightarrow> Some (to_ascii_lowercase second))
          else Some (to_ascii_lowercase first))"

definition interpreter_inline_code :: "str \<Rightarrow> str option" where
  "interpreter_inline_code content =
     Option.bind (interpreter_word content) (\<lambda>cmd.
     Option.bind (inline_flag cmd) (\<lambda>flag.
     Option.bind (split_once flag content) (\<lambda>(_, rest).
       (case trim_start rest of [] \<Rightarrow> None
        | c # body \<Rightarrow>
            if c = DQ \<or> c = SQ then quoted_body c body
            else Some (takeWhile (\<lambda>x. \<not> is_ws x) (c # body))))))"

definition expand_inline_interpreter :: "str \<Rightarrow> str" where
  "expand_inline_interpreter content =
     content @ concat (map (\<lambda>segment.
       case interpreter_inline_code (trim segment) of
         Some inline \<Rightarrow> ''; '' @ inline
       | None \<Rightarrow> []) (split_compound content))"

subsection \<open>Tokens\<close>

definition trim_shell_punct :: "str \<Rightarrow> str" where
  "trim_shell_punct s =
     trim_end_matches (\<lambda>c. c = CHR '')'' \<or> c = CHR ''}'')
       (trim_start_matches (\<lambda>c. c = CHR ''('' \<or> c = CHR ''{'') s)"

definition is_shell_control_keyword :: "str \<Rightarrow> bool" where
  "is_shell_control_keyword word =
     List.member [''if'', ''then'', ''elif'', ''else'', ''fi'', ''for'', ''while'', ''until'', ''do'',
                  ''done'', ''time'', ''!''] word"

fun decode_token_scan :: "str \<Rightarrow> bool \<Rightarrow> bool \<Rightarrow> str" where
  "decode_token_scan [] in_single in_double = []"
| "decode_token_scan [c] in_single in_double =
     (if c = SQ \<and> \<not> in_double \<or> c = DQ \<and> \<not> in_single then [] else [c])"
| "decode_token_scan (c # d # cs) in_single in_double =
     (if c = SQ \<and> \<not> in_double then decode_token_scan (d # cs) (\<not> in_single) in_double
      else if c = DQ \<and> \<not> in_single then decode_token_scan (d # cs) in_single (\<not> in_double)
      else if c = BSL \<and> \<not> in_single then d # decode_token_scan cs in_single in_double
      else c # decode_token_scan (d # cs) in_single in_double)"

definition decode_token :: "str \<Rightarrow> str" where
  "decode_token raw = decode_token_scan (trim_shell_punct raw) False False"

definition is_git_global_value_flag :: "str \<Rightarrow> bool" where
  "is_git_global_value_flag flag =
     List.member [''-C'', ''-c'', ''--git-dir'', ''--work-tree'', ''--namespace'', ''--exec-path''] flag"

text \<open>The two loops of \<open>git_sub_and_args\<close>: up to the word \<open>git\<close>, then past git's own options.\<close>

fun after_git :: "str list \<Rightarrow> str list option" where
  "after_git [] = Some []"
| "after_git (tok # toks) =
     (let t = trim_shell_punct tok in
      if t = [] \<or> is_shell_control_keyword t then after_git toks
      else if t = ''git'' then Some toks
      else if \<not> starts_char (CHR ''-'') t \<and> contains_char (CHR ''='') t then after_git toks
      else None)"

fun skip_globals :: "str list \<Rightarrow> str list" where
  "skip_globals [] = []"
| "skip_globals (tok # toks) =
     (let t = trim_shell_punct tok in
      if (case split_once ''='' t of Some (flag, _) \<Rightarrow> is_git_global_value_flag flag | None \<Rightarrow> False)
      then skip_globals toks
      else if is_git_global_value_flag t
      then (case toks of [] \<Rightarrow> [] | _ # rest \<Rightarrow> skip_globals rest)
      else tok # toks)"

definition git_sub_and_args :: "str list \<Rightarrow> (str \<times> str list) option" where
  "git_sub_and_args tokens =
     Option.bind (after_git tokens) (\<lambda>toks.
       case skip_globals toks of [] \<Rightarrow> None
       | sub # args \<Rightarrow> Some (strip_quotes (trim_shell_punct sub),
                             map (\<lambda>t. strip_quotes (trim_shell_punct t)) args))"

subsection \<open>Discard forms and checkpoints\<close>

definition non_flag_count :: "str list \<Rightarrow> nat" where
  "non_flag_count args =
     length (filter (\<lambda>a. \<not> starts_char (CHR ''-'') a \<and> a \<noteq> ''--'') args)"

definition git_discard_consent_word :: "str \<Rightarrow> str list \<Rightarrow> str option" where
  "git_discard_consent_word sub0 args =
     (let sub = to_ascii_lowercase sub0; has = List.member args in
      if sub = ''checkout'' \<or> sub = ''switch'' then
        (if has ''--'' \<or> has ''.'' \<or> has ''-f'' \<or> has ''--force'' \<or> 1 < non_flag_count args
         then Some ''checkout'' else None)
      else if sub = ''restore'' then
        (let staged = has ''--staged'' \<or> has ''-s''; worktree = has ''--worktree'' \<or> has ''-w''
         in if \<not> staged \<or> worktree then Some ''restore'' else None)
      else if sub = ''clean'' then
        (if list_ex (\<lambda>a. a = ''--force'' \<or> starts_char (CHR ''-'') a \<and> \<not> starts_with ''--'' a
                          \<and> contains_char (CHR ''f'') a) args
         then Some ''clean'' else None)
      else if sub = ''stash'' then
        (let sub2 = (case find (\<lambda>a. \<not> starts_char (CHR ''-'') a) args of Some a \<Rightarrow> a | None \<Rightarrow> [])
         in if List.member [''list'', ''show'', ''apply'', ''branch''] sub2 then None
            else Some ''stash'')
      else if sub = ''branch'' then
        (let forced = has ''-D'' \<or> has ''-f'' \<or> has ''--force'';
             deleting = has ''-d'' \<or> has ''--delete'' \<or> forced
         in if \<not> deleting \<or> \<not> forced then None else Some ''branch'')
      else if sub = ''push'' then
        (if list_ex (\<lambda>a. starts_with ''--force'' a \<or> a = ''-f'') args then Some ''push'' else None)
      else None)"

definition git_ask_word :: "str \<Rightarrow> str list \<Rightarrow> str option" where
  "git_ask_word sub args =
     (let s = to_ascii_lowercase sub in
      if s = ''commit'' then Some ''commit''
      else if s = ''rebase'' then Some ''rebase''
      else if s = ''reset'' then
        (if list_ex (List.member [''--hard'', ''--merge'', ''--keep'']) (takeWhile (\<lambda>a. a \<noteq> ''--'') args)
         then Some ''reset --hard'' else Some ''reset'')
      else if s = ''tag'' then Some ''tag''
      else git_discard_consent_word s args)"

definition segment_breaks :: str where
  "segment_breaks = ''&;|'' @ [NL] @ ''()'' @ [BTK]"

definition git_segment_op :: "str \<Rightarrow> str option" where
  "git_segment_op segment =
     Option.bind (git_sub_and_args (map decode_token (split_whitespace segment)))
       (\<lambda>(sub, args). git_ask_word sub args)"

definition collect_git_ask_ops :: "str \<Rightarrow> str \<Rightarrow> str list" where
  "collect_git_ask_ops tool_name content =
     (if \<not> is_shell_tool tool_name \<or> content = [] then []
      else List.map_filter git_segment_op
             (split_any segment_breaks
               (strip_safe_redirects
                 (expand_inline_interpreter (strip_quoted_heredoc_bodies content)))))"

definition should_ask_before_git :: "str \<Rightarrow> str \<Rightarrow> str option" where
  "should_ask_before_git tool_name content =
     (case collect_git_ask_ops tool_name content of [] \<Rightarrow> None | op # _ \<Rightarrow> Some op)"

end
