(* ===== verification/Detect.thy ===== *)
theory Detect
  imports Git_Safety
begin

text \<open>
  The detectors of the detection stage that read a command's words: destructive verbs, network
  egress and signals (\<open>pipeline/detection.rs\<close>, \<open>detection/gh.rs\<close>, \<open>detection/signal.rs\<close>).
\<close>

subsection \<open>Destructive verbs\<close>

definition destructive_word :: "str \<Rightarrow> bool" where
  "destructive_word w = List.member [''rm'', ''rmdir'', ''unlink'', ''sudo'', ''dd'', ''truncate''] w"

definition has_destructive_word :: "str \<Rightarrow> bool" where
  "has_destructive_word t =
     list_ex destructive_word
       (split_by (\<lambda>c. \<not> (is_alnum c \<or> c = CHR ''_'')) (to_ascii_lowercase t))"

definition should_ask_destructive :: "str \<Rightarrow> str \<Rightarrow> bool" where
  "should_ask_destructive tool_name content =
     (is_shell_tool tool_name \<and> content \<noteq> [] \<and>
      (let scan = strip_quoted_heredoc_bodies (expand_inline_interpreter content);
           unquoted = filter (\<lambda>c. c \<noteq> SQ \<and> c \<noteq> DQ \<and> c \<noteq> BSL) scan
       in has_destructive_word scan \<or> has_destructive_word unquoted))"

subsection \<open>The GitHub client (detection/gh.rs)\<close>

definition gh_method :: "str \<Rightarrow> str list \<Rightarrow> (str \<times> str list) option" where
  "gh_method arg rest =
     (let next = (case rest of [] \<Rightarrow> [] | a # _ \<Rightarrow> strip_quotes a) in
      case strip_prefix ''--method='' arg of
        Some m \<Rightarrow> Some (m, rest)
      | None \<Rightarrow>
        if arg = ''--method'' then Some (next, drop 1 rest)
        else (case (case strip_prefix ''-X'' arg of Some r \<Rightarrow> Some r | None \<Rightarrow> strip_prefix ''-x'' arg) of
                None \<Rightarrow> None
              | Some [] \<Rightarrow> Some (next, drop 1 rest)
              | Some (c # cs) \<Rightarrow> Some (trim_start_matches (\<lambda>x. x = CHR ''='') (c # cs), rest)))"

definition gh_field_flag :: "str \<Rightarrow> bool" where
  "gh_field_flag arg =
     (starts_with ''--field'' arg \<or> starts_with ''--raw-field'' arg \<or> starts_with ''--input'' arg
      \<or> starts_with ''-f'' arg)"

function gh_api_reads :: "str list \<Rightarrow> bool" where
  "gh_api_reads [] = True"
| "gh_api_reads (a # rest) =
     (let arg = strip_quotes a in
      case gh_method arg rest of
        Some (m, rest') \<Rightarrow>
          (let name = to_ascii_uppercase (trim_start_matches (\<lambda>x. x = CHR ''='') m) in
           if name = [] \<or> name = ''GET'' \<or> name = ''HEAD'' then gh_api_reads rest' else False)
      | None \<Rightarrow> \<not> gh_field_flag arg \<and> gh_api_reads rest)"
  by pat_completeness auto

lemma gh_method_rest: "gh_method arg rest = Some (m, rest') \<Longrightarrow> length rest' \<le> length rest"
  by (auto simp: gh_method_def Let_def split: option.splits if_splits list.splits)

termination gh_api_reads
  by (relation "measure length") (auto simp: less_Suc_eq_le dest: gh_method_rest)

definition nth_word :: "str list \<Rightarrow> nat \<Rightarrow> str" where
  "nth_word ws n = (if n < length ws then ws ! n else [])"

definition gh_reads_only :: "str list \<Rightarrow> bool" where
  "gh_reads_only args =
     (let sub = strip_quotes (nth_word args 0); sub2 = strip_quotes (nth_word args 1) in
      if List.member [''version'', ''help'', ''status'', ''search''] sub then True
      else if sub = ''auth'' then sub2 = ''status''
      else if sub = ''api'' then gh_api_reads args
      else List.member [''pr'', ''issue'', ''repo'', ''release'', ''run'', ''workflow'', ''label'',
                        ''cache''] sub
           \<and> List.member [''view'', ''list'', ''diff'', ''checks'', ''status''] sub2)"

subsection \<open>Egress\<close>

definition git_egress_names_external_source :: "str list \<Rightarrow> bool" where
  "git_egress_names_external_source args =
     list_ex (\<lambda>a. let arg = strip_quotes a in
         str_contains ''://'' arg \<or> starts_with ''git@'' arg \<or> starts_with ''--upload-pack'' arg
         \<or> contains_char (CHR '':'') arg \<and> \<not> starts_char (CHR ''-'') arg
         \<or> starts_char (CHR ''/'') arg \<or> starts_char (CHR ''.'') arg \<or> starts_char (CHR ''~'') arg) args"

definition egress_tools :: "str list" where
  "egress_tools = [''curl'', ''wget'', ''httpie'', ''scp'', ''rsync'', ''ssh'', ''sftp'', ''ftp'',
     ''nc'', ''netcat'', ''telnet'']"

definition command_tokens :: "str \<Rightarrow> str list" where
  "command_tokens segment =
     filter (\<lambda>t. t \<noteq> [] \<and> (\<not> contains_char (CHR ''='') t \<or> starts_char (CHR ''-'') t)
                \<and> \<not> is_shell_control_keyword t)
       (map decode_token (split_whitespace segment))"

definition segment_egress :: "str \<Rightarrow> bool" where
  "segment_egress seg =
     (case command_tokens (trim_start_matches (\<lambda>c. c = CHR ''$'') (trim seg)) of
        [] \<Rightarrow> False
      | cmd # args \<Rightarrow>
        (let sub = strip_quotes (nth_word args 0) in
         if List.member egress_tools cmd then True
         else if cmd = ''gh'' \<and> \<not> gh_reads_only args then True
         else if cmd = ''git'' \<and> (sub = ''fetch'' \<or> sub = ''ls-remote'')
           then git_egress_names_external_source args
         else if cmd = ''git'' \<and> List.member [''push'', ''clone'', ''pull''] sub then True
         else if (cmd = ''npm'' \<or> cmd = ''cargo'') \<and> sub = ''publish'' then True
         else cmd = ''pip'' \<and> sub = ''upload''))"

definition should_ask_egress :: "str \<Rightarrow> str \<Rightarrow> bool" where
  "should_ask_egress tool_name content =
     (is_shell_tool tool_name \<and> content \<noteq> [] \<and>
      list_ex segment_egress
        (split_any segment_breaks (to_ascii_lowercase (expand_inline_interpreter content))))"

definition GIT_NETWORK_OPS :: "str list" where
  "GIT_NETWORK_OPS = [''push'', ''pull'', ''clone'', ''fetch'', ''ls-remote'']"

definition plain_tokens :: "str \<Rightarrow> str list" where
  "plain_tokens segment =
     filter (\<lambda>t. t \<noteq> [] \<and> \<not> contains_char (CHR ''='') t \<and> \<not> is_shell_control_keyword t)
       (map decode_token (split_whitespace segment))"

definition segment_remote_op :: "str \<Rightarrow> str option" where
  "segment_remote_op segment =
     (case plain_tokens segment of
        g # s # _ \<Rightarrow>
          if strip_quotes g = ''git'' then find (\<lambda>op. op = strip_quotes s) GIT_NETWORK_OPS else None
      | _ \<Rightarrow> None)"

definition egress_remote_op :: "str \<Rightarrow> str option" where
  "egress_remote_op content =
     (case List.map_filter segment_remote_op (split_any segment_breaks (to_ascii_lowercase content)) of
        [] \<Rightarrow> None | op # _ \<Rightarrow> Some op)"

definition egress_names_external_source :: "str \<Rightarrow> bool" where
  "egress_names_external_source content =
     (let lower = to_ascii_lowercase content in
      str_contains ''git_ssh_command='' lower \<or> str_contains ''git_ssh='' lower \<or>
      list_ex (\<lambda>segment.
          case filter (\<lambda>t. t \<noteq> [] \<and> \<not> is_shell_control_keyword t)
                 (map decode_token (split_whitespace segment)) of
            [] \<Rightarrow> False
          | w # ws \<Rightarrow> strip_quotes w = ''git''
                       \<and> git_egress_names_external_source (map strip_quotes ws))
        (split_any segment_breaks lower))"

subsection \<open>Signals (detection/signal.rs)\<close>

definition normalize_word :: "str \<Rightarrow> str" where
  "normalize_word word = trim_matches (\<lambda>c. List.member (''${},;'' @ [BSL]) c) (strip_quotes word)"

definition is_signal_verb :: "str \<Rightarrow> bool" where
  "is_signal_verb word = List.member [''kill'', ''pkill'', ''killall''] word"

definition is_transparent_prefix :: "str \<Rightarrow> bool" where
  "is_transparent_prefix word =
     List.member [''env'', ''nice'', ''nohup'', ''timeout'', ''stdbuf'', ''setsid'', ''command'',
                  ''builtin'', ''exec'', ''doas'', ''sudo'', ''xargs''] word"

fun adjacent :: "('a \<Rightarrow> 'a \<Rightarrow> bool) \<Rightarrow> 'a list \<Rightarrow> bool" where
  "adjacent P (x # y # zs) = (P x y \<or> adjacent P (y # zs))"
| "adjacent P _ = False"

definition segment_signals :: "str list \<Rightarrow> bool" where
  "segment_signals tokens =
     (case tokens of [] \<Rightarrow> False
      | t # _ \<Rightarrow>
        (let first = normalize_word t in
         if first = ''find'' then
           adjacent (\<lambda>a b. List.member [''-exec'', ''-execdir'', ''-ok''] (normalize_word a)
                           \<and> is_signal_verb (normalize_word b)) tokens
         else if \<not> is_signal_verb first \<and> \<not> is_transparent_prefix first then False
         else list_ex (\<lambda>w. is_signal_verb (normalize_word w)) tokens))"

definition calls_signal :: "str \<Rightarrow> bool" where
  "calls_signal code =
     (let c = to_ascii_lowercase code in
      list_ex (\<lambda>call. str_contains call c) [''kill('', ''killall('', ''.kill('', ''pkill(''])"

definition code_signals :: "str \<Rightarrow> bool" where
  "code_signals code =
     (calls_signal code \<or>
      list_ex (\<lambda>segment. segment_signals (plain_tokens segment))
        (split_any segment_breaks (to_ascii_lowercase code)))"

fun list_suffixes :: "'a list \<Rightarrow> 'a list list" where
  "list_suffixes [] = []"
| "list_suffixes (x # xs) = (x # xs) # list_suffixes xs"

definition segment_runs_signal_code :: "str \<Rightarrow> bool" where
  "segment_runs_signal_code segment =
     list_ex (\<lambda>ws. case interpreter_inline_code (str_join '' '' ws) of
                      Some code \<Rightarrow> code_signals code | None \<Rightarrow> False)
       (list_suffixes (split_whitespace segment))"

definition should_ask_signal :: "str \<Rightarrow> str \<Rightarrow> bool" where
  "should_ask_signal tool_name content =
     (is_shell_tool tool_name \<and> content \<noteq> [] \<and>
      (let lower = to_ascii_lowercase
                     (strip_quoted_heredoc_bodies (expand_inline_interpreter content))
       in segment_runs_signal_code lower \<or>
          list_ex (\<lambda>s. let segment = trim_start_matches (\<lambda>c. c = CHR ''$'') (trim s) in
                       segment_signals (plain_tokens segment) \<or> segment_runs_signal_code segment)
            (split_any segment_breaks lower)))"

end
