(* ===== verification/Readonly.thy ===== *)
theory Readonly
  imports Shell_Lexer
begin

text \<open>
  Read-only classification of a compound command (\<open>compound/readonly.rs\<close>): the commands that only
  read, the argument forms that make one of them write, and the depth-limited check of the bodies of
  command substitutions. An index into \<open>chars\<close> is the rest of the text from there.
\<close>

subsection \<open>Argument rules\<close>

definition READONLY_COMMANDS :: "str list" where
  "READONLY_COMMANDS =
     [''basename'', ''cat'', ''curl'', ''cut'', ''df'', ''diff'', ''dirname'', ''du'', ''echo'',
      ''egrep'', ''false'', ''fgrep'', ''file'', ''find'', ''git'', ''grep'', ''groups'', ''head'',
      ''id'', ''jq'', ''ls'', ''md5'', ''pgrep'', ''printf'', ''ps'', ''pwd'', ''realpath'', ''rg'',
      ''sed'', ''seq'', ''sha256sum'', ''shasum'', ''sort'', ''stat'', ''strings'', ''tail'',
      ''test'', ''tr'', ''true'', ''uname'', ''uniq'', ''wc'', ''whereis'', ''which'', ''whoami'']"

definition GIT_READ_SUBCOMMANDS :: "str list" where
  "GIT_READ_SUBCOMMANDS =
     [''status'', ''diff'', ''show'', ''log'', ''ls-files'', ''rev-parse'', ''rev-list'',
      ''hash-object'', ''fetch'', ''ls-remote'']"

definition GIT_WRITE_OPTIONS :: "str list" where
  "GIT_WRITE_OPTIONS =
     [''-o'', ''--output'', ''--ext-diff'', ''--textconv'', ''-c'', ''--exec-path'']"

definition FIND_WRITE_PREDICATES :: "str list" where
  "FIND_WRITE_PREDICATES =
     [''-delete'', ''-exec'', ''-execdir'', ''-ok'', ''-okdir'', ''-fprint'', ''-fprint0'',
      ''-fprintf'', ''-fls'']"

definition CURL_WRITE_LONG :: "str list" where
  "CURL_WRITE_LONG =
     [''output'', ''remote'', ''upload-file'', ''config'', ''data'', ''form'', ''json'', ''url-query'']"

definition CURL_WRITE_SHORT :: str where
  "CURL_WRITE_SHORT = ''oOTKdFJX''"

definition short_cluster_has :: "str \<Rightarrow> char \<Rightarrow> bool" where
  "short_cluster_has arg letter =
     (case strip_prefix ''-'' arg of None \<Rightarrow> False
      | Some cluster \<Rightarrow> \<not> starts_char (CHR ''-'') cluster \<and> contains_char letter cluster)"

definition git_writes :: "str \<Rightarrow> bool" where
  "git_writes arg =
     (case strip_prefix ''--'' arg of
        Some long \<Rightarrow>
          list_ex (\<lambda>option. case strip_prefix ''--'' option of None \<Rightarrow> False
                     | Some name \<Rightarrow> long = name \<or> starts_with (name @ ''='') long) GIT_WRITE_OPTIONS
      | None \<Rightarrow>
        (case strip_prefix ''-'' arg of None \<Rightarrow> False
         | Some short \<Rightarrow>
             list_ex (\<lambda>letter. starts_with letter short)
               (List.map_filter (strip_prefix ''-'') GIT_WRITE_OPTIONS)))"

fun git_reads_only :: "str list \<Rightarrow> bool" where
  "git_reads_only [] = False"
| "git_reads_only (sub # rest) =
     (List.member GIT_READ_SUBCOMMANDS sub \<and> \<not> list_ex git_writes rest \<and>
      (sub = ''hash-object'' \<longrightarrow> \<not> list_ex (\<lambda>a. short_cluster_has a (CHR ''w'')) rest))"

definition sed_arg_writes :: "str \<Rightarrow> bool" where
  "sed_arg_writes arg =
     (List.member [''-i'', ''--in-place'', ''-f'', ''--file''] arg
      \<or> short_cluster_has arg (CHR ''i'')
      \<or> str_contains ''/w '' arg \<or> str_contains '' w '' arg \<or> ends_with '' w'' (trim_end arg)
      \<or> starts_with ''w '' arg \<or> starts_with ''w/'' arg)"

definition sed_reads_only :: "str list \<Rightarrow> bool" where
  "sed_reads_only args = (\<not> list_ex sed_arg_writes args)"

definition is_http_url :: "str \<Rightarrow> bool" where
  "is_http_url arg = (starts_with ''http://'' arg \<or> starts_with ''https://'' arg)"

text \<open>The argument loop of the network client; \<open>saw\<close> is \<open>saw_url\<close>.\<close>

fun curl_loop :: "str list \<Rightarrow> bool \<Rightarrow> bool" where
  "curl_loop [] saw = saw"
| "curl_loop (arg # rest) saw =
     (case strip_prefix ''--'' arg of
        Some long \<Rightarrow>
          (let (name, v) = (case split_once ''='' long of
                              Some (n, v) \<Rightarrow> (n, Some v) | None \<Rightarrow> (long, None))
           in if name = ''url'' then
                (case v of
                   Some target \<Rightarrow> is_http_url target \<and> curl_loop rest True
                 | None \<Rightarrow>
                   (case rest of [] \<Rightarrow> False
                    | target # rest' \<Rightarrow> is_http_url target \<and> curl_loop rest' True))
              else if name = [] then curl_loop rest saw
              else \<not> list_ex (\<lambda>option. starts_with name option) CURL_WRITE_LONG \<and> curl_loop rest saw)
      | None \<Rightarrow>
        (case strip_prefix ''-'' arg of
           Some cluster \<Rightarrow> \<not> contains_any CURL_WRITE_SHORT cluster \<and> curl_loop rest saw
         | None \<Rightarrow> is_http_url arg \<and> curl_loop rest True))"

definition curl_reads_only :: "str \<Rightarrow> str list \<Rightarrow> bool" where
  "curl_reads_only segment args =
     (\<not> contains_char (CHR ''$'') segment \<and> \<not> contains_char BTK segment \<and> curl_loop args False)"

definition is_path_arg :: "str \<Rightarrow> bool" where
  "is_path_arg arg = (arg = ''-'' \<or> \<not> starts_char (CHR ''-'') arg)"

definition sort_writes :: "str \<Rightarrow> bool" where
  "sort_writes arg =
     (case strip_prefix ''--'' arg of
        Some long \<Rightarrow>
          (let name = takeWhile (\<lambda>c. c \<noteq> CHR ''='') long in
           name \<noteq> [] \<and>
           list_ex (\<lambda>option. starts_with name option)
             [''output'', ''temporary-directory'', ''compress-program''])
      | None \<Rightarrow>
        (case strip_prefix ''-'' arg of
           Some cluster \<Rightarrow> contains_char (CHR ''o'') cluster \<or> contains_char (CHR ''T'') cluster
         | None \<Rightarrow> False))"

definition writes_output :: "str \<Rightarrow> str \<Rightarrow> bool" where
  "writes_output cmd segment =
     (if \<not> List.member [''sort'', ''uniq'', ''printf''] cmd then False
      else (let raw_args = drop 1 (shell_word_spans segment) in
        if list_ex (contains_any [BSL, CHR ''$'', BTK]) raw_args then True
        else (let args = map (filter (\<lambda>c. c \<noteq> DQ \<and> c \<noteq> SQ)) raw_args in
          if cmd = ''sort'' then list_ex sort_writes args
          else if cmd = ''uniq'' then 1 < length (filter is_path_arg args)
          else List.member args ''-v'')))"

definition command_reads_only :: "str \<Rightarrow> str list \<Rightarrow> str \<Rightarrow> bool \<Rightarrow> bool" where
  "command_reads_only cmd args segment allow_network =
     (if \<not> List.member READONLY_COMMANDS cmd then False
      else if List.member [''sort'', ''uniq'', ''printf''] cmd then \<not> writes_output cmd segment
      else if cmd = ''find'' then \<not> list_ex (List.member FIND_WRITE_PREDICATES) args
      else if cmd = ''git'' then git_reads_only args
      else if cmd = ''rg'' then \<not> list_ex (starts_with ''--pre'') args
      else if cmd = ''sed'' then sed_reads_only args
      else if cmd = ''curl'' then allow_network \<and> curl_reads_only segment args
      else True)"

subsection \<open>Substitutions\<close>

text \<open>\<open>find_matching_paren\<close> on the text from the open paren on: the text up to the matching close paren
  (the open one included) and the text after it.\<close>

fun paren_scan :: "str \<Rightarrow> nat \<Rightarrow> bool \<Rightarrow> bool \<Rightarrow> (str \<times> str) option" where
  "paren_scan [] depth in_single in_double = None"
| "paren_scan (c # cs) depth in_single in_double =
     (if c = CHR '')'' \<and> \<not> in_single \<and> \<not> in_double \<and> depth = 1 then Some ([], cs)
      else map_option (\<lambda>(a, b). (c # a, b))
        (if c = SQ \<and> \<not> in_double then paren_scan cs depth (\<not> in_single) in_double
         else if c = DQ \<and> \<not> in_single then paren_scan cs depth in_single (\<not> in_double)
         else if in_single \<or> in_double then paren_scan cs depth in_single in_double
         else if c = CHR ''('' then paren_scan cs (Suc depth) in_single in_double
         else if c = CHR '')'' then paren_scan cs (depth - 1) in_single in_double
         else paren_scan cs depth in_single in_double))"

definition find_matching_paren :: "str \<Rightarrow> (str \<times> str) option" where
  "find_matching_paren s = paren_scan s 0 False False"

lemma paren_scan_shorter: "paren_scan s d a b = Some (x, r) \<Longrightarrow> length r < length s"
  by (induction s d a b arbitrary: x rule: paren_scan.induct) (auto split: if_splits simp: less_SucI)

text \<open>The scan of one segment: the bodies of its command substitutions, or \<open>None\<close> where it is refused.\<close>

function readonly_scan :: "str \<Rightarrow> bool \<Rightarrow> bool \<Rightarrow> str list option" where
  "readonly_scan [] in_single in_double = Some []"
| "readonly_scan (c # cs) in_single in_double =
     (if c = SQ \<and> \<not> in_double then readonly_scan cs (\<not> in_single) in_double
      else if c = DQ \<and> \<not> in_single then readonly_scan cs in_single (\<not> in_double)
      else if in_single then readonly_scan cs in_single in_double
      else if c = CHR ''$'' \<and> starts_char (CHR ''('') cs then
        (case find_matching_paren cs of None \<Rightarrow> None
         | Some (inner, rest) \<Rightarrow> map_option ((#) (tl inner)) (readonly_scan rest in_single in_double))
      else if c = BTK then
        (case dropWhile (\<lambda>x. x \<noteq> BTK) cs of [] \<Rightarrow> None
         | _ # rest \<Rightarrow> map_option ((#) (takeWhile (\<lambda>x. x \<noteq> BTK) cs))
                        (readonly_scan rest in_single in_double))
      else if in_double then readonly_scan cs in_single in_double
      else if c = CHR ''>'' \<or> c = CHR ''<'' then None
      else readonly_scan cs in_single in_double)"
  by pat_completeness auto
termination
  by (relation "measure (\<lambda>(s, _). length s)")
     (auto simp: find_matching_paren_def dest!: paren_scan_shorter dropWhile_shorter)

declare readonly_scan.simps [simp del]

definition is_literal_cd :: "str \<Rightarrow> bool" where
  "is_literal_cd segment =
     (case split_whitespace segment of
        [mv, dir] \<Rightarrow> mv = ''cd'' \<and> \<not> contains_any [CHR ''$'', BTK, CHR ''>'', CHR ''<''] dir
      | _ \<Rightarrow> False)"

definition READONLY_DEPTH :: nat where
  "READONLY_DEPTH = 3"

text \<open>One segment, given the check of a substitution body at the next depth and whether a network
  client is admitted.\<close>

definition readonly_segment :: "(str list \<Rightarrow> bool) \<Rightarrow> bool \<Rightarrow> str \<Rightarrow> bool" where
  "readonly_segment sub_ok allow_network seg =
     (quotes_balanced seg \<and>
      (let stripped = strip_safe_redirects seg in
       case readonly_scan stripped False False of None \<Rightarrow> False
       | Some substs \<Rightarrow>
         (case shell_word_spans stripped of [] \<Rightarrow> False
          | first # rest \<Rightarrow>
              \<not> contains_char (CHR ''='') first \<and>
              command_reads_only (strip_quotes first) (map strip_quotes rest) stripped allow_network \<and>
              list_all (\<lambda>s. sub_ok (split_compound s)) substs)))"

fun is_readonly_compound_depth :: "nat \<Rightarrow> str list \<Rightarrow> bool" where
  "is_readonly_compound_depth 0 segments = False"
| "is_readonly_compound_depth (Suc d) segments =
     (segments \<noteq> [] \<and>
      list_all (readonly_segment (is_readonly_compound_depth d) (READONLY_DEPTH \<le> Suc d))
        (if 1 < length segments \<and> is_literal_cd (hd segments) then tl segments else segments))"

definition is_readonly_segment :: "nat \<Rightarrow> str \<Rightarrow> bool" where
  "is_readonly_segment depth seg =
     (0 < depth \<and>
      readonly_segment (is_readonly_compound_depth (depth - 1)) (READONLY_DEPTH \<le> depth) seg)"

definition is_readonly_compound :: "str list \<Rightarrow> bool" where
  "is_readonly_compound segments = is_readonly_compound_depth READONLY_DEPTH segments"

end
