(* ===== verification/Decision.thy ===== *)
theory Decision
  imports Tool_Api "HOL-Library.Word"
begin

text \<open>
  The value types of the permission crate: the verdict with its reason and the proof token of a
  fenced call (\<open>decision.rs\<close>), the two modes and the request snapshot (\<open>mode.rs\<close>), the side-effect
  table (\<open>side_effect.rs\<close>), the decision counter (\<open>metrics.rs\<close>) and the flattening to the wire form
  (\<open>wire.rs\<close>).
\<close>

subsection \<open>Verdicts (decision.rs)\<close>

datatype outcome = O_Allow | O_Ask | O_Deny

datatype ask_source = AS_UserRule | AS_SystemSafety | AS_Detection | AS_ToolNative

record ask_reason =
  ar_source :: ask_source
  ar_validator :: str
  ar_detail :: str
  ar_containment_note :: "str option"

datatype deny_source = DS_UserRule | DS_Headless | DS_Fence

record deny_reason =
  dr_source :: deny_source
  dr_validator :: str
  dr_detail :: str

datatype fence_proof = FenceProof (fenced_root_count: nat)

datatype allow_reason = AR_UserRule | AR_Consent | AR_Containment fence_proof | AR_ModeDefault

datatype decision = Allow allow_reason | Ask ask_reason | Deny deny_reason

fun decision_outcome :: "decision \<Rightarrow> outcome" where
  "decision_outcome (Allow _) = O_Allow"
| "decision_outcome (Ask _) = O_Ask"
| "decision_outcome (Deny _) = O_Deny"

fun fence_proof_new :: "coverage \<Rightarrow> side_effect \<Rightarrow> fence_proof option" where
  "fence_proof_new (Fenced writable_roots) SE_Exec = Some (FenceProof (length writable_roots))"
| "fence_proof_new _ _ = None"

lemma fence_proof_new_Some_iff:
  "fence_proof_new cov eff = Some p \<longleftrightarrow>
     (\<exists>roots. cov = Fenced roots \<and> eff = SE_Exec \<and> p = FenceProof (length roots))"
  by (cases "(cov, eff)" rule: fence_proof_new.cases) auto

subsection \<open>Modes and requests (mode.rs)\<close>

datatype permission_mode = Manual | Auto

fun mode_label :: "permission_mode \<Rightarrow> str" where
  "mode_label Manual = ''manual''"
| "mode_label Auto = ''auto''"

definition mode_parse :: "str \<Rightarrow> str + permission_mode" where
  "mode_parse s =
     (let l = to_ascii_lowercase s in
      if l = ''manual'' then Inr Manual
      else if l = ''auto'' then Inr Auto
      else Inl (''unknown mode: '' @ l))"

fun tab_next :: "permission_mode \<Rightarrow> permission_mode option" where
  "tab_next Manual = Some Auto"
| "tab_next Auto = Some Manual"

definition is_tab_cycleable :: "permission_mode \<Rightarrow> bool" where
  "is_tab_cycleable m = True"

definition requires_confirm :: "permission_mode \<Rightarrow> bool" where
  "requires_confirm m = False"

definition sandbox_mandatory :: "permission_mode \<Rightarrow> bool" where
  "sandbox_mandatory m = True"

record tool_request =
  tq_tool_name :: str
  tq_input :: "json option"
  tq_is_destructive :: bool
  tq_is_read_only :: bool
  tq_native_requires_approval :: bool

record mode_change =
  mc_from :: permission_mode
  mc_to :: permission_mode
  mc_reason :: str

lemma mode_parse_label: "mode_parse (mode_label m) = Inr m"
proof -
  have "mode_parse ''manual'' = Inr Manual" "mode_parse ''auto'' = Inr Auto" by code_simp+
  then show ?thesis by (cases m) simp_all
qed

subsection \<open>The side-effect table (side_effect.rs)\<close>

definition side_effect_for :: "str \<Rightarrow> side_effect" where
  "side_effect_for tool_name =
     (if is_shell_tool tool_name then SE_Exec
      else if writes_files tool_name then SE_Filesystem
      else if List.member [''webfetch'', ''netfetch'', ''fetch'', ''curl'', ''wget'']
                (to_ascii_lowercase tool_name) then SE_Network
      else SE_None)"

lemma side_effect_for_Exec_iff: "side_effect_for t = SE_Exec \<longleftrightarrow> is_shell_tool t"
  by (simp add: side_effect_for_def)

lemma side_effect_for_shell: "is_shell_tool t \<Longrightarrow> side_effect_for t = SE_Exec"
  by (simp add: side_effect_for_def)

subsection \<open>The decision counter (metrics.rs)\<close>

record decision_labels =
  dl_outcome :: str
  dl_source :: str
  dl_validator :: str

fun allow_source_label :: "allow_reason \<Rightarrow> str" where
  "allow_source_label AR_UserRule = ''user_rule''"
| "allow_source_label AR_Consent = ''consent''"
| "allow_source_label (AR_Containment _) = ''containment''"
| "allow_source_label AR_ModeDefault = ''mode_default''"

fun allow_validator_label :: "allow_reason \<Rightarrow> str" where
  "allow_validator_label AR_UserRule = ''rule_allow''"
| "allow_validator_label AR_Consent = ''stored_consent''"
| "allow_validator_label (AR_Containment _) = ''containment''"
| "allow_validator_label AR_ModeDefault = ''mode_default''"

fun ask_source_label :: "ask_source \<Rightarrow> str" where
  "ask_source_label AS_UserRule = ''user_rule''"
| "ask_source_label AS_SystemSafety = ''system_safety''"
| "ask_source_label AS_Detection = ''detection''"
| "ask_source_label AS_ToolNative = ''tool_native''"

fun deny_source_label :: "deny_source \<Rightarrow> str" where
  "deny_source_label DS_UserRule = ''user_rule''"
| "deny_source_label DS_Headless = ''headless''"
| "deny_source_label DS_Fence = ''fence''"

fun labels_of :: "decision \<Rightarrow> decision_labels" where
  "labels_of (Allow r) = \<lparr>dl_outcome = ''allow'', dl_source = allow_source_label r,
     dl_validator = allow_validator_label r\<rparr>"
| "labels_of (Ask r) = \<lparr>dl_outcome = ''ask'', dl_source = ask_source_label (ar_source r),
     dl_validator = ar_validator r\<rparr>"
| "labels_of (Deny r) = \<lparr>dl_outcome = ''deny'', dl_source = deny_source_label (dr_source r),
     dl_validator = dr_validator r\<rparr>"

definition outcome_label :: "decision \<Rightarrow> str" where
  "outcome_label d = (case decision_outcome d of
     O_Allow \<Rightarrow> ''allow'' | O_Ask \<Rightarrow> ''ask'' | O_Deny \<Rightarrow> ''deny'')"

type_synonym counter = "decision_labels \<Rightarrow> 64 word option"

definition counter_new :: counter where
  "counter_new = Map.empty"

definition counter_inc :: "counter \<Rightarrow> decision \<Rightarrow> counter" where
  "counter_inc b d =
     (let k = labels_of d; n = (case b k of Some n \<Rightarrow> n | None \<Rightarrow> 0) in b(k \<mapsto> n + 1))"

lemma counter_inc_run:
  "foldl counter_inc b ds k =
     (let n = length (filter (\<lambda>d. labels_of d = k) ds) in
      if n = 0 then b k else Some ((case b k of Some m \<Rightarrow> m | None \<Rightarrow> 0) + of_nat n))"
  by (induction ds arbitrary: b) (auto simp: counter_inc_def Let_def ac_simps split: option.splits)

text \<open>After any sequence of verdicts the bucket of a label triple holds the number of verdicts with
  these labels, as a 64-bit count, and a triple no verdict had has no bucket.\<close>

lemma counter_counts:
  "foldl counter_inc counter_new ds k =
     (let n = length (filter (\<lambda>d. labels_of d = k) ds) in if n = 0 then None else Some (of_nat n))"
  by (simp add: counter_inc_run counter_new_def Let_def)

lemma labels_outcome: "dl_outcome (labels_of d) = outcome_label d"
  by (cases d) (simp_all add: outcome_label_def)

subsection \<open>The wire form (wire.rs)\<close>

datatype wire_allow = WA_UserRule | WA_Consent | WA_Containment | WA_ModeDefault

fun allow_to_wire :: "allow_reason \<Rightarrow> wire_allow" where
  "allow_to_wire AR_UserRule = WA_UserRule"
| "allow_to_wire AR_Consent = WA_Consent"
| "allow_to_wire (AR_Containment _) = WA_Containment"
| "allow_to_wire AR_ModeDefault = WA_ModeDefault"

datatype permission_effect = PE_Allow | PE_Ask | PE_Reject

fun outcome_to_wire :: "outcome \<Rightarrow> permission_effect" where
  "outcome_to_wire O_Allow = PE_Allow"
| "outcome_to_wire O_Ask = PE_Ask"
| "outcome_to_wire O_Deny = PE_Reject"

end
