(* ===== verification/Rules.thy ===== *)
theory Rules
  imports Shell_Lexer Decision "HOL-Library.Option_ord"
begin

text \<open>
  Permission rules (\<open>rule.rs\<close>, \<open>rule/cwd.rs\<close>, the scopes of \<open>store.rs\<close>): the three content tiers,
  the evaluator (last match wins, deny wins over all), the identity of a rule, the prefix an
  always-allow is scoped to, the builtin checkpoint rules and matching across a leading move into the
  session root.

  The glob crate and the JSON serialiser are parameters, held with the host's file-system queries in the
  record \<open>externals\<close>: \<open>x_glob p\<close> is \<open>Pattern::new\<close>, \<open>None\<close> for a pattern it rejects and otherwise
  the matcher with the crate's options; \<open>x_json\<close> is \<open>Value::to_string\<close>.
\<close>

record externals =
  x_glob :: "str \<Rightarrow> (str \<Rightarrow> bool) option"
  x_json :: "json \<Rightarrow> str"
  x_host :: host

subsection \<open>Scopes and effects\<close>

datatype scope = User | Project | Local | Session | Builtin

fun scope_label :: "scope \<Rightarrow> str" where
  "scope_label User = ''user''"
| "scope_label Project = ''project''"
| "scope_label Local = ''local''"
| "scope_label Session = ''session''"
| "scope_label Builtin = ''builtin''"

definition scope_is_writable :: "scope \<Rightarrow> bool" where
  "scope_is_writable s = (s \<noteq> Session \<and> s \<noteq> Builtin)"

definition scope_default :: scope where
  "scope_default = Project"

datatype effect = E_Allow | E_Deny | E_Ask

fun effect_label :: "effect \<Rightarrow> str" where
  "effect_label E_Allow = ''allow''"
| "effect_label E_Deny = ''deny''"
| "effect_label E_Ask = ''ask''"

definition effect_parse :: "str \<Rightarrow> str + effect" where
  "effect_parse s =
     (let l = to_ascii_lowercase s in
      if l = ''allow'' then Inr E_Allow
      else if l = ''deny'' then Inr E_Deny
      else if l = ''ask'' then Inr E_Ask
      else Inl (''unknown effect: '' @ l))"

text \<open>The strictness order: deny outranks ask and ask outranks allow.\<close>

fun strictness :: "effect \<Rightarrow> nat" where
  "strictness E_Allow = 0"
| "strictness E_Ask = 1"
| "strictness E_Deny = 2"

lemma strictness_inj: "strictness a = strictness b \<Longrightarrow> a = b"
  by (cases a; cases b) auto

instantiation effect :: linorder
begin

definition less_eq_effect :: "effect \<Rightarrow> effect \<Rightarrow> bool" where
  "less_eq_effect a b \<longleftrightarrow> strictness a \<le> strictness b"

definition less_effect :: "effect \<Rightarrow> effect \<Rightarrow> bool" where
  "less_effect a b \<longleftrightarrow> strictness a < strictness b"

instance
  by standard (auto simp: less_eq_effect_def less_effect_def dest: strictness_inj)

end

fun strictest :: "effect option \<Rightarrow> effect option \<Rightarrow> effect option" where
  "strictest (Some E_Deny) _ = Some E_Deny"
| "strictest _ (Some E_Deny) = Some E_Deny"
| "strictest (Some E_Ask) _ = Some E_Ask"
| "strictest _ (Some E_Ask) = Some E_Ask"
| "strictest (Some E_Allow) _ = Some E_Allow"
| "strictest _ (Some E_Allow) = Some E_Allow"
| "strictest None None = None"

subsection \<open>Content patterns and rules\<close>

datatype rule_content = RC_Exact str | RC_Prefix str | RC_Glob str

definition content_parse :: "str \<Rightarrow> rule_content" where
  "content_parse spec =
     (case strip_suffix '':*'' spec of
        Some pre \<Rightarrow> RC_Prefix pre
      | None \<Rightarrow>
          if contains_char (CHR ''*'') spec \<or> contains_char (CHR ''?'') spec
             \<or> contains_char (CHR ''['') spec
          then RC_Glob spec else RC_Exact spec)"

fun content_matches :: "externals \<Rightarrow> rule_content \<Rightarrow> str \<Rightarrow> bool" where
  "content_matches x (RC_Exact s) input = (input = s)"
| "content_matches x (RC_Prefix s) input = starts_with s input"
| "content_matches x (RC_Glob s) input = (case x_glob x s of Some m \<Rightarrow> m input | None \<Rightarrow> False)"

fun content_id :: "rule_content \<Rightarrow> str" where
  "content_id (RC_Exact s) = s"
| "content_id (RC_Prefix s) = s @ '':*''"
| "content_id (RC_Glob s) = s"

record rule =
  r_action :: str
  r_content :: "rule_content option"
  r_effect :: effect
  r_scope :: scope

definition rule_new :: "str \<Rightarrow> effect \<Rightarrow> str + rule" where
  "rule_new action eff =
     (if trim action = [] then Inl ''empty tool name''
      else Inr \<lparr>r_action = action, r_content = None, r_effect = eff, r_scope = scope_default\<rparr>)"

definition rule_with_content :: "str \<Rightarrow> rule_content \<Rightarrow> effect \<Rightarrow> str + rule" where
  "rule_with_content action content eff =
     (if trim action = [] then Inl ''empty tool name''
      else Inr \<lparr>r_action = action, r_content = Some content, r_effect = eff,
                r_scope = scope_default\<rparr>)"

definition rule_with_scope :: "rule \<Rightarrow> scope \<Rightarrow> rule" where
  "rule_with_scope r s = r\<lparr>r_scope := s\<rparr>"

definition same_as :: "rule \<Rightarrow> rule \<Rightarrow> bool" where
  "same_as a b =
     (eq_ignore_ascii_case (r_action a) (r_action b) \<and> r_content a = r_content b
      \<and> r_effect a = r_effect b \<and> r_scope a = r_scope b)"

definition RUNNERS :: "str list" where
  "RUNNERS =
     [''npm'', ''pnpm'', ''yarn'', ''npx'', ''cargo'', ''go'', ''deno'', ''python'', ''python3'',
      ''pip'', ''pip3'', ''make'', ''docker'', ''kubectl'', ''gh'', ''brew'', ''git'', ''rustup'',
      ''uv'', ''poetry'']"

definition bash_always_allow_prefix :: "str \<Rightarrow> str option" where
  "bash_always_allow_prefix command =
     (case split_compound (normalize_shell_command command) of
        [seg] \<Rightarrow>
          (let cmd = trim seg in
           if \<not> is_attestable cmd then None
           else (case split_whitespace cmd of
                   [] \<Rightarrow> None
                 | first # rest \<Rightarrow>
                     (case rest of
                        second # _ \<Rightarrow>
                          if List.member RUNNERS first then Some (first @ '' '' @ second)
                          else Some first
                      | [] \<Rightarrow> Some first)))
      | _ \<Rightarrow> None)"

definition BUILTIN_GIT_CHECKPOINTS :: "str list" where
  "BUILTIN_GIT_CHECKPOINTS = [''commit'', ''rebase'', ''reset'', ''tag'']"

definition builtin_rules :: "rule list" where
  "builtin_rules = map (\<lambda>sub. \<lparr>r_action = ''bash'', r_content = Some (RC_Prefix (''git '' @ sub)),
     r_effect = E_Ask, r_scope = Builtin\<rparr>) BUILTIN_GIT_CHECKPOINTS"

definition builtin_rule_id :: "rule \<Rightarrow> str option" where
  "builtin_rule_id r =
     (if r_scope r \<noteq> Builtin then None
      else map_option (\<lambda>c. r_action r @ ''('' @ content_id c @ '')'') (r_content r))"

definition input_content :: "externals \<Rightarrow> str \<Rightarrow> json option \<Rightarrow> str" where
  "input_content x tool_name input =
     (case input of None \<Rightarrow> []
      | Some v \<Rightarrow>
        (let lower = to_ascii_lowercase tool_name;
             field = (\<lambda>key. case get_str v key of Some s \<Rightarrow> s | None \<Rightarrow> [])
         in if is_shell_tool tool_name then field ''command''
            else if writes_files tool_name then field ''path''
            else if List.member [''webfetch'', ''netfetch'', ''fetch'', ''curl'', ''wget''] lower
              then field ''url''
            else if lower = ''skill'' then field ''skill''
            else x_json x v))"

subsection \<open>Evaluation\<close>

definition rule_matches :: "externals \<Rightarrow> str \<Rightarrow> str \<Rightarrow> rule \<Rightarrow> bool" where
  "rule_matches x tool_name input r =
     (eq_ignore_ascii_case (r_action r) tool_name \<and>
      (case r_content r of None \<Rightarrow> True | Some c \<Rightarrow> content_matches x c input))"

fun eval_loop ::
  "externals \<Rightarrow> str \<Rightarrow> str \<Rightarrow> rule list \<Rightarrow> effect option \<Rightarrow> bool \<Rightarrow> effect option" where
  "eval_loop x tool_name input [] lst any_deny = (if any_deny then Some E_Deny else lst)"
| "eval_loop x tool_name input (r # rs) lst any_deny =
     (if rule_matches x tool_name input r
      then eval_loop x tool_name input rs (Some (r_effect r)) (any_deny \<or> r_effect r = E_Deny)
      else eval_loop x tool_name input rs lst any_deny)"

definition rules_evaluate :: "externals \<Rightarrow> rule list \<Rightarrow> str \<Rightarrow> str \<Rightarrow> effect option" where
  "rules_evaluate x rules tool_name input = eval_loop x tool_name input rules None False"

definition denied_agent_types :: "rule list \<Rightarrow> str set" where
  "denied_agent_types rules =
     set (List.map_filter (\<lambda>r. case r_content r of Some (RC_Exact t) \<Rightarrow> Some t | _ \<Rightarrow> None)
       (filter (\<lambda>r. eq_ignore_ascii_case (r_action r) ''agent'' \<and> r_effect r = E_Deny) rules))"

subsection \<open>A leading move into the session root (rule/cwd.rs)\<close>

definition literal_move_target :: "str \<Rightarrow> str option" where
  "literal_move_target segment =
     (case split_whitespace segment of
        [mv, dir] \<Rightarrow>
          if mv = ''cd'' \<and> \<not> contains_any [CHR ''$'', BTK, CHR ''>'', CHR ''<''] dir
          then Some dir else None
      | _ \<Rightarrow> None)"

definition resolves_to :: "host \<Rightarrow> str \<Rightarrow> fpath \<Rightarrow> bool" where
  "resolves_to h target root =
     (let t = parse_path target; candidate = (if fp_abs t then t else path_join root t)
      in case (normalize_tool_path h candidate, normalize_tool_path h root) of
           (Some c, Some r) \<Rightarrow> c = r
         | _ \<Rightarrow> False)"

definition root_relative_content :: "host \<Rightarrow> str \<Rightarrow> fpath \<Rightarrow> str option" where
  "root_relative_content h command root =
     (case split_compound command of
        seg # _ # _ \<Rightarrow>
          Option.bind (literal_move_target seg) (\<lambda>target.
            if \<not> resolves_to h target root then None
            else Option.bind (strip_prefix seg command) (\<lambda>rest.
                 Option.bind (strip_prefix ''&&'' (trim_start rest)) (\<lambda>rest.
                   if trim_start rest = [] then None else Some (trim_start rest))))
      | _ \<Rightarrow> None)"

subsection \<open>Facts\<close>

text \<open>The stricter of two optional verdicts is their maximum in the order
  none, allow, ask, deny.\<close>

lemma strictest_max: "strictest a b = max a b"
proof -
  have "strictest (Some e) (Some f) = max (Some e) (Some f)" for e f
    by (cases e; cases f) (simp_all add: max_def less_eq_effect_def)
  moreover have "strictest None (Some f) = Some f" "strictest (Some f) None = Some f" for f
    by (cases f; simp)+
  ultimately show ?thesis by (cases a; cases b) (simp_all add: max_def)
qed

definition matched_effects :: "externals \<Rightarrow> rule list \<Rightarrow> str \<Rightarrow> str \<Rightarrow> effect list" where
  "matched_effects x rules t i = map r_effect (filter (rule_matches x t i) rules)"

lemma eval_loop_spec:
  "eval_loop x t i rs lst d =
     (let ms = map r_effect (filter (rule_matches x t i) rs) in
      if d \<or> E_Deny \<in> set ms then Some E_Deny else if ms = [] then lst else Some (last ms))"
  by (induction rs arbitrary: lst d) (auto simp: Let_def)

lemma evaluate_matched:
  "rules_evaluate x rules t i =
     (let ms = matched_effects x rules t i in
      if ms = [] then None else if E_Deny \<in> set ms then Some E_Deny else Some (last ms))"
proof -
  have "d \<in> set ms \<Longrightarrow> ms \<noteq> []" for d :: effect and ms by auto
  then show ?thesis
    by (auto simp: rules_evaluate_def eval_loop_spec matched_effects_def [symmetric] Let_def)
qed

text \<open>The evaluator: nothing when no rule matches, deny when any matching rule denies, and the effect
  of the last matching rule otherwise.\<close>

lemma evaluate_spec:
  "rules_evaluate x rules t i =
     (let ms = matched_effects x rules t i in
      if ms = [] then None else if E_Deny \<in> set ms then Some E_Deny else Some (last ms))"
  by (rule evaluate_matched)

lemma evaluate_None_iff:
  "rules_evaluate x rules t i = None \<longleftrightarrow> (\<forall>r\<in>set rules. \<not> rule_matches x t i r)"
  by (auto simp: rules_evaluate_def eval_loop_spec Let_def filter_empty_conv)

lemma evaluate_Deny_iff:
  "rules_evaluate x rules t i = Some E_Deny \<longleftrightarrow>
     (\<exists>r\<in>set rules. rule_matches x t i r \<and> r_effect r = E_Deny)"
proof -
  have "rules_evaluate x rules t i = Some E_Deny \<longleftrightarrow> E_Deny \<in> set (matched_effects x rules t i)"
    by (auto simp: evaluate_matched Let_def split: if_splits) (metis last_in_set)
  then show ?thesis by (force simp: matched_effects_def image_iff)
qed

lemma evaluate_Deny_mono:
  "rules_evaluate x rules t i = Some E_Deny \<Longrightarrow> set rules \<subseteq> set rules' \<Longrightarrow>
   rules_evaluate x rules' t i = Some E_Deny"
  by (auto simp: evaluate_Deny_iff)

text \<open>Parsing a content pattern loses nothing: printing the parsed pattern gives the text back,
  for every text.\<close>

lemma content_roundtrip: "content_id (content_parse spec) = spec"
  by (auto simp: content_parse_def strip_suffix_Some_iff split: option.splits)

lemma same_as_refl: "same_as r r"
  by (simp add: same_as_def eq_ignore_ascii_case_def)

lemma same_as_sym: "same_as a b \<Longrightarrow> same_as b a"
  by (simp add: same_as_def eq_ignore_ascii_case_def)

lemma same_as_trans: "same_as a b \<Longrightarrow> same_as b c \<Longrightarrow> same_as a c"
  by (simp add: same_as_def eq_ignore_ascii_case_def)

lemma same_as_matches:
  "same_as a b \<Longrightarrow> rule_matches x t i a = rule_matches x t i b \<and> r_effect a = r_effect b"
  by (auto simp: same_as_def rule_matches_def eq_ignore_ascii_case_def)

text \<open>Two rules with the same identity are interchangeable: replacing one by the other anywhere in a
  rule set changes no verdict.\<close>

lemma same_as_interchangeable:
  assumes "same_as a b"
  shows "rules_evaluate x (pre @ a # post) t i = rules_evaluate x (pre @ b # post) t i"
proof -
  have "matched_effects x (pre @ a # post) t i = matched_effects x (pre @ b # post) t i"
    using same_as_matches [OF assms] by (simp add: matched_effects_def)
  then show ?thesis by (simp add: evaluate_matched)
qed


end
