(* ===== verification/Safety.thy ===== *)
theory Safety
  imports Readonly Rules
begin

text \<open>
  The bypass-immune safety check (\<open>safety.rs\<close>): the spellings a text is judged under, the protected
  names, and which of them the execution fence denies. A match position is given by the text before it
  and the text after it (\<open>match_indices\<close>, \<open>occurrences\<close> of the prelude).
\<close>

subsection \<open>Protected names\<close>

definition VERSION_CONTROL_DIR :: str where
  "VERSION_CONTROL_DIR = ''.git/''"

definition CONTROL_DIRS :: "str list" where
  "CONTROL_DIRS = [''.claude/'', ''.houyicoder/'', ''.agents/'']"

definition CONTROL_CHILDREN :: "str list" where
  "CONTROL_CHILDREN =
     [''settings.json'', ''settings.local.json'', ''permissions.json'', ''permissions.local.json'',
      ''skill-grants.json'', ''.credentials.json'', ''hooks'', ''skills'', ''commands'', ''agents'',
      ''plugins'', ''snapshots'']"

definition FENCE_DENIED_CHILDREN :: "(str \<times> str list) list" where
  "FENCE_DENIED_CHILDREN =
     [(''.houyicoder/'',
       [''.credentials.json'', ''permissions.json'', ''permissions.local.json'', ''settings.json'',
        ''settings.local.json'', ''skill-grants.json'', ''skills'', ''snapshots'']),
      (''.claude/'', [''.credentials.json'', ''settings.json'', ''settings.local.json'', ''skills'']),
      (''.agents/'', [''skills''])]"

definition FENCE_DENIED_GIT_PATH :: str where
  "FENCE_DENIED_GIT_PATH = ''.git/hooks''"

definition MEMORY_DIR :: str where
  "MEMORY_DIR = ''memory''"

definition INSTRUCTION_FILES :: "str list" where
  "INSTRUCTION_FILES = [''agents.md'', ''claude.md'', ''skill.md'']"

definition STARTUP_FILES :: "str list" where
  "STARTUP_FILES = [''.bashrc'', ''.bash_profile'', ''.zshrc'', ''.zprofile'', ''.profile'']"

subsection \<open>Spellings\<close>

fun collapse_parts :: "str list \<Rightarrow> str list \<Rightarrow> str list" where
  "collapse_parts [] kept = kept"
| "collapse_parts (part # ps) kept =
     (if part = [] \<or> part = ''.'' then collapse_parts ps kept
      else if part = ''..'' then collapse_parts ps (butlast kept)
      else collapse_parts ps (kept @ [part]))"

definition collapse_path_spelling :: "str \<Rightarrow> str" where
  "collapse_path_spelling t = str_join ''/'' (collapse_parts (split_any ''/'' t) [])"

definition is_quoting :: "char \<Rightarrow> bool" where
  "is_quoting c = (c = SQ \<or> c = DQ \<or> c = BSL)"

definition spellings :: "str \<Rightarrow> str list" where
  "spellings content =
     (let plain = to_ascii_lowercase (slashed content);
          unquoted = (if list_ex is_quoting content
                      then Some (to_ascii_lowercase (filter (\<lambda>c. \<not> is_quoting c) content)) else None);
          collapsed = collapse_path_spelling (case unquoted of Some u \<Rightarrow> u | None \<Rightarrow> plain);
          forms = (case unquoted of
                     Some u \<Rightarrow> if u = plain then [plain] else [plain, u]
                   | None \<Rightarrow> [plain])
      in if last forms = collapsed then forms else forms @ [collapsed])"

subsection \<open>Component boundaries\<close>

definition is_name_char :: "char \<Rightarrow> bool" where
  "is_name_char c = (is_ascii_alnum c \<or> c = CHR ''_'' \<or> c = CHR ''-'' \<or> c = CHR ''.'')"

definition bounded :: "char option \<Rightarrow> bool" where
  "bounded c = (case c of None \<Rightarrow> True | Some x \<Rightarrow> \<not> is_name_char x)"

definition option_prefix :: "str \<Rightarrow> bool" where
  "option_prefix before =
     (let r = rev before;
          word = takeWhile (\<lambda>c. is_ascii_alnum c \<or> c = CHR ''_'') r;
          rest = dropWhile (\<lambda>c. is_ascii_alnum c \<or> c = CHR ''_'') r
      in word \<noteq> [] \<and>
         (case rest of [] \<Rightarrow> False
          | d # front \<Rightarrow> d = CHR ''-'' \<and> bounded (first_char front)))"

definition starts_component :: "str \<Rightarrow> bool" where
  "starts_component before =
     (case last_char before of None \<Rightarrow> True
      | Some l \<Rightarrow> if \<not> is_name_char l then True else option_prefix before)"

definition under_child :: "str \<Rightarrow> str \<Rightarrow> bool" where
  "under_child rest child =
     (case strip_prefix child rest of None \<Rightarrow> False
      | Some after \<Rightarrow>
        (case after of [] \<Rightarrow> True | c # _ \<Rightarrow> c = CHR ''/'' \<or> \<not> is_name_char c))"

definition names_file :: "str \<Rightarrow> str \<Rightarrow> bool" where
  "names_file haystack name =
     list_ex (\<lambda>(before, after). bounded (last_char before) \<and> bounded (first_char after))
       (occurrences name haystack)"

definition under_memory :: "str \<Rightarrow> bool" where
  "under_memory rest =
     (if under_child rest MEMORY_DIR then True
      else (case strip_prefix ''projects/'' rest of None \<Rightarrow> False
            | Some nested \<Rightarrow>
              (case split_once ''/'' nested of
                 Some (project, target) \<Rightarrow> project \<noteq> [] \<and> under_child target MEMORY_DIR
               | None \<Rightarrow> False)))"

text \<open>Some occurrence of a directory name that starts a component, with what follows it.\<close>

definition at_component :: "str \<Rightarrow> (str \<Rightarrow> bool) \<Rightarrow> str \<Rightarrow> bool" where
  "at_component dir P lower =
     list_ex (\<lambda>(before, rest). starts_component before \<and> P rest) (match_indices dir lower)"

subsection \<open>Hits\<close>

definition control_hit_in :: "str \<Rightarrow> bool" where
  "control_hit_in lower =
     (at_component VERSION_CONTROL_DIR (\<lambda>_. True) lower \<or>
      list_ex (\<lambda>dir. at_component dir (\<lambda>rest. list_ex (under_child rest) CONTROL_CHILDREN) lower)
        CONTROL_DIRS)"

definition control_hit :: "str list \<Rightarrow> bool" where
  "control_hit forms = list_ex control_hit_in forms"

definition memory_hit :: "str list \<Rightarrow> bool" where
  "memory_hit forms =
     list_ex (\<lambda>lower. list_ex (\<lambda>dir. at_component dir under_memory lower) CONTROL_DIRS) forms"

definition instruction_hit :: "str list \<Rightarrow> bool" where
  "instruction_hit forms = list_ex (\<lambda>lower. list_ex (names_file lower) INSTRUCTION_FILES) forms"

definition startup_hit :: "str list \<Rightarrow> bool" where
  "startup_hit forms = list_ex (\<lambda>lower. list_ex (names_file lower) STARTUP_FILES) forms"

definition marker_hit :: "str \<Rightarrow> bool" where
  "marker_hit content =
     (let forms = spellings content in
      control_hit forms \<or> memory_hit forms \<or> instruction_hit forms \<or> startup_hit forms)"

definition reads_only :: "str \<Rightarrow> bool" where
  "reads_only content =
     (let segs = split_compound content in segs \<noteq> [] \<and> is_readonly_compound segs)"

definition safety_check :: "externals \<Rightarrow> str \<Rightarrow> json option \<Rightarrow> effect option" where
  "safety_check x tool_name input =
     (let raw = input_content x tool_name input in
      if raw = [] then None
      else (let shell = is_shell_tool tool_name;
                content = (if shell then strip_quoted_heredoc_bodies raw else raw);
                forms = spellings content
            in if control_hit forms \<or> startup_hit forms then Some E_Ask
               else if (instruction_hit forms \<or> memory_hit forms) \<and> \<not> (shell \<and> reads_only content)
               then Some E_Ask
               else None))"

subsection \<open>What the fence denies\<close>

definition fence_denied_child :: "str \<Rightarrow> str \<Rightarrow> bool" where
  "fence_denied_child dir child =
     list_ex (\<lambda>(denied_dir, children). denied_dir = dir \<and> List.member children child)
       FENCE_DENIED_CHILDREN"

definition fence_denied_path :: "str \<Rightarrow> bool" where
  "fence_denied_path content =
     list_ex (\<lambda>lower.
         at_component FENCE_DENIED_GIT_PATH (\<lambda>_. True) lower \<or>
         list_ex (\<lambda>(dir, children). at_component dir (\<lambda>rest. list_ex (under_child rest) children) lower)
           FENCE_DENIED_CHILDREN)
       (spellings content)"

definition control_hit_outside_fence :: "str list \<Rightarrow> bool" where
  "control_hit_outside_fence forms =
     list_ex (\<lambda>lower.
         at_component VERSION_CONTROL_DIR (\<lambda>rest. \<not> under_child rest ''hooks'') lower \<or>
         list_ex (\<lambda>dir. at_component dir (\<lambda>rest.
             list_ex (\<lambda>child. under_child rest child \<and> \<not> fence_denied_child dir child)
               CONTROL_CHILDREN) lower) CONTROL_DIRS)
       forms"

definition fence_covers_all_hits :: "str \<Rightarrow> bool" where
  "fence_covers_all_hits content =
     (let forms = spellings content in
      list_ex fence_denied_path forms \<and>
      \<not> (instruction_hit forms \<or> memory_hit forms \<or> startup_hit forms) \<and>
      \<not> control_hit_outside_fence forms)"

subsection \<open>Every spelling of a version-control path is found\<close>

text \<open>A pattern no proper end of which is one of its beginnings occurs without overlaps, so the matches
  found from the left are all its occurrences.\<close>

definition borderless :: "str \<Rightarrow> bool" where
  "borderless p = (p \<noteq> [] \<and> list_all (\<lambda>k. drop k p \<noteq> take (length p - k) p) [1..<length p])"

lemma match_indices_complete:
  assumes "borderless p" "s = a @ p @ r"
  shows "(before @ a, r) \<in> set (match_indices_from p before s)"
  using assms(2)
proof (induction "length s" arbitrary: s a before rule: less_induct)
  case less
  have p: "p \<noteq> []" using assms(1) by (simp add: borderless_def)
  then have "s \<noteq> []" using less.prems by simp
  then obtain c cs where s: "s = c # cs" by (meson neq_Nil_conv)
  show ?case
  proof (cases "strip_prefix p s")
    case None
    have "a \<noteq> []"
    proof
      assume "a = []"
      then have "strip_prefix p s = Some r" using less.prems by (simp add: strip_prefix_Some_iff)
      with None show False by simp
    qed
    then obtain a' where a: "a = c # a'" "cs = a' @ p @ r" using less.prems s by (cases a) auto
    then have "((before @ [c]) @ a', r) \<in> set (match_indices_from p (before @ [c]) cs)"
      using less.hyps [of cs a' "before @ [c]"] s by simp
    then show ?thesis using None s a by (subst match_indices_from.simps) simp
  next
    case (Some r')
    then have pr: "p @ r' = a @ p @ r" using less.prems by (simp add: strip_prefix_Some_iff)
    have eq: "match_indices_from p before s = (before, r') # match_indices_from p (before @ p) r'"
      using Some s p by (subst match_indices_from.simps) simp
    show ?thesis
    proof (cases "a = []")
      case True
      then show ?thesis using pr eq by simp
    next
      case False
      have "\<not> length a < length p"
      proof
        assume lt: "length a < length p"
        have "drop (length a) p = take (length p - length a) (drop (length a) (p @ r'))" using lt by simp
        also have "\<dots> = take (length p - length a) p" unfolding pr by simp
        finally show False
          using assms(1) lt False by (auto simp: borderless_def list_all_iff Suc_le_eq)
      qed
      then obtain a' where a: "a = p @ a'" "r' = a' @ p @ r"
        using pr by (metis append.assoc append_eq_append_conv_if append_take_drop_id not_less append_same_eq same_append_eq)
      moreover have "length r' < length s" using less.prems pr p by (metis length_append less_add_same_cancel2 length_greater_0_conv)
      ultimately have "((before @ p) @ a', r) \<in> set (match_indices_from p (before @ p) r')"
        using less.hyps [of r' a' "before @ p"] by simp
      then show ?thesis using eq a by simp
    qed
  qed
qed

lemma control_hit_git:
  assumes "to_ascii_lowercase (slashed d) = ''.git/''" and "a = [] \<or> last a = CHR ''/''"
  shows "control_hit (spellings (a @ d @ b))"
proof -
  let ?low = "\<lambda>s. to_ascii_lowercase (slashed s)"
  have low: "?low (a @ d @ b) = ?low a @ ''.git/'' @ ?low b"
    using assms(1) by (simp add: slashed_def to_ascii_lowercase_def)
  have "borderless ''.git/''" by code_simp
  from match_indices_complete [OF this low, of "[]"]
  have "(?low a, ?low b) \<in> set (match_indices VERSION_CONTROL_DIR (?low (a @ d @ b)))"
    by (simp add: match_indices_def VERSION_CONTROL_DIR_def)
  moreover have "starts_component (?low a)"
  proof (cases a rule: rev_cases)
    case Nil
    then show ?thesis by (simp add: starts_component_def slashed_def to_ascii_lowercase_def last_char_def)
  next
    case (snoc a' c)
    then have c: "c = CHR ''/''" using assms(2) by simp
    have "last_char (?low a) = Some (CHR ''/'')"
      by (simp add: snoc c slashed_def to_ascii_lowercase_def last_char_def lower_char_def is_ascii_upper_def code_of_def)
    moreover have "\<not> is_name_char (CHR ''/'')" by code_simp
    ultimately show ?thesis by (simp add: starts_component_def)
  qed
  ultimately have "control_hit_in (?low (a @ d @ b))"
    by (auto simp: control_hit_in_def at_component_def list_ex_iff)
  moreover have "?low (a @ d @ b) \<in> set (spellings (a @ d @ b))"
    by (auto simp: spellings_def Let_def split: option.splits)
  ultimately show ?thesis by (auto simp: control_hit_def list_ex_iff)
qed

end
