(* ===== verification/Effect_Check.thy ===== *)
theory Effect_Check
  imports Detect Safety
begin

text \<open>
  Effect checks of a compound command (\<open>compound/effect.rs\<close>): whether it only writes or removes paths
  inside the session's temporary directory, and whether a command that names a protected path only
  reads it.
\<close>

subsection \<open>Words and environment\<close>

definition MAX_DEPTH :: nat where
  "MAX_DEPTH = 4"

definition DANGEROUS_ENV_NAMES :: "str list" where
  "DANGEROUS_ENV_NAMES =
     [''TMPDIR'', ''TMPPREFIX'', ''PATH'', ''IFS'', ''BASH_ENV'', ''ENV'', ''CDPATH'', ''GLOBIGNORE'',
      ''SHELLOPTS'', ''BASHOPTS'']"

definition is_dangerous_env_name :: "str \<Rightarrow> bool" where
  "is_dangerous_env_name name =
     (List.member DANGEROUS_ENV_NAMES name \<or> starts_with ''LD_'' name \<or> starts_with ''DYLD_'' name
      \<or> starts_with ''GIT_'' name)"

definition SUPPORTED_EFFECT_COMMANDS :: "str list" where
  "SUPPORTED_EFFECT_COMMANDS =
     [''basename'', ''cargo'', ''cat'', ''cd'', ''cp'', ''cut'', ''df'', ''diff'', ''dirname'', ''du'',
      ''echo'', ''false'', ''file'', ''find'', ''git'', ''grep'', ''head'', ''jq'', ''ls'', ''make'',
      ''mkdir'', ''nohup'', ''pwd'', ''realpath'', ''rg'', ''rm'', ''rmdir'', ''sed'', ''sleep'',
      ''sort'', ''stat'', ''strings'', ''tail'', ''touch'', ''tr'', ''true'', ''uniq'', ''wc'',
      ''which'']"

definition first_command_word :: "str \<Rightarrow> str option" where
  "first_command_word segment =
     find (\<lambda>w. w \<noteq> [] \<and> \<not> is_shell_control_keyword w)
       (map decode_token (filter (\<lambda>w. \<not> is_env_assignment w) (split_whitespace segment)))"

definition is_assignment_word :: "str \<Rightarrow> bool" where
  "is_assignment_word word =
     (case split_once ''='' word of None \<Rightarrow> False
      | Some (name, _) \<Rightarrow>
        (case name of [] \<Rightarrow> False
         | c # _ \<Rightarrow> (is_ascii_alpha c \<or> c = CHR ''_'') \<and> list_all ident_char name))"

definition command_word :: "str \<Rightarrow> str option" where
  "command_word segment =
     find (\<lambda>w. w \<noteq> [] \<and> \<not> is_shell_control_keyword w \<and> \<not> is_assignment_word w)
       (map decode_token (split_whitespace segment))"

definition starts_with_supported_command :: "str \<Rightarrow> bool" where
  "starts_with_supported_command segment =
     (case command_word segment of None \<Rightarrow> False
      | Some w \<Rightarrow> List.member SUPPORTED_EFFECT_COMMANDS w)"

fun leading_env_dangerous :: "str list \<Rightarrow> bool" where
  "leading_env_dangerous [] = False"
| "leading_env_dangerous (word # ws) =
     (case split_once ''='' word of None \<Rightarrow> False
      | Some (raw_name, _) \<Rightarrow>
          if starts_char (CHR ''-'') raw_name then False
          else if is_dangerous_env_name (decode_token raw_name) then True
          else leading_env_dangerous ws)"

definition rebinding_command :: "str \<Rightarrow> bool" where
  "rebinding_command w =
     List.member [''ln'', ''pushd'', ''popd'', ''chroot'', ''builtin'', ''command'', ''read'', ''eval'',
       ''source'', ''.'', ''export'', ''declare'', ''typeset'', ''local'', ''unset''] w"

definition segment_sets_tmpdir :: "str \<Rightarrow> bool" where
  "segment_sets_tmpdir seg =
     (let first = (case first_command_word seg of Some w \<Rightarrow> w | None \<Rightarrow> []) in
      leading_env_dangerous (split_whitespace seg) \<or> rebinding_command first \<or>
      first = ''printf'' \<and>
        list_ex (\<lambda>w. starts_with ''-v'' (decode_token w)) (drop 1 (split_whitespace seg)))"

definition rebinds_var :: "str \<times> str \<Rightarrow> bool" where
  "rebinds_var = (\<lambda>(before, after).
     if ends_with ''environ['' before then False
     else if ends_with ''${'' before then \<not> starts_char (CHR ''}'') after
     else if ends_with ''$'' before
       then starts_char (CHR ''='') after \<or> starts_char (CHR ''['') after
     else True)"

definition sets_tmpdir :: "str \<Rightarrow> bool" where
  "sets_tmpdir command =
     (str_contains ''+='' command \<or>
      list_ex segment_sets_tmpdir (split_compound command) \<or>
      (let squashed = filter (\<lambda>c. c \<noteq> SQ \<and> c \<noteq> DQ \<and> c \<noteq> BSL) command in
       list_ex (\<lambda>var. list_ex rebinds_var (match_indices var squashed)) [''TMPDIR'', ''TMPPREFIX'']))"

subsection \<open>Targets\<close>

definition strip_any_prefix :: "str list \<Rightarrow> str \<Rightarrow> str option" where
  "strip_any_prefix ps s =
     (case List.map_filter (\<lambda>p. strip_prefix p s) ps of [] \<Rightarrow> None | r # _ \<Rightarrow> Some r)"

definition is_single_temp_child :: "str \<Rightarrow> bool" where
  "is_single_temp_child child =
     (child \<noteq> [] \<and> child \<noteq> ''.'' \<and> child \<noteq> ''..''
      \<and> \<not> contains_any (''/*?[]$'' @ [BTK] @ ''()'' @ [BSL]) child)"

definition is_temp_delete_target :: "str \<Rightarrow> bool" where
  "is_temp_delete_target target =
     (\<not> marker_hit target \<and>
      (case strip_any_prefix [''$TMPDIR/'', ''${TMPDIR}/''] target of None \<Rightarrow> False
       | Some child \<Rightarrow> is_single_temp_child child))"

definition is_temp_output_target :: "str \<Rightarrow> bool" where
  "is_temp_output_target target =
     (\<not> marker_hit target \<and>
      (case strip_any_prefix [''$TMPDIR/'', ''${TMPDIR}/'', ''/tmp/'', ''/private/tmp/''] target of
         None \<Rightarrow> False
       | Some child \<Rightarrow> is_single_temp_child child))"

definition is_safe_workspace_redirect_target :: "str \<Rightarrow> bool" where
  "is_safe_workspace_redirect_target target =
     (\<not> marker_hit target \<and> target \<noteq> [] \<and> \<not> starts_char (CHR ''/'') target
      \<and> \<not> starts_char (CHR ''~'') target \<and> \<not> str_contains ''..'' target
      \<and> \<not> contains_any (''*?[]$'' @ [BTK] @ ''()'' @ [BSL]) target)"

definition copy_destination_is_safe :: "str \<Rightarrow> bool" where
  "copy_destination_is_safe segment =
     (let ws = filter (\<lambda>w. w \<noteq> [] \<and> \<not> starts_char (CHR ''-'') w)
                 (map strip_quotes
                   (filter (\<lambda>t. \<not> is_env_assignment t) (drop 1 (split_whitespace segment))))
      in ws \<noteq> [] \<and> (is_temp_output_target (last ws) \<or> is_safe_workspace_redirect_target (last ws)))"

definition is_safe_input_redirect :: "str \<Rightarrow> bool" where
  "is_safe_input_redirect target =
     (target \<noteq> [] \<and> \<not> starts_with ''/etc/'' target \<and> \<not> starts_with ''/private/etc/'' target
      \<and> \<not> str_contains ''..'' target \<and> \<not> contains_char (CHR ''$'') target
      \<and> \<not> contains_char BTK target \<and> \<not> contains_char (CHR ''('') target \<and> \<not> marker_hit target)"

subsection \<open>The segment scan\<close>

definition redirect_stop :: "char \<Rightarrow> bool" where
  "redirect_stop c = List.member ([SPC, TAB, NL, CR] @ '';|&)'') c"

definition read_redirect_token :: "str \<Rightarrow> (str \<times> str) option" where
  "read_redirect_token s =
     (case skip_blanks s of [] \<Rightarrow> None
      | q # body \<Rightarrow>
        if q = DQ \<or> q = SQ then
          (case dropWhile (\<lambda>x. x \<noteq> q) body of [] \<Rightarrow> None
           | _ # rest \<Rightarrow>
               if (case rest of [] \<Rightarrow> True | c # _ \<Rightarrow> redirect_stop c)
               then Some (takeWhile (\<lambda>x. x \<noteq> q) body, rest) else None)
        else (let stop = (\<lambda>c. redirect_stop c \<or> c = CHR ''<'' \<or> c = CHR ''>'');
                  tok = takeWhile (\<lambda>c. \<not> stop c) (q # body)
              in if list_ex (\<lambda>c. c = DQ \<or> c = SQ) tok \<or> tok = [] then None
                 else Some (tok, dropWhile (\<lambda>c. \<not> stop c) (q # body))))"

definition scan_redirect_at :: "str \<Rightarrow> str option" where
  "scan_redirect_at s =
     (let cs = drop 1 s in
      if starts_char (CHR ''<'') s \<and> starts_char (CHR ''<'') cs then
        (case first_char (drop 1 cs) of
           Some a \<Rightarrow> if List.member [SQ, DQ, CHR ''-'', BSL] a then Some (drop 1 cs) else None
         | None \<Rightarrow> None)
      else (case read_redirect_token cs of None \<Rightarrow> None
            | Some (target, rest) \<Rightarrow> if is_safe_input_redirect target then Some rest else None))"

lemma read_redirect_token_le: "read_redirect_token s = Some (t, r) \<Longrightarrow> length r \<le> length s"
proof -
  assume some: "read_redirect_token s = Some (t, r)"
  then obtain q body where s: "skip_blanks s = q # body"
    by (auto simp: read_redirect_token_def split: list.splits)
  have "(\<exists>x P. dropWhile P body = x # r) \<or> (\<exists>P. r = dropWhile P (q # body))"
    using some unfolding read_redirect_token_def s Let_def
    by (simp split: if_splits list.splits del: dropWhile.simps) blast+
  moreover have "length (dropWhile P (q # body)) \<le> length (q # body)" for P
    by (rule length_dropWhile_le)
  ultimately have "length r \<le> length (q # body)"
    by (auto simp del: dropWhile.simps dest!: dropWhile_shorter)
  then show ?thesis using skip_blanks_length [of s] s by simp
qed

lemma scan_redirect_at_le: "scan_redirect_at (c # cs) = Some r \<Longrightarrow> length r \<le> length cs"
  by (auto simp: scan_redirect_at_def Let_def split: if_splits option.splits
      dest!: read_redirect_token_le)

text \<open>The bodies nested in a segment, or \<open>None\<close> where the segment is refused; \<open>may_write\<close> is
  \<open>fenced && preceding_supported\<close>.\<close>

function effect_scan :: "bool \<Rightarrow> str \<Rightarrow> bool \<Rightarrow> bool \<Rightarrow> str list option" where
  "effect_scan may_write [] in_single in_double = Some []"
| "effect_scan may_write (c # cs) in_single in_double =
     (if c = SQ \<and> \<not> in_double then effect_scan may_write cs (\<not> in_single) in_double
      else if c = DQ \<and> \<not> in_single then effect_scan may_write cs in_single (\<not> in_double)
      else if in_single then effect_scan may_write cs in_single in_double
      else if in_double \<and> c = BSL then effect_scan may_write (drop 1 cs) in_single in_double
      else if c = BTK then None
      else if c = CHR ''$'' \<and> starts_char (CHR ''{'') cs \<and> \<not> starts_with ''${TMPDIR}'' (c # cs) then None
      else if c = CHR ''$'' \<and> starts_char (CHR ''('') cs
           \<or> (c = CHR ''<'' \<or> c = CHR ''>'') \<and> starts_char (CHR ''('') cs \<and> \<not> in_double then
        (case find_matching_paren cs of None \<Rightarrow> None
         | Some (inner, rest) \<Rightarrow>
             map_option ((#) (tl inner)) (effect_scan may_write rest in_single in_double))
      else if in_double then effect_scan may_write cs in_single in_double
      else if c = CHR ''('' then
        (case find_matching_paren (c # cs) of None \<Rightarrow> None
         | Some (inner, rest) \<Rightarrow>
             map_option ((#) (tl inner)) (effect_scan may_write rest in_single in_double))
      else if c = CHR ''>'' then
        (if \<not> may_write then None
         else (case read_redirect_token (if starts_char (CHR ''>'') cs then drop 1 cs else cs) of
                 None \<Rightarrow> None
               | Some (target, rest) \<Rightarrow>
                   if is_temp_output_target target \<or> is_safe_workspace_redirect_target target
                   then effect_scan may_write rest in_single in_double else None))
      else if c = CHR ''<'' then
        (case scan_redirect_at (c # cs) of None \<Rightarrow> None
         | Some rest \<Rightarrow> effect_scan may_write rest in_single in_double)
      else effect_scan may_write cs in_single in_double)"
  by pat_completeness auto

lemma find_matching_paren_shorter: "find_matching_paren s = Some (i, r) \<Longrightarrow> length r < length s"
  by (auto simp: find_matching_paren_def dest: paren_scan_shorter)

lemma effect_scan_shorter:
  "length (drop (Suc 0) cs) < length cs + Suc 0"
  "find_matching_paren cs = Some z \<Longrightarrow> (x, y) = z \<Longrightarrow> length y < length cs + Suc 0"
  "find_matching_paren (c # cs) = Some z \<Longrightarrow> (x, y) = z \<Longrightarrow> length y < length cs + Suc 0"
  "read_redirect_token (if b then drop (Suc 0) cs else cs) = Some z \<Longrightarrow> (x, y) = z \<Longrightarrow>
     length y < length cs + Suc 0"
  "scan_redirect_at (c # cs) = Some r \<Longrightarrow> length r < length cs + Suc 0"
  by (auto simp: less_Suc_eq_le split: if_splits
      dest!: find_matching_paren_shorter read_redirect_token_le scan_redirect_at_le)

termination effect_scan
  apply (relation "measure (\<lambda>(_, s, _). length s)")
  apply (rule wf_measure)
  apply (simp_all only: in_measure prod.case list.size One_nat_def)
  apply (rule effect_scan_shorter; assumption)+
  done

declare effect_scan.simps [simp del]

subsection \<open>Compounds\<close>

text \<open>The loop over the segments, given the check of a nested body at the next depth: \<open>inner\<close> says that
  the compound is itself nested, \<open>supported\<close> is \<open>preceding_supported\<close>.\<close>

definition segment_effect_safe :: "(str \<Rightarrow> bool) \<Rightarrow> bool \<Rightarrow> bool \<Rightarrow> str \<Rightarrow> bool" where
  "segment_effect_safe body_ok fenced supported segment =
     (let cleaned = strip_safe_redirects segment in
      first_command_word cleaned \<noteq> Some ''eval'' \<and>
      (first_command_word cleaned = Some ''cp'' \<longrightarrow> copy_destination_is_safe cleaned) \<and>
      (case effect_scan (fenced \<and> supported) cleaned False False of
         None \<Rightarrow> False
       | Some nested \<Rightarrow> list_all body_ok nested))"

fun segments_effect_safe :: "(str \<Rightarrow> bool) \<Rightarrow> bool \<Rightarrow> bool \<Rightarrow> bool \<Rightarrow> str list \<Rightarrow> bool" where
  "segments_effect_safe body_ok inner fenced supported [] = True"
| "segments_effect_safe body_ok inner fenced supported (s # ss) =
     (\<not> (inner \<and> (should_ask_egress ''bash'' s \<or> should_ask_before_git ''bash'' s \<noteq> None)) \<and>
      segment_effect_safe body_ok fenced supported s \<and>
      segments_effect_safe body_ok inner fenced (supported \<and> starts_with_supported_command s) ss)"

fun check_compound_depth :: "nat \<Rightarrow> bool \<Rightarrow> str \<Rightarrow> bool" where
  "check_compound_depth 0 fenced command = False"
| "check_compound_depth (Suc d) fenced command =
     (quotes_balanced command \<and>
      (let segments = split_compound command in
       segments \<noteq> [] \<and>
       segments_effect_safe (check_compound_depth d fenced) (Suc d < MAX_DEPTH) fenced True segments))"

definition is_effect_safe :: "str \<Rightarrow> bool \<Rightarrow> bool" where
  "is_effect_safe command fenced =
     (let stripped = strip_quoted_heredoc_bodies command in
      \<not> sets_tmpdir stripped \<and> check_compound_depth MAX_DEPTH fenced stripped)"

subsection \<open>Removals\<close>

definition cd_target :: "str \<Rightarrow> str option" where
  "cd_target segment =
     (case split_whitespace segment of
        [mv, dir] \<Rightarrow> if mv = ''cd'' then Some (strip_quotes dir) else None
      | _ \<Rightarrow> None)"

definition is_temp_root :: "str \<Rightarrow> bool" where
  "is_temp_root dir = (dir = ''$TMPDIR'' \<or> dir = ''${TMPDIR}'')"

definition is_rm_segment :: "str \<Rightarrow> bool" where
  "is_rm_segment segment = (first_command_word segment = Some ''rm'')"

fun rm_operands_temp :: "bool \<Rightarrow> str list \<Rightarrow> bool \<Rightarrow> bool" where
  "rm_operands_temp cwd_in_temp [] saw_target = saw_target"
| "rm_operands_temp cwd_in_temp (token # toks) saw_target =
     (if is_env_assignment token then False
      else (let word = strip_quotes token in
        if word = [] \<or> word = ''--'' \<or> starts_char (CHR ''-'') word
        then rm_operands_temp cwd_in_temp toks saw_target
        else if is_temp_delete_target word \<or> cwd_in_temp \<and> is_single_temp_child word
        then rm_operands_temp cwd_in_temp toks True
        else False))"

definition rm_targets_are_temp :: "str \<Rightarrow> bool \<Rightarrow> bool" where
  "rm_targets_are_temp segment cwd_in_temp =
     rm_operands_temp cwd_in_temp (drop 1 (split_whitespace (strip_safe_redirects segment))) False"

fun removes_loop :: "str list \<Rightarrow> bool \<Rightarrow> bool \<Rightarrow> bool \<Rightarrow> bool" where
  "removes_loop [] saw_rm supported cwd_in_temp = saw_rm"
| "removes_loop (s # ss) saw_rm supported cwd_in_temp =
     (let cwd = (case cd_target s of Some dir \<Rightarrow> is_temp_root dir | None \<Rightarrow> cwd_in_temp) in
      if is_rm_segment s \<and> (\<not> supported \<or> \<not> rm_targets_are_temp s cwd) then False
      else removes_loop ss (saw_rm \<or> is_rm_segment s)
             (supported \<and> starts_with_supported_command s) cwd)"

definition removes_only_temp :: "str \<Rightarrow> bool \<Rightarrow> bool" where
  "removes_only_temp command fenced =
     (fenced \<and>
      (let stripped = strip_quoted_heredoc_bodies command in
       \<not> sets_tmpdir stripped \<and> removes_loop (split_compound stripped) False True False))"

subsection \<open>Reading a protected path\<close>

definition decode_all :: "str list \<Rightarrow> str list option" where
  "decode_all ws = (if list_ex (\<lambda>w. decode_shell_word w = None) ws then None
                    else Some (List.map_filter decode_shell_word ws))"

definition is_readonly_protected_segment :: "str \<Rightarrow> bool" where
  "is_readonly_protected_segment segment =
     (let cleaned = strip_safe_redirects segment in
      is_attestable cleaned \<and>
      (case decode_all (filter (\<lambda>w. \<not> is_env_assignment w) (shell_word_spans cleaned)) of
         None \<Rightarrow> False
       | Some [] \<Rightarrow> False
       | Some (cmd # args) \<Rightarrow> command_reads_only cmd args cleaned False))"

definition reads_only_protected :: "str \<Rightarrow> bool" where
  "reads_only_protected command =
     (let segments = filter marker_hit (split_compound (strip_quoted_heredoc_bodies command)) in
      segments \<noteq> [] \<and> list_all is_readonly_protected_segment segments)"

end
