(* ===== verification/Egress.thy ===== *)
theory Egress
  imports Effect_Check
begin

text \<open>
  Network destinations (\<open>egress.rs\<close>, \<open>egress/formatter.rs\<close>): which origins a shell command reaches,
  whether they can be remembered for the session, and whether its output arguments stay inside the
  session's scratch space. The list of trusted hosts is the content of \<open>preapproved_hosts.json\<close>.
\<close>

subsection \<open>Formatters (egress/formatter.rs)\<close>

definition FORMATTER_MODULES :: "str list" where
  "FORMATTER_MODULES =
     [''base64'', ''collections'', ''csv'', ''datetime'', ''decimal'', ''difflib'', ''fractions'',
      ''functools'', ''hashlib'', ''itertools'', ''json'', ''math'', ''re'', ''statistics'', ''string'',
      ''sys'', ''textwrap'', ''time'', ''typing'', ''unicodedata'']"

definition FORMATTER_REFUSED :: "str list" where
  "FORMATTER_REFUSED =
     [''__bases__'', ''__class__'', ''__code__'', ''__dict__'', ''__getattribute__'', ''__getattr__'',
      ''__loader__'', ''__mro__'', ''__reduce__'', ''_getframe'', ''f_builtins'', ''f_globals'',
      ''func_globals'', ''load_module'', ''meta_path'', ''modules'', ''attrgetter'', ''methodcaller'',
      ''__builtins__'', ''__globals__'', ''__import__'', ''__subclasses__'', ''aiohttp'',
      ''breakpoint'', ''compile'', ''ctypes'', ''delattr'', ''eval'', ''exec'', ''ftplib'', ''getattr'',
      ''globals'', ''http'', ''httpx'', ''importlib'', ''input'', ''locals'', ''open'', ''os'',
      ''pathlib'', ''popen'', ''pty'', ''requests'', ''setattr'', ''shutil'', ''smtplib'', ''socket'',
      ''spawn'', ''subprocess'', ''system'', ''telnetlib'', ''tempfile'', ''urllib'', ''vars'']"

definition FORMATTER_SYS_ATTRS :: "str list" where
  "FORMATTER_SYS_ATTRS =
     [''argv'', ''maxsize'', ''stderr'', ''stdin'', ''stdout'', ''version'', ''version_info'']"

definition word_edge :: "char option \<Rightarrow> bool" where
  "word_edge c = (case c of None \<Rightarrow> True | Some x \<Rightarrow> \<not> ident_char x)"

definition names_word :: "str \<Rightarrow> str \<Rightarrow> bool" where
  "names_word haystack name =
     list_ex (\<lambda>(before, after). word_edge (last_char before) \<and> word_edge (first_char after))
       (occurrences name haystack)"

definition import_names_ok :: "str \<Rightarrow> bool" where
  "import_names_ok names =
     list_all (\<lambda>name. let path = (case split_whitespace name of [] \<Rightarrow> [] | w # _ \<Rightarrow> w) in
                     List.member FORMATTER_MODULES (takeWhile (\<lambda>c. c \<noteq> CHR ''.'') path))
       (split_any '','' names)"

definition imports_are_permitted :: "str \<Rightarrow> bool" where
  "imports_are_permitted code =
     list_all (\<lambda>st. let statement = trim st in
         case strip_prefix ''import '' statement of
           Some rest \<Rightarrow> import_names_ok rest
         | None \<Rightarrow> (case strip_prefix ''from '' statement of
                      Some rest \<Rightarrow> import_names_ok rest | None \<Rightarrow> True))
       (split_any ('';'' @ [NL]) code)"

function sys_attributes_are_permitted :: "str \<Rightarrow> bool" where
  "sys_attributes_are_permitted code =
     (case split_once ''sys.'' code of None \<Rightarrow> True
      | Some (_, rest) \<Rightarrow>
        (let attr = takeWhile ident_char rest in
         List.member FORMATTER_SYS_ATTRS attr \<and>
         sys_attributes_are_permitted (drop (max (length attr) 1) rest)))"
  by pat_completeness auto
termination
  by (relation "measure length") (auto dest!: split_once_Some)

declare sys_attributes_are_permitted.simps [simp del]

definition is_pure_formatter :: "str \<Rightarrow> bool" where
  "is_pure_formatter code =
     (let lower = to_ascii_lowercase code in
      \<not> list_ex (names_word lower) FORMATTER_REFUSED \<and>
      imports_are_permitted lower \<and> sys_attributes_are_permitted lower)"

subsection \<open>Flags\<close>

definition trusted_hosts :: "str list" where
  "trusted_hosts =
     [''platform.claude.com'', ''code.claude.com'', ''docs.anthropic.com'',
      ''platform.openai.com'', ''modelcontextprotocol.io'', ''agentskills.io'',
      ''doc.rust-lang.org'', ''docs.rs'', ''crates.io'', ''docs.python.org'', ''pypi.org'',
      ''en.cppreference.com'', ''docs.oracle.com'', ''learn.microsoft.com'',
      ''developer.mozilla.org'', ''go.dev'', ''pkg.go.dev'', ''www.php.net'', ''docs.swift.org'',
      ''kotlinlang.org'', ''ruby-doc.org'', ''www.typescriptlang.org'', ''docs.npmjs.com'',
      ''man7.org'', ''github.com'', ''api.github.com'', ''raw.githubusercontent.com'',
      ''gist.github.com'', ''arxiv.org'', ''export.arxiv.org'', ''openreview.net'',
      ''aclanthology.org'', ''dl.acm.org'', ''ieeexplore.ieee.org'', ''semanticscholar.org'',
      ''api.semanticscholar.org'', ''scholar.google.com'', ''patents.google.com'', ''react.dev'',
      ''angular.io'', ''vuejs.org'', ''nextjs.org'', ''expressjs.com'', ''nodejs.org'',
      ''bun.sh'', ''jquery.com'', ''getbootstrap.com'', ''tailwindcss.com'', ''d3js.org'',
      ''threejs.org'', ''redux.js.org'', ''webpack.js.org'', ''jestjs.io'', ''reactrouter.com'',
      ''docs.djangoproject.com'', ''flask.palletsprojects.com'', ''fastapi.tiangolo.com'',
      ''pandas.pydata.org'', ''numpy.org'', ''www.tensorflow.org'', ''pytorch.org'',
      ''scikit-learn.org'', ''matplotlib.org'', ''requests.readthedocs.io'', ''jupyter.org'',
      ''laravel.com'', ''symfony.com'', ''wordpress.org'', ''docs.spring.io'', ''hibernate.org'',
      ''tomcat.apache.org'', ''gradle.org'', ''maven.apache.org'', ''asp.net'',
      ''dotnet.microsoft.com'', ''nuget.org'', ''blazor.net'', ''reactnative.dev'',
      ''docs.flutter.dev'', ''developer.apple.com'', ''developer.android.com'', ''keras.io'',
      ''spark.apache.org'', ''huggingface.co'', ''www.kaggle.com'', ''www.mongodb.com'',
      ''redis.io'', ''www.postgresql.org'', ''dev.mysql.com'', ''www.sqlite.org'',
      ''graphql.org'', ''prisma.io'', ''docs.aws.amazon.com'', ''cloud.google.com'',
      ''kubernetes.io'', ''www.docker.com'', ''www.terraform.io'', ''www.ansible.com'',
      ''docs.netlify.com'', ''devcenter.heroku.com'', ''cypress.io'', ''selenium.dev'',
      ''docs.unity.com'', ''docs.unrealengine.com'', ''git-scm.com'', ''nginx.org'',
      ''httpd.apache.org'']"

definition EGRESS_TOOLS :: "str list" where
  "EGRESS_TOOLS = [''curl'', ''wget'']"

definition trusted_egress_scopes :: "str list" where
  "trusted_egress_scopes =
     concat (map (\<lambda>host. map (\<lambda>tool. tool @ '' https://'' @ host) EGRESS_TOOLS) trusted_hosts)"

definition ALLOWED_BOOL_LONG :: "str list" where
  "ALLOWED_BOOL_LONG =
     [''--silent'', ''--show-error'', ''--fail'', ''--fail-with-body'', ''--head'', ''--include'',
      ''--compressed'', ''--http1.1'', ''--http2'', ''--ipv4'', ''--ipv6'', ''--no-buffer'',
      ''--no-progress-meter'', ''--progress-bar'', ''--quiet'', ''--server-response'']"

definition ALLOWED_VALUE_LONG :: "str list" where
  "ALLOWED_VALUE_LONG =
     [''--max-time'', ''--connect-timeout'', ''--write-out'', ''--cacert'', ''--capath'',
      ''--user-agent'', ''--output'', ''--output-document'']"

definition ALLOWED_BOOL_SHORT :: str where
  "ALLOWED_BOOL_SHORT = ''sSfIiNq46v''"

definition ALLOWED_VALUE_SHORT :: str where
  "ALLOWED_VALUE_SHORT = ''mwAoO''"

definition carries_credential :: "str \<Rightarrow> bool" where
  "carries_credential v =
     (let lower = to_ascii_lowercase v in
      list_ex (\<lambda>w. str_contains w lower)
        [''authorization'', ''cookie'', ''token'', ''bearer'', ''api-key'', ''apikey''])"

definition header_refused :: "str \<Rightarrow> bool" where
  "header_refused v =
     (carries_credential v \<or> starts_char (CHR ''@'') v \<or> contains_any [CHR ''$'', BTK] v)"

definition is_safe_flag_value :: "str \<Rightarrow> str \<Rightarrow> bool" where
  "is_safe_flag_value flag v =
     (if v = [] \<or> contains_char BTK v \<or> str_contains ''$('' v then False
      else if flag = ''--write-out'' then
        \<not> starts_char (CHR ''@'') v \<and> \<not> contains_char (CHR ''$'') v
        \<and> \<not> str_contains ''%output'' (to_ascii_lowercase v)
      else if flag = ''--user-agent'' then \<not> contains_char (CHR ''$'') v
      else if flag = ''--output'' \<or> flag = ''--output-document'' then
        (if v = ''/dev/null'' \<or> v = ''-'' then True
         else (case strip_any_prefix [''$TMPDIR/'', ''${TMPDIR}/''] v of None \<Rightarrow> False
               | Some s \<Rightarrow> s \<noteq> [] \<and> s \<noteq> ''.'' \<and> s \<noteq> ''..''
                           \<and> \<not> contains_any (''/*?[$'' @ [BTK] @ ''('') s))
      else True)"

definition http_origin :: "str \<Rightarrow> str option" where
  "http_origin url =
     (if contains_any [CHR ''$'', BTK, BSL, DQ, SQ] url then None
      else Option.bind (split_once ''://'' url) (\<lambda>(scheme0, rest).
        let scheme = to_ascii_lowercase scheme0;
            authority = takeWhile (\<lambda>c. \<not> List.member ''/?#'' c) rest;
            hp = (case rsplit_once '':'' authority of
                    Some (h, p) \<Rightarrow> if list_all is_ascii_digit p then (h, Some p) else (authority, None)
                  | None \<Rightarrow> (authority, None));
            default_port = (if scheme = ''https'' then ''443'' else ''80'')
        in if scheme \<noteq> ''http'' \<and> scheme \<noteq> ''https'' then None
           else if authority = [] \<or> contains_char (CHR ''@'') authority then None
           else if fst hp = [] then None
           else (case snd hp of
                   Some p \<Rightarrow> if p \<noteq> default_port then Some (scheme @ ''://'' @ fst hp @ '':'' @ p)
                             else Some (scheme @ ''://'' @ fst hp)
                 | None \<Rightarrow> Some (scheme @ ''://'' @ fst hp))))"

text \<open>The value of a flag: attached, or the next argument; \<open>None\<close> when there is none.\<close>

definition flag_value :: "str option \<Rightarrow> str list \<Rightarrow> (str \<times> str list) option" where
  "flag_value inline_val rest =
     (case inline_val of
        Some v \<Rightarrow> Some (v, rest)
      | None \<Rightarrow> (case rest of [] \<Rightarrow> None | a # rest' \<Rightarrow> Some (strip_quotes a, rest')))"

definition short_flag_name :: "char \<Rightarrow> str" where
  "short_flag_name ch =
     (if ch = CHR ''o'' \<or> ch = CHR ''O'' then ''--output''
      else if ch = CHR ''w'' then ''--write-out''
      else if ch = CHR ''A'' then ''--user-agent'' else [])"

text \<open>One option of a request: the arguments left after it, or \<open>None\<close> where it is refused.\<close>

definition long_option :: "str \<Rightarrow> str list \<Rightarrow> str list option" where
  "long_option name rest =
     (let (flag_name, inline_val) =
            (case split_once ''='' name of
               Some (f, v) \<Rightarrow> (''--'' @ f, Some (strip_quotes v))
             | None \<Rightarrow> (''--'' @ name, None))
      in if List.member ALLOWED_BOOL_LONG flag_name then (if inline_val = None then Some rest else None)
         else if flag_name = ''--header'' then
           Option.bind (flag_value inline_val rest) (\<lambda>(v, rest').
             if header_refused v then None else Some rest')
         else if List.member ALLOWED_VALUE_LONG flag_name then
           Option.bind (flag_value inline_val rest) (\<lambda>(v, rest').
             if is_safe_flag_value flag_name v then Some rest' else None)
         else None)"

definition short_option :: "str \<Rightarrow> str list \<Rightarrow> str list option" where
  "short_option cluster rest =
     (case cluster of
        [ch] \<Rightarrow>
          if List.member ALLOWED_BOOL_SHORT ch then Some rest
          else if ch = CHR ''H'' then
            Option.bind (flag_value None rest) (\<lambda>(v, rest'). if header_refused v then None else Some rest')
          else if List.member ALLOWED_VALUE_SHORT ch then
            Option.bind (flag_value None rest) (\<lambda>(v, rest').
              if is_safe_flag_value (short_flag_name ch) v then Some rest' else None)
          else None
      | _ \<Rightarrow> if list_all (List.member ALLOWED_BOOL_SHORT) cluster then Some rest else None)"

lemma flag_value_le: "flag_value v rest = Some (x, r) \<Longrightarrow> length r \<le> length rest"
  by (auto simp: flag_value_def split: option.splits list.splits)

lemma long_option_le: "long_option n rest = Some r \<Longrightarrow> length r \<le> length rest"
  by (auto simp: long_option_def Let_def bind_eq_Some_conv split: if_splits prod.splits
      dest!: flag_value_le)

lemma short_option_le: "short_option c rest = Some r \<Longrightarrow> length r \<le> length rest"
  by (auto simp: short_option_def bind_eq_Some_conv split: if_splits list.splits dest!: flag_value_le)

function origin_loop :: "bool \<Rightarrow> str list \<Rightarrow> str list \<Rightarrow> str list option" where
  "origin_loop allow_multiple [] origins = (if origins = [] then None else Some origins)"
| "origin_loop allow_multiple (a # rest) origins =
     (let word = strip_quotes a in
      case strip_prefix ''--'' word of
        Some name \<Rightarrow>
          (case long_option name rest of None \<Rightarrow> None
           | Some rest' \<Rightarrow> origin_loop allow_multiple rest' origins)
      | None \<Rightarrow>
        (case (case strip_prefix ''-'' word of Some (c # cs) \<Rightarrow> Some (c # cs) | _ \<Rightarrow> None) of
           Some cluster \<Rightarrow>
             (case short_option cluster rest of None \<Rightarrow> None
              | Some rest' \<Rightarrow> origin_loop allow_multiple rest' origins)
         | None \<Rightarrow>
           (case http_origin word of None \<Rightarrow> None
            | Some found \<Rightarrow>
                if List.member origins found then origin_loop allow_multiple rest origins
                else if \<not> allow_multiple \<and> origins \<noteq> [] then None
                else origin_loop allow_multiple rest (origins @ [found]))))"
  by pat_completeness auto
termination
  by (relation "measure (\<lambda>(_, s, _). length s)")
     (auto simp: less_Suc_eq_le dest: long_option_le short_option_le)

declare origin_loop.simps [simp del]

definition literal_origin_list :: "str list \<Rightarrow> bool \<Rightarrow> str list option" where
  "literal_origin_list args allow_multiple = origin_loop allow_multiple args []"

subsection \<open>Clauses and words\<close>

text \<open>\<open>split_clauses\<close>: the variables of the loop as arguments, as in the splitter of the lexer; a clause
  keeps its pipeline together.\<close>

function clause_scan :: "str \<Rightarrow> str \<Rightarrow> bool \<Rightarrow> bool \<Rightarrow> nat \<Rightarrow> str list" where
  "clause_scan [] cur in_single in_double depth = push_seg cur"
| "clause_scan (c # cs) cur in_single in_double depth =
     (if c = SQ \<and> \<not> in_double then clause_scan cs (cur @ [c]) (\<not> in_single) in_double depth
      else if c = DQ \<and> \<not> in_single then clause_scan cs (cur @ [c]) in_single (\<not> in_double) depth
      else if in_single \<or> in_double then clause_scan cs (cur @ [c]) in_single in_double depth
      else if c = CHR ''('' then clause_scan cs (cur @ [c]) in_single in_double (Suc depth)
      else if c = CHR '')'' then clause_scan cs (cur @ [c]) in_single in_double (depth - 1)
      else if (c = CHR ''&'' \<or> c = CHR ''|'') \<and> depth = 0 \<and> starts_char c cs then
        push_seg cur @ clause_scan (drop 1 cs) [] in_single in_double depth
      else if c = CHR '';'' \<and> depth = 0 then push_seg cur @ clause_scan cs [] in_single in_double depth
      else clause_scan cs (cur @ [c]) in_single in_double depth)"
  by pat_completeness auto
termination
  by (relation "measure (\<lambda>(s, _). length s)") auto

declare clause_scan.simps [simp del]

definition split_clauses :: "str \<Rightarrow> str list" where
  "split_clauses command = clause_scan command [] False False 0"

definition push_word :: "str \<Rightarrow> str list" where
  "push_word cur = (if cur = [] then [] else [cur])"

fun words_scan :: "str \<Rightarrow> str \<Rightarrow> bool \<Rightarrow> bool \<Rightarrow> str list" where
  "words_scan [] cur in_single in_double = push_word cur"
| "words_scan (c # cs) cur in_single in_double =
     (if c = SQ \<and> \<not> in_double then words_scan cs (cur @ [c]) (\<not> in_single) in_double
      else if c = DQ \<and> \<not> in_single then words_scan cs (cur @ [c]) in_single (\<not> in_double)
      else if is_ws c \<and> \<not> in_single \<and> \<not> in_double then push_word cur @ words_scan cs [] in_single in_double
      else words_scan cs (cur @ [c]) in_single in_double)"

definition shell_words :: "str \<Rightarrow> str list" where
  "shell_words segment = words_scan segment [] False False"

subsection \<open>Output arguments\<close>

definition output_target_safe :: "str \<Rightarrow> bool \<Rightarrow> bool" where
  "output_target_safe v fenced = (v = ''/dev/null'' \<or> v = ''-'' \<or> fenced \<and> is_temp_output_target v)"

text \<open>The argument loop of one request: \<open>None\<close> where an output argument is refused, and otherwise
  whether the document's output is accounted for.\<close>

fun output_loop :: "str \<Rightarrow> bool \<Rightarrow> str list \<Rightarrow> bool \<Rightarrow> bool option" where
  "output_loop program allow_temp [] document_output = Some document_output"
| "output_loop program allow_temp (a # rest) document_output =
     (let w = strip_quotes a in
      case strip_any_prefix [''--output='', ''--output-document=''] w of
        Some val \<Rightarrow>
          if output_target_safe (strip_quotes val) allow_temp
          then output_loop program allow_temp rest True else None
      | None \<Rightarrow>
          if List.member [''-o'', ''-O'', ''--output'', ''--output-document''] w then
            (if program = ''curl'' \<and> w = ''-O'' then None
             else (let v = (case rest of [] \<Rightarrow> [] | n # _ \<Rightarrow> strip_quotes n) in
               if \<not> output_target_safe v allow_temp then None
               else if program = ''wget'' \<and> w = ''-o'' then
                 (if v \<noteq> ''/dev/null'' then None
                  else output_loop program allow_temp (drop 1 rest) document_output)
               else output_loop program allow_temp (drop 1 rest) True))
          else output_loop program allow_temp rest document_output)"

fun outputs_loop :: "bool \<Rightarrow> str list \<Rightarrow> bool \<Rightarrow> bool" where
  "outputs_loop can_use_temp [] supported = True"
| "outputs_loop can_use_temp (stage # stages) supported =
     (case shell_words (trim stage) of
        [] \<Rightarrow> outputs_loop can_use_temp stages supported
      | first # args \<Rightarrow>
        (let program = strip_quotes first in
         if \<not> List.member EGRESS_TOOLS program then
           outputs_loop can_use_temp stages (supported \<and> starts_with_supported_command stage)
         else output_loop program (can_use_temp \<and> supported) args (program = ''curl'') = Some True
              \<and> outputs_loop can_use_temp stages supported))"

definition egress_outputs_safe :: "str \<Rightarrow> bool \<Rightarrow> bool" where
  "egress_outputs_safe command fenced =
     outputs_loop (fenced \<and> \<not> sets_tmpdir command)
       (concat (map split_compound (split_clauses (normalize_shell_command command)))) True"

subsection \<open>Destinations\<close>

datatype egress_segment = Seg_Local | Seg_Refused | Seg_Scoped str "str list"

definition is_refused_egress_env :: "str \<Rightarrow> bool" where
  "is_refused_egress_env word =
     (case split_once ''='' (strip_quotes word) of None \<Rightarrow> False
      | Some (name, _) \<Rightarrow>
          List.member [''CURL_HOME'', ''HTTP_PROXY'', ''HTTPS_PROXY'', ''ALL_PROXY'', ''http_proxy'',
                       ''https_proxy'', ''all_proxy'', ''GIT_SSH_COMMAND''] name)"

definition allow_multi_origin_for :: "str \<Rightarrow> bool" where
  "allow_multi_origin_for program = (program = ''curl'' \<or> program = ''wget'')"

definition classify_segment :: "str \<Rightarrow> egress_segment" where
  "classify_segment segment =
     (let cleaned = strip_safe_redirects segment; words = shell_words cleaned in
      if list_ex is_refused_egress_env (takeWhile (\<lambda>w. contains_char (CHR ''='') w) words)
      then Seg_Refused
      else (case words of [] \<Rightarrow> Seg_Local
            | first # args \<Rightarrow>
              (let program = strip_quotes first in
               if \<not> List.member EGRESS_TOOLS program then
                 (if should_ask_egress ''bash'' cleaned then Seg_Refused else Seg_Local)
               else (case literal_origin_list args (allow_multi_origin_for program) of
                       Some origins \<Rightarrow> Seg_Scoped program origins
                     | None \<Rightarrow> Seg_Refused))))"

definition safe_pipe_consumer :: "str \<Rightarrow> bool \<Rightarrow> bool \<Rightarrow> bool" where
  "safe_pipe_consumer stage allow_effect_safe fenced =
     (if is_readonly_compound [stage] then True
      else if \<not> allow_effect_safe \<or> \<not> fenced \<or> should_ask_egress ''bash'' stage then False
      else if \<not> is_effect_safe stage fenced then False
      else (case interpreter_inline_code (trim stage) of Some code \<Rightarrow> is_pure_formatter code
            | None \<Rightarrow> False))"

definition add_scopes :: "str \<Rightarrow> str list \<Rightarrow> str list \<Rightarrow> str list" where
  "add_scopes program origins scopes =
     foldl (\<lambda>ss origin. let key = program @ '' '' @ origin in
              if List.member ss key then ss else ss @ [key]) scopes origins"

text \<open>The stages of one clause: \<open>later\<close> says that an earlier stage feeds this one.\<close>

fun stages_loop :: "bool \<Rightarrow> bool \<Rightarrow> bool \<Rightarrow> str list \<Rightarrow> bool \<Rightarrow> str list \<Rightarrow> str list option" where
  "stages_loop allow_effect_safe fenced piped [] later scopes = Some scopes"
| "stages_loop allow_effect_safe fenced piped (stage # rest) later scopes =
     (let trimmed = trim stage in
      if trimmed = [] then stages_loop allow_effect_safe fenced piped rest True scopes
      else if \<not> (is_attestable trimmed \<or> allow_effect_safe \<and> is_effect_safe trimmed fenced) then None
      else (case classify_segment trimmed of
              Seg_Local \<Rightarrow>
                if piped \<and> later \<and> \<not> safe_pipe_consumer trimmed allow_effect_safe fenced then None
                else stages_loop allow_effect_safe fenced piped rest True scopes
            | Seg_Refused \<Rightarrow> None
            | Seg_Scoped program origins \<Rightarrow>
                if piped \<and> \<not> list_all (\<lambda>s. safe_pipe_consumer s allow_effect_safe fenced) rest then None
                else stages_loop allow_effect_safe fenced piped rest True
                       (add_scopes program origins scopes)))"

fun clauses_loop :: "bool \<Rightarrow> bool \<Rightarrow> str list \<Rightarrow> str list \<Rightarrow> str list option" where
  "clauses_loop allow_effect_safe fenced [] scopes = Some scopes"
| "clauses_loop allow_effect_safe fenced (clause # rest) scopes =
     (let stages = split_compound clause in
      Option.bind (stages_loop allow_effect_safe fenced (1 < length stages) stages False scopes)
        (clauses_loop allow_effect_safe fenced rest))"

definition collect_egress_scopes :: "str \<Rightarrow> bool \<Rightarrow> bool \<Rightarrow> str list option" where
  "collect_egress_scopes command allow_effect_safe fenced =
     (case clauses_loop allow_effect_safe fenced (split_clauses (normalize_shell_command command)) [] of
        Some (s # ss) \<Rightarrow> Some (s # ss)
      | _ \<Rightarrow> None)"

definition egress_destination :: "str \<Rightarrow> str option" where
  "egress_destination command =
     (case collect_egress_scopes command False False of Some [d] \<Rightarrow> Some d | _ \<Rightarrow> None)"

definition egress_scope_list :: "str \<Rightarrow> bool \<Rightarrow> str list option" where
  "egress_scope_list command fenced = collect_egress_scopes command True fenced"

end
