(* ===== verification/Protected_Write.thy ===== *)
theory Protected_Write
  imports Safety
begin

text \<open>
  Whether a shell command writes a path the execution fence refuses
  (\<open>compound/protected_write.rs\<close>): output redirects, the operands a writing command writes, and
  scripts handed to an interpreter.
\<close>

definition WRITING_COMMANDS :: "str list" where
  "WRITING_COMMANDS =
     [''chgrp'', ''chmod'', ''chown'', ''mkdir'', ''mkfifo'', ''mv'', ''rm'', ''rmdir'', ''shred'',
      ''tee'', ''touch'', ''truncate'', ''unlink'']"

definition SCRIPT_RUNNERS :: "str list" where
  "SCRIPT_RUNNERS =
     [''bash'', ''dash'', ''node'', ''perl'', ''php'', ''python'', ''python3'', ''ruby'', ''sh'', ''zsh'']"

definition SCRIPT_WRITE_CALLS :: "str list" where
  "SCRIPT_WRITE_CALLS =
     [''.write_bytes('', ''.write_text('', ''os.chmod('', ''os.remove('', ''os.rename('',
      ''os.replace('', ''os.unlink('', ''shutil.move('', ''shutil.rmtree('']"

definition SCRIPT_COPY_CALLS :: "str list" where
  "SCRIPT_COPY_CALLS = [''shutil.copy('', ''shutil.copy2('', ''shutil.copyfile('']"

subsection \<open>Output redirects\<close>

definition word_stop :: "char \<Rightarrow> bool" where
  "word_stop c = (is_ws c \<or> List.member '';|&<>()'' c)"

function read_word :: "str \<Rightarrow> str \<times> str" where
  "read_word [] = ([], [])"
| "read_word (c # cs) =
     (if c = SQ \<or> c = DQ then
        (let body = takeWhile (\<lambda>x. x \<noteq> c) cs; rest = dropWhile (\<lambda>x. x \<noteq> c) cs in
         case read_word (drop 1 rest) of (w, r) \<Rightarrow> (c # body @ take 1 rest @ w, r))
      else if c = BSL then
        (case read_word (drop 1 cs) of (w, r) \<Rightarrow> (c # take 1 cs @ w, r))
      else if word_stop c then ([], c # cs)
      else (case read_word cs of (w, r) \<Rightarrow> (c # w, r)))"
  by pat_completeness auto

lemma drop_dropWhile_le: "length (drop 1 (dropWhile P s)) \<le> length s"
  using length_dropWhile_le [of P s] by (simp add: le_diff_conv le_SucI)

lemma length_dropWhile_Suc: "length (dropWhile P s) < Suc (Suc (length s))"
  using length_dropWhile_le [of P s] by linarith

termination read_word
  by (relation "measure length")
     (auto simp: less_Suc_eq_le length_dropWhile_Suc diff_le_self
       intro: le_trans [OF diff_le_self length_dropWhile_le])

lemma read_word_le: "length (snd (read_word s)) \<le> length s"
proof (induction s rule: length_induct)
  case (1 s)
  show ?case
  proof (cases s)
    case (Cons c cs)
    have IH: "length (snd (read_word r)) \<le> Suc (length cs)" if "length r \<le> length cs" for r
    proof -
      have "length r < length s" using that Cons by simp
      with "1.IH" have "length (snd (read_word r)) \<le> length r" by blast
      with that show ?thesis by linarith
    qed
    show ?thesis
      using IH [OF drop_dropWhile_le] IH [of cs] IH [of "drop 1 cs"]
      by (simp add: Cons Let_def split_def)
  qed simp
qed

definition after_redirect :: "str \<Rightarrow> str" where
  "after_redirect cs = skip_blanks (if starts_char (CHR ''>'') cs then drop 1 cs else cs)"

definition is_fd_copy :: "str \<Rightarrow> bool" where
  "is_fd_copy s =
     (case s of a # b # _ \<Rightarrow> a = CHR ''&'' \<and> (is_ascii_digit b \<or> b = CHR ''-'') | _ \<Rightarrow> False)"

definition skip_mark :: "char \<Rightarrow> str \<Rightarrow> str" where
  "skip_mark m s = (if starts_char m s then skip_blanks (drop 1 s) else s)"

lemma after_redirect_le: "length (after_redirect cs) \<le> length cs"
  using skip_blanks_length [of "drop 1 cs"] skip_blanks_length [of cs] by (auto simp: after_redirect_def)

lemma skip_mark_le: "length (skip_mark m s) \<le> length s"
  using skip_blanks_length [of "drop 1 s"] by (auto simp: skip_mark_def)

definition redirect_word :: "str \<Rightarrow> str \<times> str" where
  "redirect_word s = read_word (skip_mark (CHR ''|'') (skip_mark (CHR ''&'') s))"

lemma redirect_word_le: "length (snd (redirect_word s)) \<le> length s"
  unfolding redirect_word_def
  by (meson le_trans read_word_le skip_mark_le)

function output_redirect_targets :: "str \<Rightarrow> str list" where
  "output_redirect_targets [] = []"
| "output_redirect_targets (c # cs) =
     (if c = SQ \<or> c = DQ then output_redirect_targets (drop 1 (dropWhile (\<lambda>x. x \<noteq> c) cs))
      else if c = BSL then output_redirect_targets (drop 1 cs)
      else if c = CHR ''>'' \<and> \<not> starts_char (CHR ''('') cs then
        (let s = after_redirect cs in
         if is_fd_copy s then output_redirect_targets s
         else (let w = redirect_word s in
           (if fst w = [] then []
            else case decode_shell_word (fst w) of Some t \<Rightarrow> [t] | None \<Rightarrow> [])
           @ output_redirect_targets (snd w)))
      else output_redirect_targets cs)"
  by pat_completeness auto

lemma redirect_word_after_le: "length (snd (redirect_word (after_redirect cs))) \<le> length cs"
  by (meson le_trans redirect_word_le after_redirect_le)

termination output_redirect_targets
  by (relation "measure length")
     (auto simp: less_Suc_eq_le after_redirect_le redirect_word_after_le
       intro: le_trans [OF diff_le_self length_dropWhile_le])

declare output_redirect_targets.simps [simp del]

subsection \<open>Operands\<close>

type_synonym word_opt = "str option"

definition names_denied :: "word_opt \<Rightarrow> bool" where
  "names_denied word = (case word of Some w \<Rightarrow> fence_denied_path w | None \<Rightarrow> False)"

definition positional_words :: "str \<Rightarrow> word_opt list" where
  "positional_words segment =
     map decode_shell_word (filter (\<lambda>raw. \<not> is_env_assignment raw) (shell_word_spans segment))"

definition decoded_words :: "str \<Rightarrow> str list" where
  "decoded_words segment = List.map_filter id (positional_words segment)"

fun target_option :: "word_opt list \<Rightarrow> word_opt list option" where
  "target_option [] = None"
| "target_option (w # ws) =
     (if w = Some ''-t'' \<or> w = Some ''--target-directory'' then Some ws else target_option ws)"

definition destination :: "word_opt list \<Rightarrow> word_opt option" where
  "destination words =
     (case target_option words of
        Some rest \<Rightarrow> (case rest of [] \<Rightarrow> None | w # _ \<Rightarrow> Some w)
      | None \<Rightarrow>
          find (\<lambda>w. \<not> (case w of Some t \<Rightarrow> starts_char (CHR ''-'') t | None \<Rightarrow> False))
            (rev (drop 1 words)))"

definition TEXT_OPTIONS :: "str list" where
  "TEXT_OPTIONS = [''--expression'', ''--file'', ''-e'', ''-f'']"

record operands =
  op_names :: "word_opt list"
  op_text_from_option :: bool
  op_read_from_option :: bool

definition carries_attached_text :: "str \<Rightarrow> bool" where
  "carries_attached_text word =
     (case strip_prefix ''-'' word of None \<Rightarrow> False
      | Some rest \<Rightarrow> starts_char (CHR ''e'') rest \<or> starts_char (CHR ''f'') rest)"

fun scan_operands_loop :: "str list \<Rightarrow> word_opt list \<Rightarrow> bool \<Rightarrow> operands \<Rightarrow> operands" where
  "scan_operands_loop reads [] options_done ops = ops"
| "scan_operands_loop reads (w # ws) options_done ops =
     (case (if options_done then None else w) of
        None \<Rightarrow> scan_operands_loop reads ws options_done (ops\<lparr>op_names := op_names ops @ [w]\<rparr>)
      | Some t \<Rightarrow>
          if t = ''--'' then scan_operands_loop reads ws True ops
          else if List.member TEXT_OPTIONS t
            then scan_operands_loop reads (drop 1 ws) options_done (ops\<lparr>op_text_from_option := True\<rparr>)
          else if carries_attached_text t
            then scan_operands_loop reads ws options_done (ops\<lparr>op_text_from_option := True\<rparr>)
          else if List.member reads t
            then scan_operands_loop reads (drop 1 ws) options_done (ops\<lparr>op_read_from_option := True\<rparr>)
          else if list_ex (\<lambda>r. case strip_prefix r t of Some x \<Rightarrow> starts_char (CHR ''='') x | None \<Rightarrow> False)
                    reads
            then scan_operands_loop reads ws options_done (ops\<lparr>op_read_from_option := True\<rparr>)
          else if starts_char (CHR ''-'') t \<and> 1 < length t
            then scan_operands_loop reads ws options_done ops
          else scan_operands_loop reads ws options_done (ops\<lparr>op_names := op_names ops @ [w]\<rparr>))"

definition scan_operands :: "word_opt list \<Rightarrow> str list \<Rightarrow> operands" where
  "scan_operands words reads =
     scan_operands_loop reads (drop 1 words) False
       \<lparr>op_names = [], op_text_from_option = False, op_read_from_option = False\<rparr>"

definition short_cluster_rewrites_in_place :: "str \<Rightarrow> bool" where
  "short_cluster_rewrites_in_place word =
     (case strip_prefix ''-'' word of None \<Rightarrow> False
      | Some rest \<Rightarrow>
          rest \<noteq> [] \<and> \<not> starts_char (CHR ''-'') rest \<and>
          contains_char (CHR ''i'') (takeWhile (\<lambda>l. \<not> List.member ''efl'' l) rest))"

definition rewrites_in_place :: "word_opt list \<Rightarrow> bool" where
  "rewrites_in_place words =
     list_ex (\<lambda>w. case w of None \<Rightarrow> False
                | Some t \<Rightarrow> t = ''--in-place'' \<or> starts_with ''--in-place='' t
                            \<or> short_cluster_rewrites_in_place t) (drop 1 words)"

definition names_after :: "bool \<Rightarrow> word_opt list \<Rightarrow> word_opt list" where
  "names_after keep names = (if keep then names else drop 1 names)"

definition segment_writes_denied_path :: "str \<Rightarrow> bool" where
  "segment_writes_denied_path segment =
     (list_ex fence_denied_path (output_redirect_targets segment) \<or>
      (let words = positional_words segment in
       case words of
         Some command # args \<Rightarrow>
           if List.member [''cp'', ''install'', ''ln''] command then
             (case destination words of Some w \<Rightarrow> names_denied w | None \<Rightarrow> False)
           else if command = ''mv'' then list_ex names_denied args
           else if command = ''dd'' then
             list_ex (\<lambda>w. case Option.bind w (strip_prefix ''of='') of
                            Some t \<Rightarrow> fence_denied_path t | None \<Rightarrow> False) words
           else if List.member [''sed'', ''perl'', ''ruby''] command \<and> rewrites_in_place words then
             (let scan = scan_operands words [] in
              list_ex names_denied (names_after (op_text_from_option scan) (op_names scan)))
           else if List.member [''chmod'', ''chown'', ''chgrp''] command then
             (let scan = scan_operands words [''--reference''] in
              list_ex names_denied (names_after (op_read_from_option scan) (op_names scan)))
           else List.member WRITING_COMMANDS command \<and> list_ex names_denied args
       | _ \<Rightarrow> False))"

subsection \<open>Scripts\<close>

definition is_script_identifier :: "str \<Rightarrow> bool" where
  "is_script_identifier name =
     (case name of [] \<Rightarrow> False
      | c # cs \<Rightarrow> (is_ascii_alpha c \<or> c = CHR ''_'') \<and> list_all ident_char cs)"

definition binding :: "str \<Rightarrow> (str \<times> str) option" where
  "binding line =
     (let trimmed = trim_start line;
          pair = (case strip_prefix ''for '' trimmed of
                    Some header \<Rightarrow> split_once '' in '' header
                  | None \<Rightarrow>
                    (case split_once ''='' trimmed of None \<Rightarrow> None
                     | Some (name, v) \<Rightarrow>
                         if starts_char (CHR ''='') v
                            \<or> (case last_char name of Some c \<Rightarrow> List.member ''+-*/%!<>'' c | None \<Rightarrow> False)
                         then None else Some (name, v)))
      in case pair of None \<Rightarrow> None
         | Some (name, v) \<Rightarrow>
             if is_script_identifier (trim name) then Some (trim name, v) else None)"

fun bound_loop :: "str list \<Rightarrow> str list \<Rightarrow> str list" where
  "bound_loop [] names = names"
| "bound_loop (line # ls) names =
     (case binding line of
        Some (name, v) \<Rightarrow>
          if fence_denied_path v \<and> \<not> List.member names name then bound_loop ls (names @ [name])
          else bound_loop ls names
      | None \<Rightarrow> bound_loop ls names)"

definition bound_to_denied_path :: "str list \<Rightarrow> str list" where
  "bound_to_denied_path ls = bound_loop ls []"

definition names_identifier :: "str \<Rightarrow> str \<Rightarrow> bool" where
  "names_identifier t name =
     list_ex (\<lambda>(before, after).
         \<not> (case last_char before of Some c \<Rightarrow> ident_char c | None \<Rightarrow> False) \<and>
         \<not> (case first_char after of Some c \<Rightarrow> ident_char c | None \<Rightarrow> False)) (occurrences name t)"

definition names_denied_path :: "str \<Rightarrow> str list \<Rightarrow> bool" where
  "names_denied_path t bound = (fence_denied_path t \<or> list_ex (names_identifier t) bound)"

definition copy_destination :: "str \<Rightarrow> str \<Rightarrow> str option" where
  "copy_destination line call =
     Option.bind (split_once call line) (\<lambda>(_, after).
     Option.bind (split_once '')'' after) (\<lambda>(inner, _).
     map_option (\<lambda>(_, dest). trim dest) (rsplit_once '','' inner)))"

definition opens_for_write :: "str \<Rightarrow> bool" where
  "opens_for_write line =
     ((str_contains ''open('' line \<or> str_contains ''.open('' line) \<and>
      list_ex (\<lambda>m. str_contains m line)
        [[DQ] @ ''w'' @ [DQ], [SQ] @ ''w'' @ [SQ], [DQ] @ ''a'' @ [DQ], [SQ] @ ''a'' @ [SQ],
         [DQ] @ ''w+'' @ [DQ], [DQ] @ ''wb'' @ [DQ], [DQ] @ ''ab'' @ [DQ], [SQ] @ ''w+'' @ [SQ]])"

definition script_line_writes :: "str \<Rightarrow> str list \<Rightarrow> bool" where
  "script_line_writes line bound =
     ((case List.map_filter (copy_destination line) SCRIPT_COPY_CALLS of
         [] \<Rightarrow> False | dest # _ \<Rightarrow> names_denied_path dest bound) \<or>
      (list_ex (\<lambda>call. str_contains call line) SCRIPT_WRITE_CALLS \<or> opens_for_write line)
        \<and> names_denied_path line bound)"

definition script_writes_denied_path :: "str \<Rightarrow> str \<Rightarrow> bool" where
  "script_writes_denied_path command stripped =
     (list_ex (\<lambda>segment. case decoded_words segment of [] \<Rightarrow> False
                | w # _ \<Rightarrow> List.member SCRIPT_RUNNERS w) (split_compound stripped) \<and>
      (let ls = str_lines stripped @ concat (map str_lines (quoted_heredoc_bodies command));
           bound = bound_to_denied_path ls
       in list_ex (\<lambda>line. script_line_writes line bound) ls))"

definition writes_fence_denied_path :: "str \<Rightarrow> bool" where
  "writes_fence_denied_path command =
     (let stripped = strip_quoted_heredoc_bodies command in
      list_ex segment_writes_denied_path (split_compound stripped) \<or>
      script_writes_denied_path command stripped)"

end
