(* ===== verification/Consent.thy ===== *)
theory Consent
  imports Tool_Api
begin

text \<open>
  Stored consent (\<open>consent.rs\<close>). The contract of the trait \<open>ConsentStore\<close> is the locale
  \<open>consent_store\<close>; the in-memory store is its interpretation. The wall clock is an argument of the
  operations (\<open>Instant::now()\<close>, in nanoseconds), and the store adds its own offset to it. The text a
  call is keyed by is produced by the JSON serialiser, which is a parameter.
\<close>

subsection \<open>The in-memory store\<close>

record consent_entry =
  ce_tool :: str
  ce_args_key :: str
  ce_recorded_at :: nat

record consent_mem =
  cm_ttl :: nat
  cm_entries :: "consent_entry list"
  cm_clock_offset :: nat

definition consent_new :: "nat \<Rightarrow> consent_mem" where
  "consent_new ttl = \<lparr>cm_ttl = ttl, cm_entries = [], cm_clock_offset = 0\<rparr>"

definition effective_now :: "consent_mem \<Rightarrow> nat \<Rightarrow> nat" where
  "effective_now s wall = wall + cm_clock_offset s"

definition advance_clock :: "consent_mem \<Rightarrow> nat \<Rightarrow> consent_mem" where
  "advance_clock s delta = s\<lparr>cm_clock_offset := cm_clock_offset s + delta\<rparr>"

definition entry_fresh :: "consent_mem \<Rightarrow> nat \<Rightarrow> consent_entry \<Rightarrow> bool" where
  "entry_fresh s wall e = (effective_now s wall - ce_recorded_at e \<le> cm_ttl s)"

definition entry_for :: "str \<Rightarrow> str \<Rightarrow> consent_entry \<Rightarrow> bool" where
  "entry_for tool key e = (ce_tool e = tool \<and> ce_args_key e = key)"

definition consent_recall :: "nat \<Rightarrow> consent_mem \<Rightarrow> str \<Rightarrow> str \<Rightarrow> bool \<times> consent_mem" where
  "consent_recall wall s tool key =
     (let fresh = filter (entry_fresh s wall) (cm_entries s)
      in (list_ex (entry_for tool key) fresh, s\<lparr>cm_entries := fresh\<rparr>))"

definition consent_record :: "nat \<Rightarrow> consent_mem \<Rightarrow> str \<Rightarrow> str \<Rightarrow> consent_mem" where
  "consent_record wall s tool key =
     s\<lparr>cm_entries := filter (\<lambda>e. \<not> entry_for tool key e) (cm_entries s) @
         [\<lparr>ce_tool = tool, ce_args_key = key, ce_recorded_at = effective_now s wall\<rparr>]\<rparr>"

definition args_key :: "(json \<Rightarrow> str) \<Rightarrow> json option \<Rightarrow> str" where
  "args_key ser input = (case input of Some v \<Rightarrow> ser v | None \<Rightarrow> [])"

subsection \<open>The contract\<close>

text \<open>A consent store answers for a key what the last \<open>record\<close> of that key left, for as long as its
  time to live lasts. \<open>at s t k\<close> is the instant the entry of a key was recorded.\<close>

locale consent_store =
  fixes inv :: "'s \<Rightarrow> bool"
    and recall :: "nat \<Rightarrow> 's \<Rightarrow> str \<Rightarrow> str \<Rightarrow> bool \<times> 's"
    and record_ok :: "nat \<Rightarrow> 's \<Rightarrow> str \<Rightarrow> str \<Rightarrow> 's"
    and ttl :: "'s \<Rightarrow> nat"
    and clock :: "'s \<Rightarrow> nat \<Rightarrow> nat"
    and at :: "'s \<Rightarrow> str \<Rightarrow> str \<Rightarrow> nat option"
  assumes inv_recall: "inv s \<Longrightarrow> inv (snd (recall w s t k))"
    and inv_record: "inv s \<Longrightarrow> inv (record_ok w s t k)"
    and recall_iff: "inv s \<Longrightarrow>
      fst (recall w s t k) \<longleftrightarrow> (\<exists>r. at s t k = Some r \<and> clock s w - r \<le> ttl s)"
    and at_record: "inv s \<Longrightarrow>
      at (record_ok w s t k) t' k' = (if t' = t \<and> k' = k then Some (clock s w) else at s t' k')"
    and at_recall: "inv s \<Longrightarrow> at (snd (recall w s t k)) t' k' =
      (case at s t' k' of None \<Rightarrow> None
       | Some r \<Rightarrow> if clock s w - r \<le> ttl s then Some r else None)"
    and env_recall: "ttl (snd (recall w s t k)) = ttl s" "clock (snd (recall w s t k)) = clock s"
    and env_record: "ttl (record_ok w s t k) = ttl s" "clock (record_ok w s t k) = clock s"
    and clock_mono: "w \<le> w' \<Longrightarrow> clock s w \<le> clock s w'"
begin

lemma recall_after_record:
  assumes "inv s"
  shows "fst (recall w' (record_ok w s t k) t k) \<longleftrightarrow> clock s w' - clock s w \<le> ttl s"
  using assms by (simp add: recall_iff inv_record at_record env_record)

lemma recall_other_key:
  assumes "inv s" "(t', k') \<noteq> (t, k)"
  shows "fst (recall w' (record_ok w s t k) t' k') \<longleftrightarrow> fst (recall w' s t' k')"
  using assms by (auto simp: recall_iff inv_record at_record env_record)

text \<open>Pruning is invisible: a recall never changes a later answer.\<close>

lemma recall_recall:
  assumes "inv s" "w \<le> w'"
  shows "fst (recall w' (snd (recall w s t k)) t' k') \<longleftrightarrow> fst (recall w' s t' k')"
  using assms clock_mono [OF assms(2), of s]
  by (auto simp: recall_iff inv_recall at_recall env_recall split: option.splits)

end

definition consent_inv :: "consent_mem \<Rightarrow> bool" where
  "consent_inv s = distinct (map (\<lambda>e. (ce_tool e, ce_args_key e)) (cm_entries s))"

definition consent_at :: "consent_mem \<Rightarrow> str \<Rightarrow> str \<Rightarrow> nat option" where
  "consent_at s t k = map_option ce_recorded_at (find (entry_for t k) (cm_entries s))"

lemma find_filter:
  assumes "distinct (map f xs)" and P: "\<And>x. P x \<longleftrightarrow> f x = v"
  shows "find P (filter Q xs) = (case find P xs of None \<Rightarrow> None | Some x \<Rightarrow> if Q x then Some x else None)"
  using assms(1)
proof (induction xs)
  case (Cons a xs)
  have "P a \<Longrightarrow> \<forall>x\<in>set xs. \<not> P x" using Cons.prems P by (auto simp: image_iff)
  then have "P a \<Longrightarrow> find P (filter Q xs) = None" by (simp add: find_None_iff)
  with Cons show ?case by auto
qed simp

lemma find_append: "find P (xs @ ys) = (case find P xs of None \<Rightarrow> find P ys | Some x \<Rightarrow> Some x)"
  by (induction xs) auto

lemma find_filter_same: "find P (filter (\<lambda>x. \<not> P x) xs) = None"
  by (simp add: find_None_iff)

lemma find_filter_other: "(\<And>x. P x \<Longrightarrow> Q x) \<Longrightarrow> find P (filter Q xs) = find P xs"
  by (induction xs) auto

lemma entry_for_iff: "entry_for t k e \<longleftrightarrow> (ce_tool e, ce_args_key e) = (t, k)"
  by (auto simp: entry_for_def)

lemma distinct_keys_filter_add:
  "distinct (map f xs) \<Longrightarrow> distinct (map f (filter (\<lambda>x. f x \<noteq> v) xs)) \<and> v \<notin> f ` set (filter (\<lambda>x. f x \<noteq> v) xs)"
  by (auto simp: distinct_map inj_on_def)

lemmas consent_defs = consent_inv_def consent_recall_def consent_record_def consent_at_def Let_def
  effective_now_def entry_fresh_def

interpretation mem: consent_store consent_inv consent_recall consent_record cm_ttl effective_now consent_at
proof
  fix s :: consent_mem and w t k t' k'
  assume inv: "consent_inv s"
  show "consent_inv (snd (consent_recall w s t k))"
    using inv by (auto simp: consent_defs distinct_map inj_on_def)
  show "consent_inv (consent_record w s t k)"
    using distinct_keys_filter_add [OF inv [unfolded consent_inv_def], of "(t, k)"]
    by (simp add: consent_inv_def consent_record_def entry_for_iff)
  show "consent_at (snd (consent_recall w s t k)) t' k' =
      (case consent_at s t' k' of None \<Rightarrow> None
       | Some r \<Rightarrow> if effective_now s w - r \<le> cm_ttl s then Some r else None)"
    using find_filter [OF inv [unfolded consent_inv_def] entry_for_iff, of t' k' "entry_fresh s w"]
    by (simp add: consent_at_def consent_recall_def Let_def entry_fresh_def split: option.splits)
  show "fst (consent_recall w s t k) \<longleftrightarrow>
      (\<exists>r. consent_at s t k = Some r \<and> effective_now s w - r \<le> cm_ttl s)"
    using find_filter [OF inv [unfolded consent_inv_def] entry_for_iff, of t k "entry_fresh s w"]
      find_None_iff [of "entry_for t k" "filter (entry_fresh s w) (cm_entries s)"]
    by (auto simp: consent_at_def consent_recall_def Let_def entry_fresh_def list_ex_iff
        split: option.splits if_splits)
  show "consent_at (consent_record w s t k) t' k' =
      (if t' = t \<and> k' = k then Some (effective_now s w) else consent_at s t' k')"
  proof (cases "t' = t \<and> k' = k")
    case True
    then show ?thesis
      by (simp add: consent_at_def consent_record_def find_append find_filter_same)
         (simp add: entry_for_def)
  next
    case False
    then have "find (entry_for t' k') (filter (\<lambda>e. \<not> entry_for t k e) (cm_entries s)) =
        find (entry_for t' k') (cm_entries s)"
      by (intro find_filter_other) (auto simp: entry_for_def)
    with False show ?thesis
      by (auto simp: consent_at_def consent_record_def find_append entry_for_def split: option.splits)
  qed
qed (simp_all add: consent_defs fun_eq_iff)

lemma consent_inv_new: "consent_inv (consent_new ttl)"
  by (simp add: consent_inv_def consent_new_def)

text \<open>A recorded approval is recalled for exactly its tool and arguments and for exactly the time to
  live: it answers yes at a later instant iff no more than the TTL has passed, and recording it changes
  the answer for no other key.\<close>

lemma consent_recall_record:
  assumes "consent_inv s"
  shows "(fst (consent_recall w' (consent_record w s t k) t k) \<longleftrightarrow> w' - w \<le> cm_ttl s) \<and>
         ((t', k') \<noteq> (t, k) \<longrightarrow>
          fst (consent_recall w' (consent_record w s t k) t' k') = fst (consent_recall w' s t' k'))"
  using mem.recall_after_record [OF assms] mem.recall_other_key [OF assms]
  by (simp add: effective_now_def)


end
