(* ===== verification/Pipeline.thy ===== *)
theory Pipeline
  imports Egress Protected_Write Consent
begin

text \<open>
  The permission ladder (\<open>pipeline.rs\<close> and \<open>pipeline/*.rs\<close>) with the per-mode policies of \<open>gate.rs\<close>:
  the stages, the twelve validators, the two ladders, running a ladder, and the transform applied to
  its verdict.

  A validator is a value of the datatype \<open>validator\<close> (the fenced ones hold the fence, as the structs
  do), and its trait methods are functions on it. The consent store of the context is the function that
  answers \<open>recall\<close>; the gate instantiates it. \<open>Pipeline::decide\<close> is partial: its \<open>unreachable!\<close> is the
  value \<open>None\<close>.
\<close>

subsection \<open>Stages\<close>

datatype stage =
  St_RuleDeny | St_UserAsk | St_SystemSafety | St_Detection | St_RuleAllow | St_Consent | St_ModeDefault

fun stage_index :: "stage \<Rightarrow> nat" where
  "stage_index St_RuleDeny = 0"
| "stage_index St_UserAsk = 1"
| "stage_index St_SystemSafety = 2"
| "stage_index St_Detection = 3"
| "stage_index St_RuleAllow = 4"
| "stage_index St_Consent = 5"
| "stage_index St_ModeDefault = 6"

lemma stage_index_inj: "stage_index a = stage_index b \<Longrightarrow> a = b"
  by (cases a; cases b) simp_all

instantiation stage :: linorder
begin

definition less_eq_stage :: "stage \<Rightarrow> stage \<Rightarrow> bool" where
  "less_eq_stage a b \<longleftrightarrow> stage_index a \<le> stage_index b"

definition less_stage :: "stage \<Rightarrow> stage \<Rightarrow> bool" where
  "less_stage a b \<longleftrightarrow> stage_index a < stage_index b"

instance
  by standard (auto simp: less_eq_stage_def less_stage_def dest: stage_index_inj)

end

datatype immunity = ModeImmune | ModeGoverned

record gate_ctx =
  gc_mode :: permission_mode
  gc_content :: str
  gc_segments :: "str list"
  gc_rules :: "rule list"
  gc_consent :: "(str \<Rightarrow> str \<Rightarrow> bool) option"
  gc_effect :: "effect option"
  gc_egress_allow :: "str list"
  gc_git_checkpoint_enabled :: bool

definition consent_allows :: "externals \<Rightarrow> tool_request \<Rightarrow> gate_ctx \<Rightarrow> bool" where
  "consent_allows x req ctx =
     (case gc_consent ctx of None \<Rightarrow> False
      | Some recall \<Rightarrow> recall (tq_tool_name req) (args_key (x_json x) (tq_input req)))"

subsection \<open>The mode default (gate.rs, pipeline/mode_default.rs)\<close>

definition MODE_DEFAULT :: str where
  "MODE_DEFAULT = ''mode_default''"

definition mode_ask_reason :: "str \<Rightarrow> ask_reason" where
  "mode_ask_reason detail = \<lparr>ar_source = AS_ToolNative, ar_validator = MODE_DEFAULT,
     ar_detail = detail, ar_containment_note = None\<rparr>"

definition default_policy :: "tool_request \<Rightarrow> side_effect \<Rightarrow> decision" where
  "default_policy req se =
     (case se of
        SE_None \<Rightarrow>
          if tq_native_requires_approval req
          then Ask (mode_ask_reason ''tool declares it needs approval'')
          else if tq_is_destructive req \<or> \<not> tq_is_read_only req
          then Ask (mode_ask_reason ''manual mode asks before a tool that may change state'')
          else Allow AR_ModeDefault
      | _ \<Rightarrow> Ask (mode_ask_reason ''manual mode asks before this side effect''))"

definition auto_policy :: "tool_request \<Rightarrow> side_effect \<Rightarrow> decision" where
  "auto_policy req se =
     (case se of
        SE_Exec \<Rightarrow> Allow AR_ModeDefault
      | SE_Filesystem \<Rightarrow> Allow AR_ModeDefault
      | SE_None \<Rightarrow>
          if tq_native_requires_approval req
          then Ask (mode_ask_reason ''tool declares it needs approval'')
          else if tq_is_destructive req
          then Ask (mode_ask_reason ''auto mode asks before a destructive tool'')
          else Allow AR_ModeDefault
      | _ \<Rightarrow> Ask (mode_ask_reason ''auto mode asks before network egress''))"

definition mode_default :: "permission_mode \<Rightarrow> tool_request \<Rightarrow> decision" where
  "mode_default mode req =
     (let se = side_effect_for (tq_tool_name req) in
      case mode of Manual \<Rightarrow> default_policy req se | Auto \<Rightarrow> auto_policy req se)"

definition readonly_shell :: "tool_request \<Rightarrow> gate_ctx \<Rightarrow> bool" where
  "readonly_shell req ctx =
     (is_shell_tool (tq_tool_name req) \<and> is_readonly_compound (gc_segments ctx)
      \<and> \<not> names_credential_path (gc_content ctx))"

definition remembered_origin :: "gate_ctx \<Rightarrow> bool" where
  "remembered_origin ctx =
     (case http_origin (gc_content ctx) of None \<Rightarrow> False
      | Some origin \<Rightarrow> list_ex (\<lambda>a. a = origin \<or> a = ''curl '' @ origin) (gc_egress_allow ctx))"

definition check_mode_default :: "tool_request \<Rightarrow> gate_ctx \<Rightarrow> decision option" where
  "check_mode_default req ctx =
     (if gc_mode ctx = Manual \<and> readonly_shell req ctx then Some (Allow AR_ModeDefault)
      else if gc_mode ctx = Auto
           \<and> List.member [''webfetch'', ''netfetch'', ''fetch''] (to_ascii_lowercase (tq_tool_name req))
           \<and> remembered_origin ctx
      then Some (Allow AR_ModeDefault)
      else Some (mode_default (gc_mode ctx) req))"

subsection \<open>The rule stages (pipeline/rule.rs) and stored consent (pipeline/consent.rs)\<close>

definition check_rule_deny :: "gate_ctx \<Rightarrow> decision option" where
  "check_rule_deny ctx =
     (if gc_effect ctx = Some E_Deny
      then Some (Deny \<lparr>dr_source = DS_UserRule, dr_validator = ''rule_deny'',
                       dr_detail = ''a deny rule matched this call''\<rparr>)
      else None)"

definition checkpoint_words :: "str list" where
  "checkpoint_words = [''commit'', ''rebase'', ''reset'', ''tag'']"

definition checkpoint_detail :: "str \<Rightarrow> str" where
  "checkpoint_detail git_word = ''git '' @ git_word @ '' checkpoint op needs confirmation''"

definition check_rule_ask :: "externals \<Rightarrow> tool_request \<Rightarrow> gate_ctx \<Rightarrow> decision option" where
  "check_rule_ask x req ctx =
     (if gc_effect ctx \<noteq> Some E_Ask then None
      else if consent_allows x req ctx then Some (Allow AR_Consent)
      else (let detail = (case should_ask_before_git (tq_tool_name req) (gc_content ctx) of
                            Some w \<Rightarrow> if List.member checkpoint_words w then checkpoint_detail w
                                      else ''an ask rule matched this call''
                          | None \<Rightarrow> ''an ask rule matched this call'')
            in Some (Ask \<lparr>ar_source = AS_UserRule, ar_validator = ''rule_ask'', ar_detail = detail,
                          ar_containment_note = None\<rparr>)))"

definition check_rule_allow :: "gate_ctx \<Rightarrow> decision option" where
  "check_rule_allow ctx =
     (if gc_effect ctx = Some E_Allow then Some (Allow AR_UserRule) else None)"

definition check_stored_consent :: "externals \<Rightarrow> tool_request \<Rightarrow> gate_ctx \<Rightarrow> decision option" where
  "check_stored_consent x req ctx =
     (if consent_allows x req ctx then Some (Allow AR_Consent) else None)"

subsection \<open>Detection (pipeline/detection.rs)\<close>

definition detect_ask :: "str \<Rightarrow> str \<Rightarrow> decision" where
  "detect_ask name detail = Ask \<lparr>ar_source = AS_Detection, ar_validator = name, ar_detail = detail,
     ar_containment_note = None\<rparr>"

definition writes_confined :: "containment option \<Rightarrow> bool" where
  "writes_confined c =
     (case c of None \<Rightarrow> False | Some k \<Rightarrow> confines (containment_capability k) Axis_Writes)"

definition check_destructive ::
  "externals \<Rightarrow> containment option \<Rightarrow> tool_request \<Rightarrow> gate_ctx \<Rightarrow> decision option" where
  "check_destructive x c req ctx =
     (if \<not> should_ask_destructive (tq_tool_name req) (gc_content ctx) then None
      else if gc_mode ctx = Auto \<and> interpreter_inline_code (gc_content ctx) = None
           \<and> removes_only_temp (gc_content ctx) (writes_confined c) then None
      else if consent_allows x req ctx then None
      else Some (detect_ask ''destructive_command'' ''destructive pattern needs confirmation''))"

definition check_signal :: "externals \<Rightarrow> tool_request \<Rightarrow> gate_ctx \<Rightarrow> decision option" where
  "check_signal x req ctx =
     (if \<not> should_ask_signal (tq_tool_name req) (gc_content ctx) then None
      else if consent_allows x req ctx then None
      else Some (detect_ask ''signal_command''
                   ''a command that signals another process needs confirmation''))"

definition git_detail :: "str \<Rightarrow> str" where
  "git_detail git_word =
     (if git_word = ''stash'' then
        ''git stash modifies the shared stash stack across all worktrees and needs confirmation''
      else if List.member checkpoint_words git_word then checkpoint_detail git_word
      else ''git '' @ git_word @ '' discard op needs confirmation'')"

definition git_word_passes ::
  "externals \<Rightarrow> tool_request \<Rightarrow> gate_ctx \<Rightarrow> bool \<Rightarrow> str \<Rightarrow> bool" where
  "git_word_passes x req ctx single_op git_word =
     (let is_checkpoint = List.member checkpoint_words git_word in
      is_checkpoint \<and> \<not> gc_git_checkpoint_enabled ctx \<or>
      git_word \<noteq> ''stash'' \<and>
      ((single_op \<and> gc_effect ctx = Some E_Allow \<or>
        is_checkpoint \<and>
        rules_evaluate x (gc_rules ctx) (tq_tool_name req) (''git '' @ git_word) = Some E_Allow) \<or>
       single_op \<and> consent_allows x req ctx))"

definition check_git_checkpoint :: "externals \<Rightarrow> tool_request \<Rightarrow> gate_ctx \<Rightarrow> decision option" where
  "check_git_checkpoint x req ctx =
     (let ops = collect_git_ask_ops (tq_tool_name req) (gc_content ctx) in
      case find (\<lambda>w. \<not> git_word_passes x req ctx (length ops = 1) w) ops of
        None \<Rightarrow> None
      | Some w \<Rightarrow> Some (detect_ask ''git_checkpoint'' (git_detail w)))"

definition NETWORK_EGRESS :: str where
  "NETWORK_EGRESS = ''network_egress''"

definition remembered_network_op :: "tool_request \<Rightarrow> gate_ctx \<Rightarrow> bool" where
  "remembered_network_op req ctx =
     (\<not> egress_names_external_source (gc_content ctx) \<and>
      (case filter (\<lambda>part. trim part \<noteq> []) (split_any segment_breaks (gc_content ctx)) of
         [only] \<Rightarrow>
           (case egress_remote_op only of None \<Rightarrow> False
            | Some op \<Rightarrow>
                list_ex (\<lambda>r. r_effect r = E_Allow \<and> eq_ignore_ascii_case (r_action r) (tq_tool_name req)
                            \<and> r_content r = Some (RC_Prefix (''git '' @ op))) (gc_rules ctx))
       | _ \<Rightarrow> False))"

definition scopes_remembered :: "containment option \<Rightarrow> gate_ctx \<Rightarrow> bool" where
  "scopes_remembered c ctx =
     (case egress_scope_list (gc_content ctx) (writes_confined c) of None \<Rightarrow> False
      | Some scopes \<Rightarrow> scopes \<noteq> [] \<and> list_all (List.member (gc_egress_allow ctx)) scopes)"

definition check_network_egress ::
  "externals \<Rightarrow> containment option \<Rightarrow> tool_request \<Rightarrow> gate_ctx \<Rightarrow> decision option" where
  "check_network_egress x c req ctx =
     (if \<not> should_ask_egress (tq_tool_name req) (gc_content ctx) then None
      else (let outputs_safe = egress_outputs_safe (gc_content ctx) (writes_confined c) in
        if outputs_safe \<and> scopes_remembered c ctx then None
        else if remembered_network_op req ctx then None
        else if consent_allows x req ctx then None
        else Some (detect_ask NETWORK_EGRESS
          (if outputs_safe then ''this command reaches the network''
           else ''this command writes a local file; origin approval does not authorize file output''))))"

definition check_compound ::
  "externals \<Rightarrow> containment option \<Rightarrow> tool_request \<Rightarrow> gate_ctx \<Rightarrow> decision option" where
  "check_compound x c req ctx =
     (if \<not> is_shell_tool (tq_tool_name req) then None
      else if gc_segments ctx = [] then None
      else if compound_safe (gc_segments ctx) \<or> is_readonly_compound (gc_segments ctx)
           \<or> gc_mode ctx = Auto \<and> is_effect_safe (gc_content ctx) (writes_confined c) then None
      else if consent_allows x req ctx then None
      else Some (detect_ask ''compound_command'' ''compound command needs confirmation''))"

definition path_display :: "fpath \<Rightarrow> str" where
  "path_display p = (if fp_abs p then ''/'' else []) @ str_join ''/'' (fp_comps p)"

definition authorized_dirs :: "boundary_grant list \<Rightarrow> str option" where
  "authorized_dirs grants =
     (case grants of [] \<Rightarrow> None
      | g # gs \<Rightarrow>
        (let joined = str_join '', '' (map (\<lambda>b. path_display (bg_directory b)) grants) in
         Some (if bg_access g = ReadOnly
               then (if gs = [] then ''read-only directory '' @ joined
                     else ''read-only directories '' @ joined)
               else (if gs = [] then ''parent directory '' @ joined @ '' with read-write access''
                     else ''parent directories '' @ joined @ '' with read-write access''))))"

definition check_path_bounds ::
  "externals \<Rightarrow> containment option \<Rightarrow> tool_request \<Rightarrow> gate_ctx \<Rightarrow> decision option" where
  "check_path_bounds x c req ctx =
     Option.bind c (\<lambda>k.
     Option.bind (c_boundary_root k) (\<lambda>root.
     Option.bind (authorized_dirs
       (boundary_grants_for (x_host x) (tq_tool_name req) (tq_input req) root (c_boundary_dirs k)
          (boundary_write_dirs k))) (\<lambda>authorized.
       if consent_allows x req ctx then None
       else Some (detect_ask ''path-bounds''
              (''Path is outside the workspace. Approving grants '' @ authorized @ ''.'')))))"

subsection \<open>Protected paths (pipeline/protected_path.rs)\<close>

definition fence_denies_control_writes :: "containment option \<Rightarrow> bool" where
  "fence_denies_control_writes c =
     (case c of None \<Rightarrow> False
      | Some k \<Rightarrow> confines (containment_capability k) Axis_Writes \<and> c_denies_control_writes k)"

definition resolved_path :: "externals \<Rightarrow> containment option \<Rightarrow> tool_request \<Rightarrow> str option" where
  "resolved_path x c req =
     (if \<not> writes_files (tq_tool_name req) then None
      else (let supplied = input_content x (tq_tool_name req) (tq_input req) in
        if supplied = [] then None
        else
          Option.bind c (\<lambda>k.
          Option.bind (c_boundary_root k) (\<lambda>root.
            let candidate = path_join root (parse_path supplied) in
            Option.bind (path_parent candidate) (\<lambda>p.
            Option.bind (h_canonicalize (x_host x) p) (\<lambda>resolved.
            Option.bind (path_file_name candidate) (\<lambda>name.
              Some (path_display (resolved\<lparr>fp_comps := fp_comps resolved @ [name]\<rparr>)))))))))"

definition protected_ask :: decision where
  "protected_ask = Ask \<lparr>ar_source = AS_SystemSafety, ar_validator = ''protected_path'',
     ar_detail = ''accessing a protected path needs confirmation'', ar_containment_note = None\<rparr>"

definition check_protected_path ::
  "externals \<Rightarrow> containment option \<Rightarrow> tool_request \<Rightarrow> gate_ctx \<Rightarrow> decision option" where
  "check_protected_path x c req ctx =
     (if tq_is_read_only req then None
      else (let shell = is_shell_tool (tq_tool_name req);
                reads = shell \<and> reads_only_protected (gc_content ctx)
            in if reads \<and> \<not> names_credential_path (gc_content ctx) then None
               else (let fence_write = shell \<and> fence_denies_control_writes c
                                       \<and> writes_fence_denied_path (gc_content ctx);
                         hit = safety_check x (tq_tool_name req) (tq_input req) \<noteq> None
                               \<or> (case resolved_path x c req of Some p \<Rightarrow> marker_hit p | None \<Rightarrow> False)
                               \<or> fence_write
                     in if \<not> hit then None
                        else if shell \<and> \<not> reads \<and> fence_denies_control_writes c
                             \<and> \<not> names_credential_path (gc_content ctx)
                             \<and> fence_covers_all_hits (gc_content ctx)
                             \<and> \<not> writes_fence_denied_path (gc_content ctx)
                        then None
                        else Some protected_ask)))"

subsection \<open>The validators and the ladder (pipeline.rs)\<close>

datatype validator =
    V_RuleDeny
  | V_ProtectedPath "containment option"
  | V_Destructive "containment option"
  | V_Signal
  | V_GitCheckpoint
  | V_NetworkEgress "containment option"
  | V_Compound "containment option"
  | V_PathBounds "containment option"
  | V_RuleAllow
  | V_RuleAsk
  | V_StoredConsent
  | V_ModeDefault

fun v_name :: "validator \<Rightarrow> str" where
  "v_name V_RuleDeny = ''rule_deny''"
| "v_name (V_ProtectedPath _) = ''protected_path''"
| "v_name (V_Destructive _) = ''destructive_command''"
| "v_name V_Signal = ''signal_command''"
| "v_name V_GitCheckpoint = ''git_checkpoint''"
| "v_name (V_NetworkEgress _) = NETWORK_EGRESS"
| "v_name (V_Compound _) = ''compound_command''"
| "v_name (V_PathBounds _) = ''path-bounds''"
| "v_name V_RuleAllow = ''rule_allow''"
| "v_name V_RuleAsk = ''rule_ask''"
| "v_name V_StoredConsent = ''stored_consent''"
| "v_name V_ModeDefault = MODE_DEFAULT"

fun v_stage :: "validator \<Rightarrow> stage" where
  "v_stage V_RuleDeny = St_RuleDeny"
| "v_stage (V_ProtectedPath _) = St_SystemSafety"
| "v_stage (V_Destructive _) = St_Detection"
| "v_stage V_Signal = St_Detection"
| "v_stage V_GitCheckpoint = St_Detection"
| "v_stage (V_NetworkEgress _) = St_Detection"
| "v_stage (V_Compound _) = St_Detection"
| "v_stage (V_PathBounds _) = St_Detection"
| "v_stage V_RuleAllow = St_RuleAllow"
| "v_stage V_RuleAsk = St_UserAsk"
| "v_stage V_StoredConsent = St_Consent"
| "v_stage V_ModeDefault = St_ModeDefault"

fun v_immunity :: "validator \<Rightarrow> immunity" where
  "v_immunity V_ModeDefault = ModeGoverned"
| "v_immunity _ = ModeImmune"

fun v_consent_overridable :: "validator \<Rightarrow> bool" where
  "v_consent_overridable V_RuleDeny = False"
| "v_consent_overridable (V_ProtectedPath _) = False"
| "v_consent_overridable V_RuleAllow = False"
| "v_consent_overridable V_StoredConsent = False"
| "v_consent_overridable _ = True"

fun v_check :: "externals \<Rightarrow> validator \<Rightarrow> tool_request \<Rightarrow> gate_ctx \<Rightarrow> decision option" where
  "v_check x V_RuleDeny req ctx = check_rule_deny ctx"
| "v_check x (V_ProtectedPath c) req ctx = check_protected_path x c req ctx"
| "v_check x (V_Destructive c) req ctx = check_destructive x c req ctx"
| "v_check x V_Signal req ctx = check_signal x req ctx"
| "v_check x V_GitCheckpoint req ctx = check_git_checkpoint x req ctx"
| "v_check x (V_NetworkEgress c) req ctx = check_network_egress x c req ctx"
| "v_check x (V_Compound c) req ctx = check_compound x c req ctx"
| "v_check x (V_PathBounds c) req ctx = check_path_bounds x c req ctx"
| "v_check x V_RuleAllow req ctx = check_rule_allow ctx"
| "v_check x V_RuleAsk req ctx = check_rule_ask x req ctx"
| "v_check x V_StoredConsent req ctx = check_stored_consent x req ctx"
| "v_check x V_ModeDefault req ctx = check_mode_default req ctx"

type_synonym ladder = "validator list"

definition standard_registration :: ladder where
  "standard_registration =
     [V_RuleDeny, V_ProtectedPath None, V_Destructive None, V_Signal, V_GitCheckpoint,
      V_NetworkEgress None, V_Compound None, V_PathBounds None, V_RuleAllow, V_RuleAsk,
      V_StoredConsent, V_ModeDefault]"

definition pipeline_standard :: ladder where
  "pipeline_standard = sort_key v_stage standard_registration"

definition fence_validator_names :: "str list" where
  "fence_validator_names =
     [''path-bounds'', ''protected_path'', ''destructive_command'', ''network_egress'',
      ''compound_command'']"

definition pipeline_with_containment :: "containment \<Rightarrow> ladder" where
  "pipeline_with_containment c =
     sort_key v_stage
       (filter (\<lambda>v. \<not> List.member fence_validator_names (v_name v)) pipeline_standard @
        [V_Destructive (Some c), V_NetworkEgress (Some c), V_Compound (Some c), V_PathBounds (Some c),
         V_ProtectedPath (Some c)])"

fun pipeline_decide :: "externals \<Rightarrow> ladder \<Rightarrow> tool_request \<Rightarrow> gate_ctx \<Rightarrow> decision option" where
  "pipeline_decide x [] req ctx = None"
| "pipeline_decide x (v # vs) req ctx =
     (case v_check x v req ctx of Some d \<Rightarrow> Some d | None \<Rightarrow> pipeline_decide x vs req ctx)"

record validator_info =
  vi_name :: str
  vi_stage :: stage
  vi_immunity :: immunity
  vi_consent_overridable :: bool

definition pipeline_describe :: "ladder \<Rightarrow> validator_info list" where
  "pipeline_describe vs = map (\<lambda>v. \<lparr>vi_name = v_name v, vi_stage = v_stage v,
     vi_immunity = v_immunity v, vi_consent_overridable = v_consent_overridable v\<rparr>) vs"

subsection \<open>The post transform (pipeline/post_transform.rs)\<close>

definition note_effect :: "ask_reason \<Rightarrow> tool_request \<Rightarrow> side_effect" where
  "note_effect ask req =
     (if ar_validator ask = NETWORK_EGRESS then SE_Network else side_effect_for (tq_tool_name req))"

definition attach_note :: "decision \<Rightarrow> containment option \<Rightarrow> tool_request \<Rightarrow> decision" where
  "attach_note raw c req =
     (case (raw, c) of
        (Ask ask, Some k) \<Rightarrow>
          (case c_would_block k (note_effect ask req) of
             Some note \<Rightarrow> Ask (ask\<lparr>ar_containment_note := Some note\<rparr>)
           | None \<Rightarrow> Ask ask)
      | (other, _) \<Rightarrow> other)"

definition reads_confined :: "containment option \<Rightarrow> bool" where
  "reads_confined c =
     (case c of None \<Rightarrow> False | Some k \<Rightarrow> confines (containment_capability k) Axis_Reads)"

definition fenced_exec_proof ::
  "bool \<Rightarrow> containment option \<Rightarrow> tool_request \<Rightarrow> decision \<Rightarrow> fence_proof option" where
  "fenced_exec_proof auto_allow c req raw =
     (case (c, raw) of
        (Some k, Ask ask) \<Rightarrow>
          if auto_allow \<and> side_effect_for (tq_tool_name req) = SE_Exec
             \<and> ar_validator ask = MODE_DEFAULT
          then fence_proof_new (c_coverage k) (side_effect_for (tq_tool_name req))
          else None
      | _ \<Rightarrow> None)"

definition headless_deny :: decision where
  "headless_deny = Deny \<lparr>dr_source = DS_Headless, dr_validator = ''post_transform'',
     dr_detail = ''headless mode: no interactive approval available''\<rparr>"

definition post_transform ::
  "decision \<Rightarrow> permission_mode \<Rightarrow> bool \<Rightarrow> containment option \<Rightarrow> bool \<Rightarrow> tool_request \<Rightarrow> decision" where
  "post_transform raw0 mode headless c auto_allow req =
     (let raw = attach_note raw0 c req in
      if mode = Manual \<and> raw = Allow AR_ModeDefault \<and> \<not> reads_confined c then mode_default mode req
      else (case fenced_exec_proof auto_allow c req raw of
              Some proof \<Rightarrow> Allow (AR_Containment proof)
            | None \<Rightarrow>
                if \<not> headless then raw
                else (case raw of Ask _ \<Rightarrow> headless_deny | other \<Rightarrow> other)))"

subsection \<open>Running a ladder\<close>

text \<open>The contract of a ladder: the first check that answers decides. The lemmas are proved from the two
  laws and hold for every ladder.\<close>

locale ladder_run =
  fixes check :: "'v \<Rightarrow> 'r \<Rightarrow> 'c \<Rightarrow> 'd option"
    and run :: "'v list \<Rightarrow> 'r \<Rightarrow> 'c \<Rightarrow> 'd option"
  assumes run_Nil: "run [] r c = None"
    and run_Cons: "run (v # vs) r c = (case check v r c of Some d \<Rightarrow> Some d | None \<Rightarrow> run vs r c)"
begin

lemma run_append:
  "run (us @ vs) r c = (case run us r c of Some d \<Rightarrow> Some d | None \<Rightarrow> run vs r c)"
  by (induction us) (simp_all add: run_Nil run_Cons split: option.splits)

lemma run_None_iff: "run vs r c = None \<longleftrightarrow> (\<forall>v\<in>set vs. check v r c = None)"
  by (induction vs) (simp_all add: run_Nil run_Cons split: option.splits)

lemma run_Some_member: "run vs r c = Some d \<Longrightarrow> \<exists>v\<in>set vs. check v r c = Some d"
  by (induction vs) (auto simp: run_Nil run_Cons split: option.splits)

lemma run_total: "v \<in> set vs \<Longrightarrow> check v r c \<noteq> None \<Longrightarrow> run vs r c \<noteq> None"
  by (metis run_None_iff)

end

interpretation lad: ladder_run "v_check x" "pipeline_decide x" for x
  by unfold_locales simp_all

subsection \<open>The two ladders\<close>

lemma pipeline_standard_eq:
  "pipeline_standard =
     [V_RuleDeny, V_RuleAsk, V_ProtectedPath None, V_Destructive None, V_Signal, V_GitCheckpoint,
      V_NetworkEgress None, V_Compound None, V_PathBounds None, V_RuleAllow, V_StoredConsent,
      V_ModeDefault]"
  by (simp add: pipeline_standard_def standard_registration_def less_eq_stage_def)

lemma pipeline_with_containment_eq:
  "pipeline_with_containment c =
     [V_RuleDeny, V_RuleAsk, V_ProtectedPath (Some c), V_Signal, V_GitCheckpoint, V_Destructive (Some c),
      V_NetworkEgress (Some c), V_Compound (Some c), V_PathBounds (Some c), V_RuleAllow,
      V_StoredConsent, V_ModeDefault]"
  by (simp add: pipeline_with_containment_def pipeline_standard_eq fence_validator_names_def
      NETWORK_EGRESS_def MODE_DEFAULT_def less_eq_stage_def)

text \<open>The ladder a gate holds: the standard one, or the one with its fence injected.\<close>

definition ladder_for :: "containment option \<Rightarrow> ladder" where
  "ladder_for c = (case c of None \<Rightarrow> pipeline_standard | Some k \<Rightarrow> pipeline_with_containment k)"

text \<open>The detection stage of either ladder, as the set of its checks.\<close>

definition detectors :: "containment option \<Rightarrow> ladder" where
  "detectors c =
     (case c of
        None \<Rightarrow> [V_Destructive c, V_Signal, V_GitCheckpoint, V_NetworkEgress c, V_Compound c, V_PathBounds c]
      | Some _ \<Rightarrow> [V_Signal, V_GitCheckpoint, V_Destructive c, V_NetworkEgress c, V_Compound c, V_PathBounds c])"

lemma ladder_for_eq:
  "ladder_for c =
     [V_RuleDeny, V_RuleAsk, V_ProtectedPath c] @ detectors c @ [V_RuleAllow, V_StoredConsent, V_ModeDefault]"
  by (cases c) (simp_all add: ladder_for_def detectors_def pipeline_standard_eq pipeline_with_containment_eq)

lemma detectors_set:
  "set (detectors c) =
     {V_Destructive c, V_Signal, V_GitCheckpoint, V_NetworkEgress c, V_Compound c, V_PathBounds c}"
  by (cases c) (auto simp: detectors_def)

text \<open>Both ladders are ordered by stage, hold every registered validator exactly once, and the mode
  default is the only mode-governed one and stands last.\<close>

lemma ladder_ordered:
  "sorted (map v_stage (ladder_for c)) \<and> distinct (map v_name (ladder_for c)) \<and>
   set (map v_name (ladder_for c)) = set (map v_name standard_registration) \<and>
   (\<forall>v. v \<in> set (ladder_for c) \<and> v_immunity v = ModeGoverned \<longleftrightarrow> v = last (ladder_for c)) \<and>
   last (ladder_for c) = V_ModeDefault"
proof -
  have s: "sorted (map v_stage (ladder_for c))"
    by (cases c) (simp_all add: ladder_for_eq detectors_def less_eq_stage_def)
  have d: "distinct (map v_name (ladder_for c))"
    by (cases c) (simp_all add: ladder_for_eq detectors_def NETWORK_EGRESS_def MODE_DEFAULT_def)
  have n: "set (map v_name (ladder_for c)) = set (map v_name standard_registration)"
    by (cases c) (auto simp: ladder_for_eq detectors_def standard_registration_def)
  have "v \<in> set (ladder_for c) \<and> v_immunity v = ModeGoverned \<longleftrightarrow> v = V_ModeDefault" for v
    by (cases v) (auto simp: ladder_for_eq)
  with s d n show ?thesis by (simp add: ladder_for_eq)
qed

lemma check_mode_default_fires: "check_mode_default req ctx \<noteq> None"
  by (simp add: check_mode_default_def)

lemma ladder_answers: "pipeline_decide x (ladder_for c) req ctx \<noteq> None"
  by (rule lad.run_total [of V_ModeDefault]) (simp_all add: ladder_for_eq check_mode_default_fires)

text \<open>A ladder never falls off its end: for every request and context one of its validators decides, so
  the \<open>unreachable!\<close> after the loop is unreachable.\<close>

lemma ladder_total: "\<exists>d. pipeline_decide x (ladder_for c) req ctx = Some d"
  using ladder_answers by blast

subsection \<open>What the ladder decides\<close>

lemmas check_defs = check_rule_deny_def check_rule_ask_def check_rule_allow_def check_stored_consent_def
  check_mode_default_def check_destructive_def check_signal_def check_git_checkpoint_def
  check_network_egress_def check_compound_def check_path_bounds_def detect_ask_def

lemma ladder_decide_eq:
  "pipeline_decide x (ladder_for c) req ctx =
     (case check_rule_deny ctx of Some d \<Rightarrow> Some d | None \<Rightarrow>
      case check_rule_ask x req ctx of Some d \<Rightarrow> Some d | None \<Rightarrow>
      case check_protected_path x c req ctx of Some d \<Rightarrow> Some d | None \<Rightarrow>
      case pipeline_decide x (detectors c) req ctx of Some d \<Rightarrow> Some d | None \<Rightarrow>
      case check_rule_allow ctx of Some d \<Rightarrow> Some d | None \<Rightarrow>
      case check_stored_consent x req ctx of Some d \<Rightarrow> Some d | None \<Rightarrow> check_mode_default req ctx)"
  unfolding ladder_for_eq lad.run_append by (auto split: option.splits)

lemma check_protected_path_cases:
  "check_protected_path x c req ctx = None \<or> check_protected_path x c req ctx = Some protected_ask"
  by (auto simp: check_protected_path_def Let_def)

definition detect_verdict :: "decision \<Rightarrow> bool" where
  "detect_verdict d \<longleftrightarrow> (\<exists>n t. d = detect_ask n t \<and> n \<noteq> MODE_DEFAULT)"

lemma detect_verdict_names:
  "detect_verdict (detect_ask ''destructive_command'' t)" "detect_verdict (detect_ask ''signal_command'' t)"
  "detect_verdict (detect_ask ''git_checkpoint'' t)" "detect_verdict (detect_ask NETWORK_EGRESS t)"
  "detect_verdict (detect_ask ''compound_command'' t)" "detect_verdict (detect_ask ''path-bounds'' t)"
  unfolding detect_verdict_def NETWORK_EGRESS_def MODE_DEFAULT_def by (rule exI, rule exI, rule conjI, rule refl, simp)+

lemma check_detect_verdict:
  "check_destructive x c req ctx = Some d \<Longrightarrow> detect_verdict d"
  "check_signal x req ctx = Some d \<Longrightarrow> detect_verdict d"
  "check_git_checkpoint x req ctx = Some d \<Longrightarrow> detect_verdict d"
  "check_network_egress x c req ctx = Some d \<Longrightarrow> detect_verdict d"
  "check_compound x c req ctx = Some d \<Longrightarrow> detect_verdict d"
  "check_path_bounds x c req ctx = Some d \<Longrightarrow> detect_verdict d"
  unfolding check_destructive_def check_signal_def check_git_checkpoint_def check_network_egress_def
    check_compound_def check_path_bounds_def Let_def bind_eq_Some_conv
  by (auto split: if_splits option.splits intro: detect_verdict_names)

lemma detector_Ask:
  assumes "pipeline_decide x (detectors c) req ctx = Some d"
  shows "detect_verdict d"
proof -
  from assms obtain v where v: "v \<in> set (detectors c)" "v_check x v req ctx = Some d"
    using lad.run_Some_member by blast
  then show ?thesis unfolding detectors_set by (auto dest: check_detect_verdict)
qed

lemma detect_verdict_not_Allow: "detect_verdict d \<Longrightarrow> d \<noteq> Allow r"
  by (auto simp: detect_verdict_def detect_ask_def)

text \<open>A protected path is a hard floor of the ladder: unless a deny rule or an ask rule of the user
  decided first, a call the protected-path check stops is asked about, whatever the mode, the allow
  rules, the remembered destinations and the stored consents are.\<close>

lemma protected_path_immune:
  assumes "check_protected_path x c req ctx \<noteq> None"
    and "gc_effect ctx = None \<or> gc_effect ctx = Some E_Allow"
  shows "pipeline_decide x (ladder_for c) req ctx = Some protected_ask"
  using assms check_protected_path_cases [of x c req ctx]
  by (auto simp: ladder_decide_eq check_rule_deny_def check_rule_ask_def)


subsection \<open>What the transform may change\<close>

lemma attach_note_simps [simp]:
  "attach_note (Allow r) c req = Allow r"
  "attach_note (Deny r') c req = Deny r'"
  "attach_note (Ask a) None req = Ask a"
  by (simp_all add: attach_note_def)

lemma attach_note_Ask:
  "\<exists>note. attach_note (Ask a) c req = Ask (a\<lparr>ar_containment_note := note\<rparr>)"
proof (cases c)
  case None
  then show ?thesis by (intro exI [of _ "ar_containment_note a"]) simp
next
  case (Some k)
  have "a = a\<lparr>ar_containment_note := ar_containment_note a\<rparr>" by simp
  then have "\<exists>note. a = a\<lparr>ar_containment_note := note\<rparr>" by (rule exI)
  then show ?thesis
    using Some by (cases "c_would_block k (note_effect a req)") (auto simp: attach_note_def)
qed

lemma fenced_exec_proof_simps [simp]:
  "fenced_exec_proof auto_allow c req (Allow r) = None"
  "fenced_exec_proof auto_allow c req (Deny r') = None"
  "fenced_exec_proof auto_allow None req d = None"
  by (auto simp: fenced_exec_proof_def split: option.splits)

lemma post_transform_Deny: "post_transform (Deny r) mode headless c auto_allow req = Deny r"
  by (simp add: post_transform_def Let_def)

lemma post_transform_immune:
  assumes "ar_validator a \<noteq> MODE_DEFAULT"
  shows "post_transform (Ask a) mode headless c auto_allow req =
     (if headless then headless_deny else attach_note (Ask a) c req)"
proof -
  obtain nt where n: "attach_note (Ask a) c req = Ask (a\<lparr>ar_containment_note := nt\<rparr>)"
    using attach_note_Ask by blast
  with assms have "fenced_exec_proof auto_allow c req (attach_note (Ask a) c req) = None"
    by (cases c) (simp_all add: fenced_exec_proof_def)
  with n show ?thesis by (simp add: post_transform_def Let_def)
qed

text \<open>C23. The transform never relaxes a denial or an immune question: a denial passes unchanged, and an ask
  of any validator but the mode default stays an ask with its source, validator and text (only the
  fence's note may be added), or becomes the headless denial when there is nobody to answer.\<close>

theorem post_transform_never_relaxes:
  "post_transform (Deny r) mode headless c auto_allow req = Deny r \<and>
   (ar_validator a \<noteq> MODE_DEFAULT \<longrightarrow>
    (\<exists>note. post_transform (Ask a) mode headless c auto_allow req =
       (if headless then headless_deny else Ask (a\<lparr>ar_containment_note := note\<rparr>))))"
  using attach_note_Ask [of a c req] by (auto simp: post_transform_Deny post_transform_immune)

definition demo_host :: host where
  "demo_host = \<lparr>h_canonicalize = Some, h_exists = (\<lambda>_. True), h_is_file = (\<lambda>_. False),
     h_is_dir = (\<lambda>_. False)\<rparr>"

definition demo_externals :: externals where
  "demo_externals = \<lparr>x_glob = (\<lambda>_. None), x_json = (\<lambda>_. []), x_host = demo_host\<rparr>"

definition demo_request :: "str \<Rightarrow> str \<Rightarrow> str \<Rightarrow> bool \<Rightarrow> tool_request" where
  "demo_request tool key v read_only = \<lparr>tq_tool_name = tool, tq_input = Some (JObject [(key, JString v)]),
     tq_is_destructive = True, tq_is_read_only = read_only, tq_native_requires_approval = False\<rparr>"

definition demo_ctx :: "permission_mode \<Rightarrow> str \<Rightarrow> gate_ctx" where
  "demo_ctx mode command = \<lparr>gc_mode = mode, gc_content = command, gc_segments = split_compound command,
     gc_rules = [], gc_consent = None, gc_effect = None, gc_egress_allow = [],
     gc_git_checkpoint_enabled = True\<rparr>"

definition demo_fence :: containment where
  "demo_fence = \<lparr>c_coverage = Fenced [\<lparr>fp_abs = True, fp_comps = [''work'']\<rparr>],
     c_capability_override = None, c_would_block = (\<lambda>_. None),
     c_boundary_root = Some \<lparr>fp_abs = True, fp_comps = [''work'']\<rparr>, c_boundary_dirs = [],
     c_write_dirs_override = None, c_denies_control_writes = True\<rparr>"

definition demo_ask :: ask_reason where
  "demo_ask = \<lparr>ar_source = AS_Detection, ar_validator = ''signal_command'', ar_detail = [],
     ar_containment_note = None\<rparr>"

theorem post_transform_never_relaxes_witness:
  "\<exists>note. post_transform (Ask demo_ask) Auto False None True (demo_request ''bash'' ''command'' ''kill 1'' False)
     = Ask (demo_ask\<lparr>ar_containment_note := note\<rparr>)"
  using post_transform_never_relaxes [of undefined Auto False None True
      "demo_request ''bash'' ''command'' ''kill 1'' False" demo_ask]
  by (simp add: demo_ask_def MODE_DEFAULT_def)


text \<open>A call is waved through on fence coverage in exactly one situation: the flag is on, the raw
  verdict is the mode default's own ask, the tool is a shell tool and the fence is active; the token
  then counts the writable roots of that fence.\<close>

lemma containment_allow_iff:
  assumes "\<forall>p. raw \<noteq> Allow (AR_Containment p)"
  shows "post_transform raw mode headless c auto_allow req = Allow (AR_Containment p) \<longleftrightarrow>
     auto_allow \<and> is_shell_tool (tq_tool_name req) \<and>
     (\<exists>a k roots. raw = Ask a \<and> ar_validator a = MODE_DEFAULT \<and> c = Some k \<and>
        c_coverage k = Fenced roots \<and> p = FenceProof (length roots))"
proof (cases raw)
  case (Allow r)
  have "mode_default mode req \<noteq> Allow (AR_Containment p)"
    by (auto simp: mode_default_def default_policy_def auto_policy_def Let_def
        split: permission_mode.splits side_effect.splits)
  with Allow assms show ?thesis by (auto simp: post_transform_def Let_def split: if_splits)
next
  case (Deny r)
  then show ?thesis by (simp add: post_transform_Deny)
next
  case (Ask a)
  obtain nt where n: "attach_note (Ask a) c req = Ask (a\<lparr>ar_containment_note := nt\<rparr>)"
    using attach_note_Ask by blast
  show ?thesis
    using Ask n
    by (cases c) (auto simp: post_transform_def Let_def fenced_exec_proof_def side_effect_for_Exec_iff
        side_effect_for_shell fence_proof_new_Some_iff headless_deny_def split: option.splits)
qed


lemma mode_default_cases:
  "mode_default mode req = Allow AR_ModeDefault \<or> (\<exists>t. mode_default mode req = Ask (mode_ask_reason t))"
  by (auto simp: mode_default_def default_policy_def auto_policy_def Let_def
      split: permission_mode.splits side_effect.splits)

text \<open>The mode default as a table: Manual allows only an unclassified tool that declares itself
  read-only, not destructive and not asking; Auto allows shell and file tools, and an unclassified tool
  that declares itself neither destructive nor asking; neither ever denies.\<close>

lemma mode_default_table:
  "(mode_default Manual req = Allow AR_ModeDefault \<longleftrightarrow>
     side_effect_for (tq_tool_name req) = SE_None \<and> tq_is_read_only req \<and> \<not> tq_is_destructive req
     \<and> \<not> tq_native_requires_approval req) \<and>
   (mode_default Auto req = Allow AR_ModeDefault \<longleftrightarrow>
     side_effect_for (tq_tool_name req) \<in> {SE_Exec, SE_Filesystem} \<or>
     side_effect_for (tq_tool_name req) = SE_None \<and> \<not> tq_is_destructive req
     \<and> \<not> tq_native_requires_approval req) \<and>
   (mode_default mode req = Allow AR_ModeDefault \<or> (\<exists>t. mode_default mode req = Ask (mode_ask_reason t)))"
proof (intro conjI)
  show "mode_default mode req = Allow AR_ModeDefault \<or> (\<exists>t. mode_default mode req = Ask (mode_ask_reason t))"
    by (rule mode_default_cases)
qed (cases "side_effect_for (tq_tool_name req)"; simp add: mode_default_def default_policy_def auto_policy_def)+

text \<open>In a headless session the transform leaves an ask standing in exactly one case: the Manual
  read-only waiver is withdrawn and the recomputed mode default asks. In every other case an ask becomes
  the headless denial (or, with the fenced-exec flag, the fenced allow).\<close>

lemma headless_ask_iff:
  "(\<exists>a. post_transform raw mode True c auto_allow req = Ask a) \<longleftrightarrow>
     mode = Manual \<and> raw = Allow AR_ModeDefault \<and> \<not> reads_confined c \<and>
     (\<exists>a. mode_default Manual req = Ask a)"
proof (cases raw)
  case (Ask a)
  obtain nt where "attach_note (Ask a) c req = Ask (a\<lparr>ar_containment_note := nt\<rparr>)"
    using attach_note_Ask by blast
  with Ask show ?thesis
    by (simp add: post_transform_def Let_def headless_deny_def split: option.splits)
qed (auto simp: post_transform_def Let_def)

end
