(* ===== verification/Store.thy ===== *)
theory Store
  imports Rules
begin

text \<open>
  The rule store (\<open>store.rs\<close>): one permissions file per scope, read and rewritten as a whole. The
  contract of the trait \<open>RuleStore\<close> is the locale \<open>rule_store\<close>, interpreted on the file store.

  The state \<open>file_store\<close> holds what each scope's file contains. A file's bytes are represented by what
  the JSON decoder makes of them (\<open>stored_file\<close>): an envelope, a legacy bare array of rules, or nothing
  readable; \<open>fs_write_error\<close> is the outcome the file system gives to a write. The mutex of the store
  makes every operation one step. A path is asked for a scope that has no file only by a caller's error;
  that panic is the result \<open>S_Panic\<close>.
\<close>

subsection \<open>Files\<close>

datatype store_error = Io | Decode | Encode

datatype store_result = S_Ok | S_Err store_error | S_Panic

record permissions_file =
  pf_version :: nat
  pf_rules :: "rule list"
  pf_directories :: "fpath list"
  pf_read_directories :: "fpath list"

definition pf_empty :: permissions_file where
  "pf_empty = \<lparr>pf_version = 2, pf_rules = [], pf_directories = [], pf_read_directories = []\<rparr>"

datatype stored_file =
    F_Missing
  | F_Unreadable
  | F_Empty
  | F_Envelope permissions_file
  | F_Legacy "rule list"
  | F_Corrupt

record file_store =
  fs_files :: "scope \<Rightarrow> stored_file"
  fs_write_error :: "scope \<Rightarrow> store_error option"
  fs_write_scope :: scope

definition stamp :: "scope \<Rightarrow> rule list \<Rightarrow> rule list" where
  "stamp sc rs = map (\<lambda>r. r\<lparr>r_scope := sc\<rparr>) rs"

definition legacy_envelope :: "rule list \<Rightarrow> permissions_file" where
  "legacy_envelope rs = pf_empty\<lparr>pf_rules := rs\<rparr>"

fun decode_envelope :: "stored_file \<Rightarrow> scope \<Rightarrow> permissions_file" where
  "decode_envelope (F_Envelope env) sc = env\<lparr>pf_rules := stamp sc (pf_rules env)\<rparr>"
| "decode_envelope (F_Legacy rs) sc = legacy_envelope (stamp sc rs)"
| "decode_envelope _ sc = legacy_envelope []"

definition has_path :: "scope \<Rightarrow> bool" where
  "has_path sc = (sc = User \<or> sc = Project \<or> sc = Local)"

definition read_envelope :: "file_store \<Rightarrow> scope \<Rightarrow> permissions_file" where
  "read_envelope s sc =
     (case fs_files s sc of
        F_Missing \<Rightarrow> pf_empty
      | F_Unreadable \<Rightarrow> pf_empty
      | F_Empty \<Rightarrow> pf_empty
      | f \<Rightarrow> decode_envelope f sc)"

definition write_envelope :: "file_store \<Rightarrow> scope \<Rightarrow> permissions_file \<Rightarrow> store_result \<times> file_store" where
  "write_envelope s sc env =
     (if \<not> has_path sc then (S_Panic, s)
      else (case fs_write_error s sc of
              Some e \<Rightarrow> (S_Err e, s)
            | None \<Rightarrow> (S_Ok, s\<lparr>fs_files := (fs_files s)(sc := F_Envelope (env\<lparr>pf_version := 2\<rparr>))\<rparr>)))"

subsection \<open>Rules\<close>

definition store_scopes :: "scope list" where
  "store_scopes = [User, Project, Local]"

definition read_scope :: "file_store \<Rightarrow> scope \<Rightarrow> rule list" where
  "read_scope s sc = pf_rules (read_envelope s sc)"

definition store_load :: "file_store \<Rightarrow> rule list" where
  "store_load s = concat (map (read_scope s) store_scopes)"

definition store_add :: "file_store \<Rightarrow> rule \<Rightarrow> store_result \<times> file_store" where
  "store_add s r =
     (let sc = r_scope r; env = read_envelope s sc in
      if \<not> has_path sc then (S_Panic, s)
      else if list_all (\<lambda>q. \<not> same_as q r) (pf_rules env)
      then write_envelope s sc (env\<lparr>pf_rules := pf_rules env @ [r]\<rparr>)
      else (S_Ok, s))"

definition store_remove :: "file_store \<Rightarrow> rule \<Rightarrow> store_result \<times> file_store" where
  "store_remove s r =
     (let sc = r_scope r; env = read_envelope s sc;
          kept = filter (\<lambda>q. \<not> same_as q r) (pf_rules env)
      in if \<not> has_path sc then (S_Panic, s)
         else if length kept = length (pf_rules env) then (S_Ok, s)
         else write_envelope s sc (env\<lparr>pf_rules := kept\<rparr>))"

definition store_clear :: "file_store \<Rightarrow> store_result \<times> file_store" where
  "store_clear s =
     (let sc = fs_write_scope s in
      if \<not> has_path sc then (S_Panic, s)
      else write_envelope s sc ((read_envelope s sc)\<lparr>pf_rules := []\<rparr>))"

subsection \<open>Directories\<close>

definition store_load_directories :: "file_store \<Rightarrow> fpath list" where
  "store_load_directories s = concat (map (\<lambda>sc. pf_directories (read_envelope s sc)) store_scopes)"

definition store_load_read_directories :: "file_store \<Rightarrow> fpath list" where
  "store_load_read_directories s =
     concat (map (\<lambda>sc. pf_read_directories (read_envelope s sc)) store_scopes)"

text \<open>A directory arrives as typed text; a leading tilde is expanded against the home directory
  (\<open>expand_home\<close> of the api crate, on a platform with one separator).\<close>

definition expand_home :: "str \<Rightarrow> fpath option \<Rightarrow> fpath" where
  "expand_home t home =
     (case strip_prefix ''~'' t of
        None \<Rightarrow> parse_path t
      | Some rest \<Rightarrow>
          if rest \<noteq> [] \<and> \<not> starts_char (CHR ''/'') rest then parse_path t
          else (case home of None \<Rightarrow> parse_path t
                | Some h \<Rightarrow>
                  (let r = trim_start_matches (\<lambda>c. c = CHR ''/'') rest in
                   if r = [] then h else path_join h (parse_path r))))"

definition canonical_dir :: "host \<Rightarrow> fpath option \<Rightarrow> str \<Rightarrow> fpath" where
  "canonical_dir h home dir =
     (let expanded = expand_home dir home in
      case h_canonicalize h expanded of Some c \<Rightarrow> c
      | None \<Rightarrow>
        (case (path_parent expanded, path_file_name expanded) of
           (Some p, Some leaf) \<Rightarrow>
             (case h_canonicalize h p of
                Some c \<Rightarrow> c\<lparr>fp_comps := fp_comps c @ [leaf]\<rparr>
              | None \<Rightarrow> expanded)
         | _ \<Rightarrow> expanded))"

definition store_add_directory ::
  "host \<Rightarrow> fpath option \<Rightarrow> file_store \<Rightarrow> str \<Rightarrow> scope \<Rightarrow> store_result \<times> file_store" where
  "store_add_directory h home s dir sc =
     (let env = read_envelope s sc; c = canonical_dir h home dir in
      if \<not> has_path sc then (S_Panic, s)
      else if list_all (\<lambda>d. d \<noteq> c) (pf_directories env)
      then write_envelope s sc
             (env\<lparr>pf_read_directories := filter (\<lambda>d. d \<noteq> c) (pf_read_directories env),
                  pf_directories := pf_directories env @ [c]\<rparr>)
      else (S_Ok, s))"

definition store_add_read_directory ::
  "host \<Rightarrow> fpath option \<Rightarrow> file_store \<Rightarrow> str \<Rightarrow> scope \<Rightarrow> store_result \<times> file_store" where
  "store_add_read_directory h home s dir sc =
     (let env = read_envelope s sc; c = canonical_dir h home dir in
      if \<not> has_path sc then (S_Panic, s)
      else if List.member (pf_directories env) c then (S_Ok, s)
      else if list_all (\<lambda>d. d \<noteq> c) (pf_read_directories env)
      then write_envelope s sc (env\<lparr>pf_read_directories := pf_read_directories env @ [c]\<rparr>)
      else (S_Ok, s))"

definition store_remove_directory ::
  "host \<Rightarrow> fpath option \<Rightarrow> file_store \<Rightarrow> str \<Rightarrow> scope \<Rightarrow> store_result \<times> file_store" where
  "store_remove_directory h home s dir sc =
     (let env = read_envelope s sc; c = canonical_dir h home dir;
          ds = filter (\<lambda>d. d \<noteq> c) (pf_directories env);
          rds = filter (\<lambda>d. d \<noteq> c) (pf_read_directories env)
      in if \<not> has_path sc then (S_Panic, s)
         else if length ds + length rds = length (pf_directories env) + length (pf_read_directories env)
         then (S_Ok, s)
         else write_envelope s sc (env\<lparr>pf_directories := ds, pf_read_directories := rds\<rparr>))"

subsection \<open>The contract\<close>

text \<open>What a client of the trait relies on: the rules of every scope after each operation, the stability of
  the directory grants, and that a failed write changes nothing.\<close>

locale rule_store =
  fixes rules_of :: "'s \<Rightarrow> scope \<Rightarrow> rule list"
    and grants_of :: "'s \<Rightarrow> scope \<Rightarrow> fpath list \<times> fpath list"
    and load :: "'s \<Rightarrow> rule list"
    and add :: "'s \<Rightarrow> rule \<Rightarrow> store_result \<times> 's"
    and remove :: "'s \<Rightarrow> rule \<Rightarrow> store_result \<times> 's"
  assumes load_eq: "load s = concat (map (rules_of s) store_scopes)"
    and scope_of: "r \<in> set (rules_of s sc) \<Longrightarrow> r_scope r = sc"
    and add_path: "add s r = (S_Ok, s') \<Longrightarrow> r_scope r \<in> set store_scopes"
    and add_rules: "add s r = (S_Ok, s') \<Longrightarrow> rules_of s' sc =
      (if sc = r_scope r \<and> (\<forall>q\<in>set (rules_of s sc). \<not> same_as q r) then rules_of s sc @ [r]
       else rules_of s sc)"
    and add_failed: "add s r = (res, s') \<Longrightarrow> res \<noteq> S_Ok \<Longrightarrow> s' = s"
    and remove_rules: "remove s r = (S_Ok, s') \<Longrightarrow> rules_of s' sc =
      (if sc = r_scope r then filter (\<lambda>q. \<not> same_as q r) (rules_of s sc) else rules_of s sc)"
    and remove_failed: "remove s r = (res, s') \<Longrightarrow> res \<noteq> S_Ok \<Longrightarrow> s' = s"
    and add_grants: "grants_of (snd (add s r)) = grants_of s"
    and remove_grants: "grants_of (snd (remove s r)) = grants_of s"
begin

lemma same_as_scope: "same_as q r \<Longrightarrow> r_scope q = r_scope r"
  by (simp add: same_as_def)

lemma add_present:
  assumes "add s r = (S_Ok, s')"
  shows "\<exists>q\<in>set (load s'). same_as q r"
proof -
  have "\<exists>q\<in>set (rules_of s' (r_scope r)). same_as q r"
    using add_rules [OF assms, of "r_scope r"] same_as_refl [of r] by auto
  then show ?thesis using add_path [OF assms] by (auto simp: load_eq)
qed

lemma remove_absent:
  assumes "remove s r = (S_Ok, s')"
  shows "\<not> (\<exists>q\<in>set (load s'). same_as q r)"
proof
  assume "\<exists>q\<in>set (load s'). same_as q r"
  then obtain q sc where q: "q \<in> set (rules_of s' sc)" "same_as q r" by (auto simp: load_eq)
  with same_as_scope scope_of have "sc = r_scope r" by metis
  with q remove_rules [OF assms, of sc] show False by auto
qed

lemma add_remove:
  assumes "add s r = (S_Ok, s')" "remove s' r = (S_Ok, s'')"
    and "\<not> (\<exists>q\<in>set (rules_of s (r_scope r)). same_as q r)"
  shows "rules_of s'' = rules_of s"
proof
  fix sc
  have "filter (\<lambda>q. \<not> same_as q r) (rules_of s (r_scope r)) = rules_of s (r_scope r)"
    using assms(3) by (auto intro: filter_True)
  with assms(3) show "rules_of s'' sc = rules_of s sc"
    by (cases "sc = r_scope r")
       (simp_all add: remove_rules [OF assms(2)] add_rules [OF assms(1)] same_as_refl)
qed

lemma add_twice:
  assumes "add s r = (S_Ok, s')" "add s' r = (S_Ok, s'')"
  shows "rules_of s'' = rules_of s'"
proof
  fix sc
  have "\<exists>q\<in>set (rules_of s' (r_scope r)). same_as q r"
    using add_rules [OF assms(1), of "r_scope r"] same_as_refl [of r] by auto
  then show "rules_of s'' sc = rules_of s' sc" using add_rules [OF assms(2), of sc] by auto
qed

end

definition store_grants :: "file_store \<Rightarrow> scope \<Rightarrow> fpath list \<times> fpath list" where
  "store_grants s sc = (pf_directories (read_envelope s sc), pf_read_directories (read_envelope s sc))"

lemma stamp_id: "(\<And>r. r \<in> set rs \<Longrightarrow> r_scope r = sc) \<Longrightarrow> stamp sc rs = rs"
  by (auto simp: stamp_def intro!: map_idI)

lemma stamp_scope: "r \<in> set (stamp sc rs) \<Longrightarrow> r_scope r = sc"
  by (auto simp: stamp_def)

lemma read_scope_scope: "r \<in> set (read_scope s sc) \<Longrightarrow> r_scope r = sc"
  by (cases "fs_files s sc")
     (auto simp: read_scope_def read_envelope_def pf_empty_def legacy_envelope_def dest: stamp_scope)

lemma write_envelope_cases:
  "write_envelope s sc env = (res, s') \<Longrightarrow>
     (res = S_Ok \<and> has_path sc \<and>
      s' = s\<lparr>fs_files := (fs_files s)(sc := F_Envelope (env\<lparr>pf_version := 2\<rparr>))\<rparr>) \<or> (res \<noteq> S_Ok \<and> s' = s)"
  by (auto simp: write_envelope_def split: if_splits option.splits)

lemma read_after_write:
  assumes "write_envelope s sc env = (S_Ok, s')" "\<And>r. r \<in> set (pf_rules env) \<Longrightarrow> r_scope r = sc"
  shows "read_envelope s' sc' = (if sc' = sc then env\<lparr>pf_version := 2\<rparr> else read_envelope s sc')"
  using write_envelope_cases [OF assms(1)] stamp_id [OF assms(2)]
  by (auto simp: read_envelope_def split: stored_file.splits)

text \<open>One successful rewrite of the rules of a scope.\<close>

lemma rewrite_rules:
  assumes "write_envelope s sc ((read_envelope s sc)\<lparr>pf_rules := rs\<rparr>) = (res, s')"
    and "\<And>r. r \<in> set rs \<Longrightarrow> r_scope r = sc"
  shows "(res = S_Ok \<longrightarrow> read_scope s' = (read_scope s)(sc := rs)) \<and> (res \<noteq> S_Ok \<longrightarrow> s' = s) \<and>
    store_grants s' = store_grants s \<and> (res = S_Ok \<longrightarrow> has_path sc)"
proof (cases "res = S_Ok")
  case True
  have "read_envelope s' sc' = (if sc' = sc then (read_envelope s sc)\<lparr>pf_rules := rs, pf_version := 2\<rparr>
      else read_envelope s sc')" for sc'
    using read_after_write [of s sc "(read_envelope s sc)\<lparr>pf_rules := rs\<rparr>" s' sc'] assms True by simp
  then show ?thesis
    using True write_envelope_cases [OF assms(1)]
    by (auto simp: fun_eq_iff read_scope_def store_grants_def)
next
  case False
  then show ?thesis using write_envelope_cases [OF assms(1)] by auto
qed

lemma store_add_result:
  assumes "store_add s r = (res, s')"
  shows "(res = S_Ok \<longrightarrow> has_path (r_scope r) \<and> read_scope s' =
      (if \<forall>q\<in>set (read_scope s (r_scope r)). \<not> same_as q r
       then (read_scope s)(r_scope r := read_scope s (r_scope r) @ [r]) else read_scope s)) \<and>
    (res \<noteq> S_Ok \<longrightarrow> s' = s) \<and> store_grants s' = store_grants s"
proof (cases "has_path (r_scope r) \<and> (\<forall>q\<in>set (read_scope s (r_scope r)). \<not> same_as q r)")
  case True
  then have "write_envelope s (r_scope r)
      ((read_envelope s (r_scope r))\<lparr>pf_rules := read_scope s (r_scope r) @ [r]\<rparr>) = (res, s')"
    using assms by (simp add: store_add_def Let_def read_scope_def list_all_iff)
  moreover have "r_scope q = r_scope r" if "q \<in> set (read_scope s (r_scope r) @ [r])" for q
    using that read_scope_scope by auto
  ultimately have "(res = S_Ok \<longrightarrow> read_scope s' =
        (read_scope s)(r_scope r := read_scope s (r_scope r) @ [r])) \<and> (res \<noteq> S_Ok \<longrightarrow> s' = s) \<and>
      store_grants s' = store_grants s"
    using rewrite_rules by blast
  with True show ?thesis by presburger
next
  case False
  show ?thesis
  proof (cases "has_path (r_scope r)")
    case True
    with False have dup: "\<not> (\<forall>q\<in>set (read_scope s (r_scope r)). \<not> same_as q r)" by blast
    then have "\<not> list_all (\<lambda>q. \<not> same_as q r) (pf_rules (read_envelope s (r_scope r)))"
      by (simp add: read_scope_def list_all_iff)
    with True assms have "res = S_Ok" "s' = s" by (simp_all add: store_add_def Let_def)
    with dup True show ?thesis by auto
  next
    case False
    with assms show ?thesis by (auto simp: store_add_def Let_def)
  qed
qed

lemma store_remove_result:
  assumes "store_remove s r = (res, s')"
  shows "(res = S_Ok \<longrightarrow> read_scope s' =
      (read_scope s)(r_scope r := filter (\<lambda>q. \<not> same_as q r) (read_scope s (r_scope r)))) \<and>
    (res \<noteq> S_Ok \<longrightarrow> s' = s) \<and> store_grants s' = store_grants s"
proof (cases "has_path (r_scope r) \<and>
    length (filter (\<lambda>q. \<not> same_as q r) (read_scope s (r_scope r))) \<noteq> length (read_scope s (r_scope r))")
  case True
  then have "write_envelope s (r_scope r) ((read_envelope s (r_scope r))\<lparr>pf_rules :=
      filter (\<lambda>q. \<not> same_as q r) (read_scope s (r_scope r))\<rparr>) = (res, s')"
    using assms by (simp add: store_remove_def Let_def read_scope_def)
  moreover have "r_scope q = r_scope r"
    if "q \<in> set (filter (\<lambda>q. \<not> same_as q r) (read_scope s (r_scope r)))" for q
    using that read_scope_scope by auto
  ultimately show ?thesis using rewrite_rules by blast
next
  case False
  then have same: "has_path (r_scope r) \<Longrightarrow>
      filter (\<lambda>q. \<not> same_as q r) (read_scope s (r_scope r)) = read_scope s (r_scope r)"
    by (metis filter_id_conv length_filter_less order_less_irrefl)
  show ?thesis
  proof (cases "has_path (r_scope r)")
    case True
    with False assms have "res = S_Ok" "s' = s"
      by (auto simp: store_remove_def Let_def read_scope_def)
    with same [OF True] show ?thesis by simp
  next
    case False
    with assms show ?thesis by (auto simp: store_remove_def Let_def)
  qed
qed

interpretation files: rule_store read_scope store_grants store_load store_add store_remove
proof
  fix s s' :: file_store and r sc res
  show "store_load s = concat (map (read_scope s) store_scopes)" by (simp add: store_load_def)
  show "r \<in> set (read_scope s sc) \<Longrightarrow> r_scope r = sc" by (rule read_scope_scope)
  show "r_scope r \<in> set store_scopes" if "store_add s r = (S_Ok, s')"
    using store_add_result [OF that] by (auto simp: has_path_def store_scopes_def)
  show "read_scope s' sc =
      (if sc = r_scope r \<and> (\<forall>q\<in>set (read_scope s sc). \<not> same_as q r) then read_scope s sc @ [r]
       else read_scope s sc)" if "store_add s r = (S_Ok, s')"
    using store_add_result [OF that] by auto
  show "s' = s" if "store_add s r = (res, s')" "res \<noteq> S_Ok"
    using store_add_result [OF that(1)] that(2) by blast
  show "read_scope s' sc =
      (if sc = r_scope r then filter (\<lambda>q. \<not> same_as q r) (read_scope s sc) else read_scope s sc)"
    if "store_remove s r = (S_Ok, s')"
    using store_remove_result [OF that] by auto
  show "s' = s" if "store_remove s r = (res, s')" "res \<noteq> S_Ok"
    using store_remove_result [OF that(1)] that(2) by blast
  show "store_grants (snd (store_add s r)) = store_grants s"
    using store_add_result [of s r] by (cases "store_add s r") auto
  show "store_grants (snd (store_remove s r)) = store_grants s"
    using store_remove_result [of s r] by (cases "store_remove s r") auto
qed

text \<open>Adding a rule and removing it again restores every scope: when no rule with its identity was
  stored, the rules of all scopes and all directory grants are what they were, and in between the rule is
  loaded.\<close>

lemma store_add_remove_roundtrip:
  assumes "store_add s r = (S_Ok, s')" and "store_remove s' r = (S_Ok, s'')"
    and "\<not> (\<exists>q\<in>set (read_scope s (r_scope r)). same_as q r)"
  shows "(\<exists>q\<in>set (store_load s'). same_as q r) \<and> store_load s'' = store_load s \<and>
         read_scope s'' = read_scope s \<and> store_grants s'' = store_grants s"
proof -
  have "read_scope s'' = read_scope s" by (rule files.add_remove [OF assms])
  moreover have "store_grants s'' = store_grants s"
    using files.add_grants [of s r] files.remove_grants [of s' r] assms(1,2) by simp
  ultimately show ?thesis using files.add_present [OF assms(1)] by (simp add: store_load_def)
qed

text \<open>A removed rule is gone from every scope, duplicates included; a failed write leaves the store as
  it was; and neither operation touches another scope or a directory grant.\<close>

lemma store_remove_complete:
  assumes "store_remove s r = (res, s')"
  shows "(res = S_Ok \<longrightarrow> \<not> (\<exists>q\<in>set (store_load s'). same_as q r)) \<and> (res \<noteq> S_Ok \<longrightarrow> s' = s) \<and>
         (\<forall>sc. sc \<noteq> r_scope r \<longrightarrow> read_scope s' sc = read_scope s sc) \<and> store_grants s' = store_grants s"
proof -
  have "\<forall>sc. sc \<noteq> r_scope r \<longrightarrow> read_scope s' sc = read_scope s sc"
    using store_remove_result [OF assms] by (cases "res = S_Ok") auto
  then show ?thesis
    using files.remove_absent [of s r s'] files.remove_failed [OF assms] files.remove_grants [of s r] assms
    by auto
qed

definition demo_rule :: rule where
  "demo_rule = \<lparr>r_action = ''bash'', r_content = Some (RC_Prefix ''npm run''), r_effect = E_Allow,
     r_scope = Local\<rparr>"

definition demo_store :: file_store where
  "demo_store = \<lparr>fs_files = (\<lambda>_. F_Missing), fs_write_error = (\<lambda>_. None), fs_write_scope = Project\<rparr>"

lemma demo_store_add:
  "store_add demo_store demo_rule = (S_Ok, demo_store\<lparr>fs_files := (fs_files demo_store)(Local :=
     F_Envelope (pf_empty\<lparr>pf_rules := [demo_rule]\<rparr>))\<rparr>)"
  by (simp add: store_add_def demo_store_def demo_rule_def read_envelope_def write_envelope_def has_path_def
      pf_empty_def)

lemma demo_store_remove:
  "store_remove (snd (store_add demo_store demo_rule)) demo_rule =
     (S_Ok, demo_store\<lparr>fs_files := (fs_files demo_store)(Local := F_Envelope pf_empty)\<rparr>)"
  by (simp add: demo_store_add)
     (simp add: store_remove_def demo_store_def demo_rule_def read_envelope_def write_envelope_def
       has_path_def pf_empty_def stamp_def same_as_refl)


end
