(* ===== verification/Gate.thy ===== *)
theory Gate
  imports Pipeline Store
begin

text \<open>
  The permission gate (\<open>gate.rs\<close>): its state behind mutexes as one record, its builders and operations
  as functions on that record, and the step relation of a gate in use. Each operation of the code holds
  the locks it needs while it changes a field, so an operation is one step. A consent lookup prunes
  expired entries of the store; since pruning changes no later answer (\<open>mem.recall_recall\<close>), the record
  keeps the entries. The wall clock at a decision is an argument.
\<close>

subsection \<open>State and construction\<close>

record gate =
  g_mode :: permission_mode
  g_rules :: "rule list"
  g_history :: "mode_change list"
  g_consent :: "consent_mem option"
  g_store :: "file_store option"
  g_pipeline :: ladder
  g_headless :: bool
  g_containment :: "containment option"
  g_auto_allow :: bool
  g_metrics :: counter
  g_disabled :: "str set"
  g_egress_allow :: "str list"

definition gate_with_mode :: "permission_mode \<Rightarrow> gate" where
  "gate_with_mode mode =
     \<lparr>g_mode = mode, g_rules = builtin_rules, g_history = [], g_consent = None, g_store = None,
      g_pipeline = pipeline_standard, g_headless = False, g_containment = None, g_auto_allow = False,
      g_metrics = counter_new, g_disabled = {}, g_egress_allow = []\<rparr>"

definition gate_new :: gate where
  "gate_new = gate_with_mode Auto"

definition gate_with_consent :: "gate \<Rightarrow> consent_mem \<Rightarrow> gate" where
  "gate_with_consent g cs = g\<lparr>g_consent := Some cs\<rparr>"

definition gate_with_store :: "gate \<Rightarrow> file_store \<Rightarrow> gate" where
  "gate_with_store g s = g\<lparr>g_rules := g_rules g @ store_load s, g_store := Some s\<rparr>"

definition gate_with_headless :: "gate \<Rightarrow> bool \<Rightarrow> gate" where
  "gate_with_headless g h = g\<lparr>g_headless := h\<rparr>"

definition gate_with_containment :: "gate \<Rightarrow> containment \<Rightarrow> gate" where
  "gate_with_containment g c =
     g\<lparr>g_containment := Some c, g_pipeline := pipeline_with_containment c\<rparr>"

definition gate_with_auto_allow :: "gate \<Rightarrow> bool \<Rightarrow> gate" where
  "gate_with_auto_allow g on = g\<lparr>g_auto_allow := on\<rparr>"

definition push_new :: "str list \<Rightarrow> str \<Rightarrow> str list" where
  "push_new xs s = (if List.member xs s then xs else xs @ [s])"

definition gate_with_trusted_hosts :: "gate \<Rightarrow> gate" where
  "gate_with_trusted_hosts g =
     g\<lparr>g_egress_allow := foldl push_new (g_egress_allow g) trusted_egress_scopes\<rparr>"

subsection \<open>Deciding\<close>

definition rule_effect ::
  "externals \<Rightarrow> rule list \<Rightarrow> tool_request \<Rightarrow> str \<Rightarrow> containment option \<Rightarrow> effect option" where
  "rule_effect x rules req content c =
     (let eff = rules_evaluate x rules (tq_tool_name req) content in
      if \<not> is_shell_tool (tq_tool_name req) then eff
      else (case Option.bind (Option.bind c c_boundary_root)
                   (root_relative_content (x_host x) content) of
              Some t \<Rightarrow> strictest eff (rules_evaluate x rules (tq_tool_name req) t)
            | None \<Rightarrow> eff))"

definition builtin_ids :: "str list" where
  "builtin_ids = List.map_filter builtin_rule_id builtin_rules"

definition git_checkpoint_enabled :: "gate \<Rightarrow> bool" where
  "git_checkpoint_enabled g = (\<not> list_ex (\<lambda>i. i \<in> g_disabled g) builtin_ids)"

definition request_content :: "externals \<Rightarrow> tool_request \<Rightarrow> str" where
  "request_content x req =
     (let raw = input_content x (tq_tool_name req) (tq_input req) in
      if is_shell_tool (tq_tool_name req) then normalize_shell_command raw else raw)"

definition gate_ctx_for :: "externals \<Rightarrow> nat \<Rightarrow> gate \<Rightarrow> tool_request \<Rightarrow> gate_ctx" where
  "gate_ctx_for x wall g req =
     (let content = request_content x req in
      \<lparr>gc_mode = g_mode g, gc_content = content, gc_segments = split_compound content,
       gc_rules = g_rules g,
       gc_consent = map_option (\<lambda>cs t k. fst (consent_recall wall cs t k)) (g_consent g),
       gc_effect = rule_effect x (g_rules g) req content (g_containment g),
       gc_egress_allow = g_egress_allow g,
       gc_git_checkpoint_enabled = git_checkpoint_enabled g\<rparr>)"

definition gate_decide_inner ::
  "externals \<Rightarrow> nat \<Rightarrow> gate \<Rightarrow> tool_request \<Rightarrow> decision option \<times> permission_mode" where
  "gate_decide_inner x wall g req =
     (pipeline_decide x (g_pipeline g) req (gate_ctx_for x wall g req), g_mode g)"

definition gate_verdict :: "externals \<Rightarrow> nat \<Rightarrow> gate \<Rightarrow> tool_request \<Rightarrow> decision option" where
  "gate_verdict x wall g req =
     (case gate_decide_inner x wall g req of (raw, mode) \<Rightarrow>
        map_option (\<lambda>d. post_transform d mode (g_headless g) (g_containment g) (g_auto_allow g) req) raw)"

definition gate_decide :: "externals \<Rightarrow> nat \<Rightarrow> gate \<Rightarrow> tool_request \<Rightarrow> decision option \<times> gate" where
  "gate_decide x wall g req =
     (case gate_verdict x wall g req of
        None \<Rightarrow> (None, g)
      | Some d \<Rightarrow> (Some d, g\<lparr>g_metrics := counter_inc (g_metrics g) d\<rparr>))"

definition classify_git_op :: "str \<Rightarrow> str \<Rightarrow> str option" where
  "classify_git_op tool_name content =
     (case collect_git_ask_ops tool_name content of [] \<Rightarrow> None
      | first # ops \<Rightarrow> Some (if list_all (\<lambda>op. op = first) ops then first else ''mixed''))"

subsection \<open>Operations\<close>

definition gate_set_mode :: "gate \<Rightarrow> permission_mode \<Rightarrow> str \<Rightarrow> gate" where
  "gate_set_mode g new reason =
     (if g_mode g = new then g
      else g\<lparr>g_mode := new,
             g_history := g_history g @ [\<lparr>mc_from = g_mode g, mc_to = new, mc_reason = reason\<rparr>]\<rparr>)"

definition gate_tab_cycle :: "gate \<Rightarrow> (str + permission_mode) \<times> gate" where
  "gate_tab_cycle g =
     (case tab_next (g_mode g) of
        Some next_mode \<Rightarrow> (Inr next_mode, gate_set_mode g next_mode ''shift+tab cycle'')
      | None \<Rightarrow> (Inl (''shift+tab does not cycle from '' @ mode_label (g_mode g)), g))"

definition push_rule :: "rule list \<Rightarrow> rule \<Rightarrow> rule list" where
  "push_rule rules r = (if list_all (\<lambda>q. \<not> same_as q r) rules then rules @ [r] else rules)"

definition gate_add_rule :: "gate \<Rightarrow> rule \<Rightarrow> store_result \<times> gate" where
  "gate_add_rule g r =
     (case (if scope_is_writable (r_scope r) then g_store g else None) of
        None \<Rightarrow> (S_Ok, g\<lparr>g_rules := push_rule (g_rules g) r\<rparr>)
      | Some s \<Rightarrow>
        (case store_add s r of (res, s') \<Rightarrow>
           if res = S_Ok then (S_Ok, g\<lparr>g_store := Some s', g_rules := push_rule (g_rules g) r\<rparr>)
           else (res, g\<lparr>g_store := Some s'\<rparr>)))"

definition gate_add_directory ::
  "host \<Rightarrow> fpath option \<Rightarrow> gate \<Rightarrow> str \<Rightarrow> scope \<Rightarrow> store_result \<times> gate" where
  "gate_add_directory h home g dir sc =
     (case g_store g of
        Some s \<Rightarrow>
          if scope_is_writable sc
          then (case store_add_directory h home s dir sc of (res, s') \<Rightarrow> (res, g\<lparr>g_store := Some s'\<rparr>))
          else (S_Ok, g)
      | None \<Rightarrow> (S_Ok, g))"

definition gate_add_read_directory ::
  "host \<Rightarrow> fpath option \<Rightarrow> gate \<Rightarrow> str \<Rightarrow> scope \<Rightarrow> store_result \<times> gate" where
  "gate_add_read_directory h home g dir sc =
     (case g_store g of
        Some s \<Rightarrow>
          if scope_is_writable sc
          then (case store_add_read_directory h home s dir sc of (res, s') \<Rightarrow> (res, g\<lparr>g_store := Some s'\<rparr>))
          else (S_Ok, g)
      | None \<Rightarrow> (S_Ok, g))"

text \<open>\<open>remove_directory\<close> tries every writable scope and reports the first failure.\<close>

fun remove_directory_loop ::
  "host \<Rightarrow> fpath option \<Rightarrow> str \<Rightarrow> scope list \<Rightarrow> file_store \<Rightarrow> store_result \<Rightarrow> store_result \<times> file_store" where
  "remove_directory_loop h home dir [] s failure = (failure, s)"
| "remove_directory_loop h home dir (sc # scs) s failure =
     (case store_remove_directory h home s dir sc of (res, s') \<Rightarrow>
        remove_directory_loop h home dir scs s' (if failure = S_Ok then res else failure))"

definition gate_remove_directory :: "host \<Rightarrow> fpath option \<Rightarrow> gate \<Rightarrow> str \<Rightarrow> store_result \<times> gate" where
  "gate_remove_directory h home g dir =
     (case g_store g of None \<Rightarrow> (S_Ok, g)
      | Some s \<Rightarrow>
        (case remove_directory_loop h home dir [Local, Project, User] s S_Ok of
           (res, s') \<Rightarrow> (res, g\<lparr>g_store := Some s'\<rparr>)))"

text \<open>The position of the n-th writable rule, the rule at it and the rules without it.\<close>

fun take_durable :: "rule list \<Rightarrow> nat \<Rightarrow> (rule \<times> rule list) option" where
  "take_durable [] n = None"
| "take_durable (r # rs) n =
     (if scope_is_writable (r_scope r)
      then (case n of 0 \<Rightarrow> Some (r, rs) | Suc m \<Rightarrow> map_option (\<lambda>(q, qs). (q, r # qs)) (take_durable rs m))
      else map_option (\<lambda>(q, qs). (q, r # qs)) (take_durable rs n))"

definition gate_remove_rule :: "gate \<Rightarrow> nat \<Rightarrow> bool \<times> gate" where
  "gate_remove_rule g index =
     (case take_durable (g_rules g) index of
        None \<Rightarrow> (False, g)
      | Some (removed, rest) \<Rightarrow>
          (True, g\<lparr>g_rules := rest,
                   g_store := map_option (\<lambda>s. snd (store_remove s removed)) (g_store g)\<rparr>))"

definition gate_add_egress_allow :: "gate \<Rightarrow> str \<Rightarrow> gate" where
  "gate_add_egress_allow g dest =
     (if dest = [] then g
      else g\<lparr>g_egress_allow := push_new (g_egress_allow g) dest\<rparr>)"

definition not_disabled :: "str set \<Rightarrow> rule \<Rightarrow> bool" where
  "not_disabled disabled r = (case builtin_rule_id r of Some i \<Rightarrow> i \<notin> disabled | None \<Rightarrow> True)"

definition gate_set_git_checkpoint :: "gate \<Rightarrow> bool \<Rightarrow> gate" where
  "gate_set_git_checkpoint g enabled =
     (let disabled = (if enabled then g_disabled g - set builtin_ids else g_disabled g \<union> set builtin_ids)
      in g\<lparr>g_disabled := disabled,
           g_rules := filter (not_disabled disabled) builtin_rules @
                      filter (not_disabled disabled) (g_rules g)\<rparr>)"

definition gate_fence_capability :: "gate \<Rightarrow> fence_capability" where
  "gate_fence_capability g =
     (case g_containment g of Some c \<Rightarrow> containment_capability c | None \<Rightarrow> fc_none)"

definition gate_fence_would_block :: "gate \<Rightarrow> side_effect \<Rightarrow> str option" where
  "gate_fence_would_block g eff = Option.bind (g_containment g) (\<lambda>c. c_would_block c eff)"

subsection \<open>A gate in use\<close>

text \<open>The steps of a gate after it is built: every public operation, with arbitrary arguments and at an
  arbitrary instant.\<close>

inductive gate_step :: "gate \<Rightarrow> gate \<Rightarrow> bool" where
  step_decide: "gate_decide x wall g req = (d, g') \<Longrightarrow> gate_step g g'"
| step_mode: "gate_step g (gate_set_mode g m reason)"
| step_cycle: "gate_step g (snd (gate_tab_cycle g))"
| step_add_rule: "gate_add_rule g r = (res, g') \<Longrightarrow> gate_step g g'"
| step_remove_rule: "gate_remove_rule g i = (b, g') \<Longrightarrow> gate_step g g'"
| step_add_dir: "gate_add_directory h home g dir sc = (res, g') \<Longrightarrow> gate_step g g'"
| step_add_read_dir: "gate_add_read_directory h home g dir sc = (res, g') \<Longrightarrow> gate_step g g'"
| step_remove_dir: "gate_remove_directory h home g dir = (res, g') \<Longrightarrow> gate_step g g'"
| step_egress: "gate_step g (gate_add_egress_allow g dest)"
| step_checkpoint: "gate_step g (gate_set_git_checkpoint g on)"
| step_headless: "gate_step g (gate_with_headless g b)"
| step_consent: "g_consent g = Some cs \<Longrightarrow> gate_step g (g\<lparr>g_consent := Some (consent_record wall cs t k)\<rparr>)"

text \<open>A gate that can occur: built with a mode, given its parts by the builders, and then used.\<close>

inductive gate_built :: "permission_mode \<Rightarrow> gate \<Rightarrow> bool" for m where
  built_mode: "gate_built m (gate_with_mode m)"
| built_consent: "gate_built m g \<Longrightarrow> consent_inv cs \<Longrightarrow> gate_built m (gate_with_consent g cs)"
| built_store: "gate_built m g \<Longrightarrow> gate_built m (gate_with_store g s)"
| built_headless: "gate_built m g \<Longrightarrow> gate_built m (gate_with_headless g b)"
| built_containment: "gate_built m g \<Longrightarrow> gate_built m (gate_with_containment g c)"
| built_auto: "gate_built m g \<Longrightarrow> gate_built m (gate_with_auto_allow g b)"
| built_trusted: "gate_built m g \<Longrightarrow> gate_built m (gate_with_trusted_hosts g)"

inductive gate_reachable :: "permission_mode \<Rightarrow> gate \<Rightarrow> bool" for m where
  reach_built: "gate_built m g \<Longrightarrow> gate_reachable m g"
| reach_step: "gate_reachable m g \<Longrightarrow> gate_step g g' \<Longrightarrow> gate_reachable m g'"

inductive_cases gate_step_cases: "gate_step g g'"

lemma reach_add_rule: "gate_reachable m g \<Longrightarrow> gate_reachable m (snd (gate_add_rule g r))"
  by (cases "gate_add_rule g r") (auto intro: reach_step step_add_rule)

text \<open>The history of a gate as a chain of mode changes from the mode it was built with.\<close>

fun mode_chain :: "permission_mode \<Rightarrow> mode_change list \<Rightarrow> permission_mode \<Rightarrow> bool" where
  "mode_chain m [] m' = (m = m')"
| "mode_chain m (c # cs) m' = (mc_from c = m \<and> mc_from c \<noteq> mc_to c \<and> mode_chain (mc_to c) cs m')"

lemma mode_chain_snoc:
  "mode_chain m (cs @ [c]) m' \<longleftrightarrow> mode_chain m cs (mc_from c) \<and> mc_from c \<noteq> mc_to c \<and> mc_to c = m'"
  by (induction cs arbitrary: m) auto

definition gate_inv :: "permission_mode \<Rightarrow> gate \<Rightarrow> bool" where
  "gate_inv m g \<longleftrightarrow>
     g_pipeline g = ladder_for (g_containment g) \<and> mode_chain m (g_history g) (g_mode g) \<and>
     distinct (g_egress_allow g) \<and> g_disabled g \<subseteq> set builtin_ids \<and>
     (\<forall>cs. g_consent g = Some cs \<longrightarrow> consent_inv cs)"

lemma push_new_distinct: "distinct xs \<Longrightarrow> distinct (push_new xs s)"
  by (simp add: push_new_def)

lemma foldl_push_new_distinct: "distinct xs \<Longrightarrow> distinct (foldl push_new xs ys)"
  by (induction ys arbitrary: xs) (simp_all add: push_new_distinct)

lemma gate_inv_built: "gate_built m g \<Longrightarrow> gate_inv m g"
  by (induction rule: gate_built.induct)
     (auto simp: gate_inv_def gate_with_mode_def gate_with_consent_def gate_with_store_def
       gate_with_headless_def gate_with_containment_def gate_with_auto_allow_def gate_with_trusted_hosts_def
       ladder_for_def foldl_push_new_distinct)

text \<open>Most operations leave the parts the invariant is about alone.\<close>

definition same_frame :: "gate \<Rightarrow> gate \<Rightarrow> bool" where
  "same_frame g g' \<longleftrightarrow>
     g_pipeline g' = g_pipeline g \<and> g_containment g' = g_containment g \<and> g_mode g' = g_mode g \<and>
     g_history g' = g_history g \<and> g_egress_allow g' = g_egress_allow g \<and> g_disabled g' = g_disabled g \<and>
     g_consent g' = g_consent g"

lemma gate_inv_frame: "gate_inv m g \<Longrightarrow> same_frame g g' \<Longrightarrow> gate_inv m g'"
  by (simp add: gate_inv_def same_frame_def)

lemma frame_ops:
  "gate_decide x wall g req = (d, g') \<Longrightarrow> same_frame g g'"
  "gate_add_rule g r = (res, g') \<Longrightarrow> same_frame g g'"
  "gate_remove_rule g i = (b, g') \<Longrightarrow> same_frame g g'"
  "gate_add_directory h home g dir sc = (res, g') \<Longrightarrow> same_frame g g'"
  "gate_add_read_directory h home g dir sc = (res, g') \<Longrightarrow> same_frame g g'"
  "gate_remove_directory h home g dir = (res, g') \<Longrightarrow> same_frame g g'"
  "same_frame g (gate_with_headless g on)"
  by (auto simp: same_frame_def gate_decide_def gate_add_rule_def gate_remove_rule_def
      gate_add_directory_def gate_add_read_directory_def gate_remove_directory_def gate_with_headless_def
      split: option.splits prod.splits if_splits)

lemma gate_inv_set_mode: "gate_inv m g \<Longrightarrow> gate_inv m (gate_set_mode g new reason)"
  by (auto simp: gate_inv_def gate_set_mode_def mode_chain_snoc)

lemma gate_inv_step: "gate_step g g' \<Longrightarrow> gate_inv m g \<Longrightarrow> gate_inv m g'"
proof (induction rule: gate_step.induct)
  case (step_cycle g)
  then show ?case
    by (auto simp: gate_tab_cycle_def gate_inv_set_mode split: option.splits)
next
  case (step_consent g cs wall t k)
  then show ?case using mem.inv_record by (auto simp: gate_inv_def)
next
  case (step_egress g dest)
  then show ?case by (auto simp: gate_inv_def gate_add_egress_allow_def push_new_distinct)
next
  case (step_checkpoint g on)
  then show ?case by (auto simp: gate_inv_def gate_set_git_checkpoint_def Let_def)
qed (blast intro: gate_inv_frame frame_ops gate_inv_set_mode)+

lemma gate_reachable_inv: "gate_reachable m g \<Longrightarrow> gate_inv m g"
  by (induction rule: gate_reachable.induct) (auto intro: gate_inv_built gate_inv_step)

subsection \<open>Verdicts of a reachable gate\<close>

lemma gate_verdict_ladder:
  assumes "gate_reachable m g"
  shows "gate_verdict x wall g req =
     map_option (\<lambda>d. post_transform d (g_mode g) (g_headless g) (g_containment g) (g_auto_allow g) req)
       (pipeline_decide x (ladder_for (g_containment g)) req (gate_ctx_for x wall g req))"
  using gate_reachable_inv [OF assms]
  by (simp add: gate_verdict_def gate_decide_inner_def gate_inv_def)

lemma rule_effect_Deny:
  "rules_evaluate x rules (tq_tool_name req) content = Some E_Deny \<Longrightarrow>
   rule_effect x rules req content c = Some E_Deny"
  by (simp add: rule_effect_def Let_def split: option.splits)

lemma gate_verdict_denied:
  assumes "gate_reachable m g"
    and "rules_evaluate x (g_rules g) (tq_tool_name req) (request_content x req) = Some E_Deny"
  shows "gate_verdict x wall g req =
     Some (Deny \<lparr>dr_source = DS_UserRule, dr_validator = ''rule_deny'',
                 dr_detail = ''a deny rule matched this call''\<rparr>)"
proof -
  have "gc_effect (gate_ctx_for x wall g req) = Some E_Deny"
    using assms(2) by (simp add: gate_ctx_for_def Let_def rule_effect_Deny)
  then show ?thesis
    by (simp add: gate_verdict_ladder [OF assms(1)] ladder_decide_eq check_rule_deny_def post_transform_Deny)
qed

text \<open>C1. Deny wins at the gate: on every gate that can occur, a deny rule that matches the call makes the
  verdict the user-rule denial, whatever the mode, the other rules, the consents, the fence and the
  headless and fenced-exec flags are.\<close>

theorem deny_rule_wins:
  assumes "gate_reachable m g" and "r \<in> set (g_rules g)" and "r_effect r = E_Deny"
    and "rule_matches x (tq_tool_name req) (request_content x req) r"
  shows "gate_verdict x wall g req =
     Some (Deny \<lparr>dr_source = DS_UserRule, dr_validator = ''rule_deny'',
                 dr_detail = ''a deny rule matched this call''\<rparr>)"
  using assms(2-4) by (intro gate_verdict_denied [OF assms(1)]) (auto simp: evaluate_Deny_iff)

text \<open>A reachable gate always answers: no call makes its ladder run off the end.\<close>

lemma gate_answers:
  assumes "gate_reachable m g"
  shows "\<exists>d g'. gate_decide x wall g req = (Some d, g') \<and> gate_verdict x wall g req = Some d"
proof -
  obtain d where "gate_verdict x wall g req = Some d"
    using ladder_answers [of x "g_containment g" req "gate_ctx_for x wall g req"]
    by (auto simp: gate_verdict_ladder [OF assms])
  then show ?thesis by (simp add: gate_decide_def)
qed

text \<open>The mode history of a reachable gate is a gap-free chain: the first entry leaves the mode the
  gate was built with, every entry changes the mode and starts where the last one ended, and the last
  one ends in the current mode; and the gate runs the ladder that belongs to its fence.\<close>

lemma gate_history_chain:
  assumes "gate_reachable m g"
  shows "mode_chain m (g_history g) (g_mode g) \<and> g_pipeline g = ladder_for (g_containment g) \<and>
     distinct (g_egress_allow g)"
  using gate_reachable_inv [OF assms] by (simp add: gate_inv_def)

lemma gate_protected_verdict:
  assumes "gate_reachable m g"
    and "check_protected_path x (g_containment g) req (gate_ctx_for x wall g req) \<noteq> None"
    and "rule_effect x (g_rules g) req (request_content x req) (g_containment g) \<in> {None, Some E_Allow}"
  shows "gate_verdict x wall g req =
     Some (if g_headless g then headless_deny else attach_note protected_ask (g_containment g) req)"
proof -
  have eff: "gc_effect (gate_ctx_for x wall g req) = None \<or> gc_effect (gate_ctx_for x wall g req) = Some E_Allow"
    using assms(3) by (simp add: gate_ctx_for_def Let_def)
  have "pipeline_decide x (ladder_for (g_containment g)) req (gate_ctx_for x wall g req) = Some protected_ask"
    using assms(2) eff check_protected_path_cases [of x "g_containment g" req "gate_ctx_for x wall g req"]
    by (auto simp: ladder_decide_eq check_rule_deny_def check_rule_ask_def)
  then show ?thesis
    using gate_verdict_ladder [OF assms(1), of x wall req]
    by (simp add: protected_ask_def post_transform_immune MODE_DEFAULT_def)
qed

text \<open>C2. On every reachable gate a call the protected-path check stops is never allowed by a mode, an
  allow rule, a remembered destination, a stored consent or the fence, unless an ask rule matched it:
  the verdict is the protected-path question (the fence's note may be added), or the headless denial.\<close>

theorem gate_protected_path:
  assumes "gate_reachable m g"
    and "check_protected_path x (g_containment g) req (gate_ctx_for x wall g req) \<noteq> None"
    and "rule_effect x (g_rules g) req (request_content x req) (g_containment g) \<in> {None, Some E_Allow}"
  shows "gate_verdict x wall g req =
     Some (if g_headless g then headless_deny else attach_note protected_ask (g_containment g) req)"
  by (rule gate_protected_verdict [OF assms])


subsection \<open>Rule operations\<close>

lemma push_rule_new: "list_all (\<lambda>q. \<not> same_as q r) rules \<Longrightarrow> push_rule rules r = rules @ [r]"
  by (simp add: push_rule_def)

lemma push_rule_present: "\<exists>q\<in>set (push_rule rules r). same_as q r"
  using same_as_refl by (auto simp: push_rule_def list_all_iff)

lemma writable_has_path: "scope_is_writable sc \<Longrightarrow> has_path sc"
  by (cases sc) (simp_all add: scope_is_writable_def has_path_def)

text \<open>C24. Adding a rule is all or nothing: a failed save leaves the live rules and the store as they were,
  and never panics; a successful one puts the rule (or one with its identity) in the live set, keeps every
  other rule in place, and, for a durable scope with a store attached, in what a restart loads.\<close>

theorem gate_add_rule_atomic:
  assumes "gate_add_rule g r = (res, g')"
  shows "res \<noteq> S_Panic \<and> (res \<noteq> S_Ok \<longrightarrow> g' = g) \<and>
     (res = S_Ok \<longrightarrow>
        (\<exists>q\<in>set (g_rules g'). same_as q r) \<and> (g_rules g' = g_rules g \<or> g_rules g' = g_rules g @ [r]) \<and>
        (\<forall>s'. scope_is_writable (r_scope r) \<and> g_store g' = Some s' \<longrightarrow>
           (\<exists>q\<in>set (store_load s'). same_as q r)))"
proof -
  have push: "push_rule (g_rules g) r = g_rules g \<or> push_rule (g_rules g) r = g_rules g @ [r]"
    by (simp add: push_rule_def)
  show ?thesis
  proof (cases "if scope_is_writable (r_scope r) then g_store g else None")
    case None
    with assms push push_rule_present [of "g_rules g" r] show ?thesis
      by (auto simp: gate_add_rule_def split: if_splits)
  next
    case (Some s)
    then have w: "scope_is_writable (r_scope r)" "g_store g = Some s" by (auto split: if_splits)
    obtain res' s' where add: "store_add s r = (res', s')" by (cases "store_add s r")
    have "res' \<noteq> S_Panic"
      using add writable_has_path [OF w(1)]
      by (auto simp: store_add_def write_envelope_def Let_def split: if_splits option.splits)
    moreover have "res' \<noteq> S_Ok \<Longrightarrow> g\<lparr>g_store := Some s'\<rparr> = g"
      using files.add_failed [OF add] w(2) by simp
    moreover have "res' = S_Ok \<Longrightarrow> \<exists>q\<in>set (store_load s'). same_as q r"
      using files.add_present [of s r s'] add by simp
    ultimately show ?thesis
      using assms Some add push push_rule_present [of "g_rules g" r]
      by (auto simp: gate_add_rule_def split: if_splits)
  qed
qed

lemma take_durable_Some:
  "take_durable rs n = Some (q, qs) \<Longrightarrow>
     (\<exists>as bs. rs = as @ q # bs \<and> qs = as @ bs \<and>
        length (filter (\<lambda>r. scope_is_writable (r_scope r)) as) = n \<and> scope_is_writable (r_scope q))"
proof (induction rs n arbitrary: q qs rule: take_durable.induct)
  case (2 r rs n)
  show ?case
  proof (cases "scope_is_writable (r_scope r) \<and> n = 0")
    case True
    with "2.prems" have "r = q" "rs = qs" by auto
    with True show ?thesis by (intro exI [of _ "[]"] exI [of _ rs]) auto
  next
    case False
    then obtain k qs' where k: "take_durable rs k = Some (q, qs')" "qs = r # qs'"
      "n = (if scope_is_writable (r_scope r) then Suc k else k)"
      using "2.prems" by (auto split: if_splits nat.splits)
    have "\<exists>as bs. rs = as @ q # bs \<and> qs' = as @ bs \<and>
        length (filter (\<lambda>r. scope_is_writable (r_scope r)) as) = k \<and> scope_is_writable (r_scope q)"
      using 2 k False by (cases "scope_is_writable (r_scope r)") auto
    then obtain as bs where ab: "rs = as @ q # bs" "qs' = as @ bs"
      "length (filter (\<lambda>r. scope_is_writable (r_scope r)) as) = k" "scope_is_writable (r_scope q)"
      by blast
    show ?thesis by (rule exI [of _ "r # as"], rule exI [of _ bs]) (use ab k in auto)
  qed
qed simp

lemma take_durable_None_iff:
  "take_durable rs n = None \<longleftrightarrow> length (filter (\<lambda>r. scope_is_writable (r_scope r)) rs) \<le> n"
  by (induction rs n rule: take_durable.induct) (auto split: nat.splits)

text \<open>Removing by index removes exactly the rule the list of durable rules shows at that index: one
  occurrence, no builtin or session rule, everything else in order; the index is refused exactly when it
  is past the durable rules.\<close>

lemma gate_remove_rule_exact:
  assumes "gate_remove_rule g i = (b, g')"
  shows "(b \<longleftrightarrow> i < length (filter (\<lambda>r. scope_is_writable (r_scope r)) (g_rules g))) \<and>
     (\<not> b \<longrightarrow> g' = g) \<and>
     (b \<longrightarrow> (\<exists>as q bs. g_rules g = as @ q # bs \<and> g_rules g' = as @ bs \<and>
        filter (\<lambda>r. scope_is_writable (r_scope r)) (g_rules g) ! i = q \<and> scope_is_writable (r_scope q)))"
proof (cases "take_durable (g_rules g) i")
  case None
  with assms show ?thesis
    by (simp add: gate_remove_rule_def take_durable_None_iff [symmetric] not_less [symmetric])
       (use take_durable_None_iff [of "g_rules g" i] in \<open>simp add: not_less\<close>)
next
  case (Some p)
  obtain q qs where p: "p = (q, qs)" by (cases p)
  from take_durable_Some [OF Some [unfolded p]] obtain as bs where ab: "g_rules g = as @ q # bs"
    "qs = as @ bs" "length (filter (\<lambda>r. scope_is_writable (r_scope r)) as) = i"
    "scope_is_writable (r_scope q)"
    by blast
  have "b \<and> g_rules g' = as @ bs" using assms Some p ab(2) by (auto simp: gate_remove_rule_def)
  moreover have "filter (\<lambda>r. scope_is_writable (r_scope r)) (g_rules g) ! i = q"
    using ab by (simp add: nth_append)
  moreover have "i < length (filter (\<lambda>r. scope_is_writable (r_scope r)) (g_rules g))"
    using ab by simp
  ultimately show ?thesis using ab by auto
qed

subsection \<open>The git checkpoint toggle\<close>

lemma builtin_ids_eq:
  "builtin_ids = [''bash(git commit:*)'', ''bash(git rebase:*)'', ''bash(git reset:*)'', ''bash(git tag:*)'']"
  by code_simp

lemma builtin_rule_id_builtin: "r \<in> set builtin_rules \<Longrightarrow> \<exists>i\<in>set builtin_ids. builtin_rule_id r = Some i"
  by (auto simp: builtin_ids_def map_filter_def builtin_rules_def builtin_rule_id_def)

lemma not_disabled_builtin:
  "filter (not_disabled (D - set builtin_ids)) builtin_rules = builtin_rules"
  "filter (not_disabled (D \<union> set builtin_ids)) builtin_rules = []"
  using builtin_rule_id_builtin
  by (fastforce simp: filter_id_conv filter_empty_conv not_disabled_def split: option.splits)+

lemma evaluate_prepend:
  assumes "set as \<subseteq> set rules"
  shows "rules_evaluate x (as @ rules) t i = rules_evaluate x rules t i"
proof -
  have "matched_effects x rules t i = [] \<Longrightarrow> matched_effects x as t i = []"
    using assms by (auto simp: matched_effects_def filter_empty_conv)
  moreover have "set (matched_effects x as t i) \<subseteq> set (matched_effects x rules t i)"
    using assms by (auto simp: matched_effects_def)
  moreover have "matched_effects x (as @ rules) t i = matched_effects x as t i @ matched_effects x rules t i"
    by (simp add: matched_effects_def)
  ultimately show ?thesis by (auto simp: evaluate_matched Let_def)
qed

text \<open>The checkpoint toggle does what it says: afterwards the gate reports the new setting; switched off,
  no builtin checkpoint rule is left; switched on, all four are there; and every other rule stays, in
  order, either way.\<close>

lemma git_checkpoint_toggle:
  "git_checkpoint_enabled (gate_set_git_checkpoint g on) = on \<and>
   (\<not> on \<longrightarrow> (\<forall>r\<in>set (g_rules (gate_set_git_checkpoint g on)). \<forall>i\<in>set builtin_ids. builtin_rule_id r \<noteq> Some i)) \<and>
   (on \<longrightarrow> set builtin_rules \<subseteq> set (g_rules (gate_set_git_checkpoint g on))) \<and>
   filter (\<lambda>r. r_scope r \<noteq> Builtin) (g_rules (gate_set_git_checkpoint g on)) =
     filter (\<lambda>r. r_scope r \<noteq> Builtin) (g_rules g)"
proof -
  let ?g = "gate_set_git_checkpoint g on"
  have en: "git_checkpoint_enabled ?g = on"
    by (cases on) (auto simp: git_checkpoint_enabled_def gate_set_git_checkpoint_def Let_def list_ex_iff
        builtin_ids_eq)
  have off: "\<not> on \<longrightarrow> (\<forall>r\<in>set (g_rules ?g). \<forall>i\<in>set builtin_ids. builtin_rule_id r \<noteq> Some i)"
    by (auto simp: gate_set_git_checkpoint_def Let_def not_disabled_def split: option.splits)
  have on: "on \<longrightarrow> set builtin_rules \<subseteq> set (g_rules ?g)"
    by (simp add: gate_set_git_checkpoint_def Let_def not_disabled_builtin)
  have nb: "filter (\<lambda>r. r_scope r \<noteq> Builtin) (filter (not_disabled D) builtin_rules) = []" for D
    by (auto simp: filter_empty_conv builtin_rules_def)
  have keep: "filter (\<lambda>r. r_scope r \<noteq> Builtin) (filter (not_disabled D) rs) =
      filter (\<lambda>r. r_scope r \<noteq> Builtin) rs" for D and rs
    by (auto simp: not_disabled_def builtin_rule_id_def intro!: filter_cong split: option.splits)
  show ?thesis
    using en off on nb keep by (simp add: gate_set_git_checkpoint_def Let_def del: filter_filter)
qed

text \<open>Switching the checkpoint on while it is on keeps the old builtin rules and prepends a second
  copy of each, so the rule list grows with every such call; the copies change no rule verdict.\<close>

lemma git_checkpoint_reenable_duplicates:
  "g_rules (gate_set_git_checkpoint (gate_with_mode m) True) = builtin_rules @ builtin_rules \<and>
   rules_evaluate x (g_rules (gate_set_git_checkpoint (gate_with_mode m) True)) t i =
     rules_evaluate x (g_rules (gate_with_mode m)) t i"
proof -
  have "filter (not_disabled {}) builtin_rules = builtin_rules"
    by (simp add: not_disabled_def filter_id_conv split: option.splits)
  then have "g_rules (gate_set_git_checkpoint (gate_with_mode m) True) = builtin_rules @ builtin_rules"
    by (simp add: gate_set_git_checkpoint_def gate_with_mode_def Let_def)
  then show ?thesis by (simp add: evaluate_prepend gate_with_mode_def)
qed

subsection \<open>Two places where the gate is weaker than its documentation\<close>

text \<open>A headless Manual gate with no fence answers a read-only shell command with an ask: the withdrawn
  waiver returns the mode default before the headless conversion runs, although nobody can answer.\<close>

lemma headless_manual_gate_asks:
  "gate_reachable Manual (gate_with_headless (gate_with_mode Manual) True) \<and>
   g_headless (gate_with_headless (gate_with_mode Manual) True) \<and>
   gate_verdict demo_externals 0 (gate_with_headless (gate_with_mode Manual) True)
     (demo_request ''bash'' ''command'' ''ls'' False) =
   Some (Ask (mode_ask_reason ''manual mode asks before this side effect''))"
proof (intro conjI)
  show "gate_reachable Manual (gate_with_headless (gate_with_mode Manual) True)"
    by (intro reach_built built_headless built_mode)
  show "g_headless (gate_with_headless (gate_with_mode Manual) True)"
    by (simp add: gate_with_headless_def)
  show "gate_verdict demo_externals 0 (gate_with_headless (gate_with_mode Manual) True)
     (demo_request ''bash'' ''command'' ''ls'' False) =
   Some (Ask (mode_ask_reason ''manual mode asks before this side effect''))" by code_simp
qed

definition demo_ask_rule :: rule where
  "demo_ask_rule = \<lparr>r_action = ''write'', r_content = None, r_effect = E_Ask, r_scope = Session\<rparr>"

definition demo_consent_gate :: gate where
  "demo_consent_gate =
     snd (gate_add_rule
       (gate_with_consent (gate_with_mode Auto) (consent_record 0 (consent_new 100) ''write'' []))
       demo_ask_rule)"

text \<open>A stored consent does waive a protected path when the user also has an ask rule for the tool: the
  ask rule stands before the system-safety stage and turns into an allow, so a write into the version
  control directory that the protected-path check stops is allowed on consent.\<close>

lemma consent_waives_protected_path:
  "gate_reachable Auto demo_consent_gate \<and>
   check_protected_path demo_externals (g_containment demo_consent_gate)
     (demo_request ''write'' ''path'' ''.git/config'' False)
     (gate_ctx_for demo_externals 1 demo_consent_gate (demo_request ''write'' ''path'' ''.git/config'' False))
     = Some protected_ask \<and>
   gate_verdict demo_externals 1 demo_consent_gate
     (demo_request ''write'' ''path'' ''.git/config'' False) = Some (Allow AR_Consent)"
proof (intro conjI)
  have "gate_built Auto
      (gate_with_consent (gate_with_mode Auto) (consent_record 0 (consent_new 100) ''write'' []))"
    by (intro built_consent built_mode mem.inv_record consent_inv_new)
  then show "gate_reachable Auto demo_consent_gate"
    unfolding demo_consent_gate_def by (intro reach_add_rule reach_built)
  show "check_protected_path demo_externals (g_containment demo_consent_gate)
     (demo_request ''write'' ''path'' ''.git/config'' False)
     (gate_ctx_for demo_externals 1 demo_consent_gate (demo_request ''write'' ''path'' ''.git/config'' False))
     = Some protected_ask" by code_simp
  show "gate_verdict demo_externals 1 demo_consent_gate
     (demo_request ''write'' ''path'' ''.git/config'' False) = Some (Allow AR_Consent)" by code_simp
qed

subsection \<open>Witnesses\<close>

definition demo_deny_rule :: rule where
  "demo_deny_rule = \<lparr>r_action = ''Bash'', r_content = Some (RC_Prefix ''curl''), r_effect = E_Deny,
     r_scope = Session\<rparr>"

definition demo_deny_gate :: gate where
  "demo_deny_gate = snd (gate_add_rule (gate_with_mode Auto) demo_deny_rule)"

lemma demo_deny_gate_reachable: "gate_reachable Auto demo_deny_gate"
  unfolding demo_deny_gate_def by (intro reach_add_rule reach_built built_mode)

theorem deny_rule_wins_witness:
  "\<exists>r. gate_verdict demo_externals 7 demo_deny_gate
     (demo_request ''bash'' ''command'' ''curl https://docs.rs'' True) = Some (Deny r)"
proof -
  have r: "demo_deny_rule \<in> set (g_rules demo_deny_gate)" by code_simp
  have e: "r_effect demo_deny_rule = E_Deny" by (simp add: demo_deny_rule_def)
  have m: "rule_matches demo_externals
      (tq_tool_name (demo_request ''bash'' ''command'' ''curl https://docs.rs'' True))
      (request_content demo_externals (demo_request ''bash'' ''command'' ''curl https://docs.rs'' True))
      demo_deny_rule" by code_simp
  from deny_rule_wins [OF demo_deny_gate_reachable r e m, of 7] show ?thesis by blast
qed

definition demo_switched_gate :: gate where
  "demo_switched_gate = gate_set_mode (gate_set_mode (gate_with_mode Auto) Manual ''x'') Auto ''y''"


theorem gate_protected_path_witness:
  "gate_verdict demo_externals 7 demo_deny_gate (demo_request ''write'' ''path'' ''.git/config'' False) =
     Some protected_ask"
proof -
  let ?req = "demo_request ''write'' ''path'' ''.git/config'' False"
  have c: "check_protected_path demo_externals (g_containment demo_deny_gate) ?req
      (gate_ctx_for demo_externals 7 demo_deny_gate ?req) \<noteq> None" by code_simp
  have e: "rule_effect demo_externals (g_rules demo_deny_gate) ?req (request_content demo_externals ?req)
      (g_containment demo_deny_gate) \<in> {None, Some E_Allow}" by code_simp
  have f: "g_containment demo_deny_gate = None" "g_headless demo_deny_gate = False"
    by (simp_all add: demo_deny_gate_def gate_add_rule_def demo_deny_rule_def scope_is_writable_def
        gate_with_mode_def)
  from gate_protected_path [OF demo_deny_gate_reachable c e] show ?thesis
    by (simp add: f protected_ask_def)
qed

theorem gate_add_rule_atomic_witness:
  "\<exists>q\<in>set (store_load (snd (store_add demo_store demo_rule))). same_as q demo_rule"
proof -
  let ?g = "gate_with_store (gate_with_mode Auto) demo_store"
  have "gate_add_rule ?g demo_rule = (S_Ok, ?g\<lparr>g_store := Some (snd (store_add demo_store demo_rule)),
      g_rules := push_rule (g_rules ?g) demo_rule\<rparr>)"
    by (simp add: gate_add_rule_def gate_with_store_def demo_store_add)
       (simp add: demo_rule_def scope_is_writable_def)
  from gate_add_rule_atomic [OF this] show ?thesis by (simp add: demo_rule_def scope_is_writable_def)
qed



end
