(* ===== verification/Guarded_Tool.thy ===== *)
theory Guarded_Tool
  imports Gate
begin

text \<open>
  The guarded tool (\<open>guarded_tool.rs\<close>): a tool wrapped so that every call goes through the gate. The gate
  is a trait object, so the operations take its \<open>decide\<close> as an argument (\<open>None\<close> is a panic of the
  gate); what they rely on is the locale \<open>gate_port\<close>, interpreted on the default gate. A tool's effect is
  a function on the state \<open>'w\<close> of the world, so that "the tool did not run" is "the world is unchanged".
\<close>

subsection \<open>Tools and their guard\<close>

datatype tool_error = TE_InvalidInput str | TE_Failed str

record 'w tool =
  t_name :: str
  t_schema :: json
  t_empty_usable :: "str list"
  t_is_destructive :: bool
  t_is_read_only :: bool
  t_requires_approval :: bool
  t_requires_approval_for :: "json \<Rightarrow> bool"
  t_execute :: "'w \<Rightarrow> json \<Rightarrow> (tool_error + json) \<times> 'w"

type_synonym 'g decider = "'g \<Rightarrow> tool_request \<Rightarrow> decision option \<times> 'g"

definition tool_approval_reason :: "'w tool \<Rightarrow> json \<Rightarrow> ask_reason option" where
  "tool_approval_reason t input =
     (if t_requires_approval_for t input
      then Some \<lparr>ar_source = AS_ToolNative, ar_validator = ''tool_native'',
                 ar_detail = t_name t @ '' asks before this call runs'', ar_containment_note = None\<rparr>
      else None)"

definition invalid_arguments :: "'w tool \<Rightarrow> json \<Rightarrow> str list" where
  "invalid_arguments t input = invalid_required_arguments (t_schema t) (t_empty_usable t) input"

definition request_for :: "'w tool \<Rightarrow> json option \<Rightarrow> tool_request" where
  "request_for t input =
     \<lparr>tq_tool_name = t_name t, tq_input = input, tq_is_destructive = t_is_destructive t,
      tq_is_read_only = t_is_read_only t, tq_native_requires_approval = t_requires_approval t\<rparr>"

definition guarded_requires_approval :: "'g decider \<Rightarrow> 'g \<Rightarrow> 'w tool \<Rightarrow> bool option \<times> 'g" where
  "guarded_requires_approval dec g t =
     (case dec g (request_for t None) of (d, g') \<Rightarrow>
        (map_option (\<lambda>v. decision_outcome v = O_Ask) d, g'))"

definition guarded_approval_reason ::
  "'g decider \<Rightarrow> 'g \<Rightarrow> 'w tool \<Rightarrow> json \<Rightarrow> ask_reason option option \<times> 'g" where
  "guarded_approval_reason dec g t input =
     (if invalid_arguments t input \<noteq> [] then (Some None, g)
      else (case dec g (request_for t (Some input)) of
              (None, g') \<Rightarrow> (None, g')
            | (Some (Ask reason), g') \<Rightarrow> (Some (Some reason), g')
            | (Some (Allow _), g') \<Rightarrow>
                (Some (if \<not> t_requires_approval t then tool_approval_reason t input else None), g')
            | (Some (Deny _), g') \<Rightarrow> (Some None, g')))"

definition guarded_execute ::
  "'g decider \<Rightarrow> 'g \<Rightarrow> 'w \<Rightarrow> 'w tool \<Rightarrow> json \<Rightarrow> (tool_error + json) option \<times> 'g \<times> 'w" where
  "guarded_execute dec g w t input =
     (let invalid = invalid_arguments t input in
      if invalid \<noteq> []
      then (Some (Inl (TE_InvalidInput (t_name t @ '': '' @ str_join '', '' invalid @ '' required''))), g, w)
      else (case dec g (request_for t (Some input)) of
              (None, g') \<Rightarrow> (None, g', w)
            | (Some (Allow _), g') \<Rightarrow>
                (case t_execute t w input of (res, w') \<Rightarrow> (Some res, g', w'))
            | (Some (Ask _), g') \<Rightarrow> (Some (Inl (TE_Failed ''tool requires approval'')), g', w)
            | (Some (Deny reason), g') \<Rightarrow>
                (Some (Inl (TE_Failed (''denied by mode: '' @ dr_detail reason))), g', w)))"

definition guarded_execute_authorized ::
  "'g decider \<Rightarrow> 'g \<Rightarrow> 'w \<Rightarrow> 'w tool \<Rightarrow> json \<Rightarrow> (tool_error + json) option \<times> 'g \<times> 'w" where
  "guarded_execute_authorized dec g w t input =
     (case dec g (request_for t (Some input)) of
        (None, g') \<Rightarrow> (None, g', w)
      | (Some (Deny reason), g') \<Rightarrow>
          (Some (Inl (TE_Failed (''denied by mode: '' @ dr_detail reason))), g', w)
      | (Some _, g') \<Rightarrow> (case t_execute t w input of (res, w') \<Rightarrow> (Some res, g', w')))"

subsection \<open>What the guard relies on\<close>

text \<open>The gate answers every request, stays usable, and answering does not change its later answers.\<close>

locale gate_port =
  fixes usable :: "'g \<Rightarrow> bool"
    and verdict :: "'g \<Rightarrow> tool_request \<Rightarrow> decision"
    and dec :: "'g decider"
  assumes dec_verdict: "usable g \<Longrightarrow> fst (dec g req) = Some (verdict g req)"
    and dec_usable: "usable g \<Longrightarrow> usable (snd (dec g req))"
    and dec_stable: "usable g \<Longrightarrow> verdict (snd (dec g req)) req' = verdict g req'"
begin

lemma dec_eq: "usable g \<Longrightarrow> dec g req = (Some (verdict g req), snd (dec g req))"
  using dec_verdict [of g req] by (cases "dec g req") simp

lemma execute_cases:
  assumes "usable g"
  shows "guarded_execute dec g w t input =
     (if invalid_arguments t input \<noteq> []
      then (Some (Inl (TE_InvalidInput
              (t_name t @ '': '' @ str_join '', '' (invalid_arguments t input) @ '' required''))), g, w)
      else (case verdict g (request_for t (Some input)) of
              Allow _ \<Rightarrow> (Some (fst (t_execute t w input)), snd (dec g (request_for t (Some input))),
                         snd (t_execute t w input))
            | Ask _ \<Rightarrow> (Some (Inl (TE_Failed ''tool requires approval'')),
                         snd (dec g (request_for t (Some input))), w)
            | Deny reason \<Rightarrow> (Some (Inl (TE_Failed (''denied by mode: '' @ dr_detail reason))),
                         snd (dec g (request_for t (Some input))), w)))"
  using dec_eq [OF assms, of "request_for t (Some input)"]
  by (auto simp: guarded_execute_def Let_def split: decision.splits prod.splits)

lemma authorized_cases:
  assumes "usable g"
  shows "guarded_execute_authorized dec g w t input =
     (case verdict g (request_for t (Some input)) of
        Deny reason \<Rightarrow> (Some (Inl (TE_Failed (''denied by mode: '' @ dr_detail reason))),
                         snd (dec g (request_for t (Some input))), w)
      | _ \<Rightarrow> (Some (fst (t_execute t w input)), snd (dec g (request_for t (Some input))),
                         snd (t_execute t w input)))"
  using dec_eq [OF assms, of "request_for t (Some input)"]
  by (auto simp: guarded_execute_authorized_def split: decision.splits prod.splits)

lemma reason_cases:
  assumes "usable g"
  shows "fst (guarded_approval_reason dec g t input) = Some
     (if invalid_arguments t input \<noteq> [] then None
      else (case verdict g (request_for t (Some input)) of
              Ask reason \<Rightarrow> Some reason
            | Allow _ \<Rightarrow> if \<not> t_requires_approval t then tool_approval_reason t input else None
            | Deny _ \<Rightarrow> None))"
  using dec_eq [OF assms, of "request_for t (Some input)"]
  by (auto simp: guarded_approval_reason_def split: decision.splits prod.splits)

lemma no_silent_ask:
  assumes "usable g" "fst (guarded_approval_reason dec g t input) = Some None"
  shows "fst (guarded_execute dec (snd (guarded_approval_reason dec g t input)) w t input)
     \<noteq> Some (Inl (TE_Failed ''tool requires approval'')) \<or>
     (\<exists>v. verdict g (request_for t (Some input)) = Allow v \<and>
        fst (t_execute t w input) = Inl (TE_Failed ''tool requires approval''))"
proof (cases "invalid_arguments t input = []")
  case True
  let ?r = "request_for t (Some input)"
  let ?g = "snd (guarded_approval_reason dec g t input)"
  have g: "?g = snd (dec g ?r)"
    using dec_eq [OF assms(1), of ?r] True
    by (auto simp: guarded_approval_reason_def split: decision.splits prod.splits)
  then have u: "usable ?g" and v: "verdict ?g ?r = verdict g ?r"
    using dec_usable dec_stable assms(1) by simp_all
  have "verdict g ?r \<noteq> Ask a" for a
    using assms(2) reason_cases [OF assms(1), of t input] True by auto
  then show ?thesis
    using execute_cases [OF u, of w t input] v True
    by (cases "verdict g ?r") auto
next
  case False
  then have "snd (guarded_approval_reason dec g t input) = g"
    by (simp add: guarded_approval_reason_def)
  with False execute_cases [OF assms(1), of w t input] show ?thesis by simp
qed

end

definition default_verdict :: "externals \<Rightarrow> nat \<Rightarrow> gate \<Rightarrow> tool_request \<Rightarrow> decision" where
  "default_verdict x wall g req = the (gate_verdict x wall g req)"

lemma gate_verdict_metrics: "gate_verdict x wall (g\<lparr>g_metrics := c\<rparr>) req = gate_verdict x wall g req"
  by (simp add: gate_verdict_def gate_decide_inner_def gate_ctx_for_def git_checkpoint_enabled_def Let_def)

lemma gate_verdict_Some:
  assumes "gate_reachable m g"
  shows "gate_verdict x wall g req = Some (default_verdict x wall g req)"
  using ladder_answers [of x "g_containment g" req "gate_ctx_for x wall g req"]
  by (auto simp: default_verdict_def gate_verdict_ladder [OF assms])

interpretation port: gate_port "gate_reachable m" "default_verdict x wall" "gate_decide x wall" for m x wall
proof
  fix g req req' assume r: "gate_reachable m g"
  note v = gate_verdict_Some [OF r, of x wall]
  show "fst (gate_decide x wall g req) = Some (default_verdict x wall g req)"
    by (simp add: gate_decide_def v)
  show "gate_reachable m (snd (gate_decide x wall g req))"
    by (rule reach_step [OF r]) (rule step_decide, rule prod.collapse [symmetric])
  show "default_verdict x wall (snd (gate_decide x wall g req)) req' = default_verdict x wall g req'"
    by (simp add: gate_decide_def v) (simp add: default_verdict_def gate_verdict_metrics)
qed

subsection \<open>The guard over the default gate\<close>

text \<open>C3. A guarded call on a reachable gate always returns, leaves a reachable gate, and runs the wrapped
  tool exactly when its required arguments are present and the gate allows the call; otherwise the world
  is unchanged and the caller gets an error.\<close>

theorem guarded_execute_gated:
  assumes "gate_reachable m g"
  shows "\<exists>res g' w'. guarded_execute (gate_decide x wall) g w t input = (Some res, g', w') \<and>
     gate_reachable m g' \<and>
     (if invalid_arguments t input = [] \<and>
         (\<exists>a. gate_verdict x wall g (request_for t (Some input)) = Some (Allow a))
      then (res, w') = t_execute t w input
      else w' = w \<and> (\<exists>e. res = Inl e))"
proof -
  let ?r = "request_for t (Some input)"
  have u: "gate_reachable m (snd (gate_decide x wall g ?r))" by (rule port.dec_usable [OF assms])
  have v: "gate_verdict x wall g ?r = Some (default_verdict x wall g ?r)"
    by (rule gate_verdict_Some [OF assms])
  show ?thesis
    using port.execute_cases [OF assms, of x wall w t input] u assms
    by (cases "default_verdict x wall g ?r") (auto simp: v)
qed

text \<open>The approval question is never lost between the two judgements: when \<open>approval_reason\<close> puts
  nothing to the human, the plain execution that follows does not fail for want of an approval, unless
  that error is the tool's own result.\<close>

lemma guarded_no_silent_ask:
  assumes "gate_reachable m g"
    and "fst (guarded_approval_reason (gate_decide x wall) g t input) = Some None"
  shows "fst (guarded_execute (gate_decide x wall)
       (snd (guarded_approval_reason (gate_decide x wall) g t input)) w t input)
     \<noteq> Some (Inl (TE_Failed ''tool requires approval'')) \<or>
     fst (t_execute t w input) = Inl (TE_Failed ''tool requires approval'')"
  using port.no_silent_ask [OF assms] by blast

subsection \<open>Witnesses\<close>

text \<open>A tool that counts its runs.\<close>

definition demo_tool :: "nat tool" where
  "demo_tool =
     \<lparr>t_name = ''bash'', t_schema = JNull, t_empty_usable = [], t_is_destructive = False,
      t_is_read_only = False, t_requires_approval = False, t_requires_approval_for = (\<lambda>_. False),
      t_execute = (\<lambda>w input. (Inr input, Suc w))\<rparr>"

definition demo_input :: "str \<Rightarrow> json" where
  "demo_input cmd = JObject [(''command'', JString cmd)]"

theorem guarded_execute_gated_witness:
  "\<exists>res g' w'. guarded_execute (gate_decide demo_externals 7) demo_deny_gate 0 demo_tool (demo_input ''ls'') =
     (Some res, g', w') \<and> w' = Suc 0"
proof -
  have a: "invalid_arguments demo_tool (demo_input ''ls'') = []" by code_simp
  have "gate_verdict demo_externals 7 demo_deny_gate (request_for demo_tool (Some (demo_input ''ls''))) =
      Some (Allow AR_ModeDefault)" by code_simp
  with a guarded_execute_gated [OF demo_deny_gate_reachable, of demo_externals 7 0 demo_tool "demo_input ''ls''"]
  show ?thesis by (auto simp: demo_tool_def)
qed


end
