(* ===== verification/Saturating.thy ===== *)
theory Saturating
  imports Prelude "HOL-Library.Word"
begin

text \<open>
  Counters of a fixed width that saturate (\<open>saturating_add\<close>, \<open>saturating_sub\<close>), for the components that count.
\<close>

subsection \<open>Saturating arithmetic\<close>

definition sat_add :: "'a::len word \<Rightarrow> 'a word \<Rightarrow> 'a word" where
  "sat_add a b = (if a + b < a then - 1 else a + b)"

definition sat_sub :: "'a::len word \<Rightarrow> 'a word \<Rightarrow> 'a word" where
  "sat_sub a b = (if a < b then 0 else a - b)"

lemma sat_add_no_wrap:
  fixes a b :: "'a::len word"
  shows "a + b < a \<longleftrightarrow> 2 ^ LENGTH('a) \<le> unat a + unat b"
proof (cases "unat a + unat b < 2 ^ LENGTH('a)")
  case True
  then have "unat (a + b) = unat a + unat b" by (rule unat_add_lem [THEN iffD1])
  with True show ?thesis by (simp add: word_less_nat_alt)
next
  case False
  have "unat b < 2 ^ LENGTH('a)" by simp
  moreover have "unat (a + b) = unat a + unat b - 2 ^ LENGTH('a)"
    using False by (metis unat_plus_if' not_less)
  ultimately have "unat (a + b) < unat a" using False by linarith
  then show ?thesis using False by (simp add: word_less_nat_alt)
qed

lemma unat_sat_add:
  fixes a b :: "'a::len word"
  shows "unat (sat_add a b) = min (unat a + unat b) (2 ^ LENGTH('a) - 1)"
proof (cases "a + b < a")
  case True
  then show ?thesis using sat_add_no_wrap [of a b] by (simp add: sat_add_def unsigned_minus_1_eq_mask mask_eq_exp_minus_1)
next
  case False
  then have "unat a + unat b < 2 ^ LENGTH('a)" using sat_add_no_wrap [of a b] by simp
  then show ?thesis using False by (simp add: sat_add_def unat_add_lem [THEN iffD1])
qed

lemma unat_sat_sub: "unat (sat_sub a b) = unat a - unat b"
  by (simp add: sat_sub_def word_less_nat_alt unat_sub_if')

end
