(* ===== verification/Breaker.thy ===== *)
theory Breaker
  imports Saturating
begin

text \<open>
  The failure-isolation crate (\<open>houyicoder-resilience\<close>): the circuit breaker (\<open>BreakerInner\<close>), the retry
  loops with exponential backoff, with and without a breaker, and the aggregate resource breaker of
  spawned processes. An \<open>Instant\<close> and a \<open>Duration\<close> are nanoseconds; the clock is an argument. Counters keep
  their width and saturate as the code does. The jitter is floating-point arithmetic over the system
  clock: the loops take the effect of \<open>sleep(jittered(d))\<close> on the world as an argument.
\<close>

subsection \<open>The circuit breaker\<close>

datatype breaker_state = Closed | Open | HalfOpen

record breaker_config =
  bc_failure_threshold :: "32 word"
  bc_cool_down :: nat

record breaker =
  br_state :: breaker_state
  br_consecutive_failures :: "32 word"
  br_opened_at :: "nat option"
  br_config :: breaker_config

definition breaker_new :: "breaker_config \<Rightarrow> breaker" where
  "breaker_new config = \<lparr>br_state = Closed, br_consecutive_failures = 0, br_opened_at = None, br_config = config\<rparr>"

definition allow :: "breaker \<Rightarrow> nat \<Rightarrow> bool \<times> breaker" where
  "allow b now =
     (case br_state b of
        Closed \<Rightarrow> (True, b)
      | Open \<Rightarrow>
          (case br_opened_at b of
             None \<Rightarrow> (True, b)
           | Some opened \<Rightarrow>
               if bc_cool_down (br_config b) \<le> now - opened then (True, b\<lparr>br_state := HalfOpen\<rparr>)
               else (False, b))
      | HalfOpen \<Rightarrow> (True, b))"

definition record_failure :: "breaker \<Rightarrow> nat \<Rightarrow> breaker" where
  "record_failure b now =
     (let b' = b\<lparr>br_consecutive_failures := sat_add (br_consecutive_failures b) 1\<rparr> in
      case br_state b of
        Closed \<Rightarrow>
          if bc_failure_threshold (br_config b) \<le> br_consecutive_failures b'
          then b'\<lparr>br_state := Open, br_opened_at := Some now\<rparr> else b'
      | HalfOpen \<Rightarrow> b'\<lparr>br_state := Open, br_opened_at := Some now\<rparr>
      | Open \<Rightarrow> b'\<lparr>br_opened_at := Some now\<rparr>)"

definition record_success :: "breaker \<Rightarrow> breaker" where
  "record_success b = b\<lparr>br_state := Closed, br_consecutive_failures := 0, br_opened_at := None\<rparr>"

definition cool_down_remaining :: "breaker \<Rightarrow> nat \<Rightarrow> nat option" where
  "cool_down_remaining b now =
     (case br_opened_at b of None \<Rightarrow> None
      | Some opened \<Rightarrow>
          if br_state b \<noteq> Open then None
          else let elapsed = now - opened in
               if bc_cool_down (br_config b) \<le> elapsed then None
               else Some (bc_cool_down (br_config b) - elapsed))"

subsection \<open>Reachable breakers\<close>

inductive breaker_step :: "breaker \<Rightarrow> breaker \<Rightarrow> bool" where
  step_allow: "allow b now = (ok, b') \<Longrightarrow> breaker_step b b'"
| step_failure: "breaker_step b (record_failure b now)"
| step_success: "breaker_step b (record_success b)"

inductive breaker_reachable :: "breaker_config \<Rightarrow> breaker \<Rightarrow> bool" for c where
  reach_new: "breaker_reachable c (breaker_new c)"
| reach_next: "breaker_reachable c b \<Longrightarrow> breaker_step b b' \<Longrightarrow> breaker_reachable c b'"

inductive_cases breaker_stepE: "breaker_step b b'"

definition breaker_inv :: "breaker_config \<Rightarrow> breaker \<Rightarrow> bool" where
  "breaker_inv c b =
     (br_config b = c \<and> (br_opened_at b = None \<longleftrightarrow> br_state b = Closed) \<and>
      (br_state b = Closed \<longrightarrow>
         br_consecutive_failures b = 0 \<or> br_consecutive_failures b < bc_failure_threshold c) \<and>
      (br_state b \<noteq> Closed \<longrightarrow> br_consecutive_failures b \<noteq> 0))"

lemma sat_inc_nonzero: "sat_add w (1 :: 32 word) \<noteq> 0"
proof -
  have "unat (sat_add w (1 :: 32 word)) \<noteq> 0" by (simp add: unat_sat_add)
  then show ?thesis by auto
qed

lemma breaker_inv_step: "breaker_step b b' \<Longrightarrow> breaker_inv c b \<Longrightarrow> breaker_inv c b'"
  by (erule breaker_stepE)
     (auto simp: breaker_inv_def allow_def record_failure_def record_success_def Let_def sat_inc_nonzero
       split: breaker_state.splits if_splits option.splits)

lemma breaker_reachable_inv: "breaker_reachable c b \<Longrightarrow> breaker_inv c b"
proof (induction rule: breaker_reachable.induct)
  case reach_new
  then show ?case by (simp add: breaker_inv_def breaker_new_def)
next
  case (reach_next b b')
  then show ?case by (auto intro: breaker_inv_step)
qed

text \<open>The status read agrees with the gate: on a reachable breaker a call is refused exactly while a
  remaining cool-down is reported, the remainder is positive and at most the configured cool-down, and
  the call is admitted once it has passed (the clock read is no earlier than the one that opened it).\<close>

lemma breaker_refuses_iff_cooling:
  assumes "breaker_reachable c b" and "br_opened_at b = None \<or> (\<exists>t\<le>now. br_opened_at b = Some t)"
  shows "(\<not> fst (allow b now) \<longleftrightarrow> cool_down_remaining b now \<noteq> None) \<and>
     (\<forall>d. cool_down_remaining b now = Some d \<longrightarrow>
        0 < d \<and> d \<le> bc_cool_down c \<and> fst (allow b (now + d)))"
  using breaker_reachable_inv [OF assms(1)] assms(2)
  by (auto simp: breaker_inv_def allow_def cool_down_remaining_def Let_def
      split: breaker_state.splits option.splits if_splits)

fun failures :: "breaker \<Rightarrow> nat list \<Rightarrow> breaker" where
  "failures b [] = b"
| "failures b (t # ts) = failures (record_failure b t) ts"

lemma failures_append: "failures b (ts @ us) = failures (failures b ts) us"
  by (induction ts arbitrary: b) simp_all

lemma failures_closed:
  assumes "unat (br_consecutive_failures b) + length ts < unat (bc_failure_threshold (br_config b))"
    and "br_state b = Closed"
  shows "failures b ts = b\<lparr>br_consecutive_failures := br_consecutive_failures b + of_nat (length ts)\<rparr>"
  using assms
proof (induction ts arbitrary: b)
  case (Cons t ts)
  let ?n = "br_consecutive_failures b" and ?k = "bc_failure_threshold (br_config b)"
  have lt: "unat ?n + 1 < unat ?k" using Cons.prems by simp
  have bound: "unat ?k < 2 ^ 32" using unsigned_less [of ?k] by simp
  have inc: "unat (sat_add ?n 1) = unat ?n + 1" using lt bound by (simp add: unat_sat_add)
  then have add: "sat_add ?n 1 = ?n + 1"
    using lt bound by (intro word_unat_eq_iff [THEN iffD2]) (simp add: unat_add_lem [THEN iffD1])
  have "record_failure b t = b\<lparr>br_consecutive_failures := ?n + 1\<rparr>"
    using lt Cons.prems(2) inc
    by (simp add: record_failure_def Let_def word_le_nat_alt add)
  then show ?case using Cons.IH [of "record_failure b t"] Cons.prems inc add
    by (simp add: add.assoc)
qed simp

lemma failures_trip:
  assumes "br_state b = Closed" and "br_consecutive_failures b = 0"
    and "Suc (length ts) = unat (bc_failure_threshold (br_config b))"
  shows "br_state (failures b ts) = Closed"
    and "br_state (failures b (ts @ [t])) = Open" and "br_opened_at (failures b (ts @ [t])) = Some t"
    and "br_config (failures b (ts @ [t])) = br_config b"
proof -
  have eq: "failures b ts = b\<lparr>br_consecutive_failures := of_nat (length ts)\<rparr>"
    using failures_closed [of b ts] assms by simp
  have "unat (bc_failure_threshold (br_config b)) < 2 ^ 32"
    using unsigned_less [of "bc_failure_threshold (br_config b)"] by simp
  then have n: "unat (sat_add (of_nat (length ts) :: 32 word) 1) = Suc (length ts)"
    using assms(3) by (simp add: unat_sat_add unat_of_nat take_bit_eq_mod)
  show "br_state (failures b ts) = Closed" by (simp add: eq assms(1))
  show "br_state (failures b (ts @ [t])) = Open" "br_opened_at (failures b (ts @ [t])) = Some t"
    "br_config (failures b (ts @ [t])) = br_config b"
    using n assms(1,3)
    by (simp_all add: failures_append eq record_failure_def Let_def word_le_nat_alt)
qed

text \<open>A closed breaker with no recorded failure trips on exactly the configured number of consecutive
  failures: one fewer leaves it closed and admitting, and the last one opens it at that instant, so that
  every call before the cool-down has passed is refused.\<close>

lemma breaker_trips_at_threshold:
  assumes "br_state b = Closed" and "br_consecutive_failures b = 0"
    and "Suc (length ts) = unat (bc_failure_threshold (br_config b))"
  shows "br_state (failures b ts) = Closed \<and> fst (allow (failures b ts) now) \<and>
     br_state (failures b (ts @ [t])) = Open \<and>
     (fst (allow (failures b (ts @ [t])) now) \<longleftrightarrow> bc_cool_down (br_config b) \<le> now - t)"
  using failures_trip [OF assms] by (simp add: allow_def)

text \<open>The half-open state admits every call, not one probe: after the cool-down two calls in a row are
  admitted with no outcome recorded between them.\<close>

lemma half_open_admits_many:
  "let b = record_failure (breaker_new \<lparr>bc_failure_threshold = 1, bc_cool_down = 30\<rparr>) 0;
       (ok1, b1) = allow b 30; (ok2, b2) = allow b1 31
   in \<not> fst (allow b 29) \<and> ok1 \<and> ok2 \<and> br_state b2 = HalfOpen"
  by code_simp

subsection \<open>Retry\<close>

record retry =
  rt_max_attempts :: nat
  rt_base_delay :: nat
  rt_max_delay :: nat

datatype 'e retry_error = Exhausted nat 'e | Fatal 'e

text \<open>The largest \<open>Duration\<close>; multiplication by two panics past it.\<close>

definition DURATION_MAX :: nat where
  "DURATION_MAX = (2 ^ 64 - 1) * 10 ^ 9 + 999999999"

definition backoff :: "retry \<Rightarrow> nat \<Rightarrow> nat" where
  "backoff c attempt =
     min (min (rt_base_delay c * min (2 ^ (attempt - 1)) (2 ^ 32 - 1)) DURATION_MAX) (rt_max_delay c)"

definition delay_for :: "(nat \<Rightarrow> nat) \<Rightarrow> retry \<Rightarrow> nat \<Rightarrow> nat option \<Rightarrow> nat" where
  "delay_for jittered c attempt server_delay =
     (case server_delay of Some d \<Rightarrow> d | None \<Rightarrow> jittered (backoff c attempt))"

text \<open>The loop of \<open>run_if\<close>: the attempt number, the delay, the last error and the world; \<open>None\<close> is a panic
  (no attempt ran, or the doubled delay is no \<open>Duration\<close>).\<close>

function run_if_loop ::
  "retry \<Rightarrow> (nat \<Rightarrow> 'w \<Rightarrow> ('e + 'v) \<times> 'w) \<Rightarrow> (nat \<Rightarrow> 'w \<Rightarrow> 'w) \<Rightarrow> ('e \<Rightarrow> bool) \<Rightarrow>
   nat \<Rightarrow> nat \<Rightarrow> 'e option \<Rightarrow> 'w \<Rightarrow> ('e retry_error + 'v) option \<times> 'w" where
  "run_if_loop c operation nap is_retryable attempt delay last_err w =
     (if rt_max_attempts c < attempt
      then (map_option (\<lambda>e. Inl (Exhausted (rt_max_attempts c) e)) last_err, w)
      else (case operation attempt w of
              (Inr v, w') \<Rightarrow> (Some (Inr v), w')
            | (Inl e, w') \<Rightarrow>
                if \<not> is_retryable e then (Some (Inl (Fatal e)), w')
                else if attempt = rt_max_attempts c
                then (Some (Inl (Exhausted (rt_max_attempts c) e)), w')
                else let w'' = nap delay w' in
                     if DURATION_MAX < delay * 2 then (None, w'')
                     else run_if_loop c operation nap is_retryable (Suc attempt)
                            (min (delay * 2) (rt_max_delay c)) (Some e) w''))"
  by pat_completeness auto

termination
  by (relation "measure (\<lambda>(c, _, _, _, attempt, _). Suc (rt_max_attempts c) - attempt)") auto

declare run_if_loop.simps [simp del]

definition run_if ::
  "retry \<Rightarrow> (nat \<Rightarrow> 'w \<Rightarrow> ('e + 'v) \<times> 'w) \<Rightarrow> (nat \<Rightarrow> 'w \<Rightarrow> 'w) \<Rightarrow> ('e \<Rightarrow> bool) \<Rightarrow> 'w \<Rightarrow>
   ('e retry_error + 'v) option \<times> 'w" where
  "run_if c operation nap is_retryable w = run_if_loop c operation nap is_retryable 1 (rt_base_delay c) None w"

function run_loop ::
  "retry \<Rightarrow> (nat \<Rightarrow> 'w \<Rightarrow> ('e + 'v) \<times> 'w) \<Rightarrow> (nat \<Rightarrow> 'w \<Rightarrow> 'w) \<Rightarrow>
   nat \<Rightarrow> nat \<Rightarrow> 'e option \<Rightarrow> 'w \<Rightarrow> ('e retry_error + 'v) option \<times> 'w" where
  "run_loop c operation nap attempt delay last_err w =
     (if rt_max_attempts c < attempt
      then (map_option (\<lambda>e. Inl (Exhausted (rt_max_attempts c) e)) last_err, w)
      else (case operation attempt w of
              (Inr v, w') \<Rightarrow> (Some (Inr v), w')
            | (Inl e, w') \<Rightarrow>
                if attempt = rt_max_attempts c
                then (Some (Inl (Exhausted (rt_max_attempts c) e)), w')
                else let w'' = nap delay w' in
                     if DURATION_MAX < delay * 2 then (None, w'')
                     else run_loop c operation nap (Suc attempt)
                            (min (delay * 2) (rt_max_delay c)) (Some e) w''))"
  by pat_completeness auto

termination
  by (relation "measure (\<lambda>(c, _, _, attempt, _). Suc (rt_max_attempts c) - attempt)") auto

declare run_loop.simps [simp del]

definition run ::
  "retry \<Rightarrow> (nat \<Rightarrow> 'w \<Rightarrow> ('e + 'v) \<times> 'w) \<Rightarrow> (nat \<Rightarrow> 'w \<Rightarrow> 'w) \<Rightarrow> 'w \<Rightarrow>
   ('e retry_error + 'v) option \<times> 'w" where
  "run c operation nap w = run_loop c operation nap 1 (rt_base_delay c) None w"

text \<open>The delay slept after attempt \<open>k\<close>, and the world in which attempt \<open>k\<close> starts when the ones before it
  failed.\<close>

fun delay_at :: "retry \<Rightarrow> nat \<Rightarrow> nat" where
  "delay_at c 0 = rt_base_delay c"
| "delay_at c (Suc 0) = rt_base_delay c"
| "delay_at c (Suc (Suc k)) = min (delay_at c (Suc k) * 2) (rt_max_delay c)"

fun world_at :: "retry \<Rightarrow> (nat \<Rightarrow> 'w \<Rightarrow> ('e + 'v) \<times> 'w) \<Rightarrow> (nat \<Rightarrow> 'w \<Rightarrow> 'w) \<Rightarrow> 'w \<Rightarrow> nat \<Rightarrow> 'w" where
  "world_at c operation nap w 0 = w"
| "world_at c operation nap w (Suc 0) = w"
| "world_at c operation nap w (Suc (Suc k)) =
     nap (delay_at c (Suc k)) (snd (operation (Suc k) (world_at c operation nap w (Suc k))))"

definition failed_at ::
  "retry \<Rightarrow> (nat \<Rightarrow> 'w \<Rightarrow> ('e + 'v) \<times> 'w) \<Rightarrow> (nat \<Rightarrow> 'w \<Rightarrow> 'w) \<Rightarrow> ('e \<Rightarrow> bool) \<Rightarrow> 'w \<Rightarrow> nat \<Rightarrow> bool" where
  "failed_at c operation nap is_retryable w j =
     (case fst (operation j (world_at c operation nap w j)) of Inl e \<Rightarrow> is_retryable e | Inr _ \<Rightarrow> False)"

definition no_overflow :: "retry \<Rightarrow> bool" where
  "no_overflow c = (2 * rt_base_delay c \<le> DURATION_MAX \<and> 2 * rt_max_delay c \<le> DURATION_MAX)"

lemma delay_at_bound: "no_overflow c \<Longrightarrow> delay_at c k * 2 \<le> DURATION_MAX"
  by (induction c k rule: delay_at.induct) (auto simp: no_overflow_def)

lemma delay_at_Suc: "0 < k \<Longrightarrow> delay_at c (Suc k) = min (delay_at c k * 2) (rt_max_delay c)"
  by (cases k) simp_all

lemma world_at_Suc:
  "0 < k \<Longrightarrow> world_at c operation nap w (Suc k) =
     nap (delay_at c k) (snd (operation k (world_at c operation nap w k)))"
  by (cases k) simp_all

lemma delay_at_closed:
  assumes "rt_base_delay c \<le> rt_max_delay c" "0 < k"
  shows "delay_at c k = min (rt_base_delay c * 2 ^ (k - 1)) (rt_max_delay c)"
  using assms(2)
proof (induction k rule: nat_induct_non_zero)
  case 1
  then show ?case using assms(1) by simp
next
  case (Suc n)
  then have "2 ^ n = 2 * (2::nat) ^ (n - 1)" by (cases n) simp_all
  with Suc show ?case by (simp add: delay_at_Suc min_def)
qed

text \<open>The delay the retry loops carry along and the closed form of \<open>delay_for\<close> agree: for a base within
  the cap, both are the base doubled per attempt and capped, up to the attempt where the factor saturates.\<close>

lemma backoff_agrees:
  assumes "rt_base_delay c \<le> rt_max_delay c" "rt_max_delay c \<le> DURATION_MAX" "1 \<le> k" "k \<le> 32"
  shows "delay_for id c k None = delay_at c k \<and> delay_at c k \<le> rt_max_delay c"
proof -
  have "(2::nat) ^ (k - 1) \<le> 2 ^ 31" using assms(4) by (intro power_increasing) simp_all
  then have "min (2 ^ (k - 1)) (2 ^ 32 - 1) = (2::nat) ^ (k - 1)" by simp
  then show ?thesis
    using assms(2,3) delay_at_closed [OF assms(1), of k]
    by (simp add: delay_for_def backoff_def min.assoc min.absorb2)
qed

lemma run_if_loop_from:
  assumes "no_overflow c" "0 < j" "j \<le> k" "k \<le> rt_max_attempts c"
    and "\<And>i. j \<le> i \<Longrightarrow> i < k \<Longrightarrow> failed_at c operation nap ok w i"
  shows "\<exists>final. run_if_loop c operation nap ok j (delay_at c j) le (world_at c operation nap w j) =
     run_if_loop c operation nap ok k (delay_at c k) final (world_at c operation nap w k)"
  using assms(3,2,4,5)
proof (induction j arbitrary: le rule: inc_induct)
  case (step n)
  let ?w = "world_at c operation nap w n"
  obtain e w' where op: "operation n ?w = (Inl e, w')" and e: "ok e"
    using step.prems(3) [of n] step.hyps
    by (auto simp: failed_at_def split: sum.splits) (metis prod.collapse)
  have "run_if_loop c operation nap ok n (delay_at c n) le ?w =
      run_if_loop c operation nap ok (Suc n) (delay_at c (Suc n)) (Some e) (world_at c operation nap w (Suc n))"
    using step.hyps step.prems delay_at_bound [OF assms(1), of n]
    by (subst run_if_loop.simps) (auto simp: op e delay_at_Suc world_at_Suc)
  then show ?case using step.IH [of "Some e"] step.prems by simp
qed auto

text \<open>The retry loop stops at the first attempt that ends it and returns what that attempt says: a value,
  a non-retryable error as fatal, or, at the last attempt, the exhausted budget. It never panics and never
  runs more attempts than configured, as long as the doubled delays are durations.\<close>

lemma run_if_outcome:
  assumes "no_overflow c" "1 \<le> k" "k \<le> rt_max_attempts c"
    and "\<forall>j\<in>{1..<k}. failed_at c operation nap is_retryable w j"
    and "k = rt_max_attempts c \<or> \<not> failed_at c operation nap is_retryable w k"
  shows "run_if c operation nap is_retryable w =
     (Some (case fst (operation k (world_at c operation nap w k)) of
              Inr v \<Rightarrow> Inr v
            | Inl e \<Rightarrow> Inl (if is_retryable e then Exhausted (rt_max_attempts c) e else Fatal e)),
      snd (operation k (world_at c operation nap w k)))"
proof -
  obtain final where eq: "run_if_loop c operation nap is_retryable 1 (delay_at c 1) None
      (world_at c operation nap w 1) =
    run_if_loop c operation nap is_retryable k (delay_at c k) final (world_at c operation nap w k)"
    using run_if_loop_from [OF assms(1), of 1 k operation nap is_retryable w None] assms(2-4) by auto
  show ?thesis
    using eq assms(3,5)
    by (simp add: run_if_def) (subst run_if_loop.simps, auto simp: failed_at_def split: sum.splits prod.splits)
qed

lemma run_loop_eq: "run_loop c operation nap attempt delay le w =
    run_if_loop c operation nap (\<lambda>_. True) attempt delay le w"
  by (induction c operation nap attempt delay le w rule: run_loop.induct)
     (subst run_loop.simps, subst run_if_loop.simps, auto simp: Let_def split: sum.splits prod.splits)

text \<open>\<open>run\<close> is \<open>run_if\<close> with every error retryable.\<close>

lemma run_is_run_if: "run c operation nap w = run_if c operation nap (\<lambda>_. True) w"
  by (simp add: run_def run_if_def run_loop_eq)

subsection \<open>Retry behind a breaker\<close>

datatype 'e guarded_error = Retry_Failed "'e retry_error" | BreakerOpen

text \<open>The loop of \<open>run_guarded\<close>: \<open>clk\<close> reads the clock of the world; the breaker is threaded through.\<close>

function run_guarded_loop ::
  "retry \<Rightarrow> (nat \<Rightarrow> 'w \<Rightarrow> ('e + 'v) \<times> 'w) \<Rightarrow> (nat \<Rightarrow> 'w \<Rightarrow> 'w) \<Rightarrow> ('e \<Rightarrow> bool) \<Rightarrow> ('w \<Rightarrow> nat) \<Rightarrow>
   nat \<Rightarrow> nat \<Rightarrow> 'e option \<Rightarrow> 'w \<Rightarrow> breaker \<Rightarrow> ('e guarded_error + 'v) option \<times> 'w \<times> breaker" where
  "run_guarded_loop c operation nap is_retryable clk attempt delay last_err w b =
     (if rt_max_attempts c < attempt
      then (map_option (\<lambda>e. Inl (Retry_Failed (Exhausted (rt_max_attempts c) e))) last_err, w, b)
      else (case allow b (clk w) of
              (False, b1) \<Rightarrow> (Some (Inl BreakerOpen), w, b1)
            | (True, b1) \<Rightarrow>
                (case operation attempt w of
                   (Inr v, w') \<Rightarrow> (Some (Inr v), w', record_success b1)
                 | (Inl e, w') \<Rightarrow>
                     let b2 = record_failure b1 (clk w') in
                     if \<not> is_retryable e then (Some (Inl (Retry_Failed (Fatal e))), w', b2)
                     else if attempt = rt_max_attempts c
                     then (Some (Inl (Retry_Failed (Exhausted (rt_max_attempts c) e))), w', b2)
                     else let w'' = nap delay w' in
                          if DURATION_MAX < delay * 2 then (None, w'', b2)
                          else run_guarded_loop c operation nap is_retryable clk (Suc attempt)
                                 (min (delay * 2) (rt_max_delay c)) (Some e) w'' b2)))"
  by pat_completeness auto

termination
  by (relation "measure (\<lambda>(c, _, _, _, _, attempt, _). Suc (rt_max_attempts c) - attempt)") auto

declare run_guarded_loop.simps [simp del]

definition run_guarded ::
  "retry \<Rightarrow> (nat \<Rightarrow> 'w \<Rightarrow> ('e + 'v) \<times> 'w) \<Rightarrow> (nat \<Rightarrow> 'w \<Rightarrow> 'w) \<Rightarrow> ('e \<Rightarrow> bool) \<Rightarrow> ('w \<Rightarrow> nat) \<Rightarrow>
   'w \<Rightarrow> breaker \<Rightarrow> ('e guarded_error + 'v) option \<times> 'w \<times> breaker" where
  "run_guarded c operation nap is_retryable clk w b =
     run_guarded_loop c operation nap is_retryable clk 1 (rt_base_delay c) None w b"

text \<open>The instants at which the failures of attempts \<open>j\<close> to \<open>k - 1\<close> are recorded.\<close>

definition failure_times ::
  "retry \<Rightarrow> (nat \<Rightarrow> 'w \<Rightarrow> ('e + 'v) \<times> 'w) \<Rightarrow> (nat \<Rightarrow> 'w \<Rightarrow> 'w) \<Rightarrow> ('w \<Rightarrow> nat) \<Rightarrow> 'w \<Rightarrow> nat \<Rightarrow> nat \<Rightarrow> nat list" where
  "failure_times c operation nap clk w j k =
     map (\<lambda>i. clk (snd (operation i (world_at c operation nap w i)))) [j..<k]"

lemma run_guarded_loop_from:
  assumes "no_overflow c" "0 < j" "j \<le> k" "k \<le> rt_max_attempts c"
    and "\<And>i. j \<le> i \<Longrightarrow> i < k \<Longrightarrow> failed_at c operation nap ok w i"
    and "br_state b = Closed"
    and "unat (br_consecutive_failures b) + (k - j) \<le> unat (bc_failure_threshold (br_config b))"
  shows "\<exists>final. run_guarded_loop c operation nap ok clk j (delay_at c j) le (world_at c operation nap w j) b =
     run_guarded_loop c operation nap ok clk k (delay_at c k) final (world_at c operation nap w k)
       (failures b (failure_times c operation nap clk w j k))"
  using assms(3,2,4-7)
proof (induction j arbitrary: le b rule: inc_induct)
  case base
  then show ?case by (auto simp: failure_times_def)
next
  case (step n)
  let ?w = "world_at c operation nap w n"
  obtain e w' where op: "operation n ?w = (Inl e, w')" and e: "ok e"
    using step.prems(3) [of n] step.hyps
    by (auto simp: failed_at_def split: sum.splits) (metis prod.collapse)
  let ?b = "record_failure b (clk w')"
  have "run_guarded_loop c operation nap ok clk n (delay_at c n) le ?w b =
      run_guarded_loop c operation nap ok clk (Suc n) (delay_at c (Suc n)) (Some e)
        (world_at c operation nap w (Suc n)) ?b"
    using step.hyps step.prems delay_at_bound [OF assms(1), of n]
    by (subst run_guarded_loop.simps) (auto simp: op e delay_at_Suc world_at_Suc allow_def Let_def)
  moreover have "failures b (failure_times c operation nap clk w n k) =
      failures ?b (failure_times c operation nap clk w (Suc n) k)"
    using step.hyps by (simp add: failure_times_def upt_conv_Cons op)
  moreover have "\<exists>final. run_guarded_loop c operation nap ok clk (Suc n) (delay_at c (Suc n)) (Some e)
        (world_at c operation nap w (Suc n)) ?b =
      run_guarded_loop c operation nap ok clk k (delay_at c k) final (world_at c operation nap w k)
        (failures ?b (failure_times c operation nap clk w (Suc n) k))"
  proof (cases "Suc n = k")
    case True
    then show ?thesis by (auto simp: failure_times_def)
  next
    case False
    then have "unat (br_consecutive_failures b) + length [clk w'] < unat (bc_failure_threshold (br_config b))"
      using step.hyps step.prems(5) by simp
    from failures_closed [OF this step.prems(4)]
    have b: "?b = b\<lparr>br_consecutive_failures := br_consecutive_failures b + 1\<rparr>" by simp
    have "unat (br_consecutive_failures b + 1) \<le> Suc (unat (br_consecutive_failures b))"
      using mod_less_eq_dividend [of "unat (br_consecutive_failures b) + unat (1 :: 32 word)" "2 ^ 32"]
      by (simp add: unat_word_ariths)
    then show ?thesis
      using step.prems step.hyps False by (intro step.IH) (auto simp: b)
  qed
  ultimately show ?case by simp
qed

text \<open>C26. A guarded retry loop stops burning attempts at the breaker's threshold: if the first attempts, as
  many as the threshold, all fail retryably and the next one would start before the cool-down has passed,
  the loop returns the open-breaker error with no further attempt.\<close>

theorem run_guarded_stops_at_threshold:
  assumes "no_overflow c" and "br_state b = Closed" and "br_consecutive_failures b = 0"
    and "k = unat (bc_failure_threshold (br_config b))" and "1 \<le> k" and "k < rt_max_attempts c"
    and "\<forall>j\<in>{1..k}. failed_at c operation nap is_retryable w j"
    and "clk (world_at c operation nap w (Suc k)) - clk (snd (operation k (world_at c operation nap w k)))
           < bc_cool_down (br_config b)"
  shows "\<exists>b'. run_guarded c operation nap is_retryable clk w b =
     (Some (Inl BreakerOpen), world_at c operation nap w (Suc k), b') \<and> br_state b' = Open"
proof -
  let ?ts = "failure_times c operation nap clk w 1 k"
  let ?t = "clk (snd (operation k (world_at c operation nap w k)))"
  let ?b = "failures b (?ts @ [?t])"
  obtain final where loop: "run_guarded_loop c operation nap is_retryable clk 1 (delay_at c 1) None
      (world_at c operation nap w 1) b =
    run_guarded_loop c operation nap is_retryable clk (Suc k) (delay_at c (Suc k)) final
      (world_at c operation nap w (Suc k)) (failures b (failure_times c operation nap clk w 1 (Suc k)))"
    using run_guarded_loop_from [OF assms(1), of 1 "Suc k" operation nap is_retryable w b clk None] assms(2-7)
    by auto
  have ts: "failure_times c operation nap clk w 1 (Suc k) = ?ts @ [?t]"
    using assms(5) by (simp add: failure_times_def)
  have "Suc (length ?ts) = unat (bc_failure_threshold (br_config b))"
    using assms(4,5) by (simp add: failure_times_def)
  note trip = failures_trip(2-4) [OF assms(2,3) this, of ?t]
  have "run_guarded_loop c operation nap is_retryable clk (Suc k) (delay_at c (Suc k)) final
      (world_at c operation nap w (Suc k)) ?b = (Some (Inl BreakerOpen), world_at c operation nap w (Suc k), ?b)"
    using assms(6,8) trip by (subst run_guarded_loop.simps) (simp add: allow_def)
  with loop trip show ?thesis unfolding ts by (simp add: run_guarded_def)
qed

text \<open>What the resource breaker relies on: a breaker that one failure opens. After any outcomes, the last
  one alone decides whether a call is admitted.\<close>

locale tripping_breaker =
  fixes ok :: "'b \<Rightarrow> bool"
    and permits :: "'b \<Rightarrow> nat \<Rightarrow> bool"
    and failed :: "'b \<Rightarrow> nat \<Rightarrow> 'b"
    and succeeded :: "'b \<Rightarrow> 'b"
    and cool :: "'b \<Rightarrow> nat"
  assumes ok_failed: "ok b \<Longrightarrow> ok (failed b t)"
    and ok_succeeded: "ok b \<Longrightarrow> ok (succeeded b)"
    and cool_failed: "ok b \<Longrightarrow> cool (failed b t) = cool b"
    and cool_succeeded: "ok b \<Longrightarrow> cool (succeeded b) = cool b"
    and permits_failed: "ok b \<Longrightarrow> permits (failed b t) now \<longleftrightarrow> cool b \<le> now - t"
    and permits_succeeded: "ok b \<Longrightarrow> permits (succeeded b) now"
begin

lemma ok_outcomes:
  "ok b \<Longrightarrow> ok (foldl (\<lambda>b (good, t). if good then succeeded b else failed b t) b os) \<and>
     cool (foldl (\<lambda>b (good, t). if good then succeeded b else failed b t) b os) = cool b"
  by (induction os arbitrary: b) (auto simp: ok_failed ok_succeeded cool_failed cool_succeeded)

lemma last_outcome_decides:
  "ok b \<Longrightarrow> permits (foldl (\<lambda>b (good, t). if good then succeeded b else failed b t) b (os @ [(good, t)])) now
     \<longleftrightarrow> good \<or> cool b \<le> now - t"
  using ok_outcomes [of b os] by (auto simp: permits_failed permits_succeeded)

end

definition one_shot :: "breaker \<Rightarrow> bool" where
  "one_shot b = (bc_failure_threshold (br_config b) = 1 \<and> breaker_inv (br_config b) b)"

lemma one_le_sat_inc: "1 \<le> sat_add w (1 :: 32 word)"
  by (simp add: word_le_nat_alt unat_sat_add)

lemma record_config:
  "br_config (record_failure b t) = br_config b" "br_config (record_success b) = br_config b"
  by (simp_all add: record_failure_def record_success_def Let_def split: breaker_state.splits)

interpretation one: tripping_breaker one_shot "\<lambda>b now. fst (allow b now)" record_failure record_success
    "\<lambda>b. bc_cool_down (br_config b)"
proof
  fix b t now assume b: "one_shot b"
  show "one_shot (record_failure b t)" "one_shot (record_success b)"
    using b breaker_inv_step [OF step_failure] breaker_inv_step [OF step_success]
    by (simp_all add: one_shot_def record_config)
  show "bc_cool_down (br_config (record_failure b t)) = bc_cool_down (br_config b)"
    "bc_cool_down (br_config (record_success b)) = bc_cool_down (br_config b)"
    by (simp_all add: record_config)
  have "br_state (record_failure b t) = Open" "br_opened_at (record_failure b t) = Some t"
    using b one_le_sat_inc
    by (auto simp: record_failure_def Let_def one_shot_def breaker_inv_def split: breaker_state.splits)
  then show "fst (allow (record_failure b t) now) \<longleftrightarrow> bc_cool_down (br_config b) \<le> now - t"
    by (simp add: allow_def record_config)
  show "fst (allow (record_success b) now)" by (simp add: allow_def record_success_def)
qed

text \<open>A breaker with threshold one, however it was used before, admits a call exactly when its last recorded
  outcome is a success or the cool-down since that last failure has passed.\<close>

lemma one_shot_last_outcome:
  assumes "bc_failure_threshold c = 1"
  shows "fst (allow (foldl (\<lambda>b (good, t). if good then record_success b else record_failure b t)
        (breaker_new c) (os @ [(good, t)])) now) \<longleftrightarrow> good \<or> bc_cool_down c \<le> now - t"
proof -
  have "one_shot (breaker_new c)" using assms by (simp add: one_shot_def breaker_new_def breaker_inv_def)
  from one.last_outcome_decides [OF this, of os good t now] show ?thesis by (simp add: breaker_new_def)
qed

subsection \<open>The aggregate resource breaker\<close>

datatype trip_reason =
    AggregateCpuExceeded "64 word" "64 word"
  | InFlightProcsExceeded "32 word" "32 word"
  | PerCmdBudgetExceeded "32 word" "32 word"

datatype spawn_event =
    Spawn_Start "32 word"
  | Spawn_End "64 word" "32 word" bool \<comment> \<open>CPU seconds, processes released, budget exceeded\<close>

record resource_config =
  rc_aggregate_cpu_budget_secs :: "64 word"
  rc_in_flight_proc_cap :: "32 word"
  rc_per_cmd_fail_threshold :: "32 word"
  rc_cool_down :: nat

record resource_breaker =
  rb_breaker :: breaker
  rb_config :: resource_config
  rb_aggregate_cpu_secs :: "64 word"
  rb_in_flight_procs :: "32 word"
  rb_consecutive_cmd_fails :: "32 word"
  rb_last_trip_reason :: "trip_reason option"

definition rb_new :: "resource_config \<Rightarrow> resource_breaker" where
  "rb_new config =
     \<lparr>rb_breaker = breaker_new \<lparr>bc_failure_threshold = 1, bc_cool_down = rc_cool_down config\<rparr>,
      rb_config = config, rb_aggregate_cpu_secs = 0, rb_in_flight_procs = 0,
      rb_consecutive_cmd_fails = 0, rb_last_trip_reason = None\<rparr>"

definition try_acquire :: "resource_breaker \<Rightarrow> nat \<Rightarrow> bool \<times> resource_breaker" where
  "try_acquire r now = (case allow (rb_breaker r) now of (ok, b) \<Rightarrow> (ok, r\<lparr>rb_breaker := b\<rparr>))"

definition trip :: "resource_breaker \<Rightarrow> trip_reason \<Rightarrow> nat \<Rightarrow> resource_breaker" where
  "trip r why now = r\<lparr>rb_last_trip_reason := Some why, rb_breaker := record_failure (rb_breaker r) now\<rparr>"

definition record_budget :: "resource_breaker \<Rightarrow> bool \<Rightarrow> nat \<Rightarrow> resource_breaker" where
  "record_budget r exceeded_budget now =
     (if exceeded_budget then
        (let n = sat_add (rb_consecutive_cmd_fails r) 1; r' = r\<lparr>rb_consecutive_cmd_fails := n\<rparr> in
         if rc_per_cmd_fail_threshold (rb_config r) \<le> n
         then trip r' (PerCmdBudgetExceeded n (rc_per_cmd_fail_threshold (rb_config r))) now else r')
      else r\<lparr>rb_consecutive_cmd_fails := 0, rb_breaker := record_success (rb_breaker r)\<rparr>)"

fun rb_record :: "resource_breaker \<Rightarrow> spawn_event \<Rightarrow> nat \<Rightarrow> resource_breaker" where
  "rb_record r (Spawn_Start proc_count) now =
     (let n = sat_add (rb_in_flight_procs r) proc_count; r' = r\<lparr>rb_in_flight_procs := n\<rparr> in
      if rc_in_flight_proc_cap (rb_config r) < n
      then trip r' (InFlightProcsExceeded n (rc_in_flight_proc_cap (rb_config r))) now else r')"
| "rb_record r (Spawn_End cpu_secs proc_count exceeded_budget) now =
     (let r1 = r\<lparr>rb_in_flight_procs := sat_sub (rb_in_flight_procs r) proc_count,
                 rb_aggregate_cpu_secs := sat_add (rb_aggregate_cpu_secs r) cpu_secs\<rparr>;
          r2 = record_budget r1 exceeded_budget now
      in if rc_aggregate_cpu_budget_secs (rb_config r) < rb_aggregate_cpu_secs r2
         then trip r2 (AggregateCpuExceeded (rb_aggregate_cpu_secs r2)
                         (rc_aggregate_cpu_budget_secs (rb_config r))) now
         else r2)"

fun rb_run :: "resource_breaker \<Rightarrow> (spawn_event \<times> nat) list \<Rightarrow> resource_breaker" where
  "rb_run r [] = r"
| "rb_run r ((ev, t) # es) = rb_run (rb_record r ev t) es"

definition rb_inv :: "resource_breaker \<Rightarrow> bool" where
  "rb_inv r = (one_shot (rb_breaker r) \<and> bc_cool_down (br_config (rb_breaker r)) = rc_cool_down (rb_config r))"

lemma rb_inv_new: "rb_inv (rb_new c)"
  by (simp add: rb_inv_def rb_new_def one_shot_def breaker_inv_def breaker_new_def)

lemmas one_shot_ops = one.ok_failed one.ok_succeeded record_config

lemma rb_record_frame:
  "rb_config (rb_record r ev t) = rb_config r \<and> (rb_inv r \<longrightarrow> rb_inv (rb_record r ev t))"
  by (cases ev) (auto simp: Let_def trip_def record_budget_def rb_inv_def one_shot_ops)

lemma rb_run_inv: "rb_inv r \<Longrightarrow> rb_inv (rb_run r es) \<and> rb_config (rb_run r es) = rb_config r"
  by (induction r es rule: rb_run.induct) (auto simp: rb_record_frame)

lemma trip_Open: "rb_inv r \<Longrightarrow> br_state (rb_breaker (trip r why t)) = Open"
  using one_le_sat_inc
  by (auto simp: trip_def record_failure_def Let_def rb_inv_def one_shot_def breaker_inv_def
      split: breaker_state.splits)

lemma trip_refuses:
  "rb_inv r \<Longrightarrow> fst (try_acquire (trip r why t) now) \<longleftrightarrow> rc_cool_down (rb_config r) \<le> now - t"
  using one.permits_failed [of "rb_breaker r" t now]
  by (cases "allow (record_failure (rb_breaker r) t) now") (simp add: try_acquire_def trip_def rb_inv_def)

lemma record_budget_frame:
  "rb_config (record_budget r x t) = rb_config r"
  "rb_aggregate_cpu_secs (record_budget r x t) = rb_aggregate_cpu_secs r"
  "rb_in_flight_procs (record_budget r x t) = rb_in_flight_procs r"
  "rb_inv r \<Longrightarrow> rb_inv (record_budget r x t)"
  by (auto simp: record_budget_def trip_def Let_def rb_inv_def one_shot_ops)

lemma trip_config: "rb_config (trip r why t) = rb_config r"
  by (simp add: trip_def)

text \<open>Whatever happened before, an event that breaks a limit refuses the next spawns: after a start that
  puts the in-flight count over its cap, or an end that leaves the CPU total over its budget, every
  \<open>try_acquire\<close> before the cool-down has passed is refused, and the recorded reason carries the count and
  the limit it broke.\<close>

lemma resource_limit_refuses:
  assumes "r = rb_run (rb_new c) es"
  shows "(rc_in_flight_proc_cap c < sat_add (rb_in_flight_procs r) n \<longrightarrow>
       (fst (try_acquire (rb_record r (Spawn_Start n) t) now) \<longleftrightarrow> rc_cool_down c \<le> now - t) \<and>
       rb_last_trip_reason (rb_record r (Spawn_Start n) t) =
         Some (InFlightProcsExceeded (sat_add (rb_in_flight_procs r) n) (rc_in_flight_proc_cap c))) \<and>
     (rc_aggregate_cpu_budget_secs c < sat_add (rb_aggregate_cpu_secs r) s \<longrightarrow>
       (fst (try_acquire (rb_record r (Spawn_End s n x) t) now) \<longleftrightarrow> rc_cool_down c \<le> now - t) \<and>
       rb_last_trip_reason (rb_record r (Spawn_End s n x) t) =
         Some (AggregateCpuExceeded (sat_add (rb_aggregate_cpu_secs r) s) (rc_aggregate_cpu_budget_secs c)))"
proof -
  have inv: "rb_inv r" and cfg: "rb_config r = c"
    using rb_run_inv [OF rb_inv_new, of c es] by (simp_all add: assms rb_new_def)
  let ?r1 = "r\<lparr>rb_in_flight_procs := sat_add (rb_in_flight_procs r) n\<rparr>"
  let ?r2 = "record_budget (r\<lparr>rb_in_flight_procs := sat_sub (rb_in_flight_procs r) n,
      rb_aggregate_cpu_secs := sat_add (rb_aggregate_cpu_secs r) s\<rparr>) x t"
  have "rb_inv ?r1" "rb_config ?r1 = c" using inv cfg by (simp_all add: rb_inv_def)
  moreover have "rb_inv ?r2"
    by (rule record_budget_frame(4)) (use inv in \<open>simp add: rb_inv_def\<close>)
  moreover have "rb_config ?r2 = c" by (simp add: record_budget_frame cfg)
  ultimately show ?thesis
    by (auto simp: Let_def cfg record_budget_frame trip_refuses) (simp_all add: trip_def)
qed

lemma sat_add_ge:
  fixes a b :: "'a::len word"
  shows "a \<le> sat_add a b"
proof -
  have "unat a < 2 ^ LENGTH('a)" by simp
  then have "unat a \<le> 2 ^ LENGTH('a) - 1" by linarith
  then show ?thesis by (simp add: word_le_nat_alt unat_sat_add)
qed

lemma cpu_monotone: "rb_aggregate_cpu_secs r \<le> rb_aggregate_cpu_secs (rb_record r ev t)"
  by (cases ev) (auto simp: Let_def trip_def record_budget_frame sat_add_ge)

lemma cpu_monotone_run: "rb_aggregate_cpu_secs r \<le> rb_aggregate_cpu_secs (rb_run r es)"
  by (induction r es rule: rb_run.induct) (auto intro: order_trans [OF cpu_monotone])

text \<open>The CPU total is never given back: once it is over the budget, every later end of a command, clean
  or not and however many commands have finished since, opens the breaker again.\<close>

lemma cpu_budget_never_recovers:
  assumes "r = rb_run (rb_new c) es" and "rc_aggregate_cpu_budget_secs c < rb_aggregate_cpu_secs r"
  shows "br_state (rb_breaker (rb_record (rb_run r later) (Spawn_End s n x) t)) = Open"
proof -
  let ?r = "rb_run r later"
  have r: "rb_inv r" "rb_config r = c"
    using rb_run_inv [OF rb_inv_new, of c es] by (simp_all add: assms(1) rb_new_def)
  from rb_run_inv [OF r(1), of later] have inv: "rb_inv ?r" "rb_config ?r = c" using r(2) by simp_all
  have "rc_aggregate_cpu_budget_secs c < sat_add (rb_aggregate_cpu_secs ?r) s"
    using assms(2) cpu_monotone_run [of r later] sat_add_ge [of "rb_aggregate_cpu_secs ?r" s]
    by (meson less_le_trans)
  moreover have "rb_inv (record_budget (?r\<lparr>rb_in_flight_procs := sat_sub (rb_in_flight_procs ?r) n,
      rb_aggregate_cpu_secs := sat_add (rb_aggregate_cpu_secs ?r) s\<rparr>) x t)"
    by (rule record_budget_frame(4)) (use inv in \<open>simp add: rb_inv_def\<close>)
  ultimately show ?thesis by (simp add: Let_def inv(2) record_budget_frame trip_Open)
qed

subsection \<open>Witnesses\<close>


definition demo_retry :: retry where
  "demo_retry = \<lparr>rt_max_attempts = 4, rt_base_delay = 200, rt_max_delay = 800\<rparr>"

text \<open>An operation that counts its calls in the world and succeeds at the third.\<close>

definition demo_operation :: "nat \<Rightarrow> nat \<Rightarrow> (nat + nat) \<times> nat" where
  "demo_operation attempt w = (if attempt = 3 then (Inr w, Suc w) else (Inl attempt, Suc w))"


theorem run_guarded_stops_at_threshold_witness:
  "\<exists>b'. run_guarded demo_retry demo_operation (\<lambda>_ w. w) (\<lambda>_. True) (\<lambda>w. w) 0
     (breaker_new \<lparr>bc_failure_threshold = 2, bc_cool_down = 30\<rparr>) = (Some (Inl BreakerOpen), 2, b')"
proof -
  let ?b = "breaker_new \<lparr>bc_failure_threshold = 2, bc_cool_down = 30\<rparr>"
  have w: "world_at demo_retry demo_operation (\<lambda>_ w. w) 0 (Suc 2) = 2"
    "world_at demo_retry demo_operation (\<lambda>_ w. w) 0 2 = 1"
    by (simp_all add: numeral_2_eq_2 demo_operation_def)
  have "\<exists>b'. run_guarded demo_retry demo_operation (\<lambda>_ w. w) (\<lambda>_. True) (\<lambda>w. w) 0 ?b =
      (Some (Inl BreakerOpen), world_at demo_retry demo_operation (\<lambda>_ w. w) 0 (Suc 2), b') \<and> br_state b' = Open"
  proof (rule run_guarded_stops_at_threshold)
    show "no_overflow demo_retry" by (simp add: no_overflow_def demo_retry_def DURATION_MAX_def)
    show "br_state ?b = Closed" "br_consecutive_failures ?b = 0" "2 = unat (bc_failure_threshold (br_config ?b))"
      by (simp_all add: breaker_new_def)
    show "2 < rt_max_attempts demo_retry" by (simp add: demo_retry_def)
    show "\<forall>j\<in>{1..2}. failed_at demo_retry demo_operation (\<lambda>_ w. w) (\<lambda>_. True) 0 j"
      by (simp add: failed_at_def demo_operation_def)
    show "world_at demo_retry demo_operation (\<lambda>_ w. w) 0 (Suc 2) -
        snd (demo_operation 2 (world_at demo_retry demo_operation (\<lambda>_ w. w) 0 2)) < bc_cool_down (br_config ?b)"
      by (simp only: w) (simp add: breaker_new_def)
  qed simp
  then show ?thesis by (auto simp only: w)
qed

definition demo_resources :: resource_config where
  "demo_resources = \<lparr>rc_aggregate_cpu_budget_secs = 180, rc_in_flight_proc_cap = 200,
     rc_per_cmd_fail_threshold = 3, rc_cool_down = 30\<rparr>"


end
