(* ===== verification/Utf8.thy ===== *)
theory Utf8
  imports Prelude
begin

text \<open>
  The part of the standard library the file tools use on bytes: UTF-8 validation and lossy decoding
  (\<open>String::from_utf8\<close>, \<open>String::from_utf8_lossy\<close>), character boundaries, \<open>split_inclusive\<close>, the search
  and replacement of a non-empty pattern. In the theories that import this one a text is its UTF-8 bytes,
  one \<open>char\<close> per byte.

  Shown: lossy decoding gives valid UTF-8 and does not change valid text, a cut at a character boundary
  keeps a text valid, a text is the parts between the matches joined by the pattern.
\<close>

subsection \<open>UTF-8\<close>

definition byte_in :: "nat \<Rightarrow> nat \<Rightarrow> char \<Rightarrow> bool" where
  "byte_in lo hi c = (lo \<le> code_of c \<and> code_of c \<le> hi)"

definition lead_width :: "char \<Rightarrow> nat" where
  "lead_width c =
     (if byte_in 0 127 c then 1 else if byte_in 194 223 c then 2 else if byte_in 224 239 c then 3
      else if byte_in 240 244 c then 4 else 0)"

definition second_ok :: "char \<Rightarrow> char \<Rightarrow> bool" where
  "second_ok lead c =
     (let b = code_of lead in
      if b = 224 then byte_in 160 191 c else if b = 237 then byte_in 128 159 c
      else if b = 240 then byte_in 144 191 c else if b = 244 then byte_in 128 143 c
      else byte_in 128 191 c)"

definition byte_at :: "(char \<Rightarrow> bool) \<Rightarrow> nat \<Rightarrow> str \<Rightarrow> bool" where
  "byte_at P k s = (k < length s \<and> P (s ! k))"

text \<open>One step of the decoder: whether the next bytes are a character, and how many bytes it or the maximal
  ill-formed part takes.\<close>

fun utf8_step :: "str \<Rightarrow> bool \<times> nat" where
  "utf8_step [] = (True, 1)"
| "utf8_step (c # cs) =
     (let w = lead_width c in
      if w = 0 then (False, 1) else if w = 1 then (True, 1)
      else if \<not> byte_at (second_ok c) 0 cs then (False, 1) else if w = 2 then (True, 2)
      else if \<not> byte_at (byte_in 128 191) 1 cs then (False, 2) else if w = 3 then (True, 3)
      else if \<not> byte_at (byte_in 128 191) 2 cs then (False, 3) else (True, 4))"

lemma utf8_step_pos: "0 < snd (utf8_step s)"
  by (cases s) (auto simp: Let_def)

function utf8_valid :: "str \<Rightarrow> bool" where
  "utf8_valid s =
     (if s = [] then True else fst (utf8_step s) \<and> utf8_valid (drop (snd (utf8_step s)) s))"
  by pat_completeness auto

termination
  by (relation "measure length") (simp_all add: utf8_step_pos)

function utf8_lossy :: "str \<Rightarrow> str" where
  "utf8_lossy s =
     (if s = [] then []
      else (if fst (utf8_step s) then take (snd (utf8_step s)) s else [CHR 0xEF, CHR 0xBF, CHR 0xBD])
           @ utf8_lossy (drop (snd (utf8_step s)) s))"
  by pat_completeness auto

termination
  by (relation "measure length") (simp_all add: utf8_step_pos)

declare utf8_valid.simps [simp del] utf8_lossy.simps [simp del]

lemma utf8_valid_Nil [simp]: "utf8_valid []"
  by (simp add: utf8_valid.simps)

lemma utf8_lossy_Nil [simp]: "utf8_lossy [] = []"
  by (simp add: utf8_lossy.simps)

lemma utf8_lossy_valid: "utf8_valid s \<Longrightarrow> utf8_lossy s = s"
proof (induction s rule: utf8_valid.induct)
  case (1 s)
  then show ?case
    by (cases "s = []") (simp_all add: utf8_lossy.simps [of s] utf8_valid.simps [of s])
qed

lemma byte_at_newline:
  assumes "\<not> P NL" "k \<le> length cs"
  shows "byte_at P k (cs @ NL # b) = byte_at P k cs"
  using assms by (auto simp: byte_at_def nth_append)

lemma newline_not_continuation: "\<not> byte_in 128 191 NL" "\<not> second_ok c NL"
  by (auto simp: byte_in_def second_ok_def code_of_def Let_def)

lemma utf8_step_newline:
  assumes "a \<noteq> []"
  shows "utf8_step (a @ NL # b) = utf8_step a"
proof -
  obtain c cs where a: "a = c # cs" using assms by (cases a) auto
  have "byte_at (second_ok c) 0 (cs @ NL # b) = byte_at (second_ok c) 0 cs"
    by (simp add: byte_at_newline newline_not_continuation)
  moreover have "byte_at (second_ok c) 0 cs \<Longrightarrow> 1 \<le> length cs" by (simp add: byte_at_def Suc_leI)
  moreover have "byte_at (byte_in 128 191) 1 cs \<Longrightarrow> 2 \<le> length cs" by (auto simp: byte_at_def)
  ultimately show ?thesis
    by (auto simp: a Let_def byte_at_newline newline_not_continuation)
qed

lemma utf8_step_fits: "fst (utf8_step s) \<Longrightarrow> s \<noteq> [] \<Longrightarrow> snd (utf8_step s) \<le> length s"
  by (cases s) (auto simp: Let_def byte_at_def Suc_le_eq split: if_splits)

lemma utf8_valid_newline: "utf8_valid (a @ NL # b) \<longleftrightarrow> utf8_valid a \<and> utf8_valid b"
proof (induction a rule: utf8_valid.induct)
  case (1 a)
  show ?case
  proof (cases "a = []")
    case True
    have "utf8_step (NL # b) = (True, 1)" by (simp add: lead_width_def byte_in_def code_of_def)
    then show ?thesis using True by (simp add: utf8_valid.simps [of "NL # b"])
  next
    case False
    then have "fst (utf8_step a) \<Longrightarrow> drop (snd (utf8_step a)) (a @ NL # b) = drop (snd (utf8_step a)) a @ NL # b"
      using utf8_step_fits by simp
    then show ?thesis using 1 False
      by (cases "fst (utf8_step a)")
         (simp_all add: utf8_valid.simps [of "a @ NL # b"] utf8_valid.simps [of a] utf8_step_newline)
  qed
qed

lemma utf8_valid_lines: "utf8_valid (unlines_nl ls) \<longleftrightarrow> list_all utf8_valid ls"
  by (induction ls) (simp_all add: utf8_valid_newline)

subsection \<open>Character boundaries\<close>

abbreviation is_cont :: "char \<Rightarrow> bool" where "is_cont \<equiv> byte_in 128 191"

definition is_char_boundary :: "str \<Rightarrow> nat \<Rightarrow> bool" where
  "is_char_boundary s i = (i = 0 \<or> i = length s \<or> i < length s \<and> \<not> is_cont (s ! i))"

primrec boundary_below :: "str \<Rightarrow> nat \<Rightarrow> nat" where
  "boundary_below s 0 = 0"
| "boundary_below s (Suc i) = (if is_char_boundary s (Suc i) then Suc i else boundary_below s i)"

definition floor_char_boundary :: "str \<Rightarrow> nat \<Rightarrow> nat" where
  "floor_char_boundary s i = (if length s \<le> i then length s else boundary_below s i)"

lemma second_cont: "second_ok a b \<Longrightarrow> is_cont b"
  by (auto simp: second_ok_def byte_in_def Let_def split: if_splits)

text \<open>A whole character: its first byte is followed by continuation bytes, and nothing after it matters.\<close>

lemma utf8_step_cont:
  assumes "utf8_step (c # cs) = (True, k)"
  shows "k = 1 \<or> k = 2 \<and> byte_at is_cont 0 cs \<or> k = 3 \<and> byte_at is_cont 0 cs \<and> byte_at is_cont 1 cs \<or>
     k = 4 \<and> byte_at is_cont 0 cs \<and> byte_at is_cont 1 cs \<and> byte_at is_cont 2 cs"
proof -
  have "byte_at (second_ok c) 0 cs \<Longrightarrow> byte_at is_cont 0 cs" using second_cont by (auto simp: byte_at_def)
  then show ?thesis using assms by (auto simp: Let_def split: if_splits)
qed

lemma utf8_step_ok:
  assumes "utf8_step s = (True, k)" and "s \<noteq> []"
  shows "0 < k \<and> k \<le> length s \<and> (\<forall>i. 0 < i \<longrightarrow> i < k \<longrightarrow> is_cont (s ! i))"
proof -
  obtain c cs where s: "s = c # cs" using assms(2) by (cases s) auto
  have "is_cont (s ! i)" if "0 < i" "i < k" for i
  proof -
    have "i = 1 \<or> i = 2 \<or> i = 3" using that utf8_step_cont [OF assms(1) [unfolded s]] by linarith
    then show ?thesis using that utf8_step_cont [OF assms(1) [unfolded s]] by (auto simp: s byte_at_def)
  qed
  then show ?thesis using utf8_step_pos [of s] utf8_step_fits [of s] assms by simp
qed

lemma byte_at_take: "k < n \<Longrightarrow> take n t = take n s \<Longrightarrow> n \<le> length t \<Longrightarrow> n \<le> length s \<Longrightarrow> byte_at P k t = byte_at P k s"
  using nth_take [of k n t] nth_take [of k n s] by (auto simp: byte_at_def)

lemma utf8_step_prefix:
  assumes "utf8_step s = (True, k)" and "s \<noteq> []" and "k \<le> length t" and "take k t = take k s"
  shows "utf8_step t = (True, k)"
proof -
  have k: "0 < k" "k \<le> length s" using utf8_step_ok [OF assms(1,2)] by simp_all
  then obtain c cs ds where s: "s = c # cs" "t = c # ds" using assms(2-4) by (cases s; cases t; cases k) auto
  have tk: "take (k - 1) ds = take (k - 1) cs" "k - 1 \<le> length ds" "k - 1 \<le> length cs"
    using assms(3,4) k s by (cases k; simp)+
  have same: "byte_at P i ds = byte_at P i cs" if "i < k - 1" for P i
    using byte_at_take [OF that tk] .
  have "k \<in> {1, 2, 3, 4}" using utf8_step_cont [OF assms(1) [unfolded s(1)]] by auto
  then show ?thesis
    using assms(1) same [of 0] same [of 1] same [of 2] by (auto simp: s Let_def split: if_splits)
qed

lemma utf8_valid_char:
  assumes "utf8_step s = (True, k)" and "s \<noteq> []"
  shows "utf8_valid (take k s @ t) \<longleftrightarrow> utf8_valid t"
proof -
  have k: "0 < k" "k \<le> length s" using utf8_step_ok [OF assms(1,2)] by simp_all
  then have "utf8_step (take k s @ t) = (True, k)" by (intro utf8_step_prefix [OF assms(1,2)]) auto
  then show ?thesis using k assms(2) by (simp add: utf8_valid.simps [of "take k s @ t"])
qed

text \<open>A valid text is empty, or a character and a valid text.\<close>

lemma utf8_valid_cases:
  assumes "utf8_valid s"
  obtains "s = []" | k where "s \<noteq> []" "utf8_step s = (True, k)" "0 < k" "k \<le> length s" "utf8_valid (drop k s)"
proof (cases "s = []")
  case False
  obtain ok k where "utf8_step s = (ok, k)" by force
  then have "utf8_step s = (True, k)" "utf8_valid (drop k s)" using assms False by (simp_all add: utf8_valid.simps [of s])
  then show ?thesis using that(2) False utf8_step_ok by blast
qed (use that in simp)

lemma utf8_valid_induct [consumes 1, case_names Nil char]:
  assumes "utf8_valid s" and "P []"
    and "\<And>s k. s \<noteq> [] \<Longrightarrow> utf8_step s = (True, k) \<Longrightarrow> 0 < k \<Longrightarrow> k \<le> length s \<Longrightarrow> utf8_valid (drop k s) \<Longrightarrow> P (drop k s) \<Longrightarrow> P s"
  shows "P s"
  using assms(1)
proof (induction "length s" arbitrary: s rule: less_induct)
  case less
  from less.prems show ?case
  proof (cases s rule: utf8_valid_cases)
    case (2 k)
    then show ?thesis using less.hyps [of "drop k s"] assms(3) by simp
  qed (use assms(2) in simp)
qed

lemma utf8_valid_append: "utf8_valid a \<Longrightarrow> utf8_valid b \<Longrightarrow> utf8_valid (a @ b)"
proof (induction a rule: utf8_valid_induct)
  case (char s k)
  have "utf8_valid (take k s @ (drop k s @ b))" using utf8_valid_char [OF char(2,1)] char by simp
  then show ?case by (metis append_assoc append_take_drop_id)
qed simp

lemma utf8_valid_cut: "utf8_valid s \<Longrightarrow> is_char_boundary s i \<Longrightarrow> utf8_valid (take i s)"
proof (induction s arbitrary: i rule: utf8_valid_induct)
  case (char s k)
  show ?case
  proof (cases "i < k")
    case True
    then show ?thesis using char(7) utf8_step_ok [OF char(2,1)] by (cases "i = 0") (auto simp: is_char_boundary_def)
  next
    case False
    then have "is_char_boundary (drop k s) (i - k)" using char(4,7) by (auto simp: is_char_boundary_def)
    moreover have "take i s = take k s @ take (i - k) (drop k s)" using False take_add [of k "i - k" s] by simp
    ultimately show ?thesis using char(6) utf8_valid_char [OF char(2,1)] by simp
  qed
qed simp

lemma boundary_below: "boundary_below s i \<le> i" "is_char_boundary s (boundary_below s i)"
  by (induction i) (auto simp: is_char_boundary_def)

lemma floor_char_boundary_le: "floor_char_boundary s i \<le> i" "floor_char_boundary s i \<le> length s"
  using boundary_below(1) [of s i] by (auto simp: floor_char_boundary_def)

lemma floor_char_boundary_min [simp]: "min (length s) (floor_char_boundary s i) \<le> i"
  using floor_char_boundary_le(1) [of s i] by simp

lemma floor_char_boundary_valid: "utf8_valid s \<Longrightarrow> utf8_valid (take (floor_char_boundary s i) s)"
  using boundary_below(2) [of s i] utf8_valid_cut by (auto simp: floor_char_boundary_def)

lemma utf8_lossy_is_valid: "utf8_valid (utf8_lossy s)"
proof (induction s rule: utf8_lossy.induct)
  case (1 s)
  show ?case
  proof (cases "s = []")
    case False
    obtain ok k where k: "utf8_step s = (ok, k)" by force
    have "utf8_valid [CHR 0xEF, CHR 0xBF, CHR 0xBD]" by code_simp
    then show ?thesis
      using 1 [OF False] k False utf8_valid_char [of s k] utf8_valid_append [of "[CHR 0xEF, CHR 0xBF, CHR 0xBD]" "utf8_lossy (drop k s)"]
      by (cases ok) (simp_all add: utf8_lossy.simps [of s])
  qed simp
qed

subsection \<open>Lines and patterns\<close>

text \<open>\<open>str::split_inclusive('\n')\<close>: every line with its newline.\<close>

fun split_inclusive :: "str \<Rightarrow> str list" where
  "split_inclusive [] = []"
| "split_inclusive (c # cs) =
     (if c = NL then [c] # split_inclusive cs
      else (case split_inclusive cs of [] \<Rightarrow> [[c]] | l # ls \<Rightarrow> (c # l) # ls))"

lemma split_inclusive_concat [simp]: "concat (split_inclusive s) = s"
  by (induction s) (auto split: list.splits)

lemma split_inclusive_parts: "l \<in> set (split_inclusive s) \<Longrightarrow> l \<noteq> []"
  by (induction s arbitrary: l) (auto split: if_splits list.splits)

text \<open>The text in front of each match of a non-empty pattern, from left to right, and the text after the last.\<close>

function split_pattern :: "str \<Rightarrow> str \<Rightarrow> str list" where
  "split_pattern p s =
     (if p = [] then [s]
      else (case split_once p s of None \<Rightarrow> [s] | Some (a, b) \<Rightarrow> a # split_pattern p b))"
  by pat_completeness auto

termination
  by (relation "measure (\<lambda>(p, s). length s)") (auto dest!: split_once_Some)

declare split_pattern.simps [simp del]

text \<open>\<open>str::matches(p).count()\<close>, \<open>str::replace\<close> and \<open>str::replacen\<close> with the count 1, for a non-empty pattern.\<close>

definition count_matches :: "str \<Rightarrow> str \<Rightarrow> nat" where
  "count_matches p s = length (split_pattern p s) - 1"

definition str_replace :: "str \<Rightarrow> str \<Rightarrow> str \<Rightarrow> str" where
  "str_replace p new s = str_join new (split_pattern p s)"

definition str_replace_first :: "str \<Rightarrow> str \<Rightarrow> str \<Rightarrow> str" where
  "str_replace_first p new s = (case split_once p s of None \<Rightarrow> s | Some (a, b) \<Rightarrow> a @ new @ b)"

lemma split_pattern_not_Nil [simp]: "split_pattern p s \<noteq> []"
  by (subst split_pattern.simps) (auto split: option.splits)

lemma str_join_Cons: "ws \<noteq> [] \<Longrightarrow> str_join sep (w # ws) = w @ sep @ str_join sep ws"
  by (cases ws) (auto simp: str_join_def)

lemma str_join_single [simp]: "str_join sep [w] = w"
  by (simp add: str_join_def)

lemma split_pattern_join: "str_join p (split_pattern p s) = s"
  by (induction p s rule: split_pattern.induct)
     (subst split_pattern.simps, auto split: option.splits dest: split_once_Some simp: str_join_Cons)

lemma split_once_first:
  "split_once p s = Some (a, b) \<Longrightarrow> s = a' @ p @ b' \<Longrightarrow> length a \<le> length a'"
proof (induction p s arbitrary: a b a' rule: split_once.induct)
  case (2 p c cs)
  show ?case
  proof (cases "strip_prefix p (c # cs)")
    case None
    obtain a0 where a: "a = c # a0" "split_once p cs = Some (a0, b)" using "2.prems"(1) None by auto
    have "a' \<noteq> []" using None "2.prems"(2) strip_prefix_Some_iff [of p "c # cs"] by force
    then obtain a1 where "a' = c # a1" "cs = a1 @ p @ b'" using "2.prems"(2) by (cases a') auto
    then show ?thesis using "2.IH" [OF None a(2)] a(1) by simp
  next
    case (Some r)
    then show ?thesis using "2.prems"(1) by simp
  qed
qed simp

lemma count_matches_0: "p \<noteq> [] \<Longrightarrow> count_matches p s = 0 \<longleftrightarrow> \<not> sublist p s"
  using split_once_None [of p s]
  by (auto simp: count_matches_def split_pattern.simps [of p s] Suc_le_eq neq_Nil_conv split: option.splits)

text \<open>One match: every occurrence overlaps the first.\<close>

lemma count_matches_1:
  assumes "p \<noteq> []" and "count_matches p s = 1" and "s = a' @ p @ b'" and "split_once p s = Some (a, b)"
  shows "length a \<le> length a' \<and> length a' < length a + length p"
proof -
  have "split_once p b = None"
    using assms(1,2,4) by (auto simp: count_matches_def split_pattern.simps [of p s] split_pattern.simps [of p b] split: option.splits)
  then have "\<not> sublist p b" by (simp add: split_once_None)
  moreover have "sublist p b" if "length a + length p \<le> length a'"
  proof -
    have "drop (length a + length p) (a' @ p @ b') = b" using split_once_Some [OF assms(4)] assms(3) by (metis append_assoc append_eq_conv_conj length_append)
    then have "b = drop (length a + length p) a' @ p @ b'" using that by simp
    then show ?thesis by (metis sublist_appendI)
  qed
  ultimately show ?thesis using split_once_first [OF assms(4,3)] by linarith
qed

lemma split_pattern_pieces: "p \<noteq> [] \<Longrightarrow> w \<in> set (split_pattern p s) \<Longrightarrow> \<not> sublist p w"
proof (induction p s rule: split_pattern.induct)
  case (1 p s)
  show ?case
  proof (cases "split_once p s")
    case None
    then have "w = s" "\<not> sublist p s" using "1.prems" split_once_None [of p s] by (simp_all add: split_pattern.simps [of p s])
    then show ?thesis by simp
  next
    case (Some ab)
    obtain a b where ab: "ab = (a, b)" by force
    have "\<not> sublist p a"
    proof
      assume "sublist p a"
      then obtain u v where "a = u @ p @ v" by (auto simp: sublist_def)
      then have "s = u @ p @ (v @ p @ b)" using Some ab split_once_Some [of p s a b] by simp
      then have "length a \<le> length u" using split_once_first Some ab by metis
      then show False using \<open>a = u @ p @ v\<close> "1.prems"(1) by simp
    qed
    then show ?thesis using 1 Some ab by (auto simp: split_pattern.simps [of p s])
  qed
qed

lemma split_inclusive_attach:
  "NL \<notin> set a \<Longrightarrow> split_inclusive (a @ s) =
     (case split_inclusive s of [] \<Rightarrow> if a = [] then [] else [a] | l # ls \<Rightarrow> (a @ l) # ls)"
  by (induction a) (auto split: list.splits)

lemma utf8_step_high:
  assumes "utf8_step s = (True, k)" and "s \<noteq> []" and "k \<noteq> 1"
  shows "NL \<notin> set (take k s)"
proof
  assume "NL \<in> set (take k s)"
  then obtain i where i: "i < k" "i < length s" "s ! i = NL" by (auto simp: in_set_conv_nth)
  then have "i = 0" using utf8_step_ok [OF assms(1,2)] newline_not_continuation(1) by (metis gr0I)
  then obtain cs where "s = NL # cs" using i assms(2) by (cases s) auto
  then show False using assms(1,3) by (simp add: lead_width_def byte_in_def code_of_def)
qed

text \<open>The lines of a valid text are valid.\<close>

lemma valid_utf8_lines: "utf8_valid s \<Longrightarrow> \<forall>l \<in> set (split_inclusive s). utf8_valid l"
proof (induction s rule: utf8_valid_induct)
  case (char s k)
  let ?a = "take k s" and ?b = "drop k s"
  have a: "utf8_valid ?a" using utf8_valid_char [OF char(2,1), of "[]"] by simp
  show ?case
  proof (cases "NL \<in> set ?a")
    case True
    then have "k = 1" using utf8_step_high [OF char(2,1)] by auto
    then obtain cs where "s = NL # cs" using True char(1) by (cases s) auto
    then show ?thesis using char(6) a \<open>k = 1\<close> by simp
  next
    case False
    have "\<forall>l \<in> set (split_inclusive (?a @ ?b)). utf8_valid l"
    proof (cases "split_inclusive ?b")
      case Nil
      then show ?thesis unfolding split_inclusive_attach [OF False] using a by simp
    next
      case (Cons l ls)
      then show ?thesis unfolding split_inclusive_attach [OF False] using a char(6) utf8_valid_append [of ?a l] by simp
    qed
    then show ?thesis by simp
  qed
qed simp

lemma valid_lines_concat: "utf8_valid s \<Longrightarrow> set ls \<subseteq> set (split_inclusive s) \<Longrightarrow> utf8_valid (concat ls)"
  using valid_utf8_lines by (induction ls) (auto intro: utf8_valid_append)

lemma valid_lines_prefix: "utf8_valid s \<Longrightarrow> utf8_valid (concat (take n (split_inclusive s)))"
  by (rule valid_lines_concat) (auto dest: in_set_takeD)

lemma split_inclusive_take: "split_inclusive (concat (take n (split_inclusive s))) = take n (split_inclusive s)"
proof (induction s arbitrary: n)
  case (Cons c cs)
  show ?case
  proof (cases n)
    case (Suc m)
    show ?thesis
    proof (cases "c = NL")
      case False
      then show ?thesis using Cons [of n] Suc by (cases "split_inclusive cs") auto
    qed (use Cons [of m] Suc in auto)
  qed simp
qed simp

subsection \<open>White space\<close>

text \<open>\<open>str::trim\<close> on UTF-8 bytes, by the encodings of the white-space characters.\<close>

definition utf8_ws :: "str list" where
  "utf8_ws =
     map (\<lambda>c. [c]) [CHR 0x09, CHR 0x0A, CHR 0x0B, CHR 0x0C, CHR 0x0D, CHR 0x20] @
     [[CHR 0xC2, CHR 0x85], [CHR 0xC2, CHR 0xA0], [CHR 0xE1, CHR 0x9A, CHR 0x80]] @
     map (\<lambda>c. [CHR 0xE2, CHR 0x80, c])
       [CHR 0x80, CHR 0x81, CHR 0x82, CHR 0x83, CHR 0x84, CHR 0x85, CHR 0x86, CHR 0x87, CHR 0x88, CHR 0x89, CHR 0x8A,
        CHR 0xA8, CHR 0xA9, CHR 0xAF] @
     [[CHR 0xE2, CHR 0x81, CHR 0x9F], [CHR 0xE3, CHR 0x80, CHR 0x80]]"

function strip_any :: "str list \<Rightarrow> str \<Rightarrow> str" where
  "strip_any ws s =
     (case find (\<lambda>w. w \<noteq> [] \<and> starts_with w s) ws of
        None \<Rightarrow> s
      | Some w \<Rightarrow> strip_any ws (drop (length w) s))"
  by pat_completeness auto

termination
  by (relation "measure (\<lambda>(ws, s). length s)") (auto simp: find_Some_iff starts_with_iff prefix_def)

definition utf8_trim :: "str \<Rightarrow> str" where
  "utf8_trim s = rev (strip_any (map rev utf8_ws) (rev (strip_any utf8_ws s)))"

lemma strip_any_plain: "list_all (\<lambda>c. c \<notin> set (concat ws)) s \<Longrightarrow> strip_any ws s = s"
proof -
  assume p: "list_all (\<lambda>c. c \<notin> set (concat ws)) s"
  have "find (\<lambda>w. w \<noteq> [] \<and> starts_with w s) ws = None"
  proof -
    have "\<not> (w \<noteq> [] \<and> starts_with w s)" if "w \<in> set ws" for w
    proof
      assume w: "w \<noteq> [] \<and> starts_with w s"
      then obtain c cs where "w = c # cs" "c \<in> set s" by (cases w) (auto simp: starts_with_iff prefix_def)
      then have "c \<in> set (concat ws)" using that by (auto intro!: bexI [of _ w])
      then show False using p \<open>c \<in> set s\<close> by (simp add: list_all_iff)
    qed
    then show ?thesis by (auto simp: find_None_iff)
  qed
  then show ?thesis by simp
qed

lemma utf8_trim_plain: "list_all (\<lambda>c. c \<notin> set (concat utf8_ws)) s \<Longrightarrow> utf8_trim s = s"
  using strip_any_plain [of utf8_ws s] strip_any_plain [of "map rev utf8_ws" "rev s"] by (auto simp: utf8_trim_def list_all_iff)

end
