(* ===== verification/Log_File.thy ===== *)
theory Log_File
  imports Utf8
begin

text \<open>
  The session log on disk (\<open>houyicoder-memory\<close>: \<open>local_file/log_windows.rs\<close>, \<open>local_file/records.rs\<close>; the
  window types of \<open>houyicoder-context/src/backend.rs\<close>). The log is a list of bytes, a byte being a \<open>char\<close>;
  \<open>None\<close> is a file that cannot be opened. A read of an opened file returns the bytes asked for up to the
  end of the file, as reads of regular files do. The text of a line is its bytes, with \<open>from_utf8_lossy\<close>
  applied where the code applies it.

  The contract a reader of windows relies on is the locale \<open>log_source\<close>; the file backend is its
  interpretation for every log whose bytes are lines, whatever follows the last terminator.
\<close>

subsection \<open>Forward windows\<close>

record range_read =
  rr_lines :: "(nat \<times> str) list"
  rr_next_offset :: nat
  rr_bytes_total :: nat
  rr_line_breaks :: nat

definition rr_default :: range_read where
  "rr_default = \<lparr>rr_lines = [], rr_next_offset = 0, rr_bytes_total = 0, rr_line_breaks = 0\<rparr>"

definition unread_records :: "range_read \<Rightarrow> nat" where
  "unread_records r = rr_line_breaks r - length (rr_lines r)"

definition MAX_WINDOW_BYTES :: nat where
  "MAX_WINDOW_BYTES = 8 * 1024 * 1024"

text \<open>The line loop: the raw lines of the window that end in a terminator, with their offsets.\<close>

function window_lines :: "nat \<Rightarrow> str \<Rightarrow> (nat \<times> str) list" where
  "window_lines off s =
     (if \<not> List.member s NL then []
      else let l = takeWhile (\<lambda>c. c \<noteq> NL) s in
           (off, l) # window_lines (off + length l + 1) (drop (length l + 1) s))"
  by pat_completeness auto

termination
  by (relation "measure (\<lambda>(off, s). length s)") (auto simp: in_set_conv_decomp)

declare window_lines.simps [simp del]

text \<open>The bytes up to the last terminator, and the text of a line: taken from the window when these bytes
  are valid, and converted on its own otherwise.\<close>

definition complete_span :: "str \<Rightarrow> str" where
  "complete_span s = rev (dropWhile (\<lambda>c. c \<noteq> NL) (rev s))"

definition window_text :: "bool \<Rightarrow> str \<Rightarrow> str" where
  "window_text valid_window l = (if valid_window then l else utf8_lossy l)"

definition read_byte_range :: "str option \<Rightarrow> nat \<Rightarrow> nat \<Rightarrow> range_read" where
  "read_byte_range log byte_offset max_bytes =
     (case log of None \<Rightarrow> rr_default
      | Some bytes \<Rightarrow>
          let bytes_total = length bytes in
          if bytes_total \<le> byte_offset then rr_default\<lparr>rr_bytes_total := bytes_total\<rparr>
          else
            let buf = take (min max_bytes MAX_WINDOW_BYTES) (drop byte_offset bytes);
                n = length buf;
                mid_line = (byte_offset \<noteq> 0 \<and> (n = 0 \<or> bytes ! (byte_offset - 1) \<noteq> NL))
            in if mid_line \<and> \<not> List.member buf NL
               then rr_default\<lparr>rr_next_offset := byte_offset + n, rr_bytes_total := bytes_total\<rparr>
               else
                 let start = (if mid_line then length (takeWhile (\<lambda>c. c \<noteq> NL) buf) + 1 else 0);
                     rest = drop start buf;
                     ls = window_lines (byte_offset + start) rest;
                     valid_window = utf8_valid (complete_span rest)
                 in \<lparr>rr_lines = map (\<lambda>(off, l). (off, window_text valid_window l)) ls,
                     rr_next_offset = (if ls = [] then byte_offset + n
                                       else fst (last ls) + length (snd (last ls)) + 1),
                     rr_bytes_total = bytes_total,
                     rr_line_breaks = (if 0 < start then 1 else 0) + length ls\<rparr>)"

lemma window_lines_no_newline: "NL \<notin> set s \<Longrightarrow> window_lines off s = []"
  by (simp add: window_lines.simps)

lemma window_lines_Cons:
  "NL \<notin> set l \<Longrightarrow> window_lines off (l @ NL # s) = (off, l) # window_lines (off + length l + 1) s"
proof -
  assume "NL \<notin> set l"
  then have "takeWhile (\<lambda>c. c \<noteq> NL) (l @ NL # s) = l" by (subst takeWhile_append2) auto
  then show ?thesis by (subst window_lines.simps) (simp add: Let_def)
qed

lemma window_lines_unlines:
  assumes "\<forall>l\<in>set ls. NL \<notin> set l" "NL \<notin> set t"
  shows "map snd (window_lines off (unlines_nl ls @ t)) = ls"
  using assms by (induction ls arbitrary: off) (simp_all add: window_lines_Cons window_lines_no_newline)

text \<open>Every text is lines and a rest with no terminator.\<close>

lemma lines_exist: "\<exists>ls t. s = unlines_nl ls @ t \<and> (\<forall>l\<in>set ls. NL \<notin> set l) \<and> NL \<notin> set t"
proof (induction s rule: length_induct)
  case (1 s)
  show ?case
  proof (cases "NL \<in> set s")
    case True
    then obtain l s' where s: "s = l @ NL # s'" "NL \<notin> set l" by (meson split_list_first)
    then obtain ls t where "s' = unlines_nl ls @ t" "\<forall>l\<in>set ls. NL \<notin> set l" "NL \<notin> set t"
      using 1 by (metis length_append length_Cons less_add_Suc2 add_Suc_right)
    with s show ?thesis by (intro exI [of _ "l # ls"] exI [of _ t]) simp
  qed (intro exI [of _ "[]"] exI [of _ s], simp)
qed

lemma complete_span_unlines: "NL \<notin> set t \<Longrightarrow> complete_span (unlines_nl ls @ t) = unlines_nl ls"
proof (induction ls rule: rev_induct)
  case Nil
  then show ?case by (auto simp: complete_span_def dropWhile_eq_Nil_conv)
next
  case (snoc l ls)
  then have "dropWhile (\<lambda>c. c \<noteq> NL) (rev t @ NL # rev l @ rev (unlines_nl ls)) = NL # rev l @ rev (unlines_nl ls)"
    by (simp add: dropWhile_append3 dropWhile_append)
  then show ?case by (simp add: complete_span_def)
qed

lemma window_text_per_line':
  "map (\<lambda>(off, l). (off, window_text (utf8_valid (complete_span s)) l)) (window_lines off s) =
   map (\<lambda>(off, l). (off, utf8_lossy l)) (window_lines off s)"
proof -
  obtain ls t where s: "s = unlines_nl ls @ t" "\<forall>l\<in>set ls. NL \<notin> set l" "NL \<notin> set t"
    using lines_exist by blast
  have "utf8_valid (complete_span s) \<Longrightarrow> utf8_lossy l = l" if "l \<in> set ls" for l
    using s that by (simp add: complete_span_unlines utf8_valid_lines list_all_iff utf8_lossy_valid)
  moreover have "snd ` set (window_lines off s) = set ls"
    using window_lines_unlines [OF s(2,3), of off] s(1) by (metis list.set_map)
  ultimately show ?thesis by (force simp: window_text_def)
qed

subsection \<open>The contract of a line-aligned reader\<close>

text \<open>The lines of a log and what follows the last terminator; where line \<open>i\<close> begins; how many of the next
  lines a window of \<open>m\<close> bytes holds.\<close>

definition log_lines :: "str \<Rightarrow> str list" where
  "log_lines bytes = map snd (window_lines 0 bytes)"

definition log_tail :: "str \<Rightarrow> str" where
  "log_tail bytes = drop (length (unlines_nl (log_lines bytes))) bytes"

definition line_pos :: "str list \<Rightarrow> nat \<Rightarrow> nat" where
  "line_pos ls i = length (unlines_nl (take i ls))"

fun fits :: "nat \<Rightarrow> str list \<Rightarrow> nat" where
  "fits m [] = 0"
| "fits m (l # ls) = (if length l < m then Suc (fits (m - length l - 1) ls) else 0)"

lemma fits_le: "fits w ls \<le> length ls"
  by (induction w ls rule: fits.induct) auto

locale log_source =
  fixes rd :: "nat \<Rightarrow> nat \<Rightarrow> range_read" and ls :: "str list" and t :: str
  assumes at_line: "\<And>i m. \<lbrakk>i \<le> length ls; line_pos ls i < length (unlines_nl ls @ t); 0 < m\<rbrakk> \<Longrightarrow>
      (let r = rd (line_pos ls i) m; w = min m MAX_WINDOW_BYTES; j = fits w (drop i ls) in
        map snd (rr_lines r) = map utf8_lossy (take j (drop i ls)) \<and>
        map fst (rr_lines r) = map (\<lambda>k. line_pos ls (i + k)) [0..<j] \<and> unread_records r = 0 \<and>
        rr_bytes_total r = length (unlines_nl ls @ t) \<and>
        rr_next_offset r =
          (if j = 0 then line_pos ls i + min w (length (unlines_nl ls @ t) - line_pos ls i)
           else line_pos ls (i + j)))"
    and in_tail: "\<And>off m. \<lbrakk>line_pos ls (length ls) < off; off < length (unlines_nl ls @ t); 0 < m\<rbrakk> \<Longrightarrow>
      rr_lines (rd off m) = [] \<and> unread_records (rd off m) = 0 \<and>
      rr_bytes_total (rd off m) = length (unlines_nl ls @ t) \<and>
      off < rr_next_offset (rd off m) \<and> rr_next_offset (rd off m) \<le> length (unlines_nl ls @ t)"
    and past_end: "\<And>off m. length (unlines_nl ls @ t) \<le> off \<Longrightarrow>
      rd off m = rr_default\<lparr>rr_bytes_total := length (unlines_nl ls @ t)\<rparr>"

lemma log_lines_unlines:
  assumes "\<forall>l\<in>set ls. NL \<notin> set l" "NL \<notin> set t"
  shows "log_lines (unlines_nl ls @ t) = ls" "log_tail (unlines_nl ls @ t) = t"
  using window_lines_unlines [OF assms] by (simp_all add: log_lines_def log_tail_def)

lemma log_content:
  "bytes = unlines_nl (log_lines bytes) @ log_tail bytes" "\<forall>l\<in>set (log_lines bytes). NL \<notin> set l"
  "NL \<notin> set (log_tail bytes)"
  using lines_exist [of bytes] by (auto simp: log_lines_unlines)

lemma window_lines_fits:
  assumes "\<forall>l\<in>set ls. NL \<notin> set l" "NL \<notin> set t"
  shows "map snd (window_lines off (take m (unlines_nl ls @ t))) = take (fits m ls) ls \<and>
     (0 < fits m ls \<longrightarrow>
        (let p = last (window_lines off (take m (unlines_nl ls @ t))) in
         fst p + length (snd p) + 1 = off + line_pos ls (fits m ls)))"
  using assms
proof (induction ls arbitrary: off m)
  case Nil
  then have "NL \<notin> set (take m t)" by (meson in_set_takeD)
  then show ?case by (simp add: window_lines_no_newline)
next
  case (Cons l ls)
  show ?case
  proof (cases "length l < m")
    case True
    then obtain k where m: "m = length l + Suc k" by (metis add_Suc_right less_imp_Suc_add)
    have eq: "window_lines off (take m (unlines_nl (l # ls) @ t)) =
        (off, l) # window_lines (off + length l + 1) (take k (unlines_nl ls @ t))"
      using Cons.prems by (simp add: m window_lines_Cons)
    have ih: "map snd (window_lines (off + length l + 1) (take k (unlines_nl ls @ t))) = take (fits k ls) ls"
      "0 < fits k ls \<longrightarrow> (let p = last (window_lines (off + length l + 1) (take k (unlines_nl ls @ t))) in
         fst p + length (snd p) + 1 = off + length l + 1 + line_pos ls (fits k ls))"
      using Cons.IH [of "off + length l + 1" k] Cons.prems by simp_all
    let ?ws = "window_lines (off + length l + 1) (take k (unlines_nl ls @ t))"
    have e: "?ws = [] \<longleftrightarrow> fits k ls = 0"
      using ih(1) by (cases ls) (auto split: if_splits)
    have f: "fits m (l # ls) = Suc (fits k ls)" by (simp add: m)
    have p: "line_pos (l # ls) (Suc (fits k ls)) = length l + 1 + line_pos ls (fits k ls)"
      by (simp add: line_pos_def)
    show ?thesis
    proof (cases "fits k ls = 0")
      case True
      then show ?thesis using e by (simp only: eq f p) (simp add: line_pos_def)
    next
      case False
      then show ?thesis using e ih by (simp only: eq f p) (simp add: Let_def)
    qed
  next
    case False
    then have "take m (unlines_nl (l # ls) @ t) = take m l" by simp
    moreover have "NL \<notin> set (take m l)" using Cons.prems by (auto dest: in_set_takeD)
    ultimately show ?thesis using False by (simp add: window_lines_no_newline)
  qed
qed

lemma line_pos_drop:
  "i \<le> length ls \<Longrightarrow> drop (line_pos ls i) (unlines_nl ls @ t) = unlines_nl (drop i ls) @ t"
  by (metis append_take_drop_id append.assoc append_eq_conv_conj line_pos_def unlines_nl_simps(3))

lemma line_pos_add: "line_pos ls (i + j) = line_pos ls i + line_pos (drop i ls) j"
  by (simp add: line_pos_def take_add)

lemma line_pos_newline:
  assumes "0 < i" "i \<le> length ls"
  shows "(unlines_nl ls @ t) ! (line_pos ls i - 1) = NL"
proof -
  obtain k where k: "i = Suc k" using assms(1) by (cases i) auto
  have "take i ls = take k ls @ [ls ! k]" using assms(2) by (simp add: k take_Suc_conv_app_nth)
  then have "unlines_nl ls @ t = unlines_nl (take k ls) @ ls ! k @ NL # unlines_nl (drop i ls) @ t"
    by (metis append.assoc append_Cons append_Nil append_take_drop_id unlines_nl_simps)
  moreover have "line_pos ls i - 1 = length (unlines_nl (take k ls) @ ls ! k)"
    using \<open>take i ls = _\<close> by (simp add: line_pos_def)
  ultimately show ?thesis by (metis append.assoc nth_append_length)
qed

lemma read_aligned:
  assumes "off < length bytes" "buf = take (min m MAX_WINDOW_BYTES) (drop off bytes)"
    and "\<not> (off \<noteq> 0 \<and> (length buf = 0 \<or> bytes ! (off - 1) \<noteq> NL))"
  shows "read_byte_range (Some bytes) off m =
    \<lparr>rr_lines = map (\<lambda>(p, l). (p, window_text (utf8_valid (complete_span buf)) l)) (window_lines off buf),
     rr_next_offset = (if window_lines off buf = [] then off + length buf
       else fst (last (window_lines off buf)) + length (snd (last (window_lines off buf))) + 1),
     rr_bytes_total = length bytes, rr_line_breaks = length (window_lines off buf)\<rparr>"
proof -
  have mid: "(off \<noteq> 0 \<and> (length buf = 0 \<or> bytes ! (off - 1) \<noteq> NL)) = False" using assms(3) by blast
  have lt: "(length bytes \<le> off) = False" using assms(1) by simp
  show ?thesis
    unfolding read_byte_range_def Let_def option.case assms(2) [symmetric] mid lt
    by (simp only: if_False simp_thms drop_0 add_0_right add_0 less_irrefl)
qed

lemma window_lines_starts:
  "map fst (window_lines off s) =
     map (\<lambda>k. off + line_pos (map snd (window_lines off s)) k) [0..<length (window_lines off s)]"
proof (induction off s rule: window_lines.induct)
  case (1 off s)
  show ?case
  proof (cases "NL \<in> set s")
    case True
    define l where "l = takeWhile (\<lambda>c. c \<noteq> NL) s"
    define ws where "ws = window_lines (off + length l + 1) (drop (length l + 1) s)"
    have "window_lines off s = (off, l) # ws"
      using True by (subst window_lines.simps) (simp add: Let_def l_def ws_def)
    moreover have "map fst ws = map (\<lambda>k. off + length l + 1 + line_pos (map snd ws) k) [0..<length ws]"
      using 1 True by (simp add: l_def ws_def)
    ultimately show ?thesis
      by (simp add: upt_conv_Cons map_Suc_upt [symmetric] line_pos_def del: upt_Suc)
  qed (simp add: window_lines_no_newline)
qed

lemma line_pos_take: "k \<le> j \<Longrightarrow> line_pos (take j ls) k = line_pos ls k"
  by (simp add: line_pos_def min_def)

lemma read_at_line:
  assumes "\<forall>l\<in>set ls. NL \<notin> set l" "NL \<notin> set t" "i \<le> length ls"
    and "line_pos ls i < length (unlines_nl ls @ t)" "0 < m"
  shows "let r = read_byte_range (Some (unlines_nl ls @ t)) (line_pos ls i) m;
      w = min m MAX_WINDOW_BYTES; j = fits w (drop i ls) in
    map snd (rr_lines r) = map utf8_lossy (take j (drop i ls)) \<and>
    map fst (rr_lines r) = map (\<lambda>k. line_pos ls (i + k)) [0..<j] \<and> unread_records r = 0 \<and>
    rr_bytes_total r = length (unlines_nl ls @ t) \<and>
    rr_next_offset r =
      (if j = 0 then line_pos ls i + min w (length (unlines_nl ls @ t) - line_pos ls i)
       else line_pos ls (i + j))"
proof -
  define bytes where "bytes = unlines_nl ls @ t"
  define w where "w = min m MAX_WINDOW_BYTES"
  define buf where "buf = take w (unlines_nl (drop i ls) @ t)"
  define off where "off = line_pos ls i"
  define ws where "ws = window_lines off buf"
  have lt: "off < length bytes" and w: "0 < w" using assms(4,5) by (simp_all add: off_def bytes_def w_def MAX_WINDOW_BYTES_def)
  have buf: "take w (drop off bytes) = buf"
    using line_pos_drop [OF assms(3), of t] by (simp add: buf_def bytes_def off_def)
  have n: "length buf = min w (length bytes - off)"
    using arg_cong [OF buf, of length] by (simp add: min.commute)
  have aligned: "\<not> (off \<noteq> 0 \<and> (length buf = 0 \<or> bytes ! (off - 1) \<noteq> NL))"
  proof -
    have "off \<noteq> 0 \<Longrightarrow> 0 < i" by (cases i) (simp_all add: off_def line_pos_def)
    moreover have "length buf \<noteq> 0" using n lt w by simp
    ultimately show ?thesis using line_pos_newline [OF _ assms(3), of t] by (auto simp: bytes_def off_def)
  qed
  have r: "read_byte_range (Some bytes) off m =
    \<lparr>rr_lines = map (\<lambda>(p, l). (p, window_text (utf8_valid (complete_span buf)) l)) ws,
     rr_next_offset = (if ws = [] then off + length buf else fst (last ws) + length (snd (last ws)) + 1),
     rr_bytes_total = length bytes, rr_line_breaks = length ws\<rparr>"
    unfolding ws_def
    by (rule read_aligned [OF lt _ aligned]) (simp add: buf flip: w_def)
  have "\<forall>l\<in>set (drop i ls). NL \<notin> set l" using assms(1) by (meson in_set_dropD)
  from window_lines_fits [OF this assms(2), of off w]
  have fit: "map snd ws = take (fits w (drop i ls)) (drop i ls)"
    and pos: "0 < fits w (drop i ls) \<longrightarrow> fst (last ws) + length (snd (last ws)) + 1 =
      off + line_pos (drop i ls) (fits w (drop i ls))"
    by (simp_all add: ws_def buf_def Let_def)
  have "length ws = length (map snd ws)" by simp
  then have len: "length ws = fits w (drop i ls)" unfolding fit using fits_le [of w "drop i ls"] by simp
  have starts: "map fst ws = map (\<lambda>k. line_pos ls (i + k)) [0..<fits w (drop i ls)]"
    using window_lines_starts [of off buf, folded ws_def]
    unfolding fit len line_pos_add off_def by (simp add: line_pos_take)
  have "ws = [] \<longleftrightarrow> fits w (drop i ls) = 0"
    using fit by (cases "drop i ls") (auto split: if_splits)
  moreover have "map snd (rr_lines (read_byte_range (Some bytes) off m)) = map utf8_lossy (map snd ws)"
    using window_text_per_line' [of buf off] by (simp add: r ws_def case_prod_unfold o_def)
  moreover have "map fst (rr_lines (read_byte_range (Some bytes) off m)) = map fst ws"
    by (simp add: r case_prod_unfold o_def)
  ultimately show ?thesis
    using fit pos n starts
    unfolding Let_def bytes_def [symmetric] w_def [symmetric] off_def [symmetric] line_pos_add
    by (auto simp: r unread_records_def)
qed

lemma read_in_tail:
  assumes "NL \<notin> set t" "length (unlines_nl ls) < off" "off < length (unlines_nl ls @ t)" "0 < m"
  shows "rr_lines (read_byte_range (Some (unlines_nl ls @ t)) off m) = [] \<and>
    unread_records (read_byte_range (Some (unlines_nl ls @ t)) off m) = 0 \<and>
    rr_bytes_total (read_byte_range (Some (unlines_nl ls @ t)) off m) = length (unlines_nl ls @ t) \<and>
    off < rr_next_offset (read_byte_range (Some (unlines_nl ls @ t)) off m) \<and>
    rr_next_offset (read_byte_range (Some (unlines_nl ls @ t)) off m) \<le> length (unlines_nl ls @ t)"
proof -
  let ?bytes = "unlines_nl ls @ t"
  let ?buf = "take (min m MAX_WINDOW_BYTES) (drop off ?bytes)"
  obtain k where k: "off = length (unlines_nl ls) + Suc k" using assms(2) by (metis add_Suc_right less_imp_Suc_add)
  have "set ?buf \<subseteq> set t" using set_take_subset [of _ "drop (Suc k) t"] set_drop_subset [of "Suc k" t] by (auto simp: k)
  then have nb: "\<not> List.member ?buf NL" using assms(1) by auto
  have "?bytes ! (off - 1) \<in> set t" using assms(3) by (simp add: k nth_append)
  then have prev: "?bytes ! (off - 1) \<noteq> NL" using assms(1) by metis
  have "0 < length ?buf" using assms(3,4) by (auto simp: MAX_WINDOW_BYTES_def k)
  moreover have "off + length ?buf \<le> length ?bytes"
    using assms(3) unfolding length_take length_drop by linarith
  ultimately show ?thesis
    using assms(2,3) nb prev by (simp add: read_byte_range_def Let_def rr_default_def unread_records_def)
qed

interpretation disk: log_source "read_byte_range (Some bytes)" "log_lines bytes" "log_tail bytes" for bytes
proof
  note content = log_content [of bytes]
  show "let r = read_byte_range (Some bytes) (line_pos (log_lines bytes) i) m; w = min m MAX_WINDOW_BYTES;
        j = fits w (drop i (log_lines bytes))
      in map snd (rr_lines r) = map utf8_lossy (take j (drop i (log_lines bytes))) \<and>
        map fst (rr_lines r) = map (\<lambda>k. line_pos (log_lines bytes) (i + k)) [0..<j] \<and> unread_records r = 0 \<and>
        rr_bytes_total r = length (unlines_nl (log_lines bytes) @ log_tail bytes) \<and>
        rr_next_offset r =
          (if j = 0 then line_pos (log_lines bytes) i +
             min w (length (unlines_nl (log_lines bytes) @ log_tail bytes) - line_pos (log_lines bytes) i)
           else line_pos (log_lines bytes) (i + j))"
    if "i \<le> length (log_lines bytes)"
      "line_pos (log_lines bytes) i < length (unlines_nl (log_lines bytes) @ log_tail bytes)" "0 < m" for i m
    using read_at_line [OF content(2,3) that] by (simp only: content(1) [symmetric])
  show "rr_lines (read_byte_range (Some bytes) off m) = [] \<and>
      unread_records (read_byte_range (Some bytes) off m) = 0 \<and>
      rr_bytes_total (read_byte_range (Some bytes) off m) = length (unlines_nl (log_lines bytes) @ log_tail bytes) \<and>
      off < rr_next_offset (read_byte_range (Some bytes) off m) \<and>
      rr_next_offset (read_byte_range (Some bytes) off m) \<le> length (unlines_nl (log_lines bytes) @ log_tail bytes)"
    if "line_pos (log_lines bytes) (length (log_lines bytes)) < off"
      "off < length (unlines_nl (log_lines bytes) @ log_tail bytes)" "0 < m" for off m
    using read_in_tail [OF content(3) _ that(2,3)] that(1) by (simp only: content(1) [symmetric] line_pos_def take_all_iff order_refl take_all)
  show "read_byte_range (Some bytes) off m =
      rr_default\<lparr>rr_bytes_total := length (unlines_nl (log_lines bytes) @ log_tail bytes)\<rparr>"
    if "length (unlines_nl (log_lines bytes) @ log_tail bytes) \<le> off" for off m
    using that by (simp only: content(1) [symmetric]) (simp add: read_byte_range_def)
qed

text \<open>Validating a window once gives the text that converting every line would: every line a window
  returns is the lossy conversion of one raw line of the log, valid window or not, and the window read
  from the start of a line returns the lines that fit, whole and in order, and stops at a line start.\<close>

lemma read_window_lines:
  assumes "i \<le> length (log_lines bytes)" "line_pos (log_lines bytes) i < length bytes" "0 < m"
    and "j = fits (min m MAX_WINDOW_BYTES) (drop i (log_lines bytes))" "0 < j"
  shows "map snd (rr_lines (read_byte_range (Some bytes) (line_pos (log_lines bytes) i) m)) =
       map utf8_lossy (take j (drop i (log_lines bytes))) \<and>
     rr_next_offset (read_byte_range (Some bytes) (line_pos (log_lines bytes) i) m) =
       line_pos (log_lines bytes) (i + j) \<and>
     unread_records (read_byte_range (Some bytes) (line_pos (log_lines bytes) i) m) = 0"
  using disk.at_line [of i bytes m] assms(1-3) assms(4,5) log_content(1) [of bytes, symmetric] by (simp add: Let_def)

subsection \<open>Backward windows\<close>

record log_window =
  lw_bytes :: str
  lw_start :: nat
  lw_from_byte :: nat
  lw_covers_log :: bool
  lw_starts_at_line :: bool
  lw_ends_with_line :: bool

text \<open>The loop of \<open>whole_lines\<close>: the offset and bytes of the current segment, whether its head is shown, the
  end of the newest line and the lines so far.\<close>

fun whole_scan ::
  "str \<Rightarrow> nat \<Rightarrow> str \<Rightarrow> bool \<Rightarrow> nat \<Rightarrow> (nat \<times> str) list \<Rightarrow> (nat \<times> str) list \<times> nat \<times> str \<times> nat" where
  "whole_scan [] seg_start seg head_shown newest_end ls = (ls, seg_start, seg, newest_end)"
| "whole_scan (b # bs) seg_start seg head_shown newest_end ls =
     (if b \<noteq> NL then whole_scan bs seg_start (seg @ [b]) head_shown newest_end ls
      else if head_shown then
        whole_scan bs (seg_start + length seg + 1) [] True (seg_start + length seg + 1)
          (ls @ [(seg_start, utf8_lossy seg)])
      else whole_scan bs (seg_start + length seg + 1) [] True newest_end ls)"

definition whole_lines :: "log_window \<Rightarrow> (nat \<times> str) list \<times> bool" where
  "whole_lines w =
     (case whole_scan (lw_bytes w) (lw_start w) [] (lw_starts_at_line w) (lw_start w) [] of
        (ls0, seg_start, seg, ne0) \<Rightarrow>
          let trailing = (lw_bytes w \<noteq> [] \<and>
                (lw_ends_with_line w \<or> lw_covers_log w \<and> seg_start = lw_start w));
              ls = (if trailing then ls0 @ [(seg_start, utf8_lossy seg)] else ls0);
              newest_end = (if trailing then lw_from_byte w else ne0);
              above = newest_end - lw_start w
          in (rev ls, ls \<noteq> [] \<and> \<not> List.member (drop (min above (length (lw_bytes w))) (lw_bytes w)) NL))"

record reverse_read =
  rv_lines :: "(nat \<times> str) list"
  rv_newest_line_returned :: bool
  rv_next_from :: "nat option"

definition rv_default :: reverse_read where
  "rv_default = \<lparr>rv_lines = [], rv_newest_line_returned = False, rv_next_from = None\<rparr>"

definition reverse_window :: "str \<Rightarrow> nat \<Rightarrow> nat \<Rightarrow> log_window" where
  "reverse_window content from_byte0 max_bytes =
     (let size = length content; from_byte = min from_byte0 size; start = from_byte - max max_bytes 1 in
      \<lparr>lw_bytes = take (from_byte - start) (drop start content), lw_start = start, lw_from_byte = from_byte,
       lw_covers_log = (start = 0 \<and> from_byte = size),
       lw_starts_at_line = (start = 0 \<or> content ! (start - 1) = NL),
       lw_ends_with_line = (from_byte < size \<and> content ! from_byte = NL)\<rparr>)"

definition reverse_next :: "log_window \<Rightarrow> nat option" where
  "reverse_next w =
     (if lw_start w = 0 then None
      else if lw_starts_at_line w then Some (lw_start w)
      else let past_line = lw_start w + length (takeWhile (\<lambda>c. c \<noteq> NL) (lw_bytes w)) + 1 in
           Some (if List.member (lw_bytes w) NL \<and> past_line < lw_from_byte w then past_line else lw_start w))"

text \<open>\<open>None\<close> is the IO error of a log that cannot be opened.\<close>

definition read_reverse_lines :: "str option \<Rightarrow> nat \<Rightarrow> nat \<Rightarrow> reverse_read option" where
  "read_reverse_lines log from_byte max_bytes =
     (case log of None \<Rightarrow> None
      | Some content \<Rightarrow>
          if content = [] then Some rv_default
          else let w = reverse_window content from_byte max_bytes in
               Some \<lparr>rv_lines = fst (whole_lines w), rv_newest_line_returned = snd (whole_lines w),
                     rv_next_from = reverse_next w\<rparr>)"

lemma whole_scan_segment:
  "NL \<notin> set t \<Longrightarrow> whole_scan (t @ bs) s0 seg hs ne acc = whole_scan bs s0 (seg @ t) hs ne acc"
  by (induction t arbitrary: seg) auto

lemma whole_scan_lines:
  assumes "\<forall>l\<in>set ls. NL \<notin> set l" "NL \<notin> set t"
  shows "\<exists>out. whole_scan (unlines_nl ls @ t) s0 [] True ne acc =
      (acc @ out, s0 + length (unlines_nl ls), t, if ls = [] then ne else s0 + length (unlines_nl ls)) \<and>
      map snd out = map utf8_lossy ls"
  using assms
proof (induction ls arbitrary: s0 ne acc)
  case Nil
  then show ?case using whole_scan_segment [of t "[]"] by simp
next
  case (Cons l ls)
  have step: "whole_scan (unlines_nl (l # ls) @ t) s0 [] True ne acc =
      whole_scan (unlines_nl ls @ t) (s0 + length l + 1) [] True (s0 + length l + 1) (acc @ [(s0, utf8_lossy l)])"
    using Cons.prems by (simp add: whole_scan_segment)
  obtain out where "whole_scan (unlines_nl ls @ t) (s0 + length l + 1) [] True (s0 + length l + 1)
      (acc @ [(s0, utf8_lossy l)]) =
      ((acc @ [(s0, utf8_lossy l)]) @ out, s0 + length l + 1 + length (unlines_nl ls), t,
       if ls = [] then s0 + length l + 1 else s0 + length l + 1 + length (unlines_nl ls)) \<and>
      map snd out = map utf8_lossy ls"
    using Cons.IH [of "s0 + length l + 1" "s0 + length l + 1" "acc @ [(s0, utf8_lossy l)]"] Cons.prems by auto
  then show ?case unfolding step by (intro exI [of _ "(s0, utf8_lossy l) # out"]) auto
qed

text \<open>A segment whose head is not shown is dropped.\<close>

lemma whole_scan_window:
  assumes "\<forall>l\<in>set ls. NL \<notin> set l" "NL \<notin> set t" "ls \<noteq> []"
  shows "\<exists>out. whole_scan (unlines_nl ls @ t) s0 [] hs ne [] =
      (out, s0 + length (unlines_nl ls), t, if out = [] then ne else s0 + length (unlines_nl ls)) \<and>
      map snd out = map utf8_lossy (if hs then ls else tl ls)"
proof (cases hs)
  case True
  obtain out where out: "whole_scan (unlines_nl ls @ t) s0 [] True ne [] =
      ([] @ out, s0 + length (unlines_nl ls), t, if ls = [] then ne else s0 + length (unlines_nl ls))"
    "map snd out = map utf8_lossy ls"
    using whole_scan_lines [OF assms(1,2), of s0 ne "[]"] by blast
  then have "out \<noteq> []" using assms(3) by auto
  then show ?thesis using out assms(3) True by (intro exI [of _ out]) simp
next
  case False
  obtain l ls' where ls: "ls = l # ls'" using assms(3) by (cases ls) auto
  obtain out where out: "whole_scan (unlines_nl ls' @ t) (s0 + length l + 1) [] True ne [] =
      ([] @ out, s0 + length l + 1 + length (unlines_nl ls'), t,
       if ls' = [] then ne else s0 + length l + 1 + length (unlines_nl ls'))"
    "map snd out = map utf8_lossy ls'"
    using whole_scan_lines [of ls' t "s0 + length l + 1" ne "[]"] assms(1,2) by (auto simp: ls)
  have "out = [] \<longleftrightarrow> ls' = []" using out(2) by (metis map_is_Nil_conv)
  moreover have "whole_scan (unlines_nl ls @ t) s0 [] False ne [] =
      whole_scan (unlines_nl ls' @ t) (s0 + length l + 1) [] True ne []"
    using assms(1) by (simp add: ls whole_scan_segment)
  ultimately show ?thesis using out False by (intro exI [of _ out]) (simp add: ls)
qed

lemma log_lines_suffix:
  assumes "bytes = pre @ unlines_nl (l # ls) @ t" "\<forall>m\<in>set (l # ls). NL \<notin> set m" "NL \<notin> set t"
  shows "\<exists>xs x. log_lines bytes = xs @ (x @ l) # ls \<and> (x = [] \<longleftrightarrow> pre = [] \<or> last pre = NL)"
proof -
  obtain xs x where pre: "pre = unlines_nl xs @ x" "\<forall>m\<in>set xs. NL \<notin> set m" "NL \<notin> set x"
    using lines_exist [of pre] by blast
  have "bytes = unlines_nl (xs @ (x @ l) # ls) @ t" by (simp add: assms(1) pre(1))
  moreover have "\<forall>m\<in>set (xs @ (x @ l) # ls). NL \<notin> set m" using assms(2) pre by auto
  ultimately have "log_lines bytes = xs @ (x @ l) # ls" using log_lines_unlines(1) assms(3) by blast
  moreover have "x = [] \<longleftrightarrow> pre = [] \<or> last pre = NL"
    using pre by (cases xs rule: rev_cases; cases x rule: rev_cases) auto
  ultimately show ?thesis by blast
qed

lemma read_reverse_newest':
  assumes "length bytes \<le> from" and "log_lines bytes \<noteq> []"
  shows "\<exists>r k. read_reverse_lines (Some bytes) from budget = Some r \<and>
     map snd (rv_lines r) = rev (map utf8_lossy (drop k (log_lines bytes))) \<and>
     (rv_newest_line_returned r \<longleftrightarrow> rv_lines r \<noteq> [])"
proof -
  define start where "start = length bytes - max budget 1"
  define W where "W = drop start bytes"
  define hs where "hs = (start = 0 \<or> bytes ! (start - 1) = NL)"
  have ne: "bytes \<noteq> []" using assms(2) by (auto simp: log_lines_def window_lines_no_newline)
  define w where "w = \<lparr>lw_bytes = W, lw_start = start, lw_from_byte = length bytes, lw_covers_log = (start = 0),
      lw_starts_at_line = hs, lw_ends_with_line = False\<rparr>"
  have "reverse_window bytes from budget = w"
    using assms(1) by (simp add: reverse_window_def w_def W_def hs_def start_def min.absorb2 Let_def)
  then have rd: "read_reverse_lines (Some bytes) from budget = Some \<lparr>rv_lines = fst (whole_lines w),
      rv_newest_line_returned = snd (whole_lines w), rv_next_from = reverse_next w\<rparr>"
    using ne by (simp add: read_reverse_lines_def)
  obtain ws t where W: "W = unlines_nl ws @ t" "\<forall>l\<in>set ws. NL \<notin> set l" "NL \<notin> set t"
    using lines_exist [of W] by blast
  have bytes: "bytes = take start bytes @ W" by (simp add: W_def)
  show ?thesis
  proof (cases ws)
    case Nil
    then have "whole_scan W start [] hs start [] = ([], start, t, start)"
      using W whole_scan_segment [of t "[]" start "[]"] by simp
    moreover have "start \<noteq> 0"
    proof
      assume "start = 0"
      then have "NL \<notin> set bytes" using W Nil by (simp add: W_def)
      then show False using assms(2) by (simp add: log_lines_def window_lines_no_newline)
    qed
    ultimately have "whole_lines w = ([], False)" by (simp add: whole_lines_def w_def)
    with rd show ?thesis by (auto intro!: exI [of _ "length (log_lines bytes)"])
  next
    case (Cons l ls)
    obtain out where out: "whole_scan W start [] hs start [] =
        (out, start + length (unlines_nl ws), t, if out = [] then start else start + length (unlines_nl ws))"
      "map snd out = map utf8_lossy (if hs then ws else tl ws)"
      using whole_scan_window [OF W(2,3), of start hs start] Cons W(1) by auto
    obtain xs x where ls: "log_lines bytes = xs @ (x @ l) # ls"
      and x: "x = [] \<longleftrightarrow> take start bytes = [] \<or> last (take start bytes) = NL"
      using log_lines_suffix [of bytes "take start bytes" l ls t] bytes W Cons by auto
    have "start \<le> length bytes" by (simp add: start_def)
    then have "0 < start \<Longrightarrow> last (take start bytes) = bytes ! (start - 1)"
      using ne by (subst last_conv_nth) (auto simp: min.absorb2)
    then have "x = [] \<longleftrightarrow> hs" using x ne by (cases "start = 0") (simp_all add: hs_def)
    then have "(if hs then ws else tl ws) = drop (if hs then length xs else Suc (length xs)) (log_lines bytes)"
      using Cons by (simp add: ls)
    moreover have "whole_lines w = (rev out, out \<noteq> [])"
      using W out(1) Cons by (auto simp: whole_lines_def w_def Let_def)
    ultimately show ?thesis using rd out(2)
      by (auto simp: rev_map [symmetric] intro!: exI [of _ "if hs then length xs else Suc (length xs)"])
  qed
qed

text \<open>The newest lines read backwards are the log's own: from the end of a log that holds a whole line, the
  batch is the last lines of the log, newest first, however many fit the budget, with nothing skipped
  between them and the end; and it reports the newest line as returned exactly when it holds a line. A
  torn tail after the last terminator changes nothing.\<close>

lemma read_reverse_newest:
  assumes "length bytes \<le> from" and "log_lines bytes \<noteq> []"
  shows "\<exists>r k. read_reverse_lines (Some bytes) from budget = Some r \<and>
     map snd (rv_lines r) = rev (map utf8_lossy (drop k (log_lines bytes))) \<and>
     (rv_newest_line_returned r \<longleftrightarrow> rv_lines r \<noteq> [])"
  by (rule read_reverse_newest' [OF assms])

subsection \<open>Witnesses\<close>


end
