(* ===== verification/Chain.thy ===== *)
theory Chain
  imports Log_File
begin

text \<open>
  The durable log's integrity (\<open>houyicoder-session\<close>: \<open>chain.rs\<close>, \<open>read_window\<close> of \<open>log_windows.rs\<close> and the
  durable append of \<open>lib.rs\<close>; \<open>append_sync\<close>, \<open>read_log\<close> and the cold scan of \<open>houyicoder-memory\<close>). The state is
  one session's: its log file, the ids the file backend has seen and the hash the chain holds; the maps
  of the code are keyed by session and the operations touch one key.

  The JSON codec (\<open>serde_json\<close>) and the digest (\<open>sha2\<close>) are third-party code: they are the record \<open>codec\<close>,
  and what the code relies on of them is the predicate \<open>codec_ok\<close>.
\<close>

subsection \<open>Records and their codec\<close>

record 'ev log_entry =
  le_id :: str
  le_session :: str
  le_ts :: nat
  le_prev_hash :: "str option"
  le_event :: 'ev

record 'ev codec =
  cd_ser :: "'ev log_entry \<Rightarrow> str option"
  cd_parse :: "str \<Rightarrow> 'ev log_entry option"
  cd_digest :: "str \<Rightarrow> str"
  cd_is_delta :: "'ev \<Rightarrow> bool"

text \<open>A record is written as one line of valid text, and reading the line gives the record back.\<close>

definition codec_ok :: "'ev codec \<Rightarrow> bool" where
  "codec_ok cd =
     (\<forall>e l. cd_ser cd e = Some l \<longrightarrow>
        cd_parse cd l = Some e \<and> l \<noteq> [] \<and> NL \<notin> set l \<and> CR \<notin> set l \<and> utf8_valid l)"

datatype context_error = CE_Io | CE_NotFound | CE_Corrupt str | CE_Unsupported

datatype chain_verdict = Verified | Unverified nat str

definition hash_event :: "'ev codec \<Rightarrow> 'ev log_entry \<Rightarrow> context_error + str" where
  "hash_event cd e =
     (case cd_ser cd e of None \<Rightarrow> Inl (CE_Corrupt ''event failed to serialize'')
      | Some bytes \<Rightarrow> Inr (cd_digest cd bytes))"

definition hash_line_bytes :: "'ev codec \<Rightarrow> str \<Rightarrow> str" where
  "hash_line_bytes cd bytes = cd_digest cd bytes"

subsection \<open>Reading a window\<close>

partial_function (option) read_window :: "(nat \<Rightarrow> nat \<Rightarrow> range_read) \<Rightarrow> nat \<Rightarrow> nat \<Rightarrow> range_read option" where
  "read_window rd offset want =
     (let window = rd offset want in
      if rr_lines window \<noteq> [] \<or> rr_bytes_total window \<le> rr_next_offset window \<or> MAX_WINDOW_BYTES \<le> want
      then Some window
      else read_window rd offset (min (want * 2) MAX_WINDOW_BYTES))"

lemma read_window_total:
  assumes "0 < want"
  shows "\<exists>w>0. read_window rd offset want = Some (rd offset w) \<and>
     (rr_lines (rd offset w) \<noteq> [] \<or> rr_bytes_total (rd offset w) \<le> rr_next_offset (rd offset w) \<or>
      MAX_WINDOW_BYTES \<le> w)"
  using assms
proof (induction "MAX_WINDOW_BYTES - want" arbitrary: want rule: less_induct)
  case less
  let ?stop = "rr_lines (rd offset want) \<noteq> [] \<or>
      rr_bytes_total (rd offset want) \<le> rr_next_offset (rd offset want) \<or> MAX_WINDOW_BYTES \<le> want"
  show ?case
  proof (cases ?stop)
    case True
    then have "read_window rd offset want = Some (rd offset want)"
      by (subst read_window.simps) (simp add: Let_def)
    with True less.prems show ?thesis by blast
  next
    case False
    then have "read_window rd offset want = read_window rd offset (min (want * 2) MAX_WINDOW_BYTES)"
      by (subst read_window.simps) (simp add: Let_def)
    moreover have "MAX_WINDOW_BYTES - min (want * 2) MAX_WINDOW_BYTES < MAX_WINDOW_BYTES - want"
      "0 < min (want * 2) MAX_WINDOW_BYTES"
      using False less.prems by (auto simp: MAX_WINDOW_BYTES_def)
    ultimately show ?thesis using less.hyps by metis
  qed
qed

subsection \<open>Verifying a log\<close>

text \<open>The loop over the lines of one window: the verdict of a broken link, or the hash and the index the
  next window continues from.\<close>

fun verify_lines :: "'ev codec \<Rightarrow> str option \<Rightarrow> nat \<Rightarrow> str list \<Rightarrow> chain_verdict + str option \<times> nat" where
  "verify_lines cd prev index [] = Inr (prev, index)"
| "verify_lines cd prev index (l # ls) =
     (case cd_parse cd l of
        None \<Rightarrow> Inl (Unverified index ''line failed to parse'')
      | Some e \<Rightarrow>
          if le_prev_hash e \<noteq> prev
          then Inl (Unverified index ''prev_hash does not chain to the previous line's bytes'')
          else verify_lines cd (Some (hash_line_bytes cd l)) (Suc index) ls)"

definition VERIFY_WINDOW_BYTES :: nat where
  "VERIFY_WINDOW_BYTES = 64000"

partial_function (option) verify_loop ::
  "(nat \<Rightarrow> nat \<Rightarrow> range_read) \<Rightarrow> 'ev codec \<Rightarrow> nat \<Rightarrow> str option \<Rightarrow> nat \<Rightarrow> nat \<Rightarrow> chain_verdict option" where
  "verify_loop rd cd held prev index offset =
     (case read_window rd offset VERIFY_WINDOW_BYTES of None \<Rightarrow> None
      | Some read \<Rightarrow>
          if rr_bytes_total read = 0 \<and> 0 < held then Some (Unverified index ''the log could not be read'')
          else if 0 < unread_records read
          then Some (Unverified index ''a record wider than any read window could not be hashed'')
          else (case verify_lines cd prev index (map snd (rr_lines read)) of
                  Inl v \<Rightarrow> Some v
                | Inr p \<Rightarrow>
                    if rr_next_offset read \<le> offset then Some Verified
                    else verify_loop rd cd held (fst p) (snd p) (rr_next_offset read)))"

definition verify_disk ::
  "bool \<Rightarrow> (nat \<Rightarrow> nat \<Rightarrow> range_read) \<Rightarrow> nat \<Rightarrow> 'ev codec \<Rightarrow> chain_verdict option" where
  "verify_disk supports_log_windows rd held cd =
     (if \<not> supports_log_windows
      then Some (Unverified 0 ''the backend has no log readable a line at a time'')
      else verify_loop rd cd held None 0 0)"

fun verify_source_loop :: "'ev codec \<Rightarrow> str option \<Rightarrow> nat \<Rightarrow> 'ev log_entry list \<Rightarrow> chain_verdict" where
  "verify_source_loop cd prev index [] = Verified"
| "verify_source_loop cd prev index (e # es) =
     (case cd_ser cd e of
        None \<Rightarrow> Unverified index ''event failed to serialize''
      | Some bytes \<Rightarrow>
          if le_prev_hash e \<noteq> prev then Unverified index ''prev_hash does not chain to the previous event''
          else verify_source_loop cd (Some (hash_line_bytes cd bytes)) (Suc index) es)"

definition verify_source :: "'ev codec \<Rightarrow> 'ev log_entry list \<Rightarrow> chain_verdict" where
  "verify_source cd es = verify_source_loop cd None 0 es"

text \<open>The reference: the verdict on a list of line texts.\<close>

definition chain_verdict_of :: "'ev codec \<Rightarrow> str option \<Rightarrow> nat \<Rightarrow> str list \<Rightarrow> chain_verdict" where
  "chain_verdict_of cd prev index ls =
     (case verify_lines cd prev index ls of Inl v \<Rightarrow> v | Inr _ \<Rightarrow> Verified)"

lemma verify_lines_append:
  "verify_lines cd prev index (ls @ ms) =
     (case verify_lines cd prev index ls of Inl v \<Rightarrow> Inl v | Inr p \<Rightarrow> verify_lines cd (fst p) (snd p) ms)"
  by (induction ls arbitrary: prev index) (auto split: option.splits)

lemma line_pos_simps:
  "line_pos ls (length ls) = length (unlines_nl ls)"
  "i < length ls \<Longrightarrow> line_pos ls (Suc i) = line_pos ls i + length (ls ! i) + 1"
  by (simp_all add: line_pos_def take_Suc_conv_app_nth)

lemma line_pos_mono: "i \<le> k \<Longrightarrow> line_pos ls i \<le> line_pos ls k"
  using line_pos_add [of ls i "k - i"] by simp

lemma fits_pos: "i < length ls \<Longrightarrow> 0 < fits w (drop i ls) \<longleftrightarrow> length (ls ! i) < w"
  by (simp add: Cons_nth_drop_Suc [symmetric])

context log_source
begin

lemma window_at_line:
  assumes "i < length ls" "length (ls ! i) < MAX_WINDOW_BYTES" "0 < want"
  shows "\<exists>r j. 0 < j \<and> i + j \<le> length ls \<and> read_window rd (line_pos ls i) want = Some r \<and>
     map snd (rr_lines r) = map utf8_lossy (take j (drop i ls)) \<and>
     map fst (rr_lines r) = map (\<lambda>k. line_pos ls (i + k)) [0..<j] \<and> unread_records r = 0 \<and>
     rr_bytes_total r = length (unlines_nl ls @ t) \<and> rr_next_offset r = line_pos ls (i + j)"
proof -
  let ?off = "line_pos ls i" and ?total = "length (unlines_nl ls @ t)"
  obtain w where w: "0 < w" "read_window rd ?off want = Some (rd ?off w)"
    "rr_lines (rd ?off w) \<noteq> [] \<or> rr_bytes_total (rd ?off w) \<le> rr_next_offset (rd ?off w) \<or> MAX_WINDOW_BYTES \<le> w"
    using read_window_total [OF assms(3)] by blast
  have fit: "?off + length (ls ! i) + 1 \<le> ?total"
    using line_pos_simps(2) [OF assms(1)] line_pos_mono [of "Suc i" "length ls" ls] assms(1)
    by (simp add: line_pos_simps(1))
  let ?j = "fits (min w MAX_WINDOW_BYTES) (drop i ls)"
  have at: "map snd (rr_lines (rd ?off w)) = map utf8_lossy (take ?j (drop i ls))"
    "map fst (rr_lines (rd ?off w)) = map (\<lambda>k. line_pos ls (i + k)) [0..<?j]"
    "unread_records (rd ?off w) = 0" "rr_bytes_total (rd ?off w) = ?total"
    "rr_next_offset (rd ?off w) =
      (if ?j = 0 then ?off + min (min w MAX_WINDOW_BYTES) (?total - ?off) else line_pos ls (i + ?j))"
    using at_line [of i w] assms(1) fit w(1) by (simp_all add: Let_def)
  have "?j \<noteq> 0"
  proof
    assume 0: "?j = 0"
    then have "rr_lines (rd ?off w) = []" using at(1) by simp
    then have "min w MAX_WINDOW_BYTES = MAX_WINDOW_BYTES \<or> ?total \<le> ?off + min (min w MAX_WINDOW_BYTES) (?total - ?off)"
      using w(3) at(4,5) 0 by auto
    then have "length (ls ! i) < min w MAX_WINDOW_BYTES" using fit assms(2) by auto
    then show False using fits_pos [OF assms(1), of "min w MAX_WINDOW_BYTES"] 0 by simp
  qed
  then show ?thesis using w(2) at fits_le [of "min w MAX_WINDOW_BYTES" "drop i ls"] assms(1)
    by (intro exI [of _ "rd ?off w"] exI [of _ ?j]) auto
qed

lemma verify_tail:
  assumes "line_pos ls (length ls) < off" "off \<le> length (unlines_nl ls @ t)"
    and "held = length (unlines_nl ls @ t)"
  shows "verify_loop rd cd held prev index off = Some Verified"
  using assms(1,2)
proof (induction "length (unlines_nl ls @ t) - off" arbitrary: off rule: less_induct)
  case less
  have "0 < VERIFY_WINDOW_BYTES" by (simp add: VERIFY_WINDOW_BYTES_def)
  from read_window_total [OF this, of rd off] obtain w where
    w: "0 < w" "read_window rd off VERIFY_WINDOW_BYTES = Some (rd off w)" by blast
  show ?case
  proof (cases "off < length (unlines_nl ls @ t)")
    case True
    have r: "rr_lines (rd off w) = []" "unread_records (rd off w) = 0"
      "rr_bytes_total (rd off w) = length (unlines_nl ls @ t)" "off < rr_next_offset (rd off w)"
      "rr_next_offset (rd off w) \<le> length (unlines_nl ls @ t)"
      using in_tail [OF less.prems(1) True w(1)] by simp_all
    then have "verify_loop rd cd held prev index (rr_next_offset (rd off w)) = Some Verified"
      using less.hyps [of "rr_next_offset (rd off w)"] less.prems True by simp
    then show ?thesis using r True w(2) by (subst verify_loop.simps) auto
  next
    case False
    then have "rd off w = rr_default\<lparr>rr_bytes_total := length (unlines_nl ls @ t)\<rparr>" by (intro past_end) simp
    then show ?thesis using w(2) less.prems
      by (subst verify_loop.simps) (auto simp: rr_default_def unread_records_def assms(3))
  qed
qed

lemma verify_from:
  assumes "\<forall>l\<in>set ls. length l < MAX_WINDOW_BYTES" "held = length (unlines_nl ls @ t)" "i \<le> length ls"
  shows "verify_loop rd cd held prev index (line_pos ls i) =
     Some (chain_verdict_of cd prev index (map utf8_lossy (drop i ls)))"
  using assms(3)
proof (induction "length ls - i" arbitrary: i prev index rule: less_induct)
  case less
  let ?off = "line_pos ls i" and ?total = "length (unlines_nl ls @ t)"
  have pos: "0 < VERIFY_WINDOW_BYTES" by (simp add: VERIFY_WINDOW_BYTES_def)
  show ?case
  proof (cases "i < length ls")
    case True
    then have "length (ls ! i) < MAX_WINDOW_BYTES" using assms(1) by simp
    from window_at_line [OF True this pos] obtain r j where
      r: "0 < j" "i + j \<le> length ls" "read_window rd ?off VERIFY_WINDOW_BYTES = Some r"
      "map snd (rr_lines r) = map utf8_lossy (take j (drop i ls))" "unread_records r = 0"
      "rr_bytes_total r = ?total" "rr_next_offset r = line_pos ls (i + j)" by blast
    have "line_pos ls (Suc i) \<le> line_pos ls (i + j)" using r(1) by (intro line_pos_mono) simp
    then have adv: "?off < rr_next_offset r" using line_pos_simps(2) [OF True] r(7) by simp
    have split: "map utf8_lossy (drop i ls) =
        map utf8_lossy (take j (drop i ls)) @ map utf8_lossy (drop (i + j) ls)"
      by (metis append_take_drop_id drop_drop add.commute map_append)
    have ih: "\<And>prev index. verify_loop rd cd held prev index (line_pos ls (i + j)) =
        Some (chain_verdict_of cd prev index (map utf8_lossy (drop (i + j) ls)))"
      using less.hyps [of "i + j"] r(1,2) True by auto
    show ?thesis
      using r adv ih assms(2) by (subst verify_loop.simps)
        (auto simp: chain_verdict_of_def split verify_lines_append split: sum.splits)
  next
    case False
    then have i: "i = length ls" using less.prems by simp
    obtain w where w: "0 < w" "read_window rd ?off VERIFY_WINDOW_BYTES = Some (rd ?off w)"
      using read_window_total [OF pos] by blast
    show ?thesis
    proof (cases "?off < ?total")
      case True
      have nx: "rr_lines (rd ?off w) = []" "unread_records (rd ?off w) = 0" "rr_bytes_total (rd ?off w) = ?total"
        "rr_next_offset (rd ?off w) = ?off + min (min w MAX_WINDOW_BYTES) (?total - ?off)"
        using at_line [of i w] True w(1) i by (simp_all add: Let_def)
      have gt: "?off < rr_next_offset (rd ?off w)" using nx(4) True w(1) by (auto simp: MAX_WINDOW_BYTES_def)
      have "verify_loop rd cd held prev index (rr_next_offset (rd ?off w)) = Some Verified"
        using gt nx(4) True assms(2) by (intro verify_tail) (auto simp: i)
      then show ?thesis using w(2) nx(1-3) gt True i
        by (subst verify_loop.simps) (auto simp: chain_verdict_of_def)
    next
      case False
      then have "rd ?off w = rr_default\<lparr>rr_bytes_total := ?total\<rparr>" by (intro past_end) simp
      then show ?thesis using w(2) i
        by (subst verify_loop.simps)
          (auto simp: rr_default_def unread_records_def chain_verdict_of_def assms(2))
    qed
  qed
qed

end

lemma verify_windows:
  assumes "\<forall>l\<in>set (log_lines bytes). length l < MAX_WINDOW_BYTES"
  shows "verify_disk True (read_byte_range (Some bytes)) (length bytes) cd =
     Some (chain_verdict_of cd None 0 (map utf8_lossy (log_lines bytes)))"
  using disk.verify_from [OF assms _ le0, of "length bytes" cd None 0] log_content(1) [of bytes]
  by (simp add: verify_disk_def line_pos_def)

text \<open>C5. Verifying a log window by window decides exactly what checking the whole list of its lines decides:
  the verifier ends on every log whose lines fit a read window, whatever follows the last terminator,
  and its verdict, with the index and the reason, is the one of the line list.\<close>

theorem verify_disk_correct:
  assumes "\<forall>l\<in>set (log_lines bytes). length l < MAX_WINDOW_BYTES"
  shows "verify_disk True (read_byte_range (Some bytes)) (length bytes) cd =
     Some (chain_verdict_of cd None 0 (map utf8_lossy (log_lines bytes)))"
  by (rule verify_windows [OF assms])

lemma verify_lines_Inl: "verify_lines cd prev i ls = Inl v \<Longrightarrow> v \<noteq> Verified"
  by (induction ls arbitrary: prev i) (auto split: option.splits if_splits)

lemma chain_verdict_Verified:
  "chain_verdict_of cd prev i ls = Verified \<longleftrightarrow> (\<exists>p. verify_lines cd prev i ls = Inr p)"
  using verify_lines_Inl [of cd prev i ls] by (auto simp: chain_verdict_of_def split: sum.splits)

text \<open>Tampering is seen: if a log verifies, then replacing one line by bytes with another digest breaks the
  link of the line after it, and the verifier no longer accepts.\<close>

lemma tamper_detected:
  assumes "chain_verdict_of cd None 0 (before @ l # m # after) = Verified"
    and "hash_line_bytes cd l' \<noteq> hash_line_bytes cd l"
  shows "chain_verdict_of cd None 0 (before @ l' # m # after) \<noteq> Verified"
proof -
  have "verify_lines cd None 0 before \<noteq> Inl v" for v
    using assms(1) verify_lines_Inl [of cd None 0 before v]
    by (auto simp: chain_verdict_of_def verify_lines_append)
  then obtain p where p: "verify_lines cd None 0 before = Inr p" by (cases "verify_lines cd None 0 before") auto
  show ?thesis
    using assms by (auto simp: chain_verdict_of_def verify_lines_append p split: option.splits if_splits)
qed

text \<open>The import check and the disk check agree: an event list verifies exactly when the lines the records
  serialise to do.\<close>

lemma verify_source_agrees:
  assumes "codec_ok cd" and "map (cd_ser cd) es = map Some ls"
  shows "verify_source cd es = Verified \<longleftrightarrow> chain_verdict_of cd None 0 ls = Verified"
proof -
  have "verify_source_loop cd prev i es = Verified \<longleftrightarrow> chain_verdict_of cd prev i ls = Verified" for prev i
    using assms(2)
  proof (induction es arbitrary: ls prev i)
    case (Cons e es)
    then obtain l ls' where ls: "ls = l # ls'" "cd_ser cd e = Some l" "map (cd_ser cd) es = map Some ls'" by auto
    then have "cd_parse cd l = Some e" using assms(1) by (simp add: codec_ok_def)
    then show ?case using Cons.IH [OF ls(3)] ls by (simp add: chain_verdict_of_def)
  qed (simp add: chain_verdict_of_def)
  then show ?thesis by (simp add: verify_source_def)
qed

subsection \<open>The file backend's records\<close>

record session_file =
  sf_log :: "str option"
  sf_seen :: "str set option"

text \<open>What the file system does to one append: it succeeds, refuses the directory or the file, or fails after
  leaving some bytes behind.\<close>

datatype append_io = IO_Ok | IO_NoDir | IO_NoOpen | IO_Torn nat

definition log_bytes :: "session_file \<Rightarrow> str" where
  "log_bytes f = (case sf_log f of None \<Rightarrow> [] | Some b \<Rightarrow> b)"

text \<open>The ids of the cold scan: every stretch between terminators that parses, the last one included.\<close>

definition cold_scan :: "'ev codec \<Rightarrow> str \<Rightarrow> str set" where
  "cold_scan cd bytes =
     set (map le_id (List.map_filter (cd_parse cd) (filter (\<lambda>l. l \<noteq> []) (log_lines bytes @ [log_tail bytes]))))"

definition append_sync ::
  "'ev codec \<Rightarrow> append_io \<Rightarrow> session_file \<Rightarrow> 'ev log_entry \<Rightarrow> (context_error + str) \<times> session_file" where
  "append_sync cd io f e =
     (if io = IO_NoDir then (Inl CE_Io, f)
      else
        let seen = (case sf_seen f of Some s \<Rightarrow> s | None \<Rightarrow> cold_scan cd (log_bytes f));
            f' = f\<lparr>sf_seen := Some seen\<rparr>
        in if le_id e \<in> seen then (Inr (le_id e), f')
           else (case cd_ser cd e of
                   None \<Rightarrow> (Inl (CE_Corrupt ''event failed to serialize''), f')
                 | Some json \<Rightarrow>
                     (case io of
                        IO_Ok \<Rightarrow> (Inr (le_id e),
                          f'\<lparr>sf_log := Some (log_bytes f @ json @ [NL]), sf_seen := Some (insert (le_id e) seen)\<rparr>)
                      | IO_Torn k \<Rightarrow> (Inl CE_Io, f'\<lparr>sf_log := Some (log_bytes f @ take k (json @ [NL]))\<rparr>)
                      | _ \<Rightarrow> (Inl CE_Io, f'))))"

fun parse_all :: "'ev codec \<Rightarrow> str list \<Rightarrow> context_error + 'ev log_entry list" where
  "parse_all cd [] = Inr []"
| "parse_all cd (l # ls) =
     (if l = [] then parse_all cd ls
      else (case cd_parse cd l of
              None \<Rightarrow> Inl (CE_Corrupt ''bad event line'')
            | Some e \<Rightarrow> (case parse_all cd ls of Inl err \<Rightarrow> Inl err | Inr es \<Rightarrow> Inr (e # es))))"

definition read_log :: "'ev codec \<Rightarrow> session_file \<Rightarrow> context_error + 'ev log_entry list" where
  "read_log cd f =
     (case sf_log f of None \<Rightarrow> Inr []
      | Some content \<Rightarrow> if \<not> utf8_valid content then Inl CE_Io else parse_all cd (str_lines content))"

subsection \<open>The durable append\<close>

record session_store =
  ss_file :: session_file
  ss_last_hash :: "str option"

definition COLD_REVERSE_BYTES :: nat where
  "COLD_REVERSE_BYTES = 1048576"

definition chain_link :: "'ev codec \<Rightarrow> session_store \<Rightarrow> (context_error + str option) \<times> session_store" where
  "chain_link cd s =
     (case ss_last_hash s of
        Some h \<Rightarrow> (Inr (Some h), s)
      | None \<Rightarrow>
          let read = (case read_reverse_lines (sf_log (ss_file s)) (2 ^ 64 - 1) COLD_REVERSE_BYTES of
                        Some r \<Rightarrow> r | None \<Rightarrow> rv_default)
          in if rv_newest_line_returned read \<and> rv_lines read \<noteq> []
             then let h = hash_line_bytes cd (snd (hd (rv_lines read))) in
                  (Inr (Some h), s\<lparr>ss_last_hash := Some h\<rparr>)
             else (case read_log cd (ss_file s) of
                     Inl e \<Rightarrow> (Inl e, s)
                   | Inr es \<Rightarrow>
                       if es = [] then (Inr None, s)
                       else (case hash_event cd (last es) of
                               Inl e \<Rightarrow> (Inl e, s)
                             | Inr h \<Rightarrow> (Inr (Some h), s\<lparr>ss_last_hash := Some h\<rparr>))))"

definition append_locked ::
  "'ev codec \<Rightarrow> append_io \<Rightarrow> session_store \<Rightarrow> 'ev log_entry \<Rightarrow> (context_error + str) \<times> session_store" where
  "append_locked cd io s event =
     (if cd_is_delta cd (le_event event) then (Inr (le_id event), s)
      else (case chain_link cd s of
              (Inl e, s1) \<Rightarrow> (Inl e, s1)
            | (Inr prev_hash, s1) \<Rightarrow>
                let ev = event\<lparr>le_prev_hash := prev_hash\<rparr> in
                (case hash_event cd ev of
                   Inl e \<Rightarrow> (Inl e, s1)
                 | Inr new_hash \<Rightarrow>
                     (case append_sync cd io (ss_file s1) ev of
                        (Inl e, f) \<Rightarrow> (Inl e, s1\<lparr>ss_file := f\<rparr>)
                      | (Inr i, f) \<Rightarrow> (Inr i, s1\<lparr>ss_file := f, ss_last_hash := Some new_hash\<rparr>)))))"

definition verify_disk_chain :: "'ev codec \<Rightarrow> session_store \<Rightarrow> chain_verdict option" where
  "verify_disk_chain cd s =
     verify_disk True (read_byte_range (sf_log (ss_file s))) (length (log_bytes (ss_file s))) cd"

text \<open>A healthy session: its log is lines the codec wrote, linked from the first; the held hash, if any, is
  the one of the newest line; the ids seen, if any were, are the ones of the log.\<close>

definition written :: "'ev codec \<Rightarrow> 'ev log_entry list \<Rightarrow> str list \<Rightarrow> bool" where
  "written cd es ls = (map (cd_ser cd) es = map Some ls)"

definition session_ok :: "'ev codec \<Rightarrow> session_store \<Rightarrow> 'ev log_entry list \<Rightarrow> str list \<Rightarrow> bool" where
  "session_ok cd s es ls =
     (written cd es ls \<and> log_bytes (ss_file s) = unlines_nl ls \<and>
      chain_verdict_of cd None 0 ls = Verified \<and>
      (ss_last_hash s = None \<or> ls \<noteq> [] \<and> ss_last_hash s = Some (hash_line_bytes cd (last ls))) \<and>
      (sf_seen (ss_file s) = None \<or> sf_seen (ss_file s) = Some (set (map le_id es))))"

subsection \<open>Appending keeps the chain\<close>

lemma written_line:
  assumes "codec_ok cd" "written cd es ls"
  shows "\<forall>l\<in>set ls. l \<noteq> [] \<and> NL \<notin> set l \<and> CR \<notin> set l \<and> utf8_valid l"
proof
  fix l assume "l \<in> set ls"
  then have "Some l \<in> set (map (cd_ser cd) es)" using assms(2) by (simp add: written_def)
  then obtain e where "cd_ser cd e = Some l" by auto
  then show "l \<noteq> [] \<and> NL \<notin> set l \<and> CR \<notin> set l \<and> utf8_valid l" using assms(1) by (simp add: codec_ok_def)
qed

lemma written_parse:
  assumes "codec_ok cd" "written cd es ls"
  shows "map (cd_parse cd) ls = map Some es" "parse_all cd ls = Inr es"
proof -
  have "map (cd_parse cd) ls = map Some es \<and> parse_all cd ls = Inr es"
    using assms(2)
  proof (induction es arbitrary: ls)
    case (Cons e es)
    then obtain l ls' where ls: "ls = l # ls'" "cd_ser cd e = Some l" "written cd es ls'"
      by (auto simp: written_def)
    then have "cd_parse cd l = Some e" "l \<noteq> []" using assms(1) by (auto simp: codec_ok_def)
    then show ?case using Cons.IH [OF ls(3)] ls by simp
  qed (simp add: written_def)
  then show "map (cd_parse cd) ls = map Some es" "parse_all cd ls = Inr es" by simp_all
qed

lemma written_log:
  assumes "codec_ok cd" "written cd es ls"
  shows "log_lines (unlines_nl ls) = ls" "log_tail (unlines_nl ls) = []" "utf8_valid (unlines_nl ls)"
    "str_lines (unlines_nl ls) = ls" "map utf8_lossy ls = ls"
  using written_line [OF assms] log_lines_unlines [of ls "[]"]
  by (simp_all add: str_lines_unlines utf8_valid_lines list_all_iff utf8_lossy_valid map_idI)

lemma written_snoc: "written cd es ls \<Longrightarrow> cd_ser cd e = Some l \<Longrightarrow> written cd (es @ [e]) (ls @ [l])"
  by (simp add: written_def)

lemma written_last: "written cd es ls \<Longrightarrow> ls \<noteq> [] \<Longrightarrow> es \<noteq> [] \<and> cd_ser cd (last es) = Some (last ls)"
  by (auto simp: written_def) (metis last_map map_is_Nil_conv)

lemma map_filter_Some: "map f xs = map Some ys \<Longrightarrow> List.map_filter f xs = ys"
  by (induction xs arbitrary: ys) (auto simp: List.map_filter_def)

lemma cold_scan_written:
  assumes "codec_ok cd" "written cd es ls"
  shows "cold_scan cd (unlines_nl ls) = set (map le_id es)"
proof -
  have "filter (\<lambda>l. l \<noteq> []) ls = ls" using written_line [OF assms] by simp
  moreover have "List.map_filter (cd_parse cd) ls = es"
    using written_parse(1) [OF assms] by (rule map_filter_Some)
  ultimately show ?thesis using written_log [OF assms] by (simp add: cold_scan_def)
qed

lemma verify_lines_prev:
  "verify_lines cd prev i ls = Inr p \<Longrightarrow>
     fst p = (if ls = [] then prev else Some (hash_line_bytes cd (last ls)))"
  by (induction ls arbitrary: prev i) (auto split: option.splits if_splits)

lemma chain_link_ok:
  assumes "codec_ok cd" "session_ok cd s es ls" "length (unlines_nl ls) < 2 ^ 64"
  shows "\<exists>s'. chain_link cd s = (Inr (if ls = [] then None else Some (hash_line_bytes cd (last ls))), s') \<and>
     ss_file s' = ss_file s"
proof (cases "ss_last_hash s")
  case (Some h)
  then show ?thesis using assms(2) by (auto simp: chain_link_def session_ok_def)
next
  case None
  have w: "written cd es ls" and log: "log_bytes (ss_file s) = unlines_nl ls"
    using assms(2) by (simp_all add: session_ok_def)
  note lines = written_log [OF assms(1) w]
  have rl: "sf_log (ss_file s) = Some (unlines_nl ls) \<Longrightarrow> read_log cd (ss_file s) = Inr es"
    using lines written_parse [OF assms(1) w] by (simp add: read_log_def)
  show ?thesis
  proof (cases "ls = []")
    case True
    then have "es = []" using w by (simp add: written_def)
    moreover have "sf_log (ss_file s) = None \<or> sf_log (ss_file s) = Some []"
      using log True by (auto simp: log_bytes_def split: option.splits)
    ultimately show ?thesis
      using None True rl by (auto simp: chain_link_def read_reverse_lines_def read_log_def rv_default_def)
  next
    case False
    then have sf: "sf_log (ss_file s) = Some (unlines_nl ls)"
      using log written_line [OF assms(1) w] by (cases ls) (auto simp: log_bytes_def split: option.splits)
    have "length (unlines_nl ls) \<le> 2 ^ 64 - 1" using assms(3) by simp
    from read_reverse_newest' [OF this, of COLD_REVERSE_BYTES] False obtain r k where
      r: "read_reverse_lines (Some (unlines_nl ls)) (2 ^ 64 - 1) COLD_REVERSE_BYTES = Some r"
      "map snd (rv_lines r) = rev (drop k ls)" "rv_newest_line_returned r \<longleftrightarrow> rv_lines r \<noteq> []"
      using lines by (auto simp: drop_map [symmetric])
    show ?thesis
    proof (cases "rv_lines r = []")
      case True
      obtain "es \<noteq> []" "cd_ser cd (last es) = Some (last ls)" using written_last [OF w False] by blast
      then show ?thesis
        using True None False sf r rl by (simp add: chain_link_def hash_event_def hash_line_bytes_def)
    next
      case False
      then have "snd (hd (rv_lines r)) = hd (rev (drop k ls))" using r(2) by (metis hd_map)
      also have "\<dots> = last ls"
      proof -
        have "drop k ls \<noteq> []" using False r(2) by auto
        then show ?thesis by (simp add: hd_rev last_drop)
      qed
      finally show ?thesis using False None sf r \<open>ls \<noteq> []\<close> by (simp add: chain_link_def Let_def)
    qed
  qed
qed

lemma append_sync_ok:
  assumes "codec_ok cd" "written cd es ls" "log_bytes f = unlines_nl ls"
    and "sf_seen f = None \<or> sf_seen f = Some (set (map le_id es))"
    and "le_id e \<notin> set (map le_id es)" "cd_ser cd e = Some l"
  shows "append_sync cd IO_Ok f e = (Inr (le_id e),
     f\<lparr>sf_log := Some (unlines_nl (ls @ [l])), sf_seen := Some (set (map le_id (es @ [e])))\<rparr>)"
proof -
  have "(case sf_seen f of Some s \<Rightarrow> s | None \<Rightarrow> cold_scan cd (log_bytes f)) = set (map le_id es)"
    using assms(3,4) cold_scan_written [OF assms(1,2)] by auto
  then show ?thesis using assms(5,6) by (simp add: append_sync_def assms(3))
qed

lemma append_locked_ok:
  assumes "codec_ok cd" "session_ok cd s es ls" "length (unlines_nl ls) < 2 ^ 64"
    and "\<not> cd_is_delta cd (le_event event)" "le_id event \<notin> set (map le_id es)"
    and "prev = (if ls = [] then None else Some (hash_line_bytes cd (last ls)))"
    and "cd_ser cd (event\<lparr>le_prev_hash := prev\<rparr>) = Some l"
  shows "\<exists>s'. append_locked cd IO_Ok s event = (Inr (le_id event), s') \<and>
     session_ok cd s' (es @ [event\<lparr>le_prev_hash := prev\<rparr>]) (ls @ [l])"
proof -
  let ?e = "event\<lparr>le_prev_hash := prev\<rparr>"
  obtain s1 where s1: "chain_link cd s = (Inr prev, s1)" "ss_file s1 = ss_file s"
    using chain_link_ok [OF assms(1-3)] assms(6) by blast
  have ok: "written cd es ls" "log_bytes (ss_file s) = unlines_nl ls" "chain_verdict_of cd None 0 ls = Verified"
    "sf_seen (ss_file s) = None \<or> sf_seen (ss_file s) = Some (set (map le_id es))"
    using assms(2) by (simp_all add: session_ok_def)
  obtain p where p: "verify_lines cd None 0 ls = Inr p" using ok(3) chain_verdict_Verified by blast
  have "cd_parse cd l = Some ?e" using assms(1,7) by (simp add: codec_ok_def)
  then have "verify_lines cd None 0 (ls @ [l]) = Inr (Some (hash_line_bytes cd l), Suc (snd p))"
    using p verify_lines_prev [OF p] assms(6) by (simp add: verify_lines_append)
  then have v: "chain_verdict_of cd None 0 (ls @ [l]) = Verified" by (simp add: chain_verdict_of_def)
  have "append_locked cd IO_Ok s event = (Inr (le_id event), s1\<lparr>ss_file := (ss_file s)\<lparr>
      sf_log := Some (unlines_nl (ls @ [l])), sf_seen := Some (set (map le_id (es @ [?e])))\<rparr>,
      ss_last_hash := Some (cd_digest cd l)\<rparr>)"
    using append_sync_ok [OF assms(1) ok(1,2,4), of ?e l] assms(4,5,7) s1
    by (simp add: append_locked_def Let_def hash_event_def)
  moreover have "written cd (es @ [?e]) (ls @ [l])" by (rule written_snoc [OF ok(1) assms(7)])
  ultimately show ?thesis using v by (simp add: session_ok_def log_bytes_def hash_line_bytes_def)
qed

lemma session_ok_verifies:
  assumes "codec_ok cd" "session_ok cd s es ls" "\<forall>l\<in>set ls. length l < MAX_WINDOW_BYTES" "ls \<noteq> []"
  shows "verify_disk_chain cd s = Some Verified"
proof -
  have w: "written cd es ls" "log_bytes (ss_file s) = unlines_nl ls" "chain_verdict_of cd None 0 ls = Verified"
    using assms(2) by (simp_all add: session_ok_def)
  then have "sf_log (ss_file s) = Some (unlines_nl ls)"
    using assms(4) by (cases ls) (auto simp: log_bytes_def split: option.splits)
  then show ?thesis
    using verify_windows [of "unlines_nl ls" cd] written_log [OF assms(1) w(1)] assms(3) w(2,3)
    by (simp add: verify_disk_chain_def)
qed

text \<open>C6. Appending keeps the chain: on a healthy session, cold or warm, an append of a durable event with a
  fresh id returns the id, writes one line linked to the newest one, leaves a healthy session, and the
  log the next verification reads is accepted.\<close>

theorem append_keeps_chain:
  assumes "codec_ok cd" "session_ok cd s es ls" "length (unlines_nl ls) < 2 ^ 64"
    and "\<not> cd_is_delta cd (le_event event)" "le_id event \<notin> set (map le_id es)"
    and "prev = (if ls = [] then None else Some (hash_line_bytes cd (last ls)))"
    and "cd_ser cd (event\<lparr>le_prev_hash := prev\<rparr>) = Some l"
    and "\<forall>m\<in>set (ls @ [l]). length m < MAX_WINDOW_BYTES"
  shows "\<exists>s'. append_locked cd IO_Ok s event = (Inr (le_id event), s') \<and>
     session_ok cd s' (es @ [event\<lparr>le_prev_hash := prev\<rparr>]) (ls @ [l]) \<and>
     verify_disk_chain cd s' = Some Verified"
proof -
  obtain s' where s': "append_locked cd IO_Ok s event = (Inr (le_id event), s')"
    "session_ok cd s' (es @ [event\<lparr>le_prev_hash := prev\<rparr>]) (ls @ [l])"
    using append_locked_ok [OF assms(1-7)] by blast
  moreover have "verify_disk_chain cd s' = Some Verified"
    by (rule session_ok_verifies [OF assms(1) s'(2) assms(8)]) simp
  ultimately show ?thesis by blast
qed

subsection \<open>A concrete codec, and a session that breaks its own chain\<close>

text \<open>Records of a test session: the id and the link, both in small letters, on one line.\<close>

definition demo_ser :: "unit log_entry \<Rightarrow> str option" where
  "demo_ser e =
     (if le_session e = [] \<and> le_ts e = 0 \<and> list_all is_ascii_lower (le_id e) \<and>
         list_all is_ascii_lower (case le_prev_hash e of None \<Rightarrow> [] | Some h \<Rightarrow> h)
      then Some (le_id e @ CHR ''|'' # (case le_prev_hash e of None \<Rightarrow> ''-'' | Some h \<Rightarrow> CHR ''+'' # h))
      else None)"

definition demo_entry :: "str \<Rightarrow> str option \<Rightarrow> unit log_entry" where
  "demo_entry i prev = \<lparr>le_id = i, le_session = [], le_ts = 0, le_prev_hash = prev, le_event = ()\<rparr>"

definition demo_parse :: "str \<Rightarrow> unit log_entry option" where
  "demo_parse l =
     (case dropWhile (\<lambda>c. c \<noteq> CHR ''|'') l of
        _ # c # h \<Rightarrow> Some (demo_entry (takeWhile (\<lambda>c. c \<noteq> CHR ''|'') l) (if c = CHR ''+'' then Some h else None))
      | _ \<Rightarrow> None)"

definition demo_codec :: "unit codec" where
  "demo_codec = \<lparr>cd_ser = demo_ser, cd_parse = demo_parse, cd_digest = filter is_ascii_lower,
     cd_is_delta = (\<lambda>_. False)\<rparr>"

lemma utf8_valid_ascii: "list_all (\<lambda>c. code_of c < 128) s \<Longrightarrow> utf8_valid s"
proof (induction s)
  case (Cons c s)
  then have "utf8_step (c # s) = (True, 1)" by (simp add: lead_width_def byte_in_def)
  with Cons show ?case by (subst utf8_valid.simps) simp
qed simp

lemma lower_facts: "is_ascii_lower c \<Longrightarrow> c \<noteq> CHR ''|'' \<and> c \<noteq> NL \<and> c \<noteq> CR \<and> code_of c < 128"
  by (auto simp: is_ascii_lower_def code_of_def Let_def)

lemma demo_codec_ok: "codec_ok demo_codec"
proof -
  have "demo_parse l = Some e \<and> l \<noteq> [] \<and> NL \<notin> set l \<and> CR \<notin> set l \<and> utf8_valid l" if "demo_ser e = Some l" for e l
  proof -
    let ?rest = "case le_prev_hash e of None \<Rightarrow> ''-'' | Some h \<Rightarrow> CHR ''+'' # h"
    have l: "l = le_id e @ CHR ''|'' # ?rest" and lower: "\<forall>c\<in>set (le_id e). is_ascii_lower c"
      "\<forall>h. le_prev_hash e = Some h \<longrightarrow> (\<forall>c\<in>set h. is_ascii_lower c)" and e: "le_session e = []" "le_ts e = 0"
      using that by (auto simp: demo_ser_def list_all_iff split: if_splits option.splits)
    have "takeWhile (\<lambda>c. c \<noteq> CHR ''|'') l = le_id e" "dropWhile (\<lambda>c. c \<noteq> CHR ''|'') l = CHR ''|'' # ?rest"
      using lower(1) lower_facts by (auto simp: l takeWhile_append2 dropWhile_append2)
    then have "demo_parse l = Some e"
      using e by (cases e; cases "le_prev_hash e") (simp_all add: demo_parse_def demo_entry_def)
    moreover have "\<forall>c\<in>set l. c \<noteq> NL \<and> c \<noteq> CR \<and> code_of c < 128"
      using lower lower_facts by (auto simp: l code_of_def split: option.splits)
    moreover from this have "utf8_valid l" by (intro utf8_valid_ascii) (simp add: list_all_iff)
    moreover have "l \<noteq> []" by (simp add: l)
    ultimately show ?thesis by blast
  qed
  then show ?thesis by (simp add: codec_ok_def demo_codec_def)
qed

definition demo_store0 :: session_store where
  "demo_store0 = \<lparr>ss_file = \<lparr>sf_log = None, sf_seen = None\<rparr>, ss_last_hash = None\<rparr>"

lemma demo_store0_ok: "session_ok demo_codec demo_store0 [] []"
  by (simp add: session_ok_def demo_store0_def written_def log_bytes_def chain_verdict_of_def)


subsection \<open>Witnesses\<close>

theorem verify_disk_correct_witness:
  "verify_disk True (read_byte_range (Some (''a|-'' @ [NL] @ ''torn'')))
     (length (''a|-'' @ [NL] @ ''torn'')) demo_codec = Some Verified"
proof -
  have l: "log_lines (''a|-'' @ [NL] @ ''torn'') = [''a|-'']" by code_simp
  have v: "chain_verdict_of demo_codec None 0 (map utf8_lossy [''a|-'']) = Verified" by code_simp
  have "\<forall>l\<in>set (log_lines (''a|-'' @ [NL] @ ''torn'')). length l < MAX_WINDOW_BYTES"
    unfolding l by (simp add: MAX_WINDOW_BYTES_def)
  from verify_disk_correct [OF this, of demo_codec] show ?thesis unfolding l v .
qed


theorem append_keeps_chain_witness:
  "\<exists>s'. append_locked demo_codec IO_Ok demo_store0 (demo_entry ''a'' None) = (Inr ''a'', s') \<and>
     verify_disk_chain demo_codec s' = Some Verified"
proof -
  have "cd_ser demo_codec ((demo_entry ''a'' None)\<lparr>le_prev_hash := None\<rparr>) = Some ''a|-''" by code_simp
  moreover have "le_id (demo_entry ''a'' None) = ''a''" by (simp add: demo_entry_def)
  ultimately show ?thesis
    using append_keeps_chain [OF demo_codec_ok demo_store0_ok, of "demo_entry ''a'' None" None "''a|-''"]
    by (auto simp: demo_codec_def MAX_WINDOW_BYTES_def)
qed

end
