(* ===== verification/Log_Index.thy ===== *)
theory Log_Index
  imports Prelude "HOL-Library.Word"
begin

text \<open>
  The on-disk form of a session log's offset index (\<open>houyicoder-context/src/log_index.rs\<close>): a header of 44
  bytes followed by entries of 32 bytes, with the entry count derived from the length of the file. Fields
  are words of the width the code gives them and bytes are 8-bit words. Positions inside a file are
  natural numbers below \<open>2 ^ 64\<close>; the checked operations of the code are written out.

  Shown here: headers and entries come back from their bytes, an index file reads back as the header and
  the entries that were written whatever a torn append left behind them, and the binary search over
  the ordinals finds the last entry at or below the target, also while a writer appends.
\<close>

subsection \<open>Fixed-width integers\<close>

type_synonym byte = "8 word"
type_synonym event_id = "128 word"

primrec le_bytes :: "nat \<Rightarrow> nat \<Rightarrow> byte list" where
  "le_bytes 0 n = []"
| "le_bytes (Suc k) n = word_of_nat n # le_bytes k (n div 256)"

primrec le_value :: "byte list \<Rightarrow> nat" where
  "le_value [] = 0"
| "le_value (b # bs) = unat b + 256 * le_value bs"

definition u32_le :: "32 word \<Rightarrow> byte list" where
  "u32_le w = le_bytes 4 (unat w)"

definition u64_le :: "64 word \<Rightarrow> byte list" where
  "u64_le w = le_bytes 8 (unat w)"

definition event_to_bytes :: "event_id \<Rightarrow> byte list" where
  "event_to_bytes e = rev (le_bytes 16 (unat e))"

definition event_from_bytes :: "byte list \<Rightarrow> event_id" where
  "event_from_bytes bs = word_of_nat (le_value (rev bs))"

definition byte_slice :: "nat \<Rightarrow> nat \<Rightarrow> byte list \<Rightarrow> byte list" where
  "byte_slice a b bs = take (b - a) (drop a bs)"

subsection \<open>Header and entries\<close>

definition SAMPLE_INTERVAL_BYTES :: "64 word" where
  "SAMPLE_INTERVAL_BYTES = 262144"

definition HEADER_LEN :: nat where
  "HEADER_LEN = 44"

definition ENTRY_LEN :: nat where
  "ENTRY_LEN = 32"

definition MAX_INDEX_FILE_BYTES :: nat where
  "MAX_INDEX_FILE_BYTES = 268435456"

definition INDEX_MAGIC :: "byte list" where
  "INDEX_MAGIC = [72, 89, 73, 76, 79, 71, 73, 88]"

definition FORMAT_VERSION :: "32 word" where
  "FORMAT_VERSION = 1"

definition ABSENT_EVENT :: "byte list" where
  "ABSENT_EVENT = replicate 16 0"

record log_index_header =
  lih_interval :: "64 word"
  lih_first_event :: "event_id option"
  lih_covered_len :: "64 word"

record log_index_entry =
  lie_event :: event_id
  lie_ordinal :: "64 word"
  lie_offset :: "64 word"

definition header_encode :: "log_index_header \<Rightarrow> byte list" where
  "header_encode h =
     INDEX_MAGIC @ u32_le FORMAT_VERSION @ u64_le (lih_interval h) @
     (case lih_first_event h of None \<Rightarrow> ABSENT_EVENT | Some e \<Rightarrow> event_to_bytes e) @
     u64_le (lih_covered_len h)"

definition header_decode :: "byte list \<Rightarrow> log_index_header option" where
  "header_decode bytes =
     (if length bytes < HEADER_LEN then None
      else let head = take HEADER_LEN bytes in
        if byte_slice 0 8 head \<noteq> INDEX_MAGIC then None
        else if (word_of_nat (le_value (byte_slice 8 12 head)) :: 32 word) \<noteq> FORMAT_VERSION then None
        else let interval = (word_of_nat (le_value (byte_slice 12 20 head)) :: 64 word) in
          if interval = 0 then None
          else let raw = byte_slice 20 36 head in
            Some \<lparr>lih_interval = interval,
                  lih_first_event = (if raw \<noteq> ABSENT_EVENT then Some (event_from_bytes raw) else None),
                  lih_covered_len = word_of_nat (le_value (byte_slice 36 44 head))\<rparr>)"

definition entry_encode :: "log_index_entry \<Rightarrow> byte list" where
  "entry_encode e = event_to_bytes (lie_event e) @ u64_le (lie_ordinal e) @ u64_le (lie_offset e)"

definition entry_decode :: "byte list \<Rightarrow> log_index_entry option" where
  "entry_decode bytes =
     (if length bytes < ENTRY_LEN then None
      else let raw = take ENTRY_LEN bytes in
        Some \<lparr>lie_event = event_from_bytes (byte_slice 0 16 raw),
              lie_ordinal = word_of_nat (le_value (byte_slice 16 24 raw)),
              lie_offset = word_of_nat (le_value (byte_slice 24 32 raw))\<rparr>)"

definition readable_len :: "nat \<Rightarrow> nat option" where
  "readable_len file_len =
     (if file_len < HEADER_LEN then None
      else let body = file_len - HEADER_LEN in Some (HEADER_LEN + body - body mod ENTRY_LEN))"

definition entry_count :: "nat \<Rightarrow> nat option" where
  "entry_count file_len = map_option (\<lambda>len. (len - HEADER_LEN) div ENTRY_LEN) (readable_len file_len)"

definition entry_start :: "nat \<Rightarrow> nat option" where
  "entry_start n =
     (if n * ENTRY_LEN \<ge> 2 ^ 64 \<or> HEADER_LEN + n * ENTRY_LEN \<ge> 2 ^ 64 then None
      else Some (HEADER_LEN + n * ENTRY_LEN))"

definition entry_at :: "byte list \<Rightarrow> nat \<Rightarrow> log_index_entry option" where
  "entry_at bytes n =
     (case readable_len (length bytes) of
        None \<Rightarrow> None
      | Some whole \<Rightarrow>
          (case entry_start n of
             None \<Rightarrow> None
           | Some start \<Rightarrow>
               if start > whole - ENTRY_LEN then None else entry_decode (drop start bytes)))"

subsection \<open>The reader\<close>

text \<open>An open reader keeps the header and the entry count of the moment it was opened; the file may grow
  under it, so every read takes the bytes the file holds then.\<close>

record log_index_reader =
  lir_header :: log_index_header
  lir_count :: nat

definition reader_open :: "byte list option \<Rightarrow> nat \<Rightarrow> event_id option \<Rightarrow> log_index_reader option" where
  "reader_open f log_len log_first_event =
     (case f of
        None \<Rightarrow> None
      | Some bytes \<Rightarrow>
          if length bytes > MAX_INDEX_FILE_BYTES then None
          else if length bytes < HEADER_LEN then None
          else (case header_decode (take HEADER_LEN bytes) of
                  None \<Rightarrow> None
                | Some h \<Rightarrow>
                    if unat (lih_covered_len h) > log_len \<or> lih_first_event h \<noteq> log_first_event then None
                    else map_option (\<lambda>n. \<lparr>lir_header = h, lir_count = n\<rparr>) (entry_count (length bytes))))"

definition reader_entry :: "byte list \<Rightarrow> log_index_reader \<Rightarrow> nat \<Rightarrow> log_index_entry option" where
  "reader_entry bytes r n =
     (if n \<ge> lir_count r then None
      else (case entry_start n of
              None \<Rightarrow> None
            | Some start \<Rightarrow>
                if length (drop start bytes) < ENTRY_LEN then None
                else entry_decode (take ENTRY_LEN (drop start bytes))))"

text \<open>The search keeps the answer inside the half-open window from \<open>low\<close> to \<open>high\<close>.\<close>

function floor_search ::
  "(nat \<Rightarrow> log_index_entry option) \<Rightarrow> 64 word \<Rightarrow> nat \<Rightarrow> nat \<Rightarrow> nat option" where
  "floor_search ent target low high =
     (if high - low > 1 then
        let mid = low + (high - low) div 2 in
        (case ent mid of
           None \<Rightarrow> None
         | Some e \<Rightarrow> if lie_ordinal e \<le> target then floor_search ent target mid high
                     else floor_search ent target low mid)
      else Some low)"
  by auto
termination by (relation "measure (\<lambda>(_, _, low, high). high - low)") auto

declare floor_search.simps [simp del]

definition floor_by_ordinal ::
  "byte list \<Rightarrow> log_index_reader \<Rightarrow> 64 word \<Rightarrow> log_index_entry option" where
  "floor_by_ordinal bytes r target =
     (if lir_count r = 0 then None
      else (case floor_search (reader_entry bytes r) target 0 (lir_count r) of
              None \<Rightarrow> None
            | Some low \<Rightarrow>
                (case reader_entry bytes r low of
                   None \<Rightarrow> None
                 | Some e \<Rightarrow> if lie_ordinal e \<le> target then Some e else None)))"

fun collect_options :: "'a option list \<Rightarrow> 'a list option" where
  "collect_options [] = Some []"
| "collect_options (x # xs) =
     (case x of None \<Rightarrow> None | Some a \<Rightarrow> map_option ((#) a) (collect_options xs))"

definition index_load ::
  "byte list option \<Rightarrow> nat \<Rightarrow> event_id option \<Rightarrow> (log_index_header \<times> log_index_entry list) option" where
  "index_load f log_len log_first_event =
     (case reader_open f log_len log_first_event of
        None \<Rightarrow> None
      | Some r \<Rightarrow>
          map_option (Pair (lir_header r))
            (collect_options (map (reader_entry (case f of None \<Rightarrow> [] | Some b \<Rightarrow> b) r) [0..<lir_count r])))"

subsection \<open>Integers come back from their bytes\<close>

lemma length_le_bytes [simp]: "length (le_bytes k n) = k"
  by (induction k arbitrary: n) auto

lemma le_value_bytes [simp]: "le_value (le_bytes k n) = n mod 256 ^ k"
proof (induction k arbitrary: n)
  case (Suc k)
  have "unat (word_of_nat n :: byte) = n mod 256"
    by (simp add: unat_of_nat)
  then show ?case using Suc by (simp add: mod_mult2_eq)
qed simp

lemma u64_le_value [simp]: "(word_of_nat (le_value (u64_le w)) :: 64 word) = w"
proof -
  have "unat w < 256 ^ 8" using unsigned_less [of w] by simp
  then show ?thesis by (simp add: u64_le_def)
qed

lemma u32_le_value [simp]: "(word_of_nat (le_value (u32_le w)) :: 32 word) = w"
proof -
  have "unat w < 256 ^ 4" using unsigned_less [of w] by simp
  then show ?thesis by (simp add: u32_le_def)
qed

lemma event_bytes_roundtrip [simp]: "event_from_bytes (event_to_bytes e) = e"
proof -
  have "unat e < 256 ^ 16" using unsigned_less [of e] by simp
  then show ?thesis by (simp add: event_from_bytes_def event_to_bytes_def)
qed

lemma length_fields [simp]:
  "length (u64_le w) = 8" "length (u32_le v) = 4" "length (event_to_bytes e) = 16"
  "length INDEX_MAGIC = 8" "length ABSENT_EVENT = 16"
  by (simp_all add: u64_le_def u32_le_def event_to_bytes_def INDEX_MAGIC_def ABSENT_EVENT_def)

lemma length_header_encode [simp]: "length (header_encode h) = HEADER_LEN"
  by (simp add: header_encode_def HEADER_LEN_def split: option.splits)

lemma length_entry_encode [simp]: "length (entry_encode e) = ENTRY_LEN"
  by (simp add: entry_encode_def ENTRY_LEN_def)

lemma le_bytes_zero [simp]: "le_bytes k 0 = replicate k 0"
  by (induction k) auto

lemma event_to_bytes_absent: "event_to_bytes e = ABSENT_EVENT \<longleftrightarrow> e = 0"
proof -
  have "event_to_bytes 0 = ABSENT_EVENT"
    by (simp add: event_to_bytes_def ABSENT_EVENT_def)
  then show ?thesis by (metis event_bytes_roundtrip)
qed

text \<open>A header comes back from its bytes, whatever follows them, when its interval is not zero and its first
  event is not the all-zero id.\<close>

lemma header_roundtrip:
  assumes "lih_interval h \<noteq> 0" and "lih_first_event h \<noteq> Some 0"
  shows "header_decode (header_encode h @ rest) = Some h"
proof (cases "lih_first_event h")
  case None
  then show ?thesis using assms
    by (simp add: header_decode_def header_encode_def HEADER_LEN_def byte_slice_def)
next
  case (Some e)
  then have "event_to_bytes e \<noteq> ABSENT_EVENT" using assms(2) by (simp add: event_to_bytes_absent)
  then show ?thesis using assms(1) Some
    by (simp add: header_decode_def header_encode_def HEADER_LEN_def byte_slice_def)
qed

lemma entry_roundtrip [simp]: "entry_decode (entry_encode e @ rest) = Some e"
  by (simp add: entry_decode_def entry_encode_def ENTRY_LEN_def byte_slice_def)

lemma entry_roundtrip_exact [simp]: "entry_decode (entry_encode e) = Some e"
  using entry_roundtrip [of e "[]"] by (simp del: entry_roundtrip)

subsection \<open>Index files\<close>

text \<open>The bytes of an index file: the 44 bytes of the header, whole entries, and whatever follows them: the
  start of an entry a crash cut short, or what a writer appended since.\<close>

definition index_bytes :: "byte list \<Rightarrow> log_index_entry list \<Rightarrow> byte list \<Rightarrow> byte list" where
  "index_bytes head es rest = head @ concat (map entry_encode es) @ rest"

definition rising :: "log_index_entry list \<Rightarrow> bool" where
  "rising es = sorted_wrt (\<lambda>a b. lie_ordinal a < lie_ordinal b) es"

lemma length_entries [simp]: "length (concat (map entry_encode es)) = length es * ENTRY_LEN"
  by (induction es) auto

lemma length_index_bytes:
  "length (index_bytes head es rest) = length head + length es * ENTRY_LEN + length rest"
  by (simp add: index_bytes_def)

lemma drop_entries:
  "n \<le> length es \<Longrightarrow>
   drop (n * ENTRY_LEN) (concat (map entry_encode es) @ rest) = concat (map entry_encode (drop n es)) @ rest"
proof (induction n arbitrary: es)
  case (Suc n)
  then obtain e es' where "es = e # es'" by (cases es) auto
  then show ?case using Suc by (simp add: drop_drop [symmetric] add.commute [of ENTRY_LEN])
qed simp

lemma drop_index_bytes:
  assumes "length head = HEADER_LEN" and "n < length es"
  shows "drop (HEADER_LEN + n * ENTRY_LEN) (index_bytes head es rest) =
         entry_encode (es ! n) @ concat (map entry_encode (drop (Suc n) es)) @ rest"
proof -
  have "drop (HEADER_LEN + n * ENTRY_LEN) (index_bytes head es rest) =
        drop (n * ENTRY_LEN) (concat (map entry_encode es) @ rest)"
    using assms(1) by (simp add: index_bytes_def)
  also have "\<dots> = concat (map entry_encode (drop n es)) @ rest"
    using assms(2) by (intro drop_entries) simp
  finally show ?thesis using assms(2) by (simp add: Cons_nth_drop_Suc [symmetric])
qed

lemma entry_count_bytes:
  assumes "length head = HEADER_LEN"
  shows "entry_count (length (index_bytes head es rest)) = Some (length es + length rest div ENTRY_LEN)"
proof -
  have "length es * 32 + length rest - length rest mod 32 = (length es + length rest div 32) * 32"
    using mod_less_eq_dividend [of "length rest" 32] minus_mod_eq_div_mult [of "length rest" 32]
    by (simp add: algebra_simps)
  then show ?thesis
    by (simp add: assms length_index_bytes entry_count_def readable_len_def HEADER_LEN_def ENTRY_LEN_def)
qed

lemma entry_start_small: "HEADER_LEN + n * ENTRY_LEN < 2 ^ 64 \<Longrightarrow> entry_start n = Some (HEADER_LEN + n * ENTRY_LEN)"
  by (simp add: entry_start_def)

lemma reader_entry_bytes:
  assumes "length head = HEADER_LEN" and "n < length es" and "n < lir_count r"
    and "length (index_bytes head es rest) < 2 ^ 64"
  shows "reader_entry (index_bytes head es rest) r n = Some (es ! n)"
proof -
  have "HEADER_LEN + n * ENTRY_LEN < 2 ^ 64"
    using assms(1,2,4) by (simp add: length_index_bytes) (meson mult_le_mono1 less_imp_le le_less_trans add_le_mono le_add1 order_refl)
  then show ?thesis
    using assms(1-3) by (simp add: reader_entry_def entry_start_small drop_index_bytes)
qed

subsection \<open>The search over any source of rising entries\<close>

definition floor_entry :: "log_index_entry list \<Rightarrow> 64 word \<Rightarrow> log_index_entry option" where
  "floor_entry es target =
     (case filter (\<lambda>e. lie_ordinal e \<le> target) es of [] \<Rightarrow> None | x # xs \<Rightarrow> Some (last (x # xs)))"

lemma floor_entry_at:
  assumes "rising es" and "k < length es" and "lie_ordinal (es ! k) \<le> target"
    and "\<forall>i<length es. k < i \<longrightarrow> target < lie_ordinal (es ! i)"
  shows "floor_entry es target = Some (es ! k)"
proof -
  have "\<forall>e\<in>set (take (Suc k) es). lie_ordinal e \<le> target"
  proof
    fix e assume "e \<in> set (take (Suc k) es)"
    then obtain i where i: "i \<le> k" "e = es ! i" using assms(2) by (auto simp: in_set_conv_nth less_Suc_eq_le)
    then have "i = k \<or> lie_ordinal (es ! i) < lie_ordinal (es ! k)"
      using assms(1,2) by (cases "i < k") (auto simp: rising_def sorted_wrt_iff_nth_less)
    then show "lie_ordinal e \<le> target" using i assms(3) by auto
  qed
  moreover have "\<forall>e\<in>set (drop (Suc k) es). \<not> lie_ordinal e \<le> target"
    using assms(4) by (auto simp: in_set_conv_nth not_le)
  ultimately have "filter (\<lambda>e. lie_ordinal e \<le> target) es = take (Suc k) es"
    using filter_append [of "\<lambda>e. lie_ordinal e \<le> target" "take (Suc k) es" "drop (Suc k) es"]
    by (simp add: filter_empty_conv)
  moreover have "last (take (Suc k) es) = es ! k" using assms(2) by (simp add: take_Suc_conv_app_nth)
  ultimately show ?thesis using assms(2) by (auto simp: floor_entry_def split: list.splits)
qed

locale entry_source =
  fixes ent :: "'f \<Rightarrow> nat \<Rightarrow> log_index_entry option"
    and ents :: "'f \<Rightarrow> log_index_entry list"
    and sound :: "'f \<Rightarrow> bool"
  assumes reads: "sound f \<Longrightarrow> n < length (ents f) \<Longrightarrow> ent f n = Some (ents f ! n)"
    and rises: "sound f \<Longrightarrow> rising (ents f)"
begin

lemma ordinals_rise:
  "sound f \<Longrightarrow> i < j \<Longrightarrow> j < length (ents f) \<Longrightarrow> lie_ordinal (ents f ! i) < lie_ordinal (ents f ! j)"
  using rises by (simp add: rising_def sorted_wrt_iff_nth_less)

lemma search_window:
  assumes "sound f" and "low < high" and "high \<le> length (ents f)"
    and "\<forall>i<length (ents f). high \<le> i \<longrightarrow> target < lie_ordinal (ents f ! i)"
  shows "\<exists>k. floor_search (ent f) target low high = Some k \<and> low \<le> k \<and> k < high \<and>
             (k = low \<or> lie_ordinal (ents f ! k) \<le> target) \<and>
             (\<forall>i<length (ents f). k < i \<longrightarrow> target < lie_ordinal (ents f ! i))"
  using assms(2-)
proof (induction "high - low" arbitrary: low high rule: less_induct)
  case less
  show ?case
  proof (cases "high - low > 1")
    case False
    then have "floor_search (ent f) target low high = Some low" by (subst floor_search.simps) simp
    moreover have "high = Suc low" using False less.prems(1) by simp
    ultimately show ?thesis using less.prems by auto
  next
    case True
    define mid where "mid = low + (high - low) div 2"
    have mid: "low < mid" "mid < high" using True by (auto simp: mid_def)
    then have shrink: "high - mid < high - low" "mid - low < high - low" by auto
    have r: "ent f mid = Some (ents f ! mid)" using assms(1) mid less.prems(2) by (intro reads) auto
    have step: "floor_search (ent f) target low high =
        (if lie_ordinal (ents f ! mid) \<le> target then floor_search (ent f) target mid high
         else floor_search (ent f) target low mid)"
      using True by (subst floor_search.simps) (simp add: r mid_def [symmetric] Let_def)
    show ?thesis
    proof (cases "lie_ordinal (ents f ! mid) \<le> target")
      case True
      obtain k where "floor_search (ent f) target mid high = Some k" "mid \<le> k" "k < high"
        "k = mid \<or> lie_ordinal (ents f ! k) \<le> target"
        "\<forall>i<length (ents f). k < i \<longrightarrow> target < lie_ordinal (ents f ! i)"
        using less.hyps [OF shrink(1)] mid less.prems by auto
      then show ?thesis using step True mid by auto
    next
      case False
      have "target < lie_ordinal (ents f ! i)" if "i < length (ents f)" "mid \<le> i" for i
        using ordinals_rise [OF assms(1), of mid i] that False by (cases "i = mid") auto
      then obtain k where "floor_search (ent f) target low mid = Some k" "low \<le> k" "k < mid"
        "k = low \<or> lie_ordinal (ents f ! k) \<le> target"
        "\<forall>i<length (ents f). k < i \<longrightarrow> target < lie_ordinal (ents f ! i)"
        using less.hyps [OF shrink(2)] mid less.prems by auto
      then show ?thesis using step False mid by auto
    qed
  qed
qed

lemma search_floor:
  assumes "sound f" and "ents f \<noteq> []"
  shows "\<exists>k<length (ents f). floor_search (ent f) target 0 (length (ents f)) = Some k \<and>
           (if lie_ordinal (ents f ! k) \<le> target then Some (ents f ! k) else None) = floor_entry (ents f) target"
proof -
  obtain k where k: "floor_search (ent f) target 0 (length (ents f)) = Some k" "k < length (ents f)"
    "k = 0 \<or> lie_ordinal (ents f ! k) \<le> target"
    "\<forall>i<length (ents f). k < i \<longrightarrow> target < lie_ordinal (ents f ! i)"
    using search_window [OF assms(1), of 0 "length (ents f)" target] assms(2) by auto
  show ?thesis
  proof (cases "lie_ordinal (ents f ! k) \<le> target")
    case True
    have "floor_entry (ents f) target = Some (ents f ! k)"
      using rises [OF assms(1)] k(2) True k(4) by (rule floor_entry_at)
    then show ?thesis using k True by auto
  next
    case False
    then have "\<forall>e\<in>set (ents f). \<not> lie_ordinal e \<le> target"
      using k(3,4) by (auto simp: in_set_conv_nth not_le)
    then have "floor_entry (ents f) target = None" by (simp add: floor_entry_def)
    then show ?thesis using k False by auto
  qed
qed

end

subsection \<open>The search on an index file\<close>

text \<open>A source here is the bytes of a file, in its parts, and a reader that was opened when the file held these
  entries.\<close>

type_synonym index_source = "byte list \<times> log_index_entry list \<times> byte list \<times> log_index_header"

fun source_entry :: "index_source \<Rightarrow> nat \<Rightarrow> log_index_entry option" where
  "source_entry (head, es, rest, h) = reader_entry (index_bytes head es rest) \<lparr>lir_header = h, lir_count = length es\<rparr>"

fun source_entries :: "index_source \<Rightarrow> log_index_entry list" where
  "source_entries (head, es, rest, h) = es"

fun source_sound :: "index_source \<Rightarrow> bool" where
  "source_sound (head, es, rest, h) =
     (length head = HEADER_LEN \<and> length (index_bytes head es rest) < 2 ^ 64 \<and> rising es)"

interpretation ixf: entry_source source_entry source_entries source_sound
  by unfold_locales (auto intro!: reader_entry_bytes)

lemma floor_by_ordinal_bytes:
  assumes "length head = HEADER_LEN" and "length (index_bytes head es rest) < 2 ^ 64" and "rising es"
    and "lir_count r = length es"
  shows "floor_by_ordinal (index_bytes head es rest) r target = floor_entry es target"
proof (cases "es = []")
  case True
  then show ?thesis using assms(4) by (simp add: floor_by_ordinal_def floor_entry_def)
next
  case False
  have r: "r = \<lparr>lir_header = lir_header r, lir_count = length es\<rparr>" using assms(4) by simp
  obtain k where k: "k < length es"
    "floor_search (reader_entry (index_bytes head es rest) r) target 0 (length es) = Some k"
    "(if lie_ordinal (es ! k) \<le> target then Some (es ! k) else None) = floor_entry es target"
    using ixf.search_floor [of "(head, es, rest, lir_header r)" target] assms(1-3) False
    by (auto simp: r [symmetric] cong: if_cong)
  have "reader_entry (index_bytes head es rest) r k = Some (es ! k)"
    using reader_entry_bytes assms k(1) by simp
  then show ?thesis using k False assms(4) by (simp add: floor_by_ordinal_def)
qed

lemma reader_open_bytes:
  assumes "length head = HEADER_LEN"
  shows "reader_open (Some (index_bytes head es rest)) log_len first = Some r \<longleftrightarrow>
         length (index_bytes head es rest) \<le> MAX_INDEX_FILE_BYTES \<and>
         header_decode head = Some (lir_header r) \<and> unat (lih_covered_len (lir_header r)) \<le> log_len \<and>
         lih_first_event (lir_header r) = first \<and> lir_count r = length es + length rest div ENTRY_LEN"
proof -
  have t: "take HEADER_LEN (index_bytes head es rest) = head" using assms by (simp add: index_bytes_def)
  have l: "\<not> length (index_bytes head es rest) < HEADER_LEN" using assms by (simp add: length_index_bytes)
  show ?thesis
    by (cases r) (auto simp: reader_open_def t l entry_count_bytes [OF assms] split: option.splits if_splits)
qed

lemma collect_options_Some: "collect_options (map (\<lambda>n. Some (g n)) ns) = Some (map g ns)"
  by (induction ns) auto

text \<open>An index file reads back as what was written: whole entries behind an accepted header load as exactly
  the header and the entries, whatever part of a further entry an interrupted append left at the end.\<close>

lemma index_load_roundtrip:
  assumes "lih_interval h \<noteq> 0" and "lih_first_event h \<noteq> Some 0" and "length torn < ENTRY_LEN"
    and "length (index_bytes (header_encode h) es torn) \<le> MAX_INDEX_FILE_BYTES"
    and "unat (lih_covered_len h) \<le> log_len"
  shows "index_load (Some (index_bytes (header_encode h) es torn)) log_len (lih_first_event h) = Some (h, es)"
proof -
  let ?b = "index_bytes (header_encode h) es torn" and ?r = "\<lparr>lir_header = h, lir_count = length es\<rparr>"
  have o: "reader_open (Some ?b) log_len (lih_first_event h) = Some ?r"
    using assms header_roundtrip [of h "[]"] by (subst reader_open_bytes) auto
  have m: "map (reader_entry ?b ?r) [0..<length es] = map (\<lambda>n. Some (es ! n)) [0..<length es]"
    using assms(4) by (intro map_cong refl reader_entry_bytes) (auto simp: MAX_INDEX_FILE_BYTES_def)
  have "collect_options (map (reader_entry ?b ?r) [0..<length es]) = Some es"
    by (simp only: m collect_options_Some map_nth)
  then show ?thesis by (simp add: index_load_def o)
qed

text \<open>A query opened on an index file answers with the last entry at or below the wanted ordinal, among the
  entries the file held when it was opened, also after a writer has rewritten the header and appended
  further entries or part of one.\<close>

lemma floor_by_ordinal_correct:
  assumes "length head = HEADER_LEN" and "length torn < ENTRY_LEN" and "rising es"
    and "reader_open (Some (index_bytes head es torn)) log_len first = Some r"
    and "length head' = HEADER_LEN" and "length (index_bytes head' (es @ later) rest) < 2 ^ 64"
  shows "floor_by_ordinal (index_bytes head' (es @ later) rest) r target = floor_entry es target"
proof -
  have "index_bytes head' (es @ later) rest = index_bytes head' es (concat (map entry_encode later) @ rest)"
    by (simp add: index_bytes_def)
  moreover have "lir_count r = length es" using assms(1,2,4) by (simp add: reader_open_bytes)
  ultimately show ?thesis using assms(3,5,6) by (simp add: floor_by_ordinal_bytes)
qed

definition demo_header :: log_index_header where
  "demo_header = \<lparr>lih_interval = SAMPLE_INTERVAL_BYTES, lih_first_event = Some 7, lih_covered_len = 900\<rparr>"

definition demo_entries :: "log_index_entry list" where
  "demo_entries = [\<lparr>lie_event = 7, lie_ordinal = 0, lie_offset = 0\<rparr>, \<lparr>lie_event = 9, lie_ordinal = 5, lie_offset = 700\<rparr>]"


end
