(* ===== verification/Index_Writer.thy ===== *)
theory Index_Writer
  imports Chain Log_Index
begin

text \<open>
  The writer of the offset index and the checks of its readers (\<open>houyicoder-memory\<close>:
  \<open>local_file/log_index.rs\<close>, \<open>local_file/index_check.rs\<close>, and the append of \<open>local_file/records.rs\<close> with the
  index it maintains). Every write to the index file takes what the file system does with it: it
  succeeds, the file does not open, or it fails after some of the bytes. Serialisation and the id of a
  record are those of the codec; the value of an id is the parameter \<open>ulid\<close>.

  A session is its log, the state the backend holds while warm, and the index file. The step relation
  \<open>index_step\<close> interleaves appends, restarts and rebuilds under any failure of the index writes. Shown:
  every answer of a query names a record of the log at its own offset and ordinal, an index whose writes
  succeeded answers within one interval of the wanted record, and a log whose last write was torn loses
  the record of the next append.
\<close>

subsection \<open>Writing the file\<close>

datatype write_io = WI_Ok | WI_NoOpen | WI_Torn nat

definition write_at :: "nat \<Rightarrow> byte list \<Rightarrow> byte list \<Rightarrow> byte list" where
  "write_at pos bs content = take pos content @ bs @ drop (pos + length bs) content"

definition file_write :: "write_io \<Rightarrow> bool \<Rightarrow> bool \<Rightarrow> byte list \<Rightarrow> byte list option \<Rightarrow> bool \<times> byte list option" where
  "file_write io fresh at_end bs f =
     (if io = WI_NoOpen then (False, f)
      else let content = (if fresh then [] else case f of None \<Rightarrow> [] | Some c \<Rightarrow> c);
               part = (case io of WI_Torn k \<Rightarrow> take k bs | _ \<Rightarrow> bs)
           in (io = WI_Ok, Some (write_at (if at_end then length content else 0) part content)))"

subsection \<open>The writer\<close>

record index_writer =
  iw_interval :: "64 word"
  iw_first_event :: "event_id option"
  iw_covered_len :: "64 word"
  iw_next_ordinal :: "64 word"
  iw_last_sample :: "64 word option"
  iw_degraded :: bool
  iw_live :: bool
  iw_buffered :: "log_index_entry list option"

definition writer_new :: "64 word \<Rightarrow> index_writer" where
  "writer_new interval =
     \<lparr>iw_interval = max interval 1, iw_first_event = None, iw_covered_len = 0, iw_next_ordinal = 0,
      iw_last_sample = None, iw_degraded = False, iw_live = False, iw_buffered = None\<rparr>"

definition degrade :: "index_writer \<Rightarrow> index_writer" where
  "degrade w = w\<lparr>iw_degraded := True\<rparr>"

definition report :: "bool \<Rightarrow> index_writer \<Rightarrow> index_writer" where
  "report ok w = (if ok then w else degrade w)"

definition writer_header :: "index_writer \<Rightarrow> log_index_header" where
  "writer_header w =
     \<lparr>lih_interval = iw_interval w, lih_first_event = iw_first_event w, lih_covered_len = iw_covered_len w\<rparr>"

definition sample_due :: "index_writer \<Rightarrow> 64 word \<Rightarrow> bool" where
  "sample_due w offset =
     (case iw_last_sample w of
        None \<Rightarrow> True
      | Some previous \<Rightarrow> iw_interval w \<le> (if offset < previous then 0 else offset - previous))"

definition observe ::
  "write_io \<Rightarrow> index_writer \<Rightarrow> byte list option \<Rightarrow> event_id \<Rightarrow> 64 word \<Rightarrow> 64 word \<Rightarrow>
   bool \<times> index_writer \<times> byte list option" where
  "observe io w f rid ordinal offset =
     (let w1 = (if iw_first_event w = None then w\<lparr>iw_first_event := Some rid\<rparr> else w) in
      if iw_degraded w1 \<or> \<not> sample_due w1 offset then (False, w1, f)
      else
        let w2 = w1\<lparr>iw_last_sample := Some offset\<rparr>;
            entry = \<lparr>lie_event = rid, lie_ordinal = ordinal, lie_offset = offset\<rparr>
        in (case iw_buffered w2 of
              Some buffered \<Rightarrow> (True, w2\<lparr>iw_buffered := Some (buffered @ [entry])\<rparr>, f)
            | None \<Rightarrow> (case file_write io False True (entry_encode entry) f of
                         (ok, f') \<Rightarrow> (True, report ok w2, f'))))"

definition publish_header :: "write_io \<Rightarrow> index_writer \<Rightarrow> byte list option \<Rightarrow> index_writer \<times> byte list option" where
  "publish_header io w f =
     (if iw_degraded w then (w, f)
      else (case file_write io False False (header_encode (writer_header w)) f of (ok, f') \<Rightarrow> (report ok w, f')))"

definition writer_record ::
  "write_io \<Rightarrow> write_io \<Rightarrow> index_writer \<Rightarrow> byte list option \<Rightarrow> event_id \<Rightarrow> 64 word \<Rightarrow>
   index_writer \<times> byte list option" where
  "writer_record io_entry io_header w f rid written_bytes =
     (let offset = iw_covered_len w; ordinal = iw_next_ordinal w;
          w1 = w\<lparr>iw_covered_len := iw_covered_len w + written_bytes, iw_next_ordinal := iw_next_ordinal w + 1\<rparr>
      in (case observe io_entry w1 f rid ordinal offset of
            (added, w2, f') \<Rightarrow> if added then publish_header io_header w2 f' else (w2, f')))"

definition writer_begin :: "write_io \<Rightarrow> index_writer \<Rightarrow> byte list option \<Rightarrow> index_writer \<times> byte list option" where
  "writer_begin io w f =
     (case file_write io True False (replicate HEADER_LEN 0) f of (ok, f') \<Rightarrow> (report ok w, f'))"

text \<open>The whole file goes out in one move: it is there, or the previous file is.\<close>

definition publish_whole ::
  "write_io \<Rightarrow> index_writer \<Rightarrow> log_index_entry list \<Rightarrow> byte list option \<Rightarrow> index_writer \<times> byte list option" where
  "publish_whole io w entries f =
     (if iw_degraded w then (w, f)
      else if io = WI_Ok then (w, Some (header_encode (writer_header w) @ concat (map entry_encode entries)))
      else (degrade w, f))"

definition writer_finish ::
  "write_io \<Rightarrow> index_writer \<Rightarrow> byte list option \<Rightarrow> 64 word \<Rightarrow> 64 word \<Rightarrow> index_writer \<times> byte list option" where
  "writer_finish io w f covered_len next_ordinal =
     (let w1 = w\<lparr>iw_covered_len := covered_len, iw_next_ordinal := next_ordinal\<rparr> in
      case iw_buffered w1 of
        None \<Rightarrow> publish_header io w1 f
      | Some entries \<Rightarrow> publish_whole io (w1\<lparr>iw_buffered := None\<rparr>) entries f)"

subsection \<open>The scan of a log\<close>

text \<open>What opening the log gives: there is none, it cannot be opened, or its bytes, with the number of lines
  read before an error if one stops the pass.\<close>

datatype log_open = LO_Missing | LO_Denied | LO_Open str "nat option"

definition raw_lines :: "str \<Rightarrow> str list" where
  "raw_lines bytes = map (\<lambda>l. l @ [NL]) (log_lines bytes) @ (if log_tail bytes = [] then [] else [log_tail bytes])"

definition line_text :: "str \<Rightarrow> str" where
  "line_text raw = (if ends_char NL raw then butlast raw else raw)"

fun scan_loop ::
  "(str \<Rightarrow> event_id option) \<Rightarrow> index_writer \<Rightarrow> event_id set \<Rightarrow> 64 word \<Rightarrow> 64 word \<Rightarrow> str list \<Rightarrow>
   index_writer \<times> event_id set \<times> 64 word \<times> 64 word" where
  "scan_loop parse w seen position ordinal [] = (w, seen, position, ordinal)"
| "scan_loop parse w seen position ordinal (raw # rest) =
     (let start = position; position = position + word_of_nat (length raw); txt = line_text raw in
      if txt = [] then scan_loop parse w seen position ordinal rest
      else (case parse txt of
              None \<Rightarrow> scan_loop parse w seen position ordinal rest
            | Some rid \<Rightarrow>
                (case observe WI_Ok w None rid ordinal start of
                   (_, w', _) \<Rightarrow> scan_loop parse w' (insert rid seen) position (ordinal + 1) rest)))"

definition scan ::
  "(str \<Rightarrow> event_id option) \<Rightarrow> write_io \<Rightarrow> 64 word \<Rightarrow> log_open \<Rightarrow> byte list option \<Rightarrow>
   bool \<times> event_id set \<times> index_writer \<times> byte list option" where
  "scan parse io interval log f =
     (case log of
        LO_Missing \<Rightarrow>
          (case writer_begin io (writer_new interval) f of (w, f') \<Rightarrow> (True, {}, w\<lparr>iw_live := True\<rparr>, f'))
      | LO_Denied \<Rightarrow> (False, {}, degrade (writer_new interval), f)
      | LO_Open bytes stop \<Rightarrow>
          let w = (writer_new interval)\<lparr>iw_buffered := Some []\<rparr> in
          (case stop of
             Some k \<Rightarrow>
               (case scan_loop parse w {} 0 0 (take k (raw_lines bytes)) of
                  (w', seen, _, _) \<Rightarrow> (False, seen, (degrade w')\<lparr>iw_buffered := None\<rparr>, f))
           | None \<Rightarrow>
               (case scan_loop parse w {} 0 0 (raw_lines bytes) of
                  (w', seen, position, ordinal) \<Rightarrow>
                    (case writer_finish io w' f position ordinal of
                       (w'', f') \<Rightarrow> (True, seen, w''\<lparr>iw_live := True\<rparr>, f')))))"

subsection \<open>The indexed session\<close>

datatype scan_io = SI_Ok | SI_Denied | SI_Stops nat

record indexed_log =
  il_log :: "str option"
  il_state :: "(event_id set \<times> index_writer) option"
  il_index :: "byte list option"

text \<open>What the file system does during one operation.\<close>

record append_env =
  ae_log :: append_io
  ae_scan :: scan_io
  ae_publish :: write_io
  ae_entry :: write_io
  ae_header :: write_io

definition il_bytes :: "indexed_log \<Rightarrow> str" where
  "il_bytes s = (case il_log s of None \<Rightarrow> [] | Some b \<Rightarrow> b)"

definition scan_input :: "scan_io \<Rightarrow> str option \<Rightarrow> log_open" where
  "scan_input io log =
     (case log of
        None \<Rightarrow> LO_Missing
      | Some bytes \<Rightarrow> (case io of SI_Ok \<Rightarrow> LO_Open bytes None | SI_Denied \<Rightarrow> LO_Denied | SI_Stops k \<Rightarrow> LO_Open bytes (Some k)))"

definition record_ulid :: "'ev codec \<Rightarrow> (str \<Rightarrow> event_id) \<Rightarrow> str \<Rightarrow> event_id option" where
  "record_ulid cd ulid l = map_option (\<lambda>e. ulid (le_id e)) (cd_parse cd l)"

definition load_write_state :: "(str \<Rightarrow> event_id option) \<Rightarrow> append_env \<Rightarrow> indexed_log \<Rightarrow> indexed_log" where
  "load_write_state parse env s =
     (case il_state s of
        Some _ \<Rightarrow> s
      | None \<Rightarrow>
          (case scan parse (ae_publish env) SAMPLE_INTERVAL_BYTES (scan_input (ae_scan env) (il_log s)) (il_index s) of
             (_, seen, w, f) \<Rightarrow> s\<lparr>il_state := Some (seen, w), il_index := f\<rparr>))"

definition append_indexed ::
  "'ev codec \<Rightarrow> (str \<Rightarrow> event_id) \<Rightarrow> append_env \<Rightarrow> indexed_log \<Rightarrow> 'ev log_entry \<Rightarrow>
   (context_error + event_id) \<times> indexed_log" where
  "append_indexed cd ulid env s e =
     (if ae_log env = IO_NoDir then (Inl CE_Io, s)
      else
        let s1 = load_write_state (record_ulid cd ulid) env s; rid = ulid (le_id e) in
        (case il_state s1 of
           None \<Rightarrow> (Inl CE_Io, s1)
         | Some (seen, w) \<Rightarrow>
             if rid \<in> seen then (Inr rid, s1)
             else (case cd_ser cd e of
                     None \<Rightarrow> (Inl (CE_Corrupt ''event failed to serialize''), s1)
                   | Some json \<Rightarrow>
                       let line = json @ [NL] in
                       (case ae_log env of
                          IO_Ok \<Rightarrow>
                            (case writer_record (ae_entry env) (ae_header env) w (il_index s1) rid
                                    (word_of_nat (length line)) of
                               (w', f) \<Rightarrow> (Inr rid, s1\<lparr>il_log := Some (il_bytes s1 @ line),
                                                    il_state := Some (insert rid seen, w'), il_index := f\<rparr>))
                        | IO_Torn k \<Rightarrow>
                            (Inl CE_Io, s1\<lparr>il_log := Some (il_bytes s1 @ take k line),
                                            il_state := Some (seen, degrade w)\<rparr>)
                        | _ \<Rightarrow> (Inl CE_Io, s1)))))"

subsection \<open>Queries\<close>

definition FIRST_RECORD_READ_BYTES :: nat where
  "FIRST_RECORD_READ_BYTES = 1024 * 1024"

definition first_record_id :: "(str \<Rightarrow> event_id option) \<Rightarrow> str option \<Rightarrow> event_id option option" where
  "first_record_id parse log =
     (case log of
        None \<Rightarrow> None
      | Some bytes \<Rightarrow>
          if bytes = [] then Some None
          else
            let buf = take (min (length bytes) FIRST_RECORD_READ_BYTES) bytes;
                ids = List.map_filter parse (filter (\<lambda>l. l \<noteq> []) (split_by (\<lambda>c. c = NL) buf))
            in Some (case ids of [] \<Rightarrow> None | rid # _ \<Rightarrow> Some rid))"

text \<open>The identity is remembered once confirmed; the second result is what is remembered.\<close>

definition known_first_record ::
  "(str \<Rightarrow> event_id option) \<Rightarrow> event_id option \<Rightarrow> str option \<Rightarrow> event_id option option \<times> event_id option" where
  "known_first_record parse cached log =
     (case cached of
        Some rid \<Rightarrow> (Some (Some rid), cached)
      | None \<Rightarrow> (case first_record_id parse log of None \<Rightarrow> (None, None) | Some first \<Rightarrow> (Some first, first)))"

definition index_floor ::
  "(str \<Rightarrow> event_id option) \<Rightarrow> event_id option \<Rightarrow> indexed_log \<Rightarrow> 64 word \<Rightarrow> log_index_entry option \<times> event_id option" where
  "index_floor parse cached s ordinal =
     (case il_log s of
        None \<Rightarrow> (None, cached)
      | Some bytes \<Rightarrow>
          (case known_first_record parse cached (il_log s) of
             (None, cached') \<Rightarrow> (None, cached')
           | (Some first, cached') \<Rightarrow>
               (case reader_open (il_index s) (length bytes) first of
                  None \<Rightarrow> (None, cached')
                | Some r \<Rightarrow>
                    (floor_by_ordinal (case il_index s of None \<Rightarrow> [] | Some b \<Rightarrow> b) r ordinal, cached'))))"

definition rebuild_index ::
  "(str \<Rightarrow> event_id option) \<Rightarrow> append_env \<Rightarrow> event_id option \<Rightarrow> indexed_log \<Rightarrow> bool \<times> indexed_log" where
  "rebuild_index parse env cached s =
     (case scan parse (ae_publish env) SAMPLE_INTERVAL_BYTES (scan_input (ae_scan env) (il_log s)) (il_index s) of
        (completed, seen, w, f) \<Rightarrow>
          let s' = (if completed then s\<lparr>il_state := Some (seen, w), il_index := f\<rparr> else s\<lparr>il_index := f\<rparr>)
          in (il_bytes s' = [] \<or> fst (index_floor parse cached s' 0) \<noteq> None, s'))"

definition restart :: "indexed_log \<Rightarrow> indexed_log" where
  "restart s = s\<lparr>il_state := None\<rparr>"

subsection \<open>Records and samples\<close>

text \<open>The records of a log: the offset and the id of every line that parses. The samples: the first record, and
  then each record at least one interval past the last sample.\<close>

fun records_from :: "(str \<Rightarrow> event_id option) \<Rightarrow> nat \<Rightarrow> str list \<Rightarrow> (nat \<times> event_id) list" where
  "records_from parse off [] = []"
| "records_from parse off (raw # rest) =
     (case (if line_text raw = [] then None else parse (line_text raw)) of
        None \<Rightarrow> records_from parse (off + length raw) rest
      | Some rid \<Rightarrow> (off, rid) # records_from parse (off + length raw) rest)"

definition log_records :: "(str \<Rightarrow> event_id option) \<Rightarrow> str \<Rightarrow> (nat \<times> event_id) list" where
  "log_records parse bytes = records_from parse 0 (raw_lines bytes)"

definition entry_of :: "nat \<Rightarrow> nat \<times> event_id \<Rightarrow> log_index_entry" where
  "entry_of n r = \<lparr>lie_event = snd r, lie_ordinal = word_of_nat n, lie_offset = word_of_nat (fst r)\<rparr>"

definition far_enough :: "nat \<Rightarrow> nat option \<Rightarrow> nat \<Rightarrow> bool" where
  "far_enough iv lst off = (case lst of None \<Rightarrow> True | Some p \<Rightarrow> iv \<le> off - p)"

fun sample_step ::
  "nat \<Rightarrow> nat option \<times> nat \<times> log_index_entry list \<Rightarrow> nat \<times> event_id \<Rightarrow> nat option \<times> nat \<times> log_index_entry list" where
  "sample_step iv (lst, n, es) r =
     (if far_enough iv lst (fst r) then (Some (fst r), Suc n, es @ [entry_of n r]) else (lst, Suc n, es))"

definition samples :: "nat \<Rightarrow> (nat \<times> event_id) list \<Rightarrow> nat option \<times> nat \<times> log_index_entry list" where
  "samples iv R = foldl (sample_step iv) (None, 0, []) R"

definition entry_true :: "(nat \<times> event_id) list \<Rightarrow> log_index_entry \<Rightarrow> bool" where
  "entry_true R e =
     (unat (lie_ordinal e) < length R \<and> R ! unat (lie_ordinal e) = (unat (lie_offset e), lie_event e))"

text \<open>Lists of records whose numbers and offsets fit the fields of an entry.\<close>

definition fit :: "(nat \<times> event_id) list \<Rightarrow> bool" where
  "fit R = (length R < 2 ^ 64 \<and> (\<forall>r\<in>set R. fst r < 2 ^ 64))"

lemma fit_snoc [simp]: "fit (R @ [r]) \<longleftrightarrow> fit R \<and> Suc (length R) < 2 ^ 64 \<and> fst r < 2 ^ 64"
  by (auto simp: fit_def)

lemma samples_snoc: "samples iv (R @ [r]) = sample_step iv (samples iv R) r"
  by (simp add: samples_def)

lemma sample_step_count: "fst (snd (sample_step iv t r)) = Suc (fst (snd t))"
  by (cases t) auto

lemma samples_count: "fst (snd (samples iv R)) = length R"
  by (induction R rule: rev_induct) (simp_all add: samples_snoc sample_step_count, simp add: samples_def)

lemma entry_true_append: "entry_true R e \<Longrightarrow> entry_true (R @ R') e"
  by (auto simp: entry_true_def nth_append)

lemma unat_small: "n < 2 ^ 64 \<Longrightarrow> unat (word_of_nat n :: 64 word) = n"
  by (simp add: unat_of_nat)

lemma entry_true_entry_of:
  "length R < 2 ^ 64 \<Longrightarrow> fst r < 2 ^ 64 \<Longrightarrow> entry_true (R @ [r]) (entry_of (length R) r)"
  by (cases r) (simp add: entry_true_def entry_of_def unat_small)

text \<open>Every sample describes its record, and the ordinals rise.\<close>

lemma rising_snoc:
  "rising (es @ [e]) \<longleftrightarrow> rising es \<and> (\<forall>x\<in>set es. lie_ordinal x < lie_ordinal e)"
  by (auto simp: rising_def sorted_wrt_append)

lemma true_below: "entry_true R x \<Longrightarrow> length R < 2 ^ 64 \<Longrightarrow> lie_ordinal x < word_of_nat (length R)"
  by (simp add: word_less_nat_alt entry_true_def unat_small)

lemma extend_true:
  assumes "\<forall>x\<in>set es. entry_true R x" and "rising es" and "length R < 2 ^ 64" and "fst r < 2 ^ 64"
  shows "(\<forall>x\<in>set (es @ [entry_of (length R) r]). entry_true (R @ [r]) x) \<and> rising (es @ [entry_of (length R) r])"
  using assms by (auto simp: rising_snoc entry_of_def entry_true_append entry_true_entry_of [unfolded entry_of_def] true_below)

lemma samples_true:
  assumes "fit R" and "samples iv R = (lst, n, es)"
  shows "(\<forall>e\<in>set es. entry_true R e) \<and> rising es"
  using assms
proof (induction R arbitrary: lst n es rule: rev_induct)
  case Nil
  then show ?case by (simp add: samples_def rising_def)
next
  case (snoc r R)
  obtain l0 n0 es0 where s0: "samples iv R = (l0, n0, es0)" by (cases "samples iv R")
  have n0: "n0 = length R" using samples_count [of iv R] s0 by simp
  have ih: "(\<forall>e\<in>set es0. entry_true R e) \<and> rising es0" using snoc s0 by simp
  show ?case
  proof (cases "far_enough iv l0 (fst r)")
    case True
    then have "es = es0 @ [entry_of (length R) r]" using snoc.prems(2) by (simp add: samples_snoc s0 n0)
    then show ?thesis using extend_true [of es0 R r] ih snoc.prems(1) by simp
  next
    case False
    then have "es = es0" using snoc.prems(2) by (simp add: samples_snoc s0)
    then show ?thesis using ih by (simp add: entry_true_append)
  qed
qed

text \<open>The last sample is the last entry; it is at or below every later record.\<close>

lemma samples_last:
  assumes "samples iv R = (lst, n, es)"
  shows "case lst of None \<Rightarrow> R = [] \<and> es = [] | Some p \<Rightarrow> es \<noteq> [] \<and> (p < 2 ^ 64 \<longrightarrow> unat (lie_offset (last es)) = p)"
  using assms
proof (induction R arbitrary: lst n es rule: rev_induct)
  case (snoc r R)
  obtain l0 n0 es0 where s0: "samples iv R = (l0, n0, es0)" by (cases "samples iv R")
  have "(lst, n, es) = sample_step iv (l0, n0, es0) r" using snoc.prems by (simp add: samples_snoc s0)
  then show ?case
    using snoc.IH [OF s0] by (cases l0) (auto simp: far_enough_def entry_of_def unat_small split: if_splits)
qed (simp add: samples_def)

lemma samples_last_mem: "samples iv R = (Some p, n, es) \<Longrightarrow> p \<in> fst ` set R"
proof (induction R arbitrary: p n es rule: rev_induct)
  case (snoc r R)
  obtain l0 n0 es0 where s0: "samples iv R = (l0, n0, es0)" by (cases "samples iv R")
  have "(Some p, n, es) = sample_step iv (l0, n0, es0) r" using snoc.prems by (simp add: samples_snoc s0)
  then show ?case using snoc.IH s0 by (auto split: if_splits)
qed (simp add: samples_def)

lemma floor_entry_snoc_above:
  assumes "target < lie_ordinal e"
  shows "floor_entry (es @ [e]) target = floor_entry es target"
proof -
  have "\<not> lie_ordinal e \<le> target" using assms by simp
  then show ?thesis by (simp add: floor_entry_def)
qed

lemma floor_entry_last:
  assumes "es \<noteq> []" and "\<forall>e\<in>set es. lie_ordinal e \<le> target"
  shows "floor_entry es target = Some (last es)"
proof -
  have "filter (\<lambda>e. lie_ordinal e \<le> target) es = es" using assms(2) by simp
  then show ?thesis using assms(1) by (cases es) (simp_all add: floor_entry_def)
qed

lemma floor_entry_in: "floor_entry es target = Some e \<Longrightarrow> e \<in> set es \<and> lie_ordinal e \<le> target"
  unfolding floor_entry_def
  by (auto split: list.splits simp: filter_eq_Cons_iff dest!: sym [of _ e])
     (metis last_in_set list.distinct(1) mem_Collect_eq set_filter list.set_intros(1) last_ConsR)+

text \<open>The sample at or below a record is less than one interval in front of it.\<close>

lemma samples_dense:
  assumes "fit R" and "samples iv R = (lst, n, es)" and "0 < iv" and "t < length R"
  shows "\<exists>e. floor_entry es (word_of_nat t) = Some e \<and> fst (R ! t) < unat (lie_offset e) + iv"
  using assms
proof (induction R arbitrary: lst n es rule: rev_induct)
  case (snoc r R)
  obtain l0 n0 es0 where s0: "samples iv R = (l0, n0, es0)" by (cases "samples iv R")
  have n0: "n0 = length R" using samples_count [of iv R] s0 by simp
  have fits: "fit R" "length R < 2 ^ 64" "fst r < 2 ^ 64" using snoc.prems(1) by simp_all
  have step: "(lst, n, es) = sample_step iv (l0, n0, es0) r" using snoc.prems(2) by (simp add: samples_snoc s0)
  have below: "\<forall>e\<in>set es0. lie_ordinal e < word_of_nat (length R)"
    using samples_true [OF fits(1) s0] true_below fits(2) by blast
  show ?case
  proof (cases "t < length R")
    case True
    then obtain e where e: "floor_entry es0 (word_of_nat t) = Some e" "fst (R ! t) < unat (lie_offset e) + iv"
      using snoc.IH [OF fits(1) s0 snoc.prems(3)] by blast
    have "(word_of_nat t :: 64 word) < word_of_nat (length R)"
      using True fits(2) by (simp add: word_less_nat_alt unat_small)
    then have "floor_entry es (word_of_nat t) = floor_entry es0 (word_of_nat t)"
      using step by (auto simp: n0 floor_entry_snoc_above entry_of_def split: if_splits)
    then show ?thesis using e True by (simp add: nth_append)
  next
    case False
    then have t: "t = length R" using snoc.prems(4) by simp
    show ?thesis
    proof (cases "far_enough iv l0 (fst r)")
      case True
      then have es: "es = es0 @ [entry_of t r]" using step by (simp add: n0 t)
      then have "floor_entry es (word_of_nat t) = Some (entry_of t r)"
        using below by (subst floor_entry_last) (auto simp: t entry_of_def)
      then show ?thesis using t snoc.prems(3) fits(3) by (simp add: entry_of_def unat_small)
    next
      case False
      then obtain p where p: "l0 = Some p" "fst r < p + iv" by (auto simp: far_enough_def split: option.splits)
      have "p < 2 ^ 64"
        using samples_last_mem [of iv R p] s0 p(1) fits(1) by (auto simp: fit_def)
      then have "es0 \<noteq> []" "unat (lie_offset (last es0)) = p" using samples_last [OF s0] p by auto
      moreover have "es = es0" using step False by simp
      ultimately show ?thesis
        using below p(2) floor_entry_last [of es0 "word_of_nat t"] by (auto simp: t less_imp_le)
    qed
  qed
qed simp

subsection \<open>The records of a growing log\<close>

lemma concat_raw_lines: "concat (raw_lines bytes) = bytes"
  using log_content(1) [of bytes] by (auto simp: raw_lines_def unlines_nl_def)

lemma raw_lines_snoc:
  assumes "log_tail bytes = []" and "NL \<notin> set l"
  shows "raw_lines (bytes @ l @ [NL]) = raw_lines bytes @ [l @ [NL]]"
proof -
  have b: "bytes = unlines_nl (log_lines bytes)" using log_content(1) [of bytes] assms(1) by simp
  have "log_lines (unlines_nl (log_lines bytes @ [l]) @ []) = log_lines bytes @ [l]"
    "log_tail (unlines_nl (log_lines bytes @ [l]) @ []) = []"
    using log_content(2) [of bytes] assms(2) by (intro log_lines_unlines; auto)+
  then have "log_lines (bytes @ l @ [NL]) = log_lines bytes @ [l]" "log_tail (bytes @ l @ [NL]) = []"
    using b by (metis (no_types) append_Nil2 unlines_nl_simps append.assoc append_Cons append_Nil)+
  then show ?thesis using assms(1) by (simp add: raw_lines_def)
qed

lemma records_from_append:
  "records_from parse off (xs @ ys) = records_from parse off xs @ records_from parse (off + length (concat xs)) ys"
  by (induction xs arbitrary: off) (auto simp: add.assoc split: option.splits)

lemma log_records_snoc:
  assumes "log_tail bytes = []" and "NL \<notin> set l" and "l \<noteq> []" and "parse l = Some rid"
  shows "log_records parse (bytes @ l @ [NL]) = log_records parse bytes @ [(length bytes, rid)]"
  using assms
  by (simp add: log_records_def raw_lines_snoc records_from_append concat_raw_lines line_text_def ends_char_def)

lemma records_from_bounds:
  "length (records_from parse off raws) \<le> length (concat raws) \<and>
   (\<forall>r\<in>set (records_from parse off raws). fst r < off + length (concat raws))"
proof (induction raws arbitrary: off)
  case (Cons raw raws)
  have "line_text raw \<noteq> [] \<Longrightarrow> raw \<noteq> []" by (auto simp: line_text_def split: if_splits)
  then show ?case using Cons [of "off + length raw"]
    by (cases raw) (auto simp: add.assoc intro: less_le_trans split: option.splits if_splits)
qed simp

lemma fit_log_records: "length bytes < 2 ^ 64 \<Longrightarrow> fit (log_records parse bytes)"
  using records_from_bounds [of parse 0 "raw_lines bytes"]
  by (auto simp: fit_def log_records_def concat_raw_lines)

subsection \<open>A writer that has seen the records of the log\<close>

definition writer_at :: "index_writer \<Rightarrow> (nat \<times> event_id) list \<Rightarrow> log_index_entry list \<Rightarrow> bool" where
  "writer_at w R es =
     (\<not> iw_degraded w \<and> iw_first_event w = (case R of [] \<Rightarrow> None | r # _ \<Rightarrow> Some (snd r)) \<and>
      (\<exists>lst. samples (unat (iw_interval w)) R = (lst, length R, es) \<and> iw_last_sample w = map_option word_of_nat lst))"

lemma sample_due_iff:
  assumes "iw_last_sample w = map_option word_of_nat lst" and "\<forall>p. lst = Some p \<longrightarrow> p < 2 ^ 64" and "off < 2 ^ 64"
  shows "sample_due w (word_of_nat off) \<longleftrightarrow> far_enough (unat (iw_interval w)) lst off"
proof (cases lst)
  case (Some p)
  then have p: "p < 2 ^ 64" using assms(2) by simp
  let ?p = "word_of_nat p :: 64 word" and ?o = "word_of_nat off :: 64 word"
  have "unat (if ?o < ?p then 0 else ?o - ?p) = off - p"
    using p assms(3) by (auto simp: word_less_nat_alt unat_small unat_sub_if')
  then show ?thesis using Some assms(1) by (simp add: sample_due_def far_enough_def word_le_nat_alt)
qed (use assms(1) in \<open>simp add: sample_due_def far_enough_def\<close>)

definition with_first :: "index_writer \<Rightarrow> event_id \<Rightarrow> index_writer" where
  "with_first w rid = (if iw_first_event w = None then w\<lparr>iw_first_event := Some rid\<rparr> else w)"

lemma observe_quiet:
  "iw_degraded w \<or> \<not> sample_due (with_first w rid) offset \<Longrightarrow> observe io w f rid ordinal offset = (False, with_first w rid, f)"
  by (auto simp: observe_def with_first_def)

lemma observe_live:
  "\<not> iw_degraded w \<Longrightarrow> sample_due (with_first w rid) offset \<Longrightarrow> iw_buffered w = None \<Longrightarrow>
   observe io w f rid ordinal offset =
     (case file_write io False True (entry_encode \<lparr>lie_event = rid, lie_ordinal = ordinal, lie_offset = offset\<rparr>) f of
        (ok, f') \<Rightarrow> (True, report ok ((with_first w rid)\<lparr>iw_last_sample := Some offset\<rparr>), f'))"
  by (auto simp: observe_def with_first_def)

lemma observe_held:
  "\<not> iw_degraded w \<Longrightarrow> sample_due (with_first w rid) offset \<Longrightarrow> iw_buffered w = Some es \<Longrightarrow>
   observe io w f rid ordinal offset =
     (True, (with_first w rid)\<lparr>iw_last_sample := Some offset,
        iw_buffered := Some (es @ [\<lparr>lie_event = rid, lie_ordinal = ordinal, lie_offset = offset\<rparr>])\<rparr>, f)"
  by (auto simp: observe_def with_first_def)

text \<open>What a record does to such a writer, before anything is written: whether it is a sample, and the writer
  and the entries afterwards.\<close>

lemma observe_step:
  assumes "writer_at w R es" and "fit (R @ [r])" and "samples (unat (iw_interval w)) (R @ [r]) = (lst', n', es')"
  defines "w1 \<equiv> with_first w (snd r)"
  shows "sample_due w1 (word_of_nat (fst r)) \<longleftrightarrow> es' = es @ [entry_of (length R) r]"
    and "\<not> sample_due w1 (word_of_nat (fst r)) \<Longrightarrow> es' = es \<and> writer_at w1 (R @ [r]) es"
    and "sample_due w1 (word_of_nat (fst r)) \<Longrightarrow>
         writer_at (w1\<lparr>iw_last_sample := Some (word_of_nat (fst r))\<rparr>) (R @ [r]) es'"
    and "\<not> iw_degraded w1" and "iw_buffered w1 = iw_buffered w" and "iw_interval w1 = iw_interval w"
proof -
  obtain lst where lst: "samples (unat (iw_interval w)) R = (lst, length R, es)"
    "iw_last_sample w = map_option word_of_nat lst" using assms(1) by (auto simp: writer_at_def)
  have fits: "fit R" "fst r < 2 ^ 64" using assms(2) by simp_all
  have small: "\<forall>p. lst = Some p \<longrightarrow> p < 2 ^ 64"
    using samples_last_mem [of "unat (iw_interval w)" R] lst(1) fits(1) by (auto simp: fit_def)
  have due: "sample_due w1 (word_of_nat (fst r)) \<longleftrightarrow> far_enough (unat (iw_interval w)) lst (fst r)"
    using sample_due_iff [of w1 lst "fst r"] lst(2) small fits(2) by (simp add: w1_def with_first_def)
  have step: "(lst', n', es') = sample_step (unat (iw_interval w)) (lst, length R, es) r"
    using assms(3) lst(1) by (simp add: samples_snoc)
  have first: "iw_first_event w1 = (case R @ [r] of [] \<Rightarrow> None | r # _ \<Rightarrow> Some (snd r))"
    using assms(1) by (auto simp: w1_def with_first_def writer_at_def split: list.splits)
  have snoc: "samples (unat (iw_interval w)) (R @ [r]) = (lst', length (R @ [r]), es')"
    using assms(3) samples_count [of "unat (iw_interval w)" "R @ [r]"] by simp
  show "sample_due w1 (word_of_nat (fst r)) \<longleftrightarrow> es' = es @ [entry_of (length R) r]"
    using step due by (auto split: if_splits)
  show "\<not> iw_degraded w1" "iw_buffered w1 = iw_buffered w" "iw_interval w1 = iw_interval w"
    using assms(1) by (simp_all add: w1_def with_first_def writer_at_def)
  show "\<not> sample_due w1 (word_of_nat (fst r)) \<Longrightarrow> es' = es \<and> writer_at w1 (R @ [r]) es"
    using step due first snoc lst(2) assms(1) by (auto simp: writer_at_def w1_def with_first_def split: if_splits)
  show "sample_due w1 (word_of_nat (fst r)) \<Longrightarrow>
        writer_at (w1\<lparr>iw_last_sample := Some (word_of_nat (fst r))\<rparr>) (R @ [r]) es'"
    using step due first snoc assms(1) by (auto simp: writer_at_def w1_def with_first_def split: if_splits)
qed

lemma observe_buffered:
  assumes "writer_at w R es" and "iw_buffered w = Some es" and "fit (R @ [r])"
  shows "\<exists>b w' es'. observe WI_Ok w None (snd r) (word_of_nat (length R)) (word_of_nat (fst r)) = (b, w', None) \<and>
           writer_at w' (R @ [r]) es' \<and> iw_buffered w' = Some es' \<and> iw_interval w' = iw_interval w"
proof -
  obtain lst' n' es' where s: "samples (unat (iw_interval w)) (R @ [r]) = (lst', n', es')"
    by (cases "samples (unat (iw_interval w)) (R @ [r])")
  define w1 where "w1 = with_first w (snd r)"
  have nd: "\<not> iw_degraded w" using assms(1) by (simp add: writer_at_def)
  note step = observe_step [OF assms(1,3) s, folded w1_def]
  show ?thesis
  proof (cases "sample_due w1 (word_of_nat (fst r))")
    case False
    then show ?thesis using step assms(2) by (auto simp: w1_def observe_quiet)
  next
    case True
    then have "writer_at (w1\<lparr>iw_last_sample := Some (word_of_nat (fst r)), iw_buffered := Some es'\<rparr>) (R @ [r]) es'"
      using step(3) by (simp add: writer_at_def)
    moreover have "es' = es @ [\<lparr>lie_event = snd r, lie_ordinal = word_of_nat (length R), lie_offset = word_of_nat (fst r)\<rparr>]"
      using step(1) True by (simp add: entry_of_def)
    ultimately show ?thesis using True step(4-6) assms(2) nd by (auto simp: w1_def observe_held)
  qed
qed

lemma scan_loop_records:
  assumes "writer_at w R es" and "iw_buffered w = Some es" and "fit (R @ records_from parse off raws)"
    and "position = word_of_nat off" and "ordinal = word_of_nat (length R)"
  shows "\<exists>w' es'. scan_loop parse w seen position ordinal raws =
           (w', seen \<union> snd ` set (records_from parse off raws), word_of_nat (off + length (concat raws)),
            word_of_nat (length (R @ records_from parse off raws))) \<and>
           writer_at w' (R @ records_from parse off raws) es' \<and> iw_buffered w' = Some es' \<and>
           iw_interval w' = iw_interval w"
  using assms
proof (induction raws arbitrary: w R es off seen position ordinal)
  case (Cons raw raws)
  have pos: "position + word_of_nat (length raw) = word_of_nat (off + length raw)" using Cons.prems(4) by simp
  show ?case
  proof (cases "if line_text raw = [] then None else parse (line_text raw)")
    case None
    then have r: "records_from parse off (raw # raws) = records_from parse (off + length raw) raws" by simp
    show ?thesis
      using Cons.IH [OF Cons.prems(1,2) Cons.prems(3) [unfolded r] pos Cons.prems(5), of seen] None
      unfolding r by (auto simp: add.assoc split: if_splits option.splits)
  next
    case (Some rid)
    then have r: "records_from parse off (raw # raws) = (off, rid) # records_from parse (off + length raw) raws" by simp
    have "fit (R @ [(off, rid)])" and f: "fit ((R @ [(off, rid)]) @ records_from parse (off + length raw) raws)"
      using Cons.prems(3) [unfolded r] by (auto simp: fit_def)
    then obtain b w' es' where o: "observe WI_Ok w None rid ordinal position = (b, w', None)"
      "writer_at w' (R @ [(off, rid)]) es'" "iw_buffered w' = Some es'" "iw_interval w' = iw_interval w"
      using observe_buffered [OF Cons.prems(1,2), of "(off, rid)"] Cons.prems(4,5) by auto
    have "ordinal + 1 = word_of_nat (length (R @ [(off, rid)]))" using Cons.prems(5) by (simp add: add.commute)
    from Cons.IH [OF o(2,3) f pos this, of "insert rid seen"] show ?thesis
      unfolding r using Some o by (auto simp: add.assoc split: if_splits)
  qed
qed simp

subsection \<open>The invariant of a session\<close>

text \<open>An index file that is too short to be one, or whose whole entries all describe records of the log.\<close>

definition file_true :: "(nat \<times> event_id) list \<Rightarrow> byte list option \<Rightarrow> bool" where
  "file_true R f =
     (\<forall>b. f = Some b \<longrightarrow> length b < HEADER_LEN \<or>
        (\<exists>head es torn. b = index_bytes head es torn \<and> length head = HEADER_LEN \<and> length torn < ENTRY_LEN \<and>
           (\<forall>e\<in>set es. entry_true R e) \<and> rising es))"

text \<open>A warm writer that still maintains the file: it accounts for the whole log, and the file holds the samples
  of its records behind a header that readers of this log accept.\<close>

definition synced :: "str \<Rightarrow> (nat \<times> event_id) list \<Rightarrow> index_writer \<Rightarrow> byte list option \<Rightarrow> bool" where
  "synced L R w f =
     (iw_buffered w = None \<and> iw_interval w = SAMPLE_INTERVAL_BYTES \<and> unat (iw_covered_len w) = length L \<and>
      unat (iw_next_ordinal w) = length R \<and>
      (\<exists>head es. writer_at w R es \<and> f = Some (index_bytes head es []) \<and> length head = HEADER_LEN \<and>
         (R \<noteq> [] \<longrightarrow> (\<exists>c. unat c \<le> length L \<and>
            head = header_encode \<lparr>lih_interval = iw_interval w, lih_first_event = iw_first_event w, lih_covered_len = c\<rparr>))))"

definition index_inv :: "'ev codec \<Rightarrow> (str \<Rightarrow> event_id) \<Rightarrow> indexed_log \<Rightarrow> bool" where
  "index_inv cd ulid s =
     (let L = il_bytes s; R = log_records (record_ulid cd ulid) L in
      log_tail L = [] \<and> length L < 2 ^ 64 \<and> file_true R (il_index s) \<and>
      (\<forall>seen w. il_state s = Some (seen, w) \<longrightarrow> \<not> iw_degraded w \<longrightarrow> synced L R w (il_index s)))"

lemma file_true_mono: "file_true R f \<Longrightarrow> file_true (R @ R') f"
  unfolding file_true_def by (elim all_forward imp_forward disj_forward ex_forward conj_forward)
     (simp_all add: entry_true_append)

lemma file_true_intro:
  assumes "length head = HEADER_LEN" and "\<forall>e\<in>set es. entry_true R e" and "rising es" and "length torn < ENTRY_LEN"
  shows "file_true R (Some (index_bytes head es torn))"
  using assms unfolding file_true_def by blast

lemma synced_file_true:
  assumes "synced L R w f" and "fit R"
  shows "file_true R f"
proof -
  obtain head es lst where "f = Some (index_bytes head es [])" "length head = HEADER_LEN"
    "samples (unat (iw_interval w)) R = (lst, length R, es)"
    using assms(1) unfolding synced_def writer_at_def by blast
  then show ?thesis using samples_true [OF assms(2)] file_true_intro by (simp add: ENTRY_LEN_def)
qed

lemma log_empty [simp]: "log_lines [] = []" "log_tail [] = []" "log_records parse [] = []"
  by (simp_all add: log_lines_def log_tail_def log_records_def raw_lines_def window_lines_no_newline)

lemma interval_new [simp]: "iw_interval (writer_new SAMPLE_INTERVAL_BYTES) = SAMPLE_INTERVAL_BYTES"
  by (simp add: writer_new_def SAMPLE_INTERVAL_BYTES_def max_def word_le_nat_alt)

lemma writer_at_new: "writer_at (writer_new iv) [] []"
  by (simp add: writer_at_def writer_new_def samples_def)

lemma index_bytes_head: "length head = HEADER_LEN \<Longrightarrow> head = index_bytes head [] []"
  by (simp add: index_bytes_def)

lemma begin_inv:
  assumes "file_true [] f" and "writer_begin io (writer_new SAMPLE_INTERVAL_BYTES) f = (w, f')"
  shows "file_true [] f' \<and> (\<not> iw_degraded w \<longrightarrow> synced [] [] (w\<lparr>iw_live := True\<rparr>) f')"
proof (cases io)
  case WI_Ok
  have f': "f' = Some (index_bytes (replicate HEADER_LEN 0) [] [])" "w = writer_new SAMPLE_INTERVAL_BYTES"
    using assms(2) WI_Ok by (auto simp: writer_begin_def file_write_def write_at_def report_def index_bytes_def)
  have "synced [] [] (w\<lparr>iw_live := True\<rparr>) f'"
    unfolding synced_def f'
    using writer_at_new [of SAMPLE_INTERVAL_BYTES]
    by (intro conjI exI [of _ "replicate HEADER_LEN 0"] exI [of _ "[]"]) (simp_all add: writer_at_def, simp_all add: writer_new_def)
  then show ?thesis using file_true_intro [of "replicate HEADER_LEN 0" "[]" "[]" "[]"]
    by (simp add: f' rising_def ENTRY_LEN_def)
next
  case WI_NoOpen
  then show ?thesis using assms by (auto simp: writer_begin_def file_write_def report_def degrade_def)
next
  case (WI_Torn k)
  then have f': "f' = Some (replicate (min k HEADER_LEN) 0)" "iw_degraded w"
    using assms(2) by (auto simp: writer_begin_def file_write_def write_at_def report_def degrade_def min.commute)
  show ?thesis
  proof (cases "k < HEADER_LEN")
    case True
    then show ?thesis using f' by (simp add: file_true_def)
  next
    case False
    then have "f' = Some (index_bytes (replicate HEADER_LEN 0) [] [])" using f' by (simp add: index_bytes_def min_def)
    then show ?thesis using f'(2) file_true_intro [of "replicate HEADER_LEN 0" "[]" "[]" "[]"]
      by (simp add: rising_def ENTRY_LEN_def)
  qed
qed

lemma scan_inv:
  assumes "log_tail L = []" and "length L < 2 ^ 64" and "R = log_records parse L" and "file_true R f"
    and "log = LO_Missing \<Longrightarrow> L = []" and "\<And>bytes stop. log = LO_Open bytes stop \<Longrightarrow> bytes = L"
    and "scan parse io SAMPLE_INTERVAL_BYTES log f = (completed, seen, w, f')"
  shows "file_true R f' \<and> (\<not> iw_degraded w \<longrightarrow> synced L R w f')"
proof (cases log)
  case LO_Missing
  then have L: "L = []" "R = []" using assms(3,5) by simp_all
  obtain w0 where "writer_begin io (writer_new SAMPLE_INTERVAL_BYTES) f = (w0, f')" "w = w0\<lparr>iw_live := True\<rparr>"
    using assms(7) LO_Missing by (auto simp: scan_def split: prod.splits)
  then show ?thesis using begin_inv assms(4) by (simp add: L)
next
  case LO_Denied
  then show ?thesis using assms(4,7) by (auto simp: scan_def degrade_def)
next
  case (LO_Open bytes stop)
  then have b: "bytes = L" using assms(6) by simp
  show ?thesis
  proof (cases stop)
    case (Some k)
    then show ?thesis using assms(4,7) LO_Open by (auto simp: scan_def degrade_def Let_def split: prod.splits)
  next
    case None
    let ?w = "(writer_new SAMPLE_INTERVAL_BYTES)\<lparr>iw_buffered := Some []\<rparr>"
    have fitR: "fit R" using fit_log_records assms(2,3) by simp
    have at: "writer_at ?w [] []" using writer_at_new [of SAMPLE_INTERVAL_BYTES] by (simp add: writer_at_def)
    obtain w' es where l: "scan_loop parse ?w {} 0 0 (raw_lines L) =
        (w', snd ` set R, word_of_nat (length L), word_of_nat (length R))"
      "writer_at w' R es" "iw_buffered w' = Some es" "iw_interval w' = SAMPLE_INTERVAL_BYTES"
      using scan_loop_records [OF at, of parse 0 "raw_lines L" 0 0 "{}"] fitR
      by (auto simp: assms(3) log_records_def concat_raw_lines)
    define w1 where "w1 = w'\<lparr>iw_covered_len := word_of_nat (length L), iw_next_ordinal := word_of_nat (length R), iw_buffered := None\<rparr>"
    have w1: "\<not> iw_degraded w1" "writer_at w1 R es" using l(2) by (simp_all add: w1_def writer_at_def)
    have res: "(w, f') = (case publish_whole io w1 es f of (w'', f'') \<Rightarrow> (w''\<lparr>iw_live := True\<rparr>, f''))"
      using assms(7) LO_Open None b l(1,3)
      by (auto simp: scan_def writer_finish_def w1_def Let_def split: prod.splits)
    show ?thesis
    proof (cases "io = WI_Ok")
      case True
      then have wf: "w = w1\<lparr>iw_live := True\<rparr>" "f' = Some (index_bytes (header_encode (writer_header w1)) es [])"
        using res w1(1) by (simp_all add: publish_whole_def index_bytes_def)
      have len: "length R < 2 ^ 64" using fitR by (simp add: fit_def)
      have sy: "synced L R w f'"
        unfolding synced_def
      proof (intro conjI exI [of _ "header_encode (writer_header w1)"] exI [of _ es] impI)
        show "\<exists>c. unat c \<le> length L \<and> header_encode (writer_header w1) =
          header_encode \<lparr>lih_interval = iw_interval w, lih_first_event = iw_first_event w, lih_covered_len = c\<rparr>"
          using assms(2) by (intro exI [of _ "word_of_nat (length L)"])
             (simp add: wf writer_header_def w1_def unat_small)
        show "writer_at w R es" using w1(2) by (simp add: wf writer_at_def)
      qed (use l(4) assms(2) len in \<open>simp_all add: wf w1_def unat_small\<close>)
      then show ?thesis using synced_file_true fitR by blast
    next
      case False
      then show ?thesis using res w1(1) assms(4) by (auto simp: publish_whole_def degrade_def)
    qed
  qed
qed

subsection \<open>Appends keep the invariant\<close>

lemma write_entry:
  assumes "file_write io False True (entry_encode e) (Some (index_bytes head es [])) = (ok, f')"
  shows "(ok \<longrightarrow> f' = Some (index_bytes head (es @ [e]) [])) \<and>
         (f' = Some (index_bytes head (es @ [e]) []) \<or>
          (\<exists>torn. length torn < ENTRY_LEN \<and> f' = Some (index_bytes head es torn)))"
proof (cases io)
  case (WI_Torn k)
  then have "\<not> ok" "f' = Some (index_bytes head es (take k (entry_encode e)))"
    using assms by (auto simp: file_write_def write_at_def index_bytes_def)
  then show ?thesis by (cases "k < ENTRY_LEN") (auto simp: index_bytes_def)
qed (use assms in \<open>auto simp: file_write_def write_at_def index_bytes_def ENTRY_LEN_def\<close>)

lemma write_header:
  assumes "file_write io False False (header_encode h) (Some (index_bytes head es [])) = (ok, f')"
    and "length head = HEADER_LEN"
  shows "(ok \<longrightarrow> f' = Some (index_bytes (header_encode h) es [])) \<and>
         (\<exists>head'. length head' = HEADER_LEN \<and> f' = Some (index_bytes head' es []))"
proof (cases io)
  case (WI_Torn k)
  then have "f' = Some (index_bytes (take k (header_encode h) @ drop k head) es [])" "\<not> ok"
    using assms by (auto simp: file_write_def write_at_def index_bytes_def min_def)
  then show ?thesis using assms(2) by (intro conjI exI [of _ "take k (header_encode h) @ drop k head"]) auto
qed (use assms in \<open>auto simp: file_write_def write_at_def index_bytes_def\<close>)

text \<open>The writer once a record's bytes are accounted for, and what holds of it.\<close>

definition accounted :: "index_writer \<Rightarrow> nat \<Rightarrow> index_writer" where
  "accounted w n = w\<lparr>iw_covered_len := iw_covered_len w + word_of_nat n, iw_next_ordinal := iw_next_ordinal w + 1\<rparr>"

lemma writer_record_eq:
  "writer_record io1 io2 w f rid (word_of_nat n) =
     (case observe io1 (accounted w n) f rid (iw_next_ordinal w) (iw_covered_len w) of
        (added, w2, f') \<Rightarrow> if added then publish_header io2 w2 f' else (w2, f'))"
  by (simp add: writer_record_def accounted_def Let_def)

lemma record_degraded:
  "writer_record io1 io2 w f rid m = (w', f') \<Longrightarrow> iw_degraded w \<Longrightarrow> f' = f \<and> iw_degraded w'"
  by (auto simp: writer_record_def Let_def observe_quiet with_first_def)

lemma synced_words:
  assumes "synced L R w f"
  shows "iw_covered_len w = word_of_nat (length L)" "iw_next_ordinal w = word_of_nat (length R)"
proof -
  have "unat (iw_covered_len w) = length L" "unat (iw_next_ordinal w) = length R"
    using assms by (simp_all add: synced_def)
  then show "iw_covered_len w = word_of_nat (length L)" "iw_next_ordinal w = word_of_nat (length R)"
    by (simp_all add: \<open>unat (iw_covered_len w) = length L\<close> [symmetric] \<open>unat (iw_next_ordinal w) = length R\<close> [symmetric])
qed

text \<open>A sample is written: first the entry, then the header. Whatever the two writes do, the entries in the
  file are true; if both succeed the writer still matches the file.\<close>

lemma publish_inv:
  assumes "publish_header io2 (report ok w2) f1 = (w', f')"
    and "file_write io1 False True (entry_encode e) (Some (index_bytes head es [])) = (ok, f1)"
    and "length head = HEADER_LEN" and "es' = es @ [e]"
    and "(\<forall>x\<in>set es'. entry_true R x) \<and> rising es'" and "(\<forall>x\<in>set es. entry_true R x) \<and> rising es"
    and "\<not> iw_degraded w2" and "writer_at w2 R es'"
    and "unat (iw_covered_len w2) = length L" and "unat (iw_next_ordinal w2) = length R"
    and "iw_buffered w2 = None" and "iw_interval w2 = SAMPLE_INTERVAL_BYTES"
  shows "file_true R f' \<and> (\<not> iw_degraded w' \<longrightarrow> synced L R w' f')"
proof -
  have f1: "ok \<longrightarrow> f1 = Some (index_bytes head es' [])" "file_true R f1"
    using write_entry [OF assms(2)] assms(5,6) file_true_intro [OF assms(3)] unfolding assms(4)
    by (auto simp: ENTRY_LEN_def)
  show ?thesis
  proof (cases ok)
    case False
    then show ?thesis using assms(1) f1(2) by (auto simp: publish_header_def report_def degrade_def)
  next
    case True
    obtain ok2 f2 where h: "file_write io2 False False (header_encode (writer_header w2)) f1 = (ok2, f2)"
      by (cases "file_write io2 False False (header_encode (writer_header w2)) f1")
    then have res: "w' = report ok2 w2" "f' = f2"
      using assms(1,7) True by (simp_all add: publish_header_def report_def)
    note wh = write_header [OF h [unfolded f1(1) [rule_format, OF True]] assms(3)]
    have "file_true R f'" using wh res(2) assms(5) file_true_intro by (auto simp: ENTRY_LEN_def)
    moreover have "synced L R w' f'" if "\<not> iw_degraded w'"
    proof -
      have "ok2" using that res(1) by (auto simp: report_def degrade_def split: if_splits)
      then have "w' = w2" "f' = Some (index_bytes (header_encode (writer_header w2)) es' [])"
        using wh res by (simp_all add: report_def)
      moreover have "\<exists>c. unat c \<le> length L \<and> header_encode (writer_header w2) = header_encode
         \<lparr>lih_interval = iw_interval w2, lih_first_event = iw_first_event w2, lih_covered_len = c\<rparr>"
        using assms(9) by (intro exI [of _ "iw_covered_len w2"]) (simp add: writer_header_def)
      ultimately show ?thesis using assms(8-12) unfolding synced_def
        by (intro conjI exI [of _ "header_encode (writer_header w2)"] exI [of _ es']) simp_all
    qed
    ultimately show ?thesis by blast
  qed
qed

lemma accounted_lens:
  assumes "synced L R w f" and "length L + n < 2 ^ 64" and "Suc (length R) < 2 ^ 64"
  shows "unat (iw_covered_len (accounted w n)) = length L + n" "unat (iw_next_ordinal (accounted w n)) = Suc (length R)"
  using synced_words [OF assms(1)] unat_small [OF assms(2)] unat_small [OF assms(3)]
  by (simp_all add: accounted_def add.commute)

lemma record_quiet:
  assumes "synced L R w f" and "r = (length L, rid)" and "length L + n < 2 ^ 64" and "fit (R @ [r])"
    and "length L' = length L + n" and "\<not> sample_due (with_first (accounted w n) rid) (iw_covered_len w)"
  shows "synced L' (R @ [r]) (with_first (accounted w n) rid) f"
proof -
  obtain head es where at: "writer_at w R es" and f: "f = Some (index_bytes head es [])" and
    head: "length head = HEADER_LEN" and buf: "iw_buffered w = None" and iv: "iw_interval w = SAMPLE_INTERVAL_BYTES" and
    ok: "R \<noteq> [] \<longrightarrow> (\<exists>c. unat c \<le> length L \<and> head = header_encode \<lparr>lih_interval = iw_interval w,
        lih_first_event = iw_first_event w, lih_covered_len = c\<rparr>)"
    using assms(1) unfolding synced_def by blast
  define w1 where "w1 = with_first (accounted w n) rid"
  have at0: "writer_at (accounted w n) R es" using at by (simp add: accounted_def writer_at_def)
  obtain lst' n' es' where s: "samples (unat (iw_interval (accounted w n))) (R @ [r]) = (lst', n', es')"
    by (cases "samples (unat (iw_interval (accounted w n))) (R @ [r])")
  have due: "\<not> sample_due (with_first (accounted w n) (snd r)) (word_of_nat (fst r))"
    using assms(6) synced_words(1) [OF assms(1)] by (simp add: assms(2))
  have w1: "writer_at w1 (R @ [r]) es"
    using observe_step(2) [OF at0 assms(4) s due] by (simp add: w1_def assms(2))
  have ne: "R \<noteq> []" using due at by (auto simp: writer_at_def sample_due_def with_first_def accounted_def samples_def)
  then have "iw_first_event w1 = iw_first_event w" "iw_interval w1 = iw_interval w" "iw_buffered w1 = None"
    using at buf by (auto simp: w1_def with_first_def accounted_def writer_at_def split: list.splits)
  moreover have "unat (iw_covered_len w1) = length L'" "unat (iw_next_ordinal w1) = length (R @ [r])"
    using accounted_lens [OF assms(1,3)] assms(4,5) by (simp_all add: w1_def with_first_def)
  moreover obtain c where "unat c \<le> length L'" "head = header_encode \<lparr>lih_interval = iw_interval w,
        lih_first_event = iw_first_event w, lih_covered_len = c\<rparr>"
  proof -
    obtain c where "unat c \<le> length L" "head = header_encode \<lparr>lih_interval = iw_interval w,
        lih_first_event = iw_first_event w, lih_covered_len = c\<rparr>" using ok ne by blast
    then show thesis using assms(5) that [of c] by simp
  qed
  ultimately show ?thesis
    using w1 f head iv unfolding synced_def w1_def [symmetric]
    by (intro conjI exI [of _ head] exI [of _ es] impI exI [of _ c]) simp_all
qed

lemma record_inv:
  assumes "synced L R w f" and "r = (length L, rid)" and "length L + n < 2 ^ 64" and "fit (R @ [r])"
    and "length L' = length L + n"
    and "writer_record io1 io2 w f rid (word_of_nat n) = (w', f')"
  shows "file_true (R @ [r]) f' \<and> (\<not> iw_degraded w' \<longrightarrow> synced L' (R @ [r]) w' f')"
proof (cases "sample_due (with_first (accounted w n) rid) (iw_covered_len w)")
  case False
  then have "w' = with_first (accounted w n) rid" "f' = f"
    using assms(6) by (simp_all add: writer_record_eq observe_quiet)
  then show ?thesis using record_quiet [OF assms(1-5) False] synced_file_true assms(4) by blast
next
  case True
  obtain head es where at: "writer_at w R es" and f: "f = Some (index_bytes head es [])" and
    head: "length head = HEADER_LEN" and buf: "iw_buffered w = None" and iv: "iw_interval w = SAMPLE_INTERVAL_BYTES"
    using assms(1) unfolding synced_def by blast
  define w2 where "w2 = (with_first (accounted w n) rid)\<lparr>iw_last_sample := Some (iw_covered_len w)\<rparr>"
  have at0: "writer_at (accounted w n) R es" using at by (simp add: accounted_def writer_at_def)
  obtain lst' n' es' where s: "samples (unat (iw_interval (accounted w n))) (R @ [r]) = (lst', n', es')"
    by (cases "samples (unat (iw_interval (accounted w n))) (R @ [r])")
  note words = synced_words [OF assms(1)]
  have due: "sample_due (with_first (accounted w n) (snd r)) (word_of_nat (fst r))"
    using True words by (simp add: assms(2))
  have w2: "writer_at w2 (R @ [r]) es'"
    using observe_step(3) [OF at0 assms(4) s due] words by (simp add: w2_def assms(2))
  have es': "es' = es @ [entry_of (length R) r]" using observe_step(1) [OF at0 assms(4) s] due by simp
  have true': "(\<forall>e\<in>set es'. entry_true (R @ [r]) e) \<and> rising es'" using samples_true [OF assms(4) s] .
  then have true0: "(\<forall>e\<in>set es. entry_true (R @ [r]) e) \<and> rising es" by (simp add: es' rising_snoc)
  have lens: "unat (iw_covered_len w2) = length L'" "unat (iw_next_ordinal w2) = length (R @ [r])"
    "iw_buffered w2 = None" "iw_interval w2 = SAMPLE_INTERVAL_BYTES"
    using accounted_lens [OF assms(1,3)] assms(4,5) buf iv by (simp_all add: w2_def with_first_def, simp_all add: accounted_def)
  obtain ok f1 where e: "file_write io1 False True (entry_encode (entry_of (length R) r)) f = (ok, f1)"
    by (cases "file_write io1 False True (entry_encode (entry_of (length R) r)) f")
  have nd: "\<not> iw_degraded (accounted w n)" "iw_buffered (accounted w n) = None" "\<not> iw_degraded w2"
    using at buf w2 by (simp_all add: writer_at_def accounted_def)
  have res: "(w', f') = publish_header io2 (report ok w2) f1"
    using assms(6) True nd e words
    by (simp add: writer_record_eq observe_live w2_def entry_of_def assms(2))
  show ?thesis
    using publish_inv [OF res [symmetric] e [unfolded f] head es' true' true0 nd(3) w2 lens] by blast
qed

lemma raw_lines_snoc_tail:
  assumes "log_tail bytes = []" and "NL \<notin> set l"
  shows "log_tail (bytes @ l @ [NL]) = []"
proof -
  have "bytes = unlines_nl (log_lines bytes)" using log_content(1) [of bytes] assms(1) by simp
  then have b: "bytes @ l @ [NL] = unlines_nl (log_lines bytes @ [l]) @ []" by simp
  show ?thesis unfolding b using log_content(2) [of bytes] assms(2) by (intro log_lines_unlines(2)) auto
qed

lemma scan_input_cases:
  "scan_input io (il_log s) = LO_Missing \<Longrightarrow> il_bytes s = []"
  "scan_input io (il_log s) = LO_Open bytes stop \<Longrightarrow> bytes = il_bytes s"
  by (auto simp: scan_input_def il_bytes_def split: option.splits scan_io.splits)

lemma load_inv:
  assumes "index_inv cd ulid s"
  shows "index_inv cd ulid (load_write_state (record_ulid cd ulid) env s) \<and>
         il_log (load_write_state (record_ulid cd ulid) env s) = il_log s"
proof (cases "il_state s")
  case None
  obtain fin seen w f where sc: "scan (record_ulid cd ulid) (ae_publish env) SAMPLE_INTERVAL_BYTES
      (scan_input (ae_scan env) (il_log s)) (il_index s) = (fin, seen, w, f)"
    by (metis prod_cases4)
  have "file_true (log_records (record_ulid cd ulid) (il_bytes s)) f \<and>
        (\<not> iw_degraded w \<longrightarrow> synced (il_bytes s) (log_records (record_ulid cd ulid) (il_bytes s)) w f)"
    using assms sc by (intro scan_inv [OF _ _ refl]) (auto simp: index_inv_def Let_def dest: scan_input_cases)
  then show ?thesis using assms None sc by (auto simp: load_write_state_def index_inv_def Let_def il_bytes_def)
qed (use assms in \<open>simp add: load_write_state_def\<close>)

lemma append_inv:
  assumes "codec_ok cd" and "index_inv cd ulid s" and "\<forall>k. ae_log env \<noteq> IO_Torn k"
    and "append_indexed cd ulid env s e = (res, s')" and "length (il_bytes s') < 2 ^ 64"
  shows "index_inv cd ulid s'"
proof -
  define parse where "parse = record_ulid cd ulid"
  define s1 where "s1 = load_write_state parse env s"
  have inv1: "index_inv cd ulid s1" using load_inv [OF assms(2)] by (simp add: s1_def parse_def)
  show ?thesis
  proof (cases "s' = s \<or> s' = s1")
    case False
    then obtain seen w json w' f where st: "il_state s1 = Some (seen, w)" and ser: "cd_ser cd e = Some json" and
      rec: "writer_record (ae_entry env) (ae_header env) w (il_index s1) (ulid (le_id e))
              (word_of_nat (Suc (length json))) = (w', f)" and
      s': "s' = s1\<lparr>il_log := Some (il_bytes s1 @ json @ [NL]), il_state := Some (insert (ulid (le_id e)) seen, w'), il_index := f\<rparr>"
      using assms(3,4)
      by (auto simp: append_indexed_def s1_def parse_def Let_def split: if_splits option.splits prod.splits append_io.splits)
    let ?L = "il_bytes s1" and ?r = "(length (il_bytes s1), ulid (le_id e))"
    have json: "cd_parse cd json = Some e" "json \<noteq> []" "NL \<notin> set json" using assms(1) ser by (auto simp: codec_ok_def)
    have tail: "log_tail ?L = []" and ft: "file_true (log_records parse ?L) (il_index s1)"
      using inv1 by (simp_all add: index_inv_def Let_def parse_def)
    have L': "il_bytes s' = ?L @ json @ [NL]" by (simp add: s' il_bytes_def)
    have R': "log_records parse (il_bytes s') = log_records parse ?L @ [?r]"
      unfolding L' using tail json by (intro log_records_snoc) (simp_all add: parse_def record_ulid_def)
    have fit': "fit (log_records parse ?L @ [?r])" using fit_log_records [OF assms(5), of parse] R' by simp
    have tail': "log_tail (il_bytes s') = []" using raw_lines_snoc_tail [OF tail json(3)] by (simp add: L')
    have "file_true (log_records parse ?L @ [?r]) f \<and>
          (\<not> iw_degraded w' \<longrightarrow> synced (il_bytes s') (log_records parse ?L @ [?r]) w' f)"
    proof (cases "iw_degraded w")
      case True
      then have "f = il_index s1" "iw_degraded w'"
        using rec record_degraded by blast+
      then show ?thesis using ft file_true_mono by blast
    next
      case False
      then have "synced ?L (log_records parse ?L) w (il_index s1)"
        using inv1 st by (simp add: index_inv_def Let_def parse_def)
      from record_inv [OF this refl _ fit' _ rec, of "il_bytes s'"] assms(5) show ?thesis by (simp add: L')
    qed
    then show ?thesis using assms(5) tail' R' by (simp add: index_inv_def Let_def parse_def [symmetric] s' il_bytes_def)
  qed (use assms(2) inv1 in auto)
qed

lemma rebuild_inv:
  assumes "index_inv cd ulid s" and "rebuild_index (record_ulid cd ulid) env cached s = (b, s')"
  shows "index_inv cd ulid s'"
proof -
  obtain finished seen w f where sc: "scan (record_ulid cd ulid) (ae_publish env) SAMPLE_INTERVAL_BYTES
      (scan_input (ae_scan env) (il_log s)) (il_index s) = (finished, seen, w, f)"
    by (metis prod_cases4)
  have ok: "file_true (log_records (record_ulid cd ulid) (il_bytes s)) f \<and>
        (\<not> iw_degraded w \<longrightarrow> synced (il_bytes s) (log_records (record_ulid cd ulid) (il_bytes s)) w f)"
    using assms(1) sc by (intro scan_inv [OF _ _ refl]) (auto simp: index_inv_def Let_def dest: scan_input_cases)
  have "\<not> finished \<Longrightarrow> f = il_index s"
    using sc by (auto simp: scan_def Let_def split: log_open.splits prod.splits option.splits)
  then show ?thesis using assms ok sc
    by (cases finished) (auto simp: rebuild_index_def index_inv_def Let_def il_bytes_def)
qed

subsection \<open>Sessions\<close>

inductive index_step :: "'ev codec \<Rightarrow> (str \<Rightarrow> event_id) \<Rightarrow> indexed_log \<Rightarrow> indexed_log \<Rightarrow> bool" for cd ulid where
  step_append: "append_indexed cd ulid env s e = (res, s') \<Longrightarrow> \<forall>k. ae_log env \<noteq> IO_Torn k \<Longrightarrow>
     length (il_bytes s') < 2 ^ 64 \<Longrightarrow> index_step cd ulid s s'"
| step_restart: "index_step cd ulid s (restart s)"
| step_rebuild: "rebuild_index (record_ulid cd ulid) env cached s = (b, s') \<Longrightarrow> index_step cd ulid s s'"

inductive index_reachable :: "'ev codec \<Rightarrow> (str \<Rightarrow> event_id) \<Rightarrow> indexed_log \<Rightarrow> bool" for cd ulid where
  reach_new: "index_reachable cd ulid \<lparr>il_log = None, il_state = None, il_index = None\<rparr>"
| reach_step: "index_reachable cd ulid s \<Longrightarrow> index_step cd ulid s s' \<Longrightarrow> index_reachable cd ulid s'"

lemma index_reachable_inv: "index_reachable cd ulid s \<Longrightarrow> codec_ok cd \<Longrightarrow> index_inv cd ulid s"
proof (induction rule: index_reachable.induct)
  case reach_new
  then show ?case by (simp add: index_inv_def il_bytes_def file_true_def)
next
  case (reach_step s s')
  from reach_step.hyps(2) show ?case
  proof cases
    case (step_append env e res)
    then show ?thesis using append_inv reach_step by blast
  next
    case step_restart
    then show ?thesis using reach_step by (simp add: restart_def index_inv_def il_bytes_def Let_def)
  next
    case (step_rebuild env cached b)
    then show ?thesis using rebuild_inv reach_step by blast
  qed
qed

subsection \<open>What queries answer\<close>

lemma file_answers:
  assumes "file_true R f" and "reader_open f n first = Some r" and "floor_by_ordinal (case f of None \<Rightarrow> [] | Some b \<Rightarrow> b) r t = Some e"
  shows "entry_true R e \<and> lie_ordinal e \<le> t"
proof -
  obtain b where b: "f = Some b" "\<not> length b < HEADER_LEN" "length b \<le> MAX_INDEX_FILE_BYTES"
    using assms(2) by (auto simp: reader_open_def split: option.splits if_splits)
  then obtain head es torn where i: "b = index_bytes head es torn" "length head = HEADER_LEN" "length torn < ENTRY_LEN"
    "\<forall>e\<in>set es. entry_true R e" "rising es" using assms(1) unfolding file_true_def by blast
  have small: "length (index_bytes head es torn) < 2 ^ 64" using b(3) i(1) by (simp add: MAX_INDEX_FILE_BYTES_def)
  have "lir_count r = length es" using assms(2) i(3) by (simp add: b(1) i(1) reader_open_bytes [OF i(2)])
  then have "floor_entry es t = Some e"
    using assms(3) floor_by_ordinal_bytes [OF i(2) small i(5)] by (simp add: b(1) i(1))
  then show ?thesis using floor_entry_in i(4) by blast
qed


lemma synced_floor:
  assumes "synced L R w f" and "fit R" and "R \<noteq> []" and "snd (hd R) \<noteq> 0"
    and "\<forall>b. f = Some b \<longrightarrow> length b \<le> MAX_INDEX_FILE_BYTES"
  shows "\<exists>r es lst. reader_open f (length L) (Some (snd (hd R))) = Some r \<and> samples 262144 R = (lst, length R, es) \<and>
           floor_by_ordinal (case f of None \<Rightarrow> [] | Some b \<Rightarrow> b) r t = floor_entry es t"
proof -
  obtain head es c where at: "writer_at w R es" and f: "f = Some (index_bytes head es [])"
    and head: "length head = HEADER_LEN" and iv: "iw_interval w = SAMPLE_INTERVAL_BYTES" and c: "unat c \<le> length L"
      "head = header_encode \<lparr>lih_interval = iw_interval w, lih_first_event = iw_first_event w, lih_covered_len = c\<rparr>"
    using assms(1,3) unfolding synced_def by blast
  define h where "h = \<lparr>lih_interval = iw_interval w, lih_first_event = iw_first_event w, lih_covered_len = c\<rparr>"
  have first: "iw_first_event w = Some (snd (hd R))" using at assms(3) by (auto simp: writer_at_def split: list.splits)
  have hd: "header_decode head = Some h"
    unfolding c(2) h_def using header_roundtrip [of _ "[]"] first assms(4) iv by (simp add: SAMPLE_INTERVAL_BYTES_def)
  have r: "reader_open f (length L) (Some (snd (hd R))) = Some \<lparr>lir_header = h, lir_count = length es\<rparr>"
    unfolding f using hd c(1) first assms(5) f by (subst reader_open_bytes [OF head]) (simp_all add: h_def)
  obtain lst where s: "samples (unat (iw_interval w)) R = (lst, length R, es)" using at by (auto simp: writer_at_def)
  have small: "length (index_bytes head es []) < 2 ^ 64" using assms(5) f by (auto simp: MAX_INDEX_FILE_BYTES_def)
  have "rising es" using samples_true [OF assms(2) s] by simp
  then have "floor_by_ordinal (index_bytes head es []) \<lparr>lir_header = h, lir_count = length es\<rparr> t = floor_entry es t"
    using floor_by_ordinal_bytes [OF head small] by simp
  then show ?thesis using r s iv by (auto simp: f SAMPLE_INTERVAL_BYTES_def)
qed


subsection \<open>The index never changes what the log gets\<close>

lemma scan_loop_seen:
  "fst (snd (scan_loop parse w seen position ordinal raws)) = seen \<union> snd ` set (records_from parse off raws)"
proof (induction raws arbitrary: w seen position ordinal off)
  case (Cons raw raws)
  show ?case
    by (simp add: Let_def Cons.IH [of _ _ _ _ "off + length raw"] split: option.splits prod.splits)
qed simp

lemma line_text_raw: "NL \<notin> set l \<Longrightarrow> line_text (l @ [NL]) = l" "NL \<notin> set t \<Longrightarrow> line_text t = t"
  by (auto simp: line_text_def ends_char_def dest: last_in_set)

lemma records_ids:
  "snd ` set (records_from parse off raws) = set (List.map_filter parse (filter (\<lambda>l. l \<noteq> []) (map line_text raws)))"
  by (induction raws arbitrary: off) (auto simp: List.map_filter_simps split: option.splits if_splits)

lemma map_filter_ulid:
  "set (List.map_filter (record_ulid cd ulid) ls) = ulid ` set (map le_id (List.map_filter (cd_parse cd) ls))"
  by (induction ls) (auto simp: List.map_filter_simps record_ulid_def split: option.splits)

lemma log_records_ids: "snd ` set (log_records (record_ulid cd ulid) L) = ulid ` cold_scan cd L"
proof -
  have "map line_text (map (\<lambda>l. l @ [NL]) (log_lines L)) = log_lines L"
    using log_content(2) [of L] by (auto simp: line_text_raw intro: map_idI)
  then have "filter (\<lambda>l. l \<noteq> []) (map line_text (raw_lines L)) = filter (\<lambda>l. l \<noteq> []) (log_lines L @ [log_tail L])"
    using log_content(3) [of L] by (simp add: raw_lines_def line_text_raw)
  then show ?thesis by (simp add: log_records_def records_ids cold_scan_def map_filter_ulid image_image)
qed

lemma scan_seen:
  assumes "scan (record_ulid cd ulid) io iv (scan_input SI_Ok log) f = (b, seen, w, f')"
  shows "seen = ulid ` cold_scan cd (case log of None \<Rightarrow> [] | Some L \<Rightarrow> L)"
proof (cases log)
  case None
  then show ?thesis using assms by (auto simp: scan_input_def scan_def cold_scan_def List.map_filter_simps split: prod.splits)
next
  case (Some L)
  then have "seen = fst (snd (scan_loop (record_ulid cd ulid) ((writer_new iv)\<lparr>iw_buffered := Some []\<rparr>) {} 0 0 (raw_lines L)))"
    using assms by (auto simp: scan_input_def scan_def Let_def split: prod.splits)
  also have "\<dots> = snd ` set (log_records (record_ulid cd ulid) L)"
    by (simp add: scan_loop_seen [of _ _ _ _ _ _ 0] log_records_def)
  finally show ?thesis using Some by (simp add: log_records_ids)
qed

text \<open>Maintaining the index refines the plain append: with the log and the set of written ids read off, every
  append gives the same result and the same log bytes, on every branch and whatever the index writes do.\<close>

lemma append_indexed_refines:
  assumes "inj_on ulid (insert (le_id e) (case sf_seen f of Some x \<Rightarrow> x | None \<Rightarrow> cold_scan cd (log_bytes f)))"
    and "ae_scan env = SI_Ok"
    and "sf_log f = il_log s" and "map_option ((`) ulid) (sf_seen f) = map_option fst (il_state s)"
    and "append_indexed cd ulid env s e = (res, s')" and "append_sync cd (ae_log env) f e = (res', f')"
  shows "res = map_sum (\<lambda>x. x) ulid res' \<and> sf_log f' = il_log s' \<and>
         map_option ((`) ulid) (sf_seen f') = map_option fst (il_state s')"
proof -
  define s1 where "s1 = load_write_state (record_ulid cd ulid) env s"
  define seen where "seen = (case sf_seen f of Some x \<Rightarrow> x | None \<Rightarrow> cold_scan cd (log_bytes f))"
  have bytes: "log_bytes f = il_bytes s" using assms(3) by (simp add: log_bytes_def il_bytes_def)
  obtain w where s1: "il_state s1 = Some (ulid ` seen, w)" "il_log s1 = il_log s"
  proof (cases "il_state s")
    case None
    then have "sf_seen f = None" using assms(4) by simp
    moreover obtain b sn w g where sc: "scan (record_ulid cd ulid) (ae_publish env) SAMPLE_INTERVAL_BYTES
        (scan_input SI_Ok (il_log s)) (il_index s) = (b, sn, w, g)" by (metis prod_cases4)
    ultimately show thesis using that [of w] None assms(2) scan_seen [OF sc]
      by (simp add: s1_def load_write_state_def seen_def bytes il_bytes_def)
  next
    case (Some p)
    then show thesis using that assms(4) by (cases p) (auto simp: s1_def load_write_state_def seen_def)
  qed
  have b1: "il_bytes s1 = il_bytes s" using s1(2) by (simp add: il_bytes_def)
  have mem: "ulid (le_id e) \<in> ulid ` seen \<longleftrightarrow> le_id e \<in> seen" using assms(1) by (auto simp: seen_def [symmetric] inj_on_def)
  show ?thesis
    using assms(3-6) s1 mem b1 bytes
    unfolding append_indexed_def append_sync_def s1_def [symmetric] seen_def [symmetric] Let_def
    by (auto split: if_splits option.splits append_io.splits prod.splits)
qed

subsection \<open>A torn log\<close>

text \<open>A record appended behind a torn line is lost although the append reports success: the bytes of the line a
  crash cut short and of the new record become one line, and when that line does not parse the log holds
  exactly the records of its whole lines, as if the append had not happened.\<close>

lemma torn_tail_loses_record:
  assumes "codec_ok cd" and "il_state s = None" and "il_log s = Some L" and "log_tail L \<noteq> []"
    and "ae_log env = IO_Ok" and "ae_scan env = SI_Ok" and "cd_ser cd e = Some json"
    and "ulid (le_id e) \<notin> snd ` set (log_records (record_ulid cd ulid) L)"
    and "cd_parse cd (log_tail L @ json) = None"
  shows "\<exists>s'. append_indexed cd ulid env s e = (Inr (ulid (le_id e)), s') \<and>
      log_records (record_ulid cd ulid) (il_bytes s') =
        log_records (record_ulid cd ulid) (unlines_nl (log_lines L))"
proof -
  have json: "NL \<notin> set json" using assms(1,7) by (auto simp: codec_ok_def)
  define t where "t = log_tail L"
  define ls where "ls = log_lines L"
  have L: "L = unlines_nl ls @ t" "\<forall>l\<in>set ls. NL \<notin> set l" "NL \<notin> set t"
    using log_content [of L] by (simp_all add: ls_def t_def)
  obtain b seen w f where sc: "scan (record_ulid cd ulid) (ae_publish env) SAMPLE_INTERVAL_BYTES
      (scan_input SI_Ok (Some L)) (il_index s) = (b, seen, w, f)" by (metis prod_cases4)
  have "ulid (le_id e) \<notin> seen" using scan_seen [OF sc] assms(8) by (simp add: log_records_ids)
  moreover obtain w' f' where "writer_record (ae_entry env) (ae_header env) w f (ulid (le_id e))
      (word_of_nat (length (json @ [NL]))) = (w', f')" by (metis surj_pair)
  ultimately obtain s' where s': "append_indexed cd ulid env s e = (Inr (ulid (le_id e)), s')" "il_bytes s' = L @ json @ [NL]"
    using assms(2,3,5-7) sc by (simp add: append_indexed_def load_write_state_def Let_def il_bytes_def)
  have "L @ json @ [NL] = unlines_nl ls @ (t @ json) @ [NL]" by (simp add: L(1))
  moreover have ls: "log_tail (unlines_nl ls) = []" "log_lines (unlines_nl ls) = ls"
    using log_lines_unlines [of ls "[]"] L(2) by simp_all
  ultimately have "raw_lines (il_bytes s') = raw_lines (unlines_nl ls) @ [(t @ json) @ [NL]]"
    using raw_lines_snoc [of "unlines_nl ls" "t @ json"] L(3) json s'(2) by simp
  moreover have "line_text ((t @ json) @ [NL]) = t @ json" using L(3) json by (intro line_text_raw) auto
  moreover have "record_ulid cd ulid (t @ json) = None" using assms(9) by (simp add: record_ulid_def t_def)
  ultimately have "log_records (record_ulid cd ulid) (il_bytes s') = log_records (record_ulid cd ulid) (unlines_nl ls)"
    by (simp add: log_records_def records_from_append)
  then show ?thesis using s'(1) by (auto simp: ls_def)
qed

subsection \<open>Witnesses\<close>

definition demo_ulid :: "str \<Rightarrow> event_id" where
  "demo_ulid s = (case s of [] \<Rightarrow> 0 | c # _ \<Rightarrow> word_of_nat (of_char c))"

definition env_ok :: append_env where
  "env_ok = \<lparr>ae_log = IO_Ok, ae_scan = SI_Ok, ae_publish = WI_Ok, ae_entry = WI_Ok, ae_header = WI_Ok\<rparr>"

definition demo_log0 :: indexed_log where
  "demo_log0 = \<lparr>il_log = None, il_state = None, il_index = None\<rparr>"

definition demo_log1 :: indexed_log where
  "demo_log1 = snd (append_indexed demo_codec demo_ulid env_ok demo_log0 (demo_entry ''a'' None))"

lemma demo_load:
  "load_write_state parse env_ok demo_log0 =
     \<lparr>il_log = None, il_state = Some ({}, (writer_new SAMPLE_INTERVAL_BYTES)\<lparr>iw_live := True\<rparr>),
      il_index = Some (replicate HEADER_LEN 0)\<rparr>"
  by (simp add: load_write_state_def demo_log0_def env_ok_def scan_input_def scan_def writer_begin_def file_write_def
      write_at_def report_def)

lemma demo_line: "cd_ser demo_codec (demo_entry ''a'' None) = Some ''a|-''" "cd_parse demo_codec ''a|-'' = Some (demo_entry ''a'' None)"
  by code_simp+

lemma demo_append:
  "\<exists>w f. append_indexed demo_codec demo_ulid env_ok demo_log0 (demo_entry ''a'' None) =
     (Inr 97, \<lparr>il_log = Some (''a|-'' @ [NL]), il_state = Some ({97}, w), il_index = Some f\<rparr>) \<and>
     \<not> iw_degraded w \<and> length f = 76"
proof -
  let ?w = "(writer_new SAMPLE_INTERVAL_BYTES)\<lparr>iw_live := True\<rparr>"
  have e: "ae_log env_ok = IO_Ok" "ae_entry env_ok = WI_Ok" "ae_header env_ok = WI_Ok" by (simp_all add: env_ok_def)
  have u: "demo_ulid (le_id (demo_entry ''a'' None)) = 97" by (simp add: demo_ulid_def demo_entry_def)
  obtain w f where r: "writer_record WI_Ok WI_Ok ?w (Some (replicate HEADER_LEN 0)) 97 4 = (w, Some f)"
    "\<not> iw_degraded w" "length f = 76"
    by (simp add: writer_record_def observe_def writer_new_def sample_due_def file_write_def write_at_def report_def
        publish_header_def HEADER_LEN_def ENTRY_LEN_def)
  then show ?thesis by (simp add: append_indexed_def e u demo_load demo_line il_bytes_def)
qed

lemma demo_log1_facts:
  "il_log demo_log1 = Some (''a|-'' @ [NL])" "il_bytes demo_log1 = ''a|-'' @ [NL]"
  "\<exists>w. il_state demo_log1 = Some ({97}, w) \<and> \<not> iw_degraded w" "\<exists>f. il_index demo_log1 = Some f \<and> length f = 76"
  using demo_append by (auto simp: demo_log1_def il_bytes_def)

lemma demo_records: "log_records (record_ulid demo_codec demo_ulid) (''a|-'' @ [NL]) = [(0, 97)]"
  by code_simp

lemma demo_first: "first_record_id (record_ulid demo_codec demo_ulid) (Some (''a|-'' @ [NL])) = Some (Some 97)"
proof -
  have "List.map_filter (record_ulid demo_codec demo_ulid) (filter (\<lambda>l. l \<noteq> []) (split_by (\<lambda>c. c = NL) (''a|-'' @ [NL]))) = [97]"
    by code_simp
  then show ?thesis by (simp add: first_record_id_def FIRST_RECORD_READ_BYTES_def min_def)
qed

lemma demo_log1_reachable: "index_reachable demo_codec demo_ulid demo_log1"
proof -
  obtain res where "append_indexed demo_codec demo_ulid env_ok demo_log0 (demo_entry ''a'' None) = (res, demo_log1)"
    by (metis demo_log1_def surj_pair snd_conv)
  then have "index_step demo_codec demo_ulid demo_log0 demo_log1"
    by (rule step_append) (simp_all add: env_ok_def il_bytes_def demo_log1_facts(1))
  then show ?thesis using reach_step [OF reach_new] by (simp add: demo_log0_def)
qed




definition strict_parse :: "str \<Rightarrow> unit log_entry option" where
  "strict_parse l = (case demo_parse l of Some e \<Rightarrow> if demo_ser e = Some l then Some e else None | None \<Rightarrow> None)"

definition strict_codec :: "unit codec" where
  "strict_codec = demo_codec\<lparr>cd_parse := strict_parse\<rparr>"

lemma strict_codec_ok: "codec_ok strict_codec"
  using demo_codec_ok by (auto simp: codec_ok_def strict_codec_def demo_codec_def strict_parse_def)


end
