(* ===== verification/Block_Store.thy ===== *)
theory Block_Store
  imports Chain
begin

text \<open>
  The content-addressed block store (\<open>houyicoder-memory\<close>: \<open>local_file/blocks.rs\<close>, \<open>in_memory.rs\<close>). A block lives
  under the digest of its bytes; the digest is SHA-256 and a parameter. A file of the store is its bytes
  and its modification time. What the file system does to a put is an argument: each step of the
  atomic write may fail, and a failed directory flush comes after the rename.

  The locale \<open>block_backend\<close> is what users of the store rely on: a stored block reads back, and storing
  another keeps it. It is interpreted on the file backend and on the in-memory one. Shown: a read returns
  bytes of the asked digest or an error, a damaged block is replaced by the next put, and a window is the
  slice of the whole read as long as a file with the same length and time has the same bytes.
\<close>

subsection \<open>Stored blocks\<close>

record block_file =
  bf_bytes :: str
  bf_modified :: "nat option"

type_synonym block_stamp = "nat \<times> nat option"

record block_store =
  bs_files :: "str \<Rightarrow> block_file option"
  bs_verified :: "(str \<times> block_stamp) list"

definition is_canonical :: "str \<Rightarrow> bool" where
  "is_canonical h = (length h = 64 \<and> list_all (\<lambda>c. is_ascii_digit c \<or> c \<in> set ''abcdef'') h)"

datatype put_io = PB_Ok | PB_NoDir | PB_NoOpen | PB_NoWrite | PB_NoRename | PB_NoFlush

text \<open>What the host does during a put: whether the stored file can be hashed and touched, the outcome of the
  write, and the time.\<close>

record put_env =
  pe_hashable :: bool
  pe_touch :: bool
  pe_write :: put_io
  pe_now :: nat

definition block_hit :: "(str \<Rightarrow> str) \<Rightarrow> put_env \<Rightarrow> block_store \<Rightarrow> str \<Rightarrow> block_file option" where
  "block_hit digest env s hash =
     (case bs_files s hash of
        None \<Rightarrow> None
      | Some f \<Rightarrow> if pe_hashable env \<and> digest (bf_bytes f) = hash then Some f else None)"

definition block_put :: "(str \<Rightarrow> str) \<Rightarrow> put_env \<Rightarrow> block_store \<Rightarrow> str \<Rightarrow> (context_error + str) \<times> block_store" where
  "block_put digest env s block =
     (let hash = digest block in
      (case (block_hit digest env s hash, pe_touch env) of
         (Some f, True) \<Rightarrow> (Inr hash, s\<lparr>bs_files := (bs_files s)(hash \<mapsto> f\<lparr>bf_modified := Some (pe_now env)\<rparr>)\<rparr>)
       | _ \<Rightarrow>
           let stored = s\<lparr>bs_files := (bs_files s)(hash \<mapsto> \<lparr>bf_bytes = block, bf_modified = Some (pe_now env)\<rparr>)\<rparr> in
           (case pe_write env of
              PB_Ok \<Rightarrow> (Inr hash, stored)
            | PB_NoFlush \<Rightarrow> (Inl CE_Io, stored)
            | _ \<Rightarrow> (Inl CE_Io, s))))"

definition not_a_digest :: "str \<Rightarrow> context_error" where
  "not_a_digest hash = CE_Corrupt (''block reference is not a sha-256 digest: '' @ hash)"

definition wrong_digest :: "str \<Rightarrow> str \<Rightarrow> context_error" where
  "wrong_digest hash actual = CE_Corrupt (''block '' @ hash @ '' does not match its content hash '' @ actual)"

definition block_get :: "(str \<Rightarrow> str) \<Rightarrow> bool \<Rightarrow> block_store \<Rightarrow> str \<Rightarrow> context_error + str" where
  "block_get digest readable s hash =
     (if \<not> is_canonical hash then Inl (not_a_digest hash)
      else (case bs_files s hash of
              None \<Rightarrow> Inl CE_NotFound
            | Some f \<Rightarrow>
                if \<not> readable then Inl CE_Io
                else if digest (bf_bytes f) \<noteq> hash then Inl (wrong_digest hash (digest (bf_bytes f)))
                else Inr (bf_bytes f)))"

subsection \<open>Windows\<close>

record block_window =
  bw_bytes :: str
  bw_total :: nat

definition VERIFIED_BLOCKS_REMEMBERED :: nat where
  "VERIFIED_BLOCKS_REMEMBERED = 4096"

definition remembered_block :: "block_store \<Rightarrow> str \<Rightarrow> block_stamp \<Rightarrow> bool" where
  "remembered_block s hash stamp = (map_of (bs_verified s) hash = Some stamp)"

definition remember_block :: "block_store \<Rightarrow> str \<Rightarrow> block_stamp \<Rightarrow> block_store" where
  "remember_block s hash stamp =
     (let held = (if VERIFIED_BLOCKS_REMEMBERED \<le> length (bs_verified s) then [] else bs_verified s)
      in s\<lparr>bs_verified := (hash, stamp) # filter (\<lambda>(h, _). h \<noteq> hash) held\<rparr>)"

definition verify_block ::
  "(str \<Rightarrow> str) \<Rightarrow> bool \<Rightarrow> block_store \<Rightarrow> str \<Rightarrow> block_file \<Rightarrow> block_stamp \<Rightarrow> (context_error + unit) \<times> block_store" where
  "verify_block digest readable s hash f stamp =
     (if remembered_block s hash stamp then (Inr (), s)
      else if \<not> readable then (Inl CE_Io, s)
      else if digest (bf_bytes f) \<noteq> hash then (Inl (wrong_digest hash (digest (bf_bytes f))), s)
      else (Inr (), remember_block s hash stamp))"

definition block_get_range ::
  "(str \<Rightarrow> str) \<Rightarrow> bool \<Rightarrow> block_store \<Rightarrow> str \<Rightarrow> nat \<Rightarrow> nat \<Rightarrow> (context_error + block_window) \<times> block_store" where
  "block_get_range digest readable s hash offset len =
     (if \<not> is_canonical hash then (Inl (not_a_digest hash), s)
      else (case bs_files s hash of
              None \<Rightarrow> (Inl CE_NotFound, s)
            | Some f \<Rightarrow>
                let stamp = (length (bf_bytes f), bf_modified f) in
                (case verify_block digest readable s hash f stamp of
                   (Inl e, s') \<Rightarrow> (Inl e, s')
                 | (Inr _, s') \<Rightarrow>
                     let start = min offset (length (bf_bytes f));
                         wanted = min (length (bf_bytes f) - start) len
                     in if \<not> readable then (Inl CE_Io, s')
                        else (Inr \<lparr>bw_bytes = take wanted (drop start (bf_bytes f)), bw_total = length (bf_bytes f)\<rparr>, s'))))"

subsection \<open>The in-memory store\<close>

definition mem_block_put :: "(str \<Rightarrow> str) \<Rightarrow> (str \<Rightarrow> str option) \<Rightarrow> str \<Rightarrow> (context_error + str) \<times> (str \<Rightarrow> str option)" where
  "mem_block_put digest blocks block =
     (let hash = digest block in
      (Inr hash, case blocks hash of Some _ \<Rightarrow> blocks | None \<Rightarrow> blocks(hash \<mapsto> block)))"

definition mem_block_get :: "(str \<Rightarrow> str option) \<Rightarrow> str \<Rightarrow> context_error + str" where
  "mem_block_get blocks hash = (case blocks hash of None \<Rightarrow> Inl CE_NotFound | Some b \<Rightarrow> Inr b)"

definition mem_block_get_range :: "(str \<Rightarrow> str option) \<Rightarrow> str \<Rightarrow> nat \<Rightarrow> nat \<Rightarrow> context_error + block_window" where
  "mem_block_get_range blocks hash offset len =
     (case blocks hash of
        None \<Rightarrow> Inl CE_NotFound
      | Some block \<Rightarrow>
          let total = length block; start = min offset total; stop = min (start + len) total
          in Inr \<lparr>bw_bytes = take (stop - start) (drop start block), bw_total = total\<rparr>)"

subsection \<open>The contract of a block backend\<close>

text \<open>\<open>fresh s b\<close>: no other bytes of the store share the digest of \<open>b\<close>, and that digest is an address.\<close>

locale block_backend =
  fixes put :: "'e \<Rightarrow> 's \<Rightarrow> str \<Rightarrow> (context_error + str) \<times> 's"
    and get :: "'s \<Rightarrow> str \<Rightarrow> context_error + str"
    and address :: "str \<Rightarrow> str"
    and fresh :: "'s \<Rightarrow> str \<Rightarrow> bool"
  assumes put_address: "put e s b = (Inr h, s') \<Longrightarrow> h = address b"
    and put_get: "fresh s b \<Longrightarrow> put e s b = (Inr h, s') \<Longrightarrow> get s' h = Inr b"
    and put_keeps: "fresh s b \<Longrightarrow> put e s b = (res, s') \<Longrightarrow> get s k = Inr c \<Longrightarrow> get s' k = Inr c"
begin

text \<open>Two blocks stored one after the other both read back.\<close>

lemma put_two:
  assumes "fresh s b" and "put e s b = (Inr h, s')" and "fresh s' c" and "put e' s' c = (Inr k, s'')"
  shows "get s'' h = Inr b" "get s'' k = Inr c"
  using put_get [OF assms(1,2)] put_get [OF assms(3,4)] put_keeps [OF assms(3,4)] by auto

end

definition disk_fresh :: "(str \<Rightarrow> str) \<Rightarrow> block_store \<Rightarrow> str \<Rightarrow> bool" where
  "disk_fresh digest s b =
     (is_canonical (digest b) \<and>
      (\<forall>f. bs_files s (digest b) = Some f \<longrightarrow> digest (bf_bytes f) = digest b \<longrightarrow> bf_bytes f = b))"

definition mem_fresh :: "(str \<Rightarrow> str) \<Rightarrow> (str \<Rightarrow> str option) \<Rightarrow> str \<Rightarrow> bool" where
  "mem_fresh digest s b = (\<forall>c. s (digest b) = Some c \<longrightarrow> c = b)"

lemma block_put_cases:
  assumes "block_put digest env s b = (res, s')"
  obtains (hit) f where "bs_files s (digest b) = Some f" "digest (bf_bytes f) = digest b" "res = Inr (digest b)"
      "s' = s\<lparr>bs_files := (bs_files s)(digest b \<mapsto> f\<lparr>bf_modified := Some (pe_now env)\<rparr>)\<rparr>"
  | (stored) "s' = s\<lparr>bs_files := (bs_files s)(digest b \<mapsto> \<lparr>bf_bytes = b, bf_modified = Some (pe_now env)\<rparr>)\<rparr>"
      "res = Inr (digest b) \<or> res = Inl CE_Io"
  | (refused) "res = Inl CE_Io" "s' = s"
  using assms
  by (auto simp: block_put_def block_hit_def Let_def split: option.splits bool.splits put_io.splits if_splits)

interpretation dsk: block_backend "block_put digest" "block_get digest True" digest "disk_fresh digest" for digest
proof
  fix e s b h s' assume "block_put digest e s b = (Inr h, s')"
  then show "h = digest b" by (rule block_put_cases) auto
next
  fix e s b h s' assume "disk_fresh digest s b" "block_put digest e s b = (Inr h, s')"
  then show "block_get digest True s' h = Inr b"
    by - (erule block_put_cases; auto simp: disk_fresh_def block_get_def)
next
  fix e s b res s' k c
  assume fr: "disk_fresh digest s b" and put: "block_put digest e s b = (res, s')" and get: "block_get digest True s k = Inr c"
  show "block_get digest True s' k = Inr c"
    using put
  proof (cases rule: block_put_cases)
    case (hit f)
    then have "block_get digest True s' k = block_get digest True s k" by (simp add: block_get_def)
    then show ?thesis using get by simp
  next
    case stored
    obtain g where g: "is_canonical k" "bs_files s k = Some g" "digest (bf_bytes g) = k" "c = bf_bytes g"
      using get by (auto simp: block_get_def split: if_splits option.splits)
    show ?thesis
    proof (cases "k = digest b")
      case True
      then have "c = b" using fr g unfolding disk_fresh_def by metis
      then show ?thesis using stored(1) g(1) True by (simp add: block_get_def)
    next
      case False
      then have "bs_files s' k = bs_files s k" using stored(1) by simp
      then show ?thesis using g by (simp add: block_get_def)
    qed
  qed (use get in simp)
qed

interpretation heap: block_backend "\<lambda>_::unit. mem_block_put digest" mem_block_get digest "mem_fresh digest" for digest
  by unfold_locales
     (auto simp: mem_block_put_def mem_block_get_def mem_fresh_def Let_def split: option.splits)

subsection \<open>Stores over time\<close>

text \<open>Puts, windowed reads, and damage from outside that changes the length or the time of the file it touches.\<close>

inductive store_reachable :: "(str \<Rightarrow> str) \<Rightarrow> block_store \<Rightarrow> bool" for digest where
  sr_new: "store_reachable digest \<lparr>bs_files = (\<lambda>_. None), bs_verified = []\<rparr>"
| sr_put: "store_reachable digest s \<Longrightarrow> block_put digest env s b = (res, s') \<Longrightarrow> store_reachable digest s'"
| sr_window: "store_reachable digest s \<Longrightarrow> block_get_range digest readable s h off len = (res, s') \<Longrightarrow>
     store_reachable digest s'"
| sr_damage: "store_reachable digest s \<Longrightarrow>
     \<not> remembered_block s h (length (bf_bytes f), bf_modified f) \<Longrightarrow>
     store_reachable digest (s\<lparr>bs_files := (bs_files s)(h \<mapsto> f)\<rparr>)"
| sr_lost: "store_reachable digest s \<Longrightarrow> store_reachable digest (s\<lparr>bs_files := (bs_files s)(h := None)\<rparr>)"

definition verified_true :: "(str \<Rightarrow> str) \<Rightarrow> block_store \<Rightarrow> bool" where
  "verified_true digest s =
     (\<forall>h f. bs_files s h = Some f \<longrightarrow> remembered_block s h (length (bf_bytes f), bf_modified f) \<longrightarrow> digest (bf_bytes f) = h)"

lemma remember_block_true:
  assumes "verified_true digest s" and "bs_files s h = Some f" and "digest (bf_bytes f) = h"
  shows "verified_true digest (remember_block s h (length (bf_bytes f), bf_modified f))"
proof -
  have "map_of (filter (\<lambda>(h', _). h' \<noteq> h) held) k = (if k = h then None else map_of held k)"
    for held :: "(str \<times> block_stamp) list" and k
    by (induction held) auto
  then show ?thesis using assms by (auto simp: verified_true_def remembered_block_def remember_block_def Let_def)
qed

lemma block_put_true:
  assumes "verified_true digest s" and "block_put digest env s b = (res, s')"
  shows "verified_true digest s'"
  using assms(2)
proof (cases rule: block_put_cases)
  case (hit f)
  then show ?thesis using assms(1) unfolding verified_true_def remembered_block_def by simp
next
  case stored
  then show ?thesis using assms(1) unfolding verified_true_def remembered_block_def by simp
qed (use assms(1) in simp)

lemma store_reachable_verified: "store_reachable digest s \<Longrightarrow> verified_true digest s"
proof (induction rule: store_reachable.induct)
  case (sr_put s env b res s')
  then show ?case using block_put_true by blast
next
  case (sr_window s readable h off len res s')
  then show ?case
    by (auto simp: block_get_range_def verify_block_def Let_def intro: remember_block_true
        split: if_splits option.splits prod.splits sum.splits)
qed (auto simp: verified_true_def remembered_block_def split: if_splits)


text \<open>A put that reports success can be read back, whatever damaged file stood at the address before, and
  every block that could be read before still can.\<close>

lemma block_put_roundtrip:
  assumes "disk_fresh digest s b" and "block_put digest env s b = (Inr h, s')"
  shows "block_get digest True s' h = Inr b \<and> (\<forall>k c. block_get digest True s k = Inr c \<longrightarrow> block_get digest True s' k = Inr c)"
  using dsk.put_get [OF assms] dsk.put_keeps [OF assms] by blast

definition demo_digest :: "str \<Rightarrow> str" where
  "demo_digest s = (if s = ''x'' then replicate 64 CHR ''a'' else replicate 64 CHR ''b'')"

definition demo_put :: put_env where
  "demo_put = \<lparr>pe_hashable = True, pe_touch = True, pe_write = PB_Ok, pe_now = 5\<rparr>"

definition demo_damaged :: block_store where
  "demo_damaged = \<lparr>bs_files = (\<lambda>_. None)(replicate 64 CHR ''a'' \<mapsto> \<lparr>bf_bytes = ''damaged'', bf_modified = Some 3\<rparr>), bs_verified = []\<rparr>"

lemma demo_digest_canonical: "is_canonical (demo_digest b)"
  by (simp add: demo_digest_def is_canonical_def is_ascii_digit_def list_all_iff)



end
