(* ===== verification/File_Tx.thy ===== *)
theory File_Tx
  imports Block_Store Tool_Api "HOL-Library.AList" "HOL-Library.Sublist" "HOL-Library.List_Lexorder" "HOL-Library.Char_ord"
begin

text \<open>
  Writing a file through a record that survives a crash (\<open>houyicoder-core/src/snapshot/file_transaction.rs\<close>
  with \<open>record.rs\<close>, \<open>recovery.rs\<close>, \<open>recovery/text.rs\<close>; the atomic publish is \<open>houyicoder-context/src/durable.rs\<close>,
  the write of the sandbox \<open>houyicoder-api/src/sandbox.rs\<close>). The world is the files, the block store and the
  journal: per session, a directory per recorded write. What the operating system does at each step is an
  argument. Paths resolve through a parameter; the records' JSON form is a parameter with the law that
  reading gives back what was written. The two Unix facts of a file, its mode and its identity, stay when a
  write truncates it and are chosen by the host when a write creates it.

  The texts of operating system errors are left empty. The lock of a target orders the writers of one process; a write or a recovery is one step here.
\<close>

subsection \<open>Publishing a small file (durable.rs)\<close>

type_synonym dir = "str \<Rightarrow> str option"

datatype write_error = WE_Create | WE_Write | WE_Publish | WE_Sync

fun we_published :: "write_error \<Rightarrow> bool" where
  "we_published WE_Sync = True"
| "we_published _ = False"

text \<open>What the file system does to an atomic write; the flag says whether the temporary file could be removed.\<close>

datatype atomic_io = AI_Ok | AI_NoCreate | AI_NoWrite nat bool | AI_NoRename bool | AI_NoSync

definition write_atomic :: "atomic_io \<Rightarrow> str \<Rightarrow> str \<Rightarrow> str \<Rightarrow> dir \<Rightarrow> (write_error + unit) \<times> dir" where
  "write_atomic io temp name bytes d =
     (case io of
        AI_NoCreate \<Rightarrow> (Inl WE_Create, d)
      | AI_NoWrite k removed \<Rightarrow> (Inl WE_Write, d(temp := if removed then None else Some (take k bytes)))
      | AI_NoRename removed \<Rightarrow> (Inl WE_Publish, d(temp := if removed then None else Some bytes))
      | AI_NoSync \<Rightarrow> (Inl WE_Sync, d(temp := None, name := Some bytes))
      | AI_Ok \<Rightarrow> (Inr (), d(temp := None, name := Some bytes)))"

subsection \<open>Records (record.rs)\<close>

definition TRANSACTION_SCHEMA :: nat where
  "TRANSACTION_SCHEMA = 1"

definition PREPARED_FILE :: str where
  "PREPARED_FILE = ''prepared.json''"

definition COMMITTED_FILE :: str where
  "COMMITTED_FILE = ''committed.json''"

type_synonym identity = "nat \<times> nat"

record image_record =
  im_present :: bool
  im_block_ref :: "str option"
  im_bytes :: "nat option"
  im_mode :: "nat option"
  im_identity :: "identity option"

definition image_absent :: image_record where
  "image_absent = \<lparr>im_present = False, im_block_ref = None, im_bytes = None, im_mode = None, im_identity = None\<rparr>"

record prepared_record =
  pr_schema :: nat
  pr_operation :: str
  pr_session :: str
  pr_target :: str
  pr_before :: image_record
  pr_expected_after :: image_record

definition prepared_new :: "str \<Rightarrow> str \<Rightarrow> str \<Rightarrow> image_record \<Rightarrow> image_record \<Rightarrow> prepared_record" where
  "prepared_new operation session target before expected_after =
     \<lparr>pr_schema = TRANSACTION_SCHEMA, pr_operation = operation, pr_session = session, pr_target = target,
      pr_before = before, pr_expected_after = expected_after\<rparr>"

record committed_record =
  cr_schema :: nat
  cr_operation :: str
  cr_target :: str
  cr_after :: image_record
  cr_written_ms :: nat

definition committed_new :: "str \<Rightarrow> str \<Rightarrow> image_record \<Rightarrow> nat \<Rightarrow> committed_record" where
  "committed_new operation target after written_ms =
     \<lparr>cr_schema = TRANSACTION_SCHEMA, cr_operation = operation, cr_target = target, cr_after = after,
      cr_written_ms = written_ms\<rparr>"

text \<open>The JSON form of the records: a version reader, and a printer and a reader per record.\<close>

record tx_codec =
  tc_version :: "str \<Rightarrow> nat option"
  tc_print_prepared :: "prepared_record \<Rightarrow> str option"
  tc_read_prepared :: "str \<Rightarrow> prepared_record option"
  tc_print_committed :: "committed_record \<Rightarrow> str option"
  tc_read_committed :: "str \<Rightarrow> committed_record option"

definition tx_codec_ok :: "tx_codec \<Rightarrow> bool" where
  "tx_codec_ok cd =
     ((\<forall>p b. tc_print_prepared cd p = Some b \<longrightarrow> tc_read_prepared cd b = Some p \<and> tc_version cd b = Some (pr_schema p)) \<and>
      (\<forall>c b. tc_print_committed cd c = Some b \<longrightarrow> tc_read_committed cd b = Some c \<and> tc_version cd b = Some (cr_schema c)))"

datatype record_error = RX_Directory | RX_Encode | RX_Publish write_error | RX_Read | RX_Decode | RX_Schema nat

record publish_env =
  pu_dir :: bool
  pu_atomic :: atomic_io
  pu_temp :: str

definition publish_record :: "publish_env \<Rightarrow> str \<Rightarrow> str option \<Rightarrow> dir option \<Rightarrow> (record_error + unit) \<times> dir option" where
  "publish_record env name body d =
     (if \<not> pu_dir env then (Inl RX_Directory, d)
      else
        let d1 = (case d of None \<Rightarrow> (\<lambda>_. None) | Some x \<Rightarrow> x) in
        (case body of
           None \<Rightarrow> (Inl RX_Encode, Some d1)
         | Some b \<Rightarrow>
             (case write_atomic (pu_atomic env) (pu_temp env) name b d1 of
                (Inr _, d2) \<Rightarrow> (Inr (), Some d2)
              | (Inl e, d2) \<Rightarrow> (if we_published e then Inr () else Inl (RX_Publish e), Some d2))))"

text \<open>\<open>readable\<close> is false for a file the system refuses to read for a reason other than its absence.\<close>

definition read_record :: "tx_codec \<Rightarrow> (str \<Rightarrow> 'r option) \<Rightarrow> bool \<Rightarrow> dir option \<Rightarrow> str \<Rightarrow> record_error + 'r option" where
  "read_record cd decode readable d name =
     (case (case d of None \<Rightarrow> None | Some x \<Rightarrow> x name) of
        None \<Rightarrow> Inr None
      | Some body \<Rightarrow>
          if \<not> readable then Inl RX_Read
          else (case tc_version cd body of
                  None \<Rightarrow> Inl RX_Decode
                | Some v \<Rightarrow>
                    if v \<noteq> TRANSACTION_SCHEMA then Inl (RX_Schema v)
                    else (case decode body of None \<Rightarrow> Inl RX_Decode | Some r \<Rightarrow> Inr (Some r))))"

definition read_prepared :: "tx_codec \<Rightarrow> bool \<Rightarrow> dir option \<Rightarrow> record_error + prepared_record option" where
  "read_prepared cd readable d = read_record cd (tc_read_prepared cd) readable d PREPARED_FILE"

definition read_committed :: "tx_codec \<Rightarrow> bool \<Rightarrow> dir option \<Rightarrow> record_error + committed_record option" where
  "read_committed cd readable d = read_record cd (tc_read_committed cd) readable d COMMITTED_FILE"

definition write_prepared :: "tx_codec \<Rightarrow> publish_env \<Rightarrow> dir option \<Rightarrow> prepared_record \<Rightarrow> (record_error + unit) \<times> dir option" where
  "write_prepared cd env d r = publish_record env PREPARED_FILE (tc_print_prepared cd r) d"

definition write_committed :: "tx_codec \<Rightarrow> publish_env \<Rightarrow> dir option \<Rightarrow> committed_record \<Rightarrow> (record_error + unit) \<times> dir option" where
  "write_committed cd env d r = publish_record env COMMITTED_FILE (tc_print_committed cd r) d"

subsection \<open>Files and the sandbox's write\<close>

record disk_file =
  df_bytes :: str
  df_mode :: nat
  df_identity :: identity

type_synonym files = "fpath \<Rightarrow> disk_file option"

datatype sandbox_error =
    SB_Io str
  | SB_Unsupported str
  | SB_Timeout str str str
  | SB_ResourceLimitExceeded str
  | SB_NotFound str
  | SB_PathTraversal str
  | SB_InvalidConfig str
  | SB_SandboxUnavailable str
  | SB_BreakerOpen str

datatype file_io = FI_Ok | FI_NoDir | FI_NoOpen | FI_Torn nat

text \<open>Truncate and write: an existing file keeps its mode and identity, a new one gets the host's.\<close>

definition put_bytes :: "nat \<times> identity \<Rightarrow> files \<Rightarrow> fpath \<Rightarrow> str \<Rightarrow> files" where
  "put_bytes new fs p bytes =
     (case fs p of
        None \<Rightarrow> fs(p \<mapsto> \<lparr>df_bytes = bytes, df_mode = fst new, df_identity = snd new\<rparr>)
      | Some f \<Rightarrow> fs(p \<mapsto> f\<lparr>df_bytes := bytes\<rparr>))"

definition write_file ::
  "(str \<Rightarrow> sandbox_error + fpath) \<Rightarrow> file_io \<Rightarrow> nat \<times> identity \<Rightarrow> files \<Rightarrow> str \<Rightarrow> str \<Rightarrow> (sandbox_error + unit) \<times> files" where
  "write_file resolve io new fs path content =
     (case resolve path of
        Inl e \<Rightarrow> (Inl e, fs)
      | Inr p \<Rightarrow>
          (case io of
             FI_NoDir \<Rightarrow> (Inl (SB_Io []), fs)
           | FI_NoOpen \<Rightarrow> (Inl (SB_Io []), fs)
           | FI_Torn k \<Rightarrow> (Inl (SB_Io []), put_bytes new fs p (take k content))
           | FI_Ok \<Rightarrow> (Inr (), put_bytes new fs p content)))"

subsection \<open>The recorded write (file_transaction.rs)\<close>

definition MAX_BACKUP_BYTES :: nat where
  "MAX_BACKUP_BYTES = 32 * 1024 * 1024"

type_synonym journal = "str \<Rightarrow> (str \<times> dir) list"

record tx_world =
  tw_fs :: files
  tw_store :: block_store
  tw_journal :: journal

definition op_dir :: "tx_world \<Rightarrow> str \<Rightarrow> str \<Rightarrow> dir option" where
  "op_dir w session operation = map_of (tw_journal w session) operation"

definition set_op_dir :: "tx_world \<Rightarrow> str \<Rightarrow> str \<Rightarrow> dir option \<Rightarrow> tx_world" where
  "set_op_dir w session operation d =
     (case d of
        None \<Rightarrow> w
      | Some x \<Rightarrow> w\<lparr>tw_journal := (tw_journal w)(session := AList.update operation x (tw_journal w session))\<rparr>)"

datatype captured = Absent | Present "str option" nat nat identity

datatype write_refusal =
    WR_Target str sandbox_error
  | WR_Unreadable fpath
  | WR_Backup str context_error
  | WR_Record record_error
  | WR_Write str sandbox_error

fun captured_mode :: "captured \<Rightarrow> nat option" where
  "captured_mode (Present _ _ mode _) = Some mode"
| "captured_mode Absent = None"

fun captured_identity :: "captured \<Rightarrow> identity option" where
  "captured_identity (Present _ _ _ ident) = Some ident"
| "captured_identity Absent = None"

fun captured_record :: "captured \<Rightarrow> str option \<Rightarrow> image_record" where
  "captured_record Absent block_ref = image_absent"
| "captured_record (Present _ len mode ident) block_ref =
     \<lparr>im_present = True, im_block_ref = block_ref, im_bytes = Some len, im_mode = Some mode, im_identity = Some ident\<rparr>"

text \<open>What the host does during one write.\<close>

record tx_env =
  te_resolve :: "str \<Rightarrow> sandbox_error + fpath"
  te_ceiling :: nat
  te_meta :: bool
  te_read :: bool
  te_put_before :: put_env
  te_put_after :: put_env
  te_prepare :: publish_env
  te_write :: file_io
  te_new :: "nat \<times> identity"
  te_meta_after :: bool
  te_commit :: publish_env
  te_operation :: str
  te_now :: nat

definition capture :: "tx_env \<Rightarrow> files \<Rightarrow> fpath \<Rightarrow> write_refusal + captured" where
  "capture env fs target =
     (case fs target of
        None \<Rightarrow> Inr Absent
      | Some f \<Rightarrow>
          if \<not> te_meta env then Inl (WR_Unreadable target)
          else if te_ceiling env < length (df_bytes f)
          then Inr (Present None (length (df_bytes f)) (df_mode f) (df_identity f))
          else if \<not> te_read env then Inl (WR_Unreadable target)
          else Inr (Present (Some (df_bytes f)) (length (df_bytes f)) (df_mode f) (df_identity f)))"

definition tx_store :: "(str \<Rightarrow> str) \<Rightarrow> put_env \<Rightarrow> tx_world \<Rightarrow> str \<Rightarrow> str \<Rightarrow> (write_refusal + str) \<times> tx_world" where
  "tx_store digest penv w bytes target =
     (case block_put digest penv (tw_store w) bytes of
        (Inl e, s) \<Rightarrow> (Inl (WR_Backup target e), w\<lparr>tw_store := s\<rparr>)
      | (Inr h, s) \<Rightarrow> (Inr h, w\<lparr>tw_store := s\<rparr>))"

definition image_of :: "disk_file \<Rightarrow> str option \<Rightarrow> image_record" where
  "image_of f block_ref =
     \<lparr>im_present = True, im_block_ref = block_ref, im_bytes = Some (length (df_bytes f)), im_mode = Some (df_mode f),
      im_identity = Some (df_identity f)\<rparr>"

definition store_before :: "(str \<Rightarrow> str) \<Rightarrow> tx_env \<Rightarrow> tx_world \<Rightarrow> captured \<Rightarrow> str \<Rightarrow> (write_refusal + str option) \<times> tx_world" where
  "store_before digest env w before path =
     (case before of
        Present (Some kept) _ _ _ \<Rightarrow>
          (case tx_store digest (te_put_before env) w kept path of
             (Inl r, w1) \<Rightarrow> (Inl r, w1)
           | (Inr h, w1) \<Rightarrow> (Inr (Some h), w1))
      | _ \<Rightarrow> (Inr None, w))"

text \<open>The part before the target is touched: the prepared record on success.\<close>

definition tx_prepare ::
  "(str \<Rightarrow> str) \<Rightarrow> tx_codec \<Rightarrow> tx_env \<Rightarrow> str \<Rightarrow> tx_world \<Rightarrow> str \<Rightarrow> fpath \<Rightarrow> str \<Rightarrow>
   (write_refusal + prepared_record) \<times> tx_world" where
  "tx_prepare digest cd env session w path target bytes =
     (case capture env (tw_fs w) target of
        Inl r \<Rightarrow> (Inl r, w)
      | Inr before \<Rightarrow>
          (case store_before digest env w before path of
             (Inl r, w1) \<Rightarrow> (Inl r, w1)
           | (Inr before_block, w1) \<Rightarrow>
               (case tx_store digest (te_put_after env) w1 bytes path of
                  (Inl r, w2) \<Rightarrow> (Inl r, w2)
                | (Inr after_block, w2) \<Rightarrow>
                    let expected_after = \<lparr>im_present = True, im_block_ref = Some after_block,
                          im_bytes = Some (length bytes), im_mode = captured_mode before,
                          im_identity = captured_identity before\<rparr>;
                        prepared = prepared_new (te_operation env) session path
                          (captured_record before before_block) expected_after
                    in (case write_prepared cd (te_prepare env) (op_dir w2 session (te_operation env)) prepared of
                          (Inl e, d) \<Rightarrow> (Inl (WR_Record e), set_op_dir w2 session (te_operation env) d)
                        | (Inr _, d) \<Rightarrow> (Inr prepared, set_op_dir w2 session (te_operation env) d)))))"

definition tx_commit :: "tx_codec \<Rightarrow> tx_env \<Rightarrow> str \<Rightarrow> tx_world \<Rightarrow> str \<Rightarrow> fpath \<Rightarrow> prepared_record \<Rightarrow> tx_world" where
  "tx_commit cd env session w path target prepared =
     (let expected_after = pr_expected_after prepared;
          after = (case tw_fs w target of
                     Some f \<Rightarrow> if te_meta_after env then image_of f (im_block_ref expected_after) else expected_after
                   | None \<Rightarrow> expected_after);
          committed = committed_new (te_operation env) path after (te_now env)
      in set_op_dir w session (te_operation env)
           (snd (write_committed cd (te_commit env) (op_dir w session (te_operation env)) committed)))"

definition tx_write ::
  "(str \<Rightarrow> str) \<Rightarrow> tx_codec \<Rightarrow> tx_env \<Rightarrow> str option \<Rightarrow> tx_world \<Rightarrow> str \<Rightarrow> str \<Rightarrow> (write_refusal + unit) \<times> tx_world" where
  "tx_write digest cd env session w path bytes =
     (case session of
        None \<Rightarrow>
          (case write_file (te_resolve env) (te_write env) (te_new env) (tw_fs w) path bytes of
             (Inl e, fs) \<Rightarrow> (Inl (WR_Write path e), w\<lparr>tw_fs := fs\<rparr>)
           | (Inr _, fs) \<Rightarrow> (Inr (), w\<lparr>tw_fs := fs\<rparr>))
      | Some sid \<Rightarrow>
          (case te_resolve env path of
             Inl e \<Rightarrow> (Inl (WR_Target path e), w)
           | Inr target \<Rightarrow>
               (case tx_prepare digest cd env sid w path target bytes of
                  (Inl r, w1) \<Rightarrow> (Inl r, w1)
                | (Inr prepared, w1) \<Rightarrow>
                    (case write_file (te_resolve env) (te_write env) (te_new env) (tw_fs w1) path bytes of
                       (Inl e, fs) \<Rightarrow> (Inl (WR_Write path e), w1\<lparr>tw_fs := fs\<rparr>)
                     | (Inr _, fs) \<Rightarrow> (Inr (), tx_commit cd env sid (w1\<lparr>tw_fs := fs\<rparr>) path target prepared)))))"

subsection \<open>Recovery (recovery.rs)\<close>

datatype write_state = WS_Applied | WS_NotApplied | WS_Conflict | WS_Unverified

record image_summary =
  su_present :: bool
  su_hash :: "str option"
  su_bytes :: "nat option"

record recovered_write =
  rw_operation :: str
  rw_target :: str
  rw_state :: write_state
  rw_committed :: bool
  rw_written_ms :: "nat option"
  rw_before :: image_summary
  rw_after :: image_summary

datatype recovery_error =
    RE_List
  | RE_Record record_error
  | RE_Target str sandbox_error
  | RE_Read fpath
  | RE_Image str context_error
  | RE_Unknown str
  | RE_Restore str sandbox_error
  | RE_Remove fpath

record recovery_report =
  rp_writes :: "recovered_write list"
  rp_unreadable :: "(str option \<times> recovery_error) list"

datatype restore_outcome = RO_Unchanged | RO_Restored | RO_Kept "str option" | RO_Unbacked

text \<open>What the host does during a recovery: whether a journal root is configured, whether the directory can be
  listed, and what the metadata of an entry says.\<close>

datatype entry_stat = ES_Dir | ES_Other | ES_Error

record rec_env =
  rv_rooted :: bool
  rv_list :: bool
  rv_stat :: "str \<Rightarrow> entry_stat"
  rv_resolve :: "str \<Rightarrow> sandbox_error + fpath"
  rv_meta :: bool
  rv_read :: bool
  rv_records :: "str \<Rightarrow> str \<Rightarrow> bool"
  rv_blocks :: bool
  rv_settle :: publish_env
  rv_meta_settle :: bool
  rv_now :: nat
  rv_write :: file_io
  rv_new :: "nat \<times> identity"
  rv_remove :: bool

definition summary_of :: "image_record \<Rightarrow> image_summary" where
  "summary_of i = \<lparr>su_present = im_present i, su_hash = im_block_ref i, su_bytes = im_bytes i\<rparr>"

definition is_one_component :: "str \<Rightarrow> bool" where
  "is_one_component name =
     (case fp_comps (parse_path name) of
        [part] \<Rightarrow> \<not> fp_abs (parse_path name) \<and> part \<noteq> ''.'' \<and> part \<noteq> ''..'' \<and> part = name
      | _ \<Rightarrow> False)"

definition metadata_changed :: "image_record \<Rightarrow> disk_file \<Rightarrow> bool" where
  "metadata_changed img current =
     ((case im_identity img of Some recorded \<Rightarrow> recorded \<noteq> df_identity current | None \<Rightarrow> False) \<or>
      (case im_mode img of Some recorded \<Rightarrow> recorded \<noteq> df_mode current | None \<Rightarrow> False))"

definition get_image :: "(str \<Rightarrow> str) \<Rightarrow> rec_env \<Rightarrow> tx_world \<Rightarrow> str \<Rightarrow> recovery_error + str" where
  "get_image digest env w hash =
     (case block_get digest (rv_blocks env) (tw_store w) hash of Inl e \<Rightarrow> Inl (RE_Image hash e) | Inr b \<Rightarrow> Inr b)"

definition holds :: "(str \<Rightarrow> str) \<Rightarrow> rec_env \<Rightarrow> tx_world \<Rightarrow> image_record \<Rightarrow> str \<Rightarrow> recovery_error + bool" where
  "holds digest env w img bytes =
     (case im_block_ref img of
        None \<Rightarrow> Inr False
      | Some hash \<Rightarrow> (case get_image digest env w hash of Inl e \<Rightarrow> Inl e | Inr stored \<Rightarrow> Inr (stored = bytes)))"

text \<open>Whether the file is the one of an image and holds its bytes.\<close>

definition matches :: "(str \<Rightarrow> str) \<Rightarrow> rec_env \<Rightarrow> tx_world \<Rightarrow> image_record \<Rightarrow> disk_file \<Rightarrow> recovery_error + bool" where
  "matches digest env w img f =
     (if metadata_changed img f then Inr False else holds digest env w img (df_bytes f))"

definition left_image :: "prepared_record \<Rightarrow> committed_record option \<Rightarrow> image_record" where
  "left_image prepared committed =
     (case committed of None \<Rightarrow> pr_expected_after prepared | Some c \<Rightarrow> cr_after c)"

definition classify ::
  "(str \<Rightarrow> str) \<Rightarrow> rec_env \<Rightarrow> tx_world \<Rightarrow> prepared_record \<Rightarrow> committed_record option \<Rightarrow> fpath \<Rightarrow>
   recovery_error + write_state" where
  "classify digest env w prepared committed target =
     (case tw_fs w target of
        None \<Rightarrow> Inr (if im_present (pr_before prepared) then WS_Conflict else WS_NotApplied)
      | Some f \<Rightarrow>
          if \<not> rv_meta env \<or> \<not> rv_read env then Inl (RE_Read target)
          else (case matches digest env w (left_image prepared committed) f of
                  Inl e \<Rightarrow> Inl e
                | Inr True \<Rightarrow> Inr WS_Applied
                | Inr False \<Rightarrow>
                    (case matches digest env w (pr_before prepared) f of
                       Inl e \<Rightarrow> Inl e
                     | Inr True \<Rightarrow> Inr WS_NotApplied
                     | Inr False \<Rightarrow>
                         if im_present (pr_before prepared) \<and> im_block_ref (pr_before prepared) = None \<and>
                            im_bytes (pr_before prepared) = Some (length (df_bytes f))
                         then Inr WS_Unverified else Inr WS_Conflict)))"

definition settle ::
  "tx_codec \<Rightarrow> rec_env \<Rightarrow> str \<Rightarrow> str \<Rightarrow> tx_world \<Rightarrow> prepared_record \<Rightarrow> fpath \<Rightarrow> (recovery_error + nat) \<times> tx_world" where
  "settle cd env session operation w prepared target =
     (let after = (case tw_fs w target of
                     Some f \<Rightarrow> if rv_meta_settle env then image_of f (im_block_ref (pr_expected_after prepared))
                               else pr_expected_after prepared
                   | None \<Rightarrow> pr_expected_after prepared);
          commit_rec = committed_new (pr_operation prepared) (pr_target prepared) after (rv_now env)
      in (case write_committed cd (rv_settle env) (op_dir w session operation) commit_rec of
            (Inl e, d) \<Rightarrow> (Inl (RE_Record e), set_op_dir w session operation d)
          | (Inr _, d) \<Rightarrow> (Inr (rv_now env), set_op_dir w session operation d)))"

text \<open>The two records and the target of a recorded write; no prepared record is no write.\<close>

definition open_write ::
  "tx_codec \<Rightarrow> rec_env \<Rightarrow> str \<Rightarrow> str \<Rightarrow> tx_world \<Rightarrow>
   recovery_error + (prepared_record \<times> fpath \<times> committed_record option) option" where
  "open_write cd env session operation w =
     (case read_prepared cd (rv_records env operation PREPARED_FILE) (op_dir w session operation) of
        Inl e \<Rightarrow> Inl (RE_Record e)
      | Inr None \<Rightarrow> Inr None
      | Inr (Some prepared) \<Rightarrow>
          (case rv_resolve env (pr_target prepared) of
             Inl e \<Rightarrow> Inl (RE_Target (pr_target prepared) e)
           | Inr target \<Rightarrow>
               (case read_committed cd (rv_records env operation COMMITTED_FILE) (op_dir w session operation) of
                  Inl e \<Rightarrow> Inl (RE_Record e)
                | Inr committed \<Rightarrow> Inr (Some (prepared, target, committed)))))"

definition judge ::
  "(str \<Rightarrow> str) \<Rightarrow> tx_codec \<Rightarrow> rec_env \<Rightarrow> str \<Rightarrow> str \<Rightarrow> tx_world \<Rightarrow> (recovery_error + recovered_write option) \<times> tx_world" where
  "judge digest cd env session operation w =
     (case open_write cd env session operation w of
        Inl e \<Rightarrow> (Inl e, w)
      | Inr None \<Rightarrow> (Inr None, w)
      | Inr (Some (prepared, target, committed)) \<Rightarrow>
          (case classify digest env w prepared committed target of
             Inl e \<Rightarrow> (Inl e, w)
           | Inr state \<Rightarrow>
               let found = (\<lambda>has_commit written_ms.
                     Inr (Some \<lparr>rw_operation = operation, rw_target = pr_target prepared, rw_state = state,
                       rw_committed = has_commit, rw_written_ms = written_ms,
                       rw_before = summary_of (pr_before prepared),
                       rw_after = summary_of (left_image prepared committed)\<rparr>))
               in if state = WS_Applied \<and> committed = None
                  then (case settle cd env session operation w prepared target of
                          (Inl e, w') \<Rightarrow> (Inl e, w')
                        | (Inr written_ms, w') \<Rightarrow> (found True (Some written_ms), w'))
                  else (found (committed \<noteq> None) (map_option cr_written_ms committed), w)))"

fun recover_loop ::
  "(str \<Rightarrow> str) \<Rightarrow> tx_codec \<Rightarrow> rec_env \<Rightarrow> str \<Rightarrow> str list \<Rightarrow> recovery_report \<Rightarrow> tx_world \<Rightarrow> recovery_report \<times> tx_world" where
  "recover_loop digest cd env session [] report w = (report, w)"
| "recover_loop digest cd env session (operation # rest) report w =
     (case judge digest cd env session operation w of
        (Inr (Some write), w') \<Rightarrow>
          recover_loop digest cd env session rest (report\<lparr>rp_writes := rp_writes report @ [write]\<rparr>) w'
      | (Inr None, w') \<Rightarrow> recover_loop digest cd env session rest report w'
      | (Inl e, w') \<Rightarrow>
          recover_loop digest cd env session rest
            (report\<lparr>rp_unreadable := rp_unreadable report @ [(Some operation, e)]\<rparr>) w')"

text \<open>An entry that is no directory or is gone is passed over; one without metadata is reported without a name.\<close>

definition recover ::
  "(str \<Rightarrow> str) \<Rightarrow> tx_codec \<Rightarrow> rec_env \<Rightarrow> str \<Rightarrow> tx_world \<Rightarrow> (recovery_error + recovery_report) \<times> tx_world" where
  "recover digest cd env session w =
     (let names = map fst (tw_journal w session) in
      if \<not> rv_rooted env then (Inr \<lparr>rp_writes = [], rp_unreadable = []\<rparr>, w)
      else if \<not> rv_list env then (Inl RE_List, w)
      else (case recover_loop digest cd env session (sort (filter (\<lambda>n. rv_stat env n = ES_Dir) names))
                   \<lparr>rp_writes = [], rp_unreadable = map (\<lambda>_. (None, RE_List)) (filter (\<lambda>n. rv_stat env n = ES_Error) names)\<rparr> w of
              (report, w') \<Rightarrow> (Inr report, w')))"

definition put_earlier ::
  "(str \<Rightarrow> str) \<Rightarrow> rec_env \<Rightarrow> tx_world \<Rightarrow> prepared_record \<Rightarrow> fpath \<Rightarrow> (recovery_error + restore_outcome) \<times> tx_world" where
  "put_earlier digest env w prepared target =
     (if \<not> im_present (pr_before prepared) then
        (if tw_fs w target \<noteq> None \<and> \<not> rv_remove env then (Inl (RE_Remove target), w)
         else (Inr RO_Restored, w\<lparr>tw_fs := (tw_fs w)(target := None)\<rparr>))
      else (case im_block_ref (pr_before prepared) of
              None \<Rightarrow> (Inr RO_Unbacked, w)
            | Some hash \<Rightarrow>
                (case get_image digest env w hash of
                   Inl e \<Rightarrow> (Inl e, w)
                 | Inr bytes \<Rightarrow>
                     (case write_file (rv_resolve env) (rv_write env) (rv_new env) (tw_fs w) (pr_target prepared) bytes of
                        (Inl e, fs) \<Rightarrow> (Inl (RE_Restore (pr_target prepared) e), w\<lparr>tw_fs := fs\<rparr>)
                      | (Inr _, fs) \<Rightarrow> (Inr RO_Restored, w\<lparr>tw_fs := fs\<rparr>)))))"

definition recovery_copy :: "prepared_record \<Rightarrow> str \<Rightarrow> str" where
  "recovery_copy prepared operation = pr_target prepared @ ''.recovery-'' @ operation"

definition keep_earlier ::
  "(str \<Rightarrow> str) \<Rightarrow> rec_env \<Rightarrow> tx_world \<Rightarrow> prepared_record \<Rightarrow> str \<Rightarrow> (recovery_error + restore_outcome) \<times> tx_world" where
  "keep_earlier digest env w prepared operation =
     (if \<not> im_present (pr_before prepared) then (Inr (RO_Kept None), w)
      else (case im_block_ref (pr_before prepared) of
              None \<Rightarrow> (Inr RO_Unbacked, w)
            | Some hash \<Rightarrow>
                (case get_image digest env w hash of
                   Inl e \<Rightarrow> (Inl e, w)
                 | Inr bytes \<Rightarrow>
                     let copy = recovery_copy prepared operation in
                     (case write_file (rv_resolve env) (rv_write env) (rv_new env) (tw_fs w) copy bytes of
                        (Inl e, fs) \<Rightarrow> (Inl (RE_Restore copy e), w\<lparr>tw_fs := fs\<rparr>)
                      | (Inr _, fs) \<Rightarrow> (Inr (RO_Kept (Some copy)), w\<lparr>tw_fs := fs\<rparr>)))))"

definition tx_restore ::
  "(str \<Rightarrow> str) \<Rightarrow> tx_codec \<Rightarrow> rec_env \<Rightarrow> str \<Rightarrow> str \<Rightarrow> tx_world \<Rightarrow> (recovery_error + restore_outcome) \<times> tx_world" where
  "tx_restore digest cd env session operation w =
     (if \<not> rv_rooted env \<or> \<not> is_one_component operation then (Inl (RE_Unknown operation), w)
      else (case open_write cd env session operation w of
              Inl e \<Rightarrow> (Inl e, w)
            | Inr None \<Rightarrow> (Inl (RE_Unknown operation), w)
            | Inr (Some (prepared, target, committed)) \<Rightarrow>
                (case classify digest env w prepared committed target of
                   Inl e \<Rightarrow> (Inl e, w)
                 | Inr WS_NotApplied \<Rightarrow> (Inr RO_Unchanged, w)
                 | Inr WS_Unverified \<Rightarrow> (Inr RO_Unbacked, w)
                 | Inr WS_Conflict \<Rightarrow> keep_earlier digest env w prepared operation
                 | Inr WS_Applied \<Rightarrow> put_earlier digest env w prepared target)))"

subsection \<open>Publishing and reading records\<close>

text \<open>An atomic write leaves the previous file or the new one under the name, and says which.\<close>

lemma write_atomic_name:
  assumes "write_atomic io temp name bytes d = (res, d')" and "temp \<noteq> name"
  shows "d' name = (if res = Inr () \<or> res = Inl WE_Sync then Some bytes else d name)"
    and "n \<noteq> name \<Longrightarrow> n \<noteq> temp \<Longrightarrow> d' n = d n"
  using assms by (auto simp: write_atomic_def split: atomic_io.splits)

lemma publish_ok:
  assumes "publish_record env name body d = (Inr u, d')" and "pu_temp env \<noteq> name"
  shows "\<exists>b x. body = Some b \<and> d' = Some x \<and> x name = Some b \<and>
           (\<forall>n. n \<noteq> name \<longrightarrow> n \<noteq> pu_temp env \<longrightarrow> x n = (case d of None \<Rightarrow> None | Some y \<Rightarrow> y n))"
proof -
  obtain b res x where b: "body = Some b"
    "write_atomic (pu_atomic env) (pu_temp env) name b (case d of None \<Rightarrow> (\<lambda>_. None) | Some x \<Rightarrow> x) = (res, x)"
    "d' = Some x" "res = Inr () \<or> res = Inl WE_Sync"
    using assms(1) by (auto simp: publish_record_def Let_def split: if_splits option.splits prod.splits sum.splits)
      (metis we_published.elims(2))+
  then show ?thesis using write_atomic_name [OF b(2) assms(2)]
    by (auto split: option.splits)
qed

lemma publish_other:
  assumes "publish_record env name body d = (res, d')" and "n \<noteq> name" and "n \<noteq> pu_temp env" and "pu_temp env \<noteq> name"
  shows "(case d' of None \<Rightarrow> None | Some x \<Rightarrow> x n) = (case d of None \<Rightarrow> None | Some x \<Rightarrow> x n)"
  using assms
  by (auto simp: publish_record_def Let_def write_atomic_def split: if_splits option.splits prod.splits sum.splits atomic_io.splits)

lemma op_dir_set [simp]:
  "op_dir (set_op_dir w session operation (Some d)) session operation = Some d"
  "tw_fs (set_op_dir w session operation x) = tw_fs w" "tw_store (set_op_dir w session operation x) = tw_store w"
  by (auto simp: op_dir_def set_op_dir_def update_conv' split: option.splits)

lemma read_printed:
  assumes "tx_codec_ok cd" and "d PREPARED_FILE = Some b" and "tc_print_prepared cd p = Some b" and "pr_schema p = TRANSACTION_SCHEMA"
  shows "read_prepared cd True (Some d) = Inr (Some p)"
  using assms by (auto simp: read_prepared_def read_record_def tx_codec_ok_def)

lemma read_printed_commit:
  assumes "tx_codec_ok cd" and "d COMMITTED_FILE = Some b" and "tc_print_committed cd c = Some b" and "cr_schema c = TRANSACTION_SCHEMA"
  shows "read_committed cd True (Some d) = Inr (Some c)"
  using assms by (auto simp: read_committed_def read_record_def tx_codec_ok_def)

lemma read_no_commit: "d COMMITTED_FILE = None \<Longrightarrow> read_committed cd r (Some d) = Inr None"
  by (simp add: read_committed_def read_record_def)

lemma file_names: "PREPARED_FILE \<noteq> COMMITTED_FILE"
  by (simp add: PREPARED_FILE_def COMMITTED_FILE_def)

subsection \<open>What a prepared write left\<close>

lemma tx_store_fs: "tx_store digest e w b t = (r, w') \<Longrightarrow> tw_fs w' = tw_fs w \<and> tw_journal w' = tw_journal w"
  by (auto simp: tx_store_def split: prod.splits sum.splits)

lemma store_before_fs: "store_before digest env w c path = (r, w') \<Longrightarrow> tw_fs w' = tw_fs w \<and> tw_journal w' = tw_journal w"
  by (auto simp: store_before_def split: captured.splits option.splits prod.splits sum.splits dest: tx_store_fs)

lemma tx_prepare_fs: "tx_prepare digest cd env sid w path target bytes = (r, w') \<Longrightarrow> tw_fs w' = tw_fs w"
  by (auto simp: tx_prepare_def Let_def split: prod.splits sum.splits dest!: tx_store_fs store_before_fs)

text \<open>A refused write does not touch the target: whenever the recorded write returns an error other than a
  failure of the write itself, every file is as it was.\<close>

lemma tx_refusal_untouched:
  assumes "tx_write digest cd env session w path bytes = (Inl r, w')" and "\<forall>e. r \<noteq> WR_Write path e"
  shows "tw_fs w' = tw_fs w"
  using assms tx_prepare_fs
  by (auto simp: tx_write_def split: option.splits prod.splits sum.splits)

text \<open>The bytes of an image can be read back from the store.\<close>

definition image_backed :: "(str \<Rightarrow> str) \<Rightarrow> tx_world \<Rightarrow> image_record \<Rightarrow> str \<Rightarrow> bool" where
  "image_backed digest w i bytes = (\<exists>h. im_block_ref i = Some h \<and> block_get digest True (tw_store w) h = Inr bytes)"

text \<open>The bytes a write puts into the store do not collide with others there.\<close>

definition puts_fresh :: "(str \<Rightarrow> str) \<Rightarrow> tx_env \<Rightarrow> tx_world \<Rightarrow> fpath \<Rightarrow> str \<Rightarrow> bool" where
  "puts_fresh digest env w target bytes =
     (case tw_fs w target of
        None \<Rightarrow> disk_fresh digest (tw_store w) bytes
      | Some f \<Rightarrow> disk_fresh digest (tw_store w) (df_bytes f) \<and>
          disk_fresh digest (snd (block_put digest (te_put_before env) (tw_store w) (df_bytes f))) bytes)"

lemma tx_store_ok:
  "tx_store digest e w b t = (Inr h, w') \<Longrightarrow>
   block_put digest e (tw_store w) b = (Inr h, tw_store w')"
  by (cases "block_put digest e (tw_store w) b"; cases "fst (block_put digest e (tw_store w) b)")
     (simp_all add: tx_store_def, metis tx_world.select_convs(2) tx_world.update_convs(2) tx_world.surjective)

lemma captured_backed:
  assumes "capture env (tw_fs w) target = Inr before" and "store_before digest env w before path = (Inr bb, w1)"
    and "tx_store digest (te_put_after env) w1 bytes path = (Inr h, w2)" and "puts_fresh digest env w target bytes"
    and "\<forall>f. tw_fs w target = Some f \<longrightarrow> length (df_bytes f) \<le> te_ceiling env"
  shows "block_get digest True (tw_store w2) h = Inr bytes \<and>
     (case tw_fs w target of
        None \<Rightarrow> before = Absent
      | Some f \<Rightarrow> \<exists>hb. before = Present (Some (df_bytes f)) (length (df_bytes f)) (df_mode f) (df_identity f) \<and>
                    bb = Some hb \<and> block_get digest True (tw_store w2) hb = Inr (df_bytes f))"
proof (cases "tw_fs w target")
  case None
  then have "before = Absent" "w1 = w" using assms(1,2) by (auto simp: capture_def store_before_def)
  moreover have "block_get digest True (tw_store w2) h = Inr bytes"
    using dsk.put_get tx_store_ok [OF assms(3)] assms(4) None \<open>w1 = w\<close> by (simp add: puts_fresh_def)
  ultimately show ?thesis using None by simp
next
  case (Some f)
  then have b: "before = Present (Some (df_bytes f)) (length (df_bytes f)) (df_mode f) (df_identity f)"
    using assms(1,5) by (auto simp: capture_def split: if_splits)
  then obtain hb where hb: "bb = Some hb" "tx_store digest (te_put_before env) w (df_bytes f) path = (Inr hb, w1)"
    using assms(2) by (auto simp: store_before_def split: prod.splits sum.splits)
  have f1: "disk_fresh digest (tw_store w) (df_bytes f)" "disk_fresh digest (tw_store w1) bytes"
    using assms(4) Some tx_store_ok [OF hb(2)] by (simp_all add: puts_fresh_def)
  show ?thesis
    using dsk.put_two [OF f1(1) tx_store_ok [OF hb(2)] f1(2) tx_store_ok [OF assms(3)]] Some b hb(1) by auto
qed

subsection \<open>A crash at any point can be undone\<close>

text \<open>A host on which the recovery's reads and writes work.\<close>

definition working_host :: "rec_env \<Rightarrow> bool" where
  "working_host env =
     (rv_rooted env \<and> rv_meta env \<and> rv_read env \<and> rv_records env = (\<lambda>_ _. True) \<and> rv_blocks env \<and> rv_write env = FI_Ok \<and> rv_remove env)"

lemma working_rooted: "working_host env \<Longrightarrow> rv_rooted env"
  by (simp add: working_host_def)

definition temp_apart :: "publish_env \<Rightarrow> bool" where
  "temp_apart env = (pu_temp env \<noteq> PREPARED_FILE \<and> pu_temp env \<noteq> COMMITTED_FILE)"

text \<open>What the prepared record says of the original file, the new bytes and the store.\<close>

definition records_write :: "(str \<Rightarrow> str) \<Rightarrow> tx_world \<Rightarrow> prepared_record \<Rightarrow> disk_file option \<Rightarrow> str \<Rightarrow> bool" where
  "records_write digest w p orig bytes =
     (image_backed digest w (pr_expected_after p) bytes \<and> im_present (pr_before p) = (orig \<noteq> None) \<and>
      (orig = None \<longrightarrow> im_block_ref (pr_before p) = None) \<and>
      (\<forall>f. orig = Some f \<longrightarrow> image_backed digest w (pr_before p) (df_bytes f)) \<and>
      (\<forall>i\<in>{pr_before p, pr_expected_after p}.
         im_mode i = map_option df_mode orig \<and> im_identity i = map_option df_identity orig))"

lemma prepared_world:
  assumes "tx_codec_ok cd" and "tx_prepare digest cd env sid w path target bytes = (Inr p, w1)"
    and "op_dir w sid (te_operation env) = None" and "temp_apart (te_prepare env)" and "puts_fresh digest env w target bytes"
    and "\<forall>f. tw_fs w target = Some f \<longrightarrow> length (df_bytes f) \<le> te_ceiling env"
  shows "tw_fs w1 = tw_fs w \<and> pr_target p = path \<and> records_write digest w1 p (tw_fs w target) bytes \<and>
     (\<exists>d. op_dir w1 sid (te_operation env) = Some d \<and> read_prepared cd True (Some d) = Inr (Some p) \<and> d COMMITTED_FILE = None)"
proof -
  obtain before bb w0 h w2 d where
    c: "capture env (tw_fs w) target = Inr before" and sb: "store_before digest env w before path = (Inr bb, w0)" and
    sa: "tx_store digest (te_put_after env) w0 bytes path = (Inr h, w2)" and
    p: "p = prepared_new (te_operation env) sid path (captured_record before bb)
          \<lparr>im_present = True, im_block_ref = Some h, im_bytes = Some (length bytes), im_mode = captured_mode before,
           im_identity = captured_identity before\<rparr>" and
    wp: "write_prepared cd (te_prepare env) (op_dir w2 sid (te_operation env)) p = (Inr (), d)" and
    w1: "w1 = set_op_dir w2 sid (te_operation env) d"
    using assms(2) by (auto simp: tx_prepare_def Let_def split: sum.splits prod.splits)
  have same: "tw_fs w2 = tw_fs w" "tw_journal w2 = tw_journal w"
    using store_before_fs [OF sb] tx_store_fs [OF sa] by simp_all
  note backed = captured_backed [OF c sb sa assms(5,6)]
  have apart: "pu_temp (te_prepare env) \<noteq> PREPARED_FILE" using assms(4) by (simp add: temp_apart_def)
  obtain b x where x: "tc_print_prepared cd p = Some b" "d = Some x" "x PREPARED_FILE = Some b"
    "x COMMITTED_FILE = (case op_dir w2 sid (te_operation env) of None \<Rightarrow> None | Some y \<Rightarrow> y COMMITTED_FILE)"
    using publish_ok [OF wp [unfolded write_prepared_def] apart] file_names assms(4)
    by (auto simp: temp_apart_def)
  have none: "x COMMITTED_FILE = None" using x(4) assms(3) same(2) by (simp add: op_dir_def)
  have "read_prepared cd True (Some x) = Inr (Some p)"
    using read_printed [where d = x, OF assms(1) x(3,1)] by (simp add: p prepared_new_def)
  moreover have "records_write digest w1 p (tw_fs w target) bytes"
    using backed by (cases "tw_fs w target")
      (auto simp: records_write_def image_backed_def p prepared_new_def w1 image_absent_def)
  ultimately show ?thesis using same(1) none x(2) by (auto simp: w1 p prepared_new_def)
qed

text \<open>What the target holds once the write went through.\<close>

definition written_file :: "nat \<times> identity \<Rightarrow> disk_file option \<Rightarrow> str \<Rightarrow> disk_file" where
  "written_file new orig bytes =
     (case orig of None \<Rightarrow> \<lparr>df_bytes = bytes, df_mode = fst new, df_identity = snd new\<rparr> | Some f \<Rightarrow> f\<lparr>df_bytes := bytes\<rparr>)"

lemma put_bytes_eq: "put_bytes new fs t bytes = fs(t \<mapsto> written_file new (fs t) bytes)"
  by (auto simp: put_bytes_def written_file_def split: option.splits)

lemma matches_backed:
  assumes "working_host env" and "image_backed digest w i b"
  shows "matches digest env w i f = Inr (\<not> metadata_changed i f \<and> b = df_bytes f)"
  using assms by (auto simp: matches_def holds_def get_image_def image_backed_def working_host_def)

lemma same_metadata:
  "im_mode i = map_option df_mode orig \<Longrightarrow> im_identity i = map_option df_identity orig \<Longrightarrow>
   \<not> metadata_changed i (written_file new orig bytes)"
  by (auto simp: metadata_changed_def written_file_def split: option.splits)

lemma classify_before:
  assumes "working_host env" and "records_write digest w p orig bytes" and "tw_fs w target = orig"
  shows "classify digest env w p None target =
     Inr (case orig of None \<Rightarrow> WS_NotApplied | Some f \<Rightarrow> if df_bytes f = bytes then WS_Applied else WS_NotApplied)"
proof (cases orig)
  case (Some f)
  have "written_file (0, 0, 0) orig (df_bytes f) = f" using Some by (simp add: written_file_def)
  then have "\<not> metadata_changed (pr_expected_after p) f" "\<not> metadata_changed (pr_before p) f"
    using assms(2) same_metadata [of _ orig "(0, 0, 0)" "df_bytes f"] by (auto simp: records_write_def)
  then show ?thesis
    using assms Some matches_backed [OF assms(1), of digest w "pr_expected_after p" bytes f]
      matches_backed [OF assms(1), of digest w "pr_before p" "df_bytes f" f]
    by (auto simp: classify_def left_image_def records_write_def working_host_def)
qed (use assms in \<open>simp add: classify_def records_write_def\<close>)

lemma classify_after:
  assumes "working_host env" and "image_backed digest w (left_image p committed) bytes"
    and "tw_fs w target = Some g" and "df_bytes g = bytes" and "\<not> metadata_changed (left_image p committed) g"
  shows "classify digest env w p committed target = Inr WS_Applied"
  using assms matches_backed [OF assms(1,2), of g] by (simp add: classify_def working_host_def)

lemma put_earlier_restores:
  assumes "working_host env" and "records_write digest w p orig bytes" and "rv_resolve env (pr_target p) = Inr target"
    and "tw_fs w = fs(target := Some g)" and "\<forall>f. orig = Some f \<longrightarrow> df_mode g = df_mode f \<and> df_identity g = df_identity f"
    and "fs target = orig"
  shows "\<exists>w'. put_earlier digest env w p target = (Inr RO_Restored, w') \<and> tw_fs w' = fs"
proof (cases orig)
  case None
  then show ?thesis using assms by (auto simp: put_earlier_def records_write_def working_host_def)
next
  case (Some f)
  then obtain h where h: "im_block_ref (pr_before p) = Some h" "block_get digest True (tw_store w) h = Inr (df_bytes f)"
    using assms(2) by (auto simp: records_write_def image_backed_def)
  have "g\<lparr>df_bytes := df_bytes f\<rparr> = f" using assms(5) Some by simp
  then show ?thesis using assms Some h
    by (auto simp: put_earlier_def get_image_def write_file_def put_bytes_def records_write_def working_host_def)
qed

lemma records_write_store: "tw_store w = tw_store w' \<Longrightarrow> records_write digest w = records_write digest w'"
  by (intro ext) (simp add: records_write_def image_backed_def)

text \<open>The journal a crash leaves: the prepared record, and no commit record or one for the same bytes.\<close>

definition journalled ::
  "(str \<Rightarrow> str) \<Rightarrow> tx_codec \<Rightarrow> str \<Rightarrow> str \<Rightarrow> tx_world \<Rightarrow> prepared_record \<Rightarrow> committed_record option \<Rightarrow> bool" where
  "journalled digest cd sid operation w p c =
     (\<exists>d. op_dir w sid operation = Some d \<and> read_prepared cd True (Some d) = Inr (Some p) \<and>
        read_committed cd True (Some d) = Inr c)"

lemma journalled_open:
  assumes "working_host env" and "journalled digest cd sid operation w p c" and "rv_resolve env (pr_target p) = Inr target"
  shows "open_write cd env sid operation w = Inr (Some (p, target, c))"
  using assms by (auto simp: open_write_def journalled_def working_host_def)

lemma restore_unwritten:
  assumes "working_host env" and "is_one_component operation" and "journalled digest cd sid operation w p None"
    and "rv_resolve env (pr_target p) = Inr target" and "records_write digest w p (tw_fs w target) bytes"
  shows "\<exists>out w'. tx_restore digest cd env sid operation w = (Inr out, w') \<and> tw_fs w' = tw_fs w"
proof (cases "\<exists>f. tw_fs w target = Some f \<and> df_bytes f = bytes")
  case True
  then obtain f where f: "tw_fs w target = Some f" "df_bytes f = bytes" by blast
  have "tw_fs w = (tw_fs w)(target := Some f)" using f(1) by (simp add: fun_upd_idem)
  then obtain w' where "put_earlier digest env w p target = (Inr RO_Restored, w')" "tw_fs w' = tw_fs w"
    using put_earlier_restores [OF assms(1,5,4)] f by (metis option.inject)
  then show ?thesis
    using assms(2) working_rooted [OF assms(1)] journalled_open [OF assms(1,3,4)] classify_before [OF assms(1,5) refl] f by (simp add: tx_restore_def)
next
  case False
  then have "classify digest env w p None target = Inr WS_NotApplied"
    using classify_before [OF assms(1,5) refl] by (auto split: option.splits)
  then show ?thesis using assms(2) working_rooted [OF assms(1)] journalled_open [OF assms(1,3,4)] by (simp add: tx_restore_def)
qed

lemma restore_written:
  assumes "working_host env" and "is_one_component operation" and "journalled digest cd sid operation w p c"
    and "rv_resolve env (pr_target p) = Inr target" and "records_write digest w p (fs target) bytes"
    and "tw_fs w = fs(target := Some (written_file new (fs target) bytes))"
    and "image_backed digest w (left_image p c) bytes"
    and "\<not> metadata_changed (left_image p c) (written_file new (fs target) bytes)"
  shows "\<exists>out w'. tx_restore digest cd env sid operation w = (Inr out, w') \<and> tw_fs w' = fs"
proof -
  let ?g = "written_file new (fs target) bytes"
  have g: "df_bytes ?g = bytes"
    "\<forall>f. fs target = Some f \<longrightarrow> df_mode ?g = df_mode f \<and> df_identity ?g = df_identity f"
    by (auto simp: written_file_def split: option.splits)
  obtain w' where "put_earlier digest env w p target = (Inr RO_Restored, w')" "tw_fs w' = fs"
    using put_earlier_restores [OF assms(1,5,4,6) g(2) refl] by blast
  moreover have "classify digest env w p c target = Inr WS_Applied"
    using classify_after [OF assms(1,7) _ g(1) assms(8)] assms(6) by simp
  ultimately show ?thesis using assms(2) working_rooted [OF assms(1)] journalled_open [OF assms(1,3,4)] by (simp add: tx_restore_def)
qed

text \<open>The commit keeps the prepared record, and its own record speaks of the file it saw.\<close>

lemma commit_journalled:
  assumes "tx_codec_ok cd" and "journalled digest cd sid (te_operation env) w p None" and "temp_apart (te_commit env)"
  shows "\<exists>c. journalled digest cd sid (te_operation env) (tx_commit cd env sid w path target p) p c \<and>
     (\<forall>r. c = Some r \<longrightarrow> cr_after r = pr_expected_after p \<or>
        (\<exists>f. tw_fs w target = Some f \<and> cr_after r = image_of f (im_block_ref (pr_expected_after p))))"
proof -
  obtain d where d: "op_dir w sid (te_operation env) = Some d" "read_prepared cd True (Some d) = Inr (Some p)"
    "read_committed cd True (Some d) = Inr None"
    using assms(2) by (auto simp: journalled_def)
  define after where "after = (case tw_fs w target of
      Some f \<Rightarrow> if te_meta_after env then image_of f (im_block_ref (pr_expected_after p)) else pr_expected_after p
    | None \<Rightarrow> pr_expected_after p)"
  let ?c = "committed_new (te_operation env) path after (te_now env)"
  obtain res d' where wc: "write_committed cd (te_commit env) (Some d) ?c = (res, d')" by force
  have keep: "(case d' of None \<Rightarrow> None | Some x \<Rightarrow> x PREPARED_FILE) = d PREPARED_FILE"
    using publish_other [OF wc [unfolded write_committed_def]] assms(3) file_names by (auto simp: temp_apart_def)
  obtain x where x: "d' = Some x"
    using wc by (auto simp: write_committed_def publish_record_def Let_def split: if_splits option.splits prod.splits sum.splits)
  have "read_prepared cd True (Some x) = Inr (Some p)" using keep d(2) x by (simp add: read_prepared_def read_record_def)
  moreover have "read_committed cd True (Some x) = Inr None \<or> read_committed cd True (Some x) = Inr (Some ?c)"
  proof (cases "x COMMITTED_FILE = d COMMITTED_FILE")
    case True
    then show ?thesis using d(3) by (simp add: read_committed_def read_record_def)
  next
    case False
    then obtain b where "tc_print_committed cd ?c = Some b" "x COMMITTED_FILE = Some b"
      using wc x assms(3) by (auto simp: write_committed_def publish_record_def write_atomic_def temp_apart_def Let_def
        split: if_splits option.splits prod.splits sum.splits atomic_io.splits)
    then show ?thesis using read_printed_commit [where d = x, OF assms(1)] by (simp add: committed_new_def)
  qed
  moreover have "cr_after ?c = pr_expected_after p \<or>
      (\<exists>f. tw_fs w target = Some f \<and> cr_after ?c = image_of f (im_block_ref (pr_expected_after p)))"
    by (auto simp: committed_new_def after_def split: option.splits)
  moreover have "op_dir (tx_commit cd env sid w path target p) sid (te_operation env) = Some x"
    using wc d(1) x by (simp add: tx_commit_def Let_def after_def)
  ultimately show ?thesis by (auto simp: journalled_def)
qed

text \<open>The points at which a write can be cut off once it was prepared: before the target is written, before the
  commit, and after it.\<close>

inductive tx_crash ::
  "(str \<Rightarrow> str) \<Rightarrow> tx_codec \<Rightarrow> tx_env \<Rightarrow> str \<Rightarrow> tx_world \<Rightarrow> str \<Rightarrow> fpath \<Rightarrow> str \<Rightarrow> tx_world \<Rightarrow> bool" where
  crash_prepared: "tx_prepare digest cd env sid w path target bytes = (Inr p, w1) \<Longrightarrow>
    tx_crash digest cd env sid w path target bytes w1"
| crash_written: "tx_prepare digest cd env sid w path target bytes = (Inr p, w1) \<Longrightarrow>
    tx_crash digest cd env sid w path target bytes (w1\<lparr>tw_fs := put_bytes (te_new env) (tw_fs w1) target bytes\<rparr>)"
| crash_committed: "tx_prepare digest cd env sid w path target bytes = (Inr p, w1) \<Longrightarrow>
    tx_crash digest cd env sid w path target bytes
      (tx_commit cd env sid (w1\<lparr>tw_fs := put_bytes (te_new env) (tw_fs w1) target bytes\<rparr>) path target p)"

lemma op_dir_fs [simp]: "op_dir (w\<lparr>tw_fs := fs\<rparr>) sid operation = op_dir w sid operation"
  by (simp add: op_dir_def)

lemma tx_commit_fs [simp]:
  "tw_fs (tx_commit cd env sid w path target p) = tw_fs w" "tw_store (tx_commit cd env sid w path target p) = tw_store w"
  by (simp_all add: tx_commit_def Let_def)

text \<open>The hypotheses under which a recorded write can be undone.\<close>

definition undoable ::
  "(str \<Rightarrow> str) \<Rightarrow> tx_codec \<Rightarrow> tx_env \<Rightarrow> rec_env \<Rightarrow> str \<Rightarrow> tx_world \<Rightarrow> str \<Rightarrow> fpath \<Rightarrow> str \<Rightarrow> bool" where
  "undoable digest cd env renv sid w path target bytes =
     (op_dir w sid (te_operation env) = None \<and> is_one_component (te_operation env) \<and>
      temp_apart (te_prepare env) \<and> temp_apart (te_commit env) \<and> puts_fresh digest env w target bytes \<and>
      (case tw_fs w target of None \<Rightarrow> True | Some f \<Rightarrow> length (df_bytes f) \<le> te_ceiling env) \<and>
      working_host renv \<and> rv_resolve renv path = Inr target)"

lemma undoable_prepared:
  assumes "tx_codec_ok cd" and "undoable digest cd env renv sid w path target bytes"
    and "tx_prepare digest cd env sid w path target bytes = (Inr p, w1)"
  shows "tw_fs w1 = tw_fs w" and "pr_target p = path" and "records_write digest w1 p (tw_fs w target) bytes"
    and "journalled digest cd sid (te_operation env) w1 p None"
proof -
  have "tw_fs w1 = tw_fs w \<and> pr_target p = path \<and> records_write digest w1 p (tw_fs w target) bytes \<and>
     (\<exists>d. op_dir w1 sid (te_operation env) = Some d \<and> read_prepared cd True (Some d) = Inr (Some p) \<and> d COMMITTED_FILE = None)"
    using assms(2) by (intro prepared_world [OF assms(1,3)]) (auto simp: undoable_def split: option.splits)
  then show "tw_fs w1 = tw_fs w" and "pr_target p = path" and "records_write digest w1 p (tw_fs w target) bytes"
    and "journalled digest cd sid (te_operation env) w1 p None"
    by (auto simp: journalled_def read_no_commit)
qed

lemma left_image_ok:
  assumes "records_write digest w p orig bytes"
    and "\<forall>r. c = Some r \<longrightarrow> cr_after r = pr_expected_after p \<or>
          cr_after r = image_of (written_file new orig bytes) (im_block_ref (pr_expected_after p))"
  shows "image_backed digest w (left_image p c) bytes"
    and "\<not> metadata_changed (left_image p c) (written_file new orig bytes)"
proof -
  have "\<not> metadata_changed (pr_expected_after p) (written_file new orig bytes)"
    using same_metadata assms(1) by (simp add: records_write_def)
  moreover have "\<not> metadata_changed (image_of g h) g" for g h by (simp add: metadata_changed_def image_of_def)
  ultimately show "\<not> metadata_changed (left_image p c) (written_file new orig bytes)"
    using assms(2) by (auto simp: left_image_def split: option.splits)
  show "image_backed digest w (left_image p c) bytes"
    using assms by (auto simp: left_image_def records_write_def image_backed_def image_of_def split: option.splits)
qed

lemma crash_restored:
  assumes "tx_crash digest cd env sid w path target bytes wc" and "tx_codec_ok cd"
    and "undoable digest cd env renv sid w path target bytes"
  shows "\<exists>out w'. tx_restore digest cd renv sid (te_operation env) wc = (Inr out, w') \<and> tw_fs w' = tw_fs w"
  using assms
proof cases
  case (crash_prepared p)
  note pre = undoable_prepared [OF assms(2,3) crash_prepared]
  show ?thesis
    using restore_unwritten [of renv "te_operation env", OF _ _ pre(4), of target bytes] pre assms(3) by (auto simp: undoable_def)
next
  case (crash_written p w1)
  note pre = undoable_prepared [OF assms(2,3) crash_written(2)]
  have j: "journalled digest cd sid (te_operation env) wc p None" using pre(4) crash_written(1) by (simp add: journalled_def)
  have r: "records_write digest wc p (tw_fs w target) bytes"
    using pre(3) records_write_store [of wc w1] crash_written(1) by simp
  have f: "tw_fs wc = (tw_fs w)(target := Some (written_file (te_new env) (tw_fs w target) bytes))"
    using crash_written(1) pre(1) by (simp add: put_bytes_eq)
  show ?thesis
    using restore_written [OF _ _ j _ r f left_image_ok [OF r]] pre(2) assms(3) by (auto simp: undoable_def)
next
  case (crash_committed p w1)
  note pre = undoable_prepared [OF assms(2,3) crash_committed(2)]
  let ?w2 = "w1\<lparr>tw_fs := put_bytes (te_new env) (tw_fs w1) target bytes\<rparr>"
  have "journalled digest cd sid (te_operation env) ?w2 p None" using pre(4) by (simp add: journalled_def)
  from commit_journalled [OF assms(2) this, of path target] obtain c where
    j: "journalled digest cd sid (te_operation env) wc p c" and
    c: "\<forall>r. c = Some r \<longrightarrow> cr_after r = pr_expected_after p \<or>
        cr_after r = image_of (written_file (te_new env) (tw_fs w target) bytes) (im_block_ref (pr_expected_after p))"
    using assms(3) crash_committed(1) pre(1) by (auto simp: undoable_def put_bytes_eq)
  have r: "records_write digest wc p (tw_fs w target) bytes"
    using pre(3) records_write_store [of wc w1] crash_committed(1) by simp
  have f: "tw_fs wc = (tw_fs w)(target := Some (written_file (te_new env) (tw_fs w target) bytes))"
    using crash_committed(1) pre(1) by (simp add: put_bytes_eq)
  show ?thesis
    using restore_written [OF _ _ j _ r f left_image_ok [OF r c]] pre(2) assms(3) by (auto simp: undoable_def)
qed


subsection \<open>Torn writes, edits by others, and the report\<close>

lemma keep_earlier_copy:
  assumes "working_host env" and "image_backed digest w (pr_before p) b" and "im_present (pr_before p)"
    and "rv_resolve env (recovery_copy p operation) = Inr copy"
  shows "\<exists>w'. keep_earlier digest env w p operation = (Inr (RO_Kept (Some (recovery_copy p operation))), w') \<and>
     tw_fs w' = put_bytes (rv_new env) (tw_fs w) copy b"
  using assms by (auto simp: keep_earlier_def image_backed_def get_image_def working_host_def write_file_def Let_def)

lemma put_bytes_at: "\<exists>g. put_bytes new fs p b p = Some g \<and> df_bytes g = b" and put_bytes_off: "q \<noteq> p \<Longrightarrow> put_bytes new fs p b q = fs q"
  by (auto simp: put_bytes_eq written_file_def split: option.splits)

lemma classify_torn:
  assumes "working_host env" and "records_write digest w p orig bytes" and "tw_fs w target = Some (written_file new orig part)"
  shows "\<exists>state. classify digest env w p None target = Inr state \<and> state \<noteq> WS_Unverified \<and>
     (state = WS_NotApplied \<longrightarrow> orig = Some (written_file new orig part))"
proof -
  let ?g = "written_file new orig part"
  have a: "image_backed digest w (pr_expected_after p) bytes" using assms(2) by (simp add: records_write_def)
  show ?thesis
  proof (cases orig)
    case None
    then have "\<not> im_present (pr_before p)" "im_block_ref (pr_before p) = None" using assms(2) by (simp_all add: records_write_def)
    then have "matches digest env w (pr_before p) ?g = Inr False" "\<not> im_present (pr_before p)"
      by (simp_all add: matches_def holds_def)
    then show ?thesis
      using assms matches_backed [OF assms(1) a, of ?g]
      by (simp add: classify_def left_image_def working_host_def split: bool.splits)
  next
    case (Some f)
    then have b: "image_backed digest w (pr_before p) (df_bytes f)" "im_block_ref (pr_before p) \<noteq> None"
      using assms(2) by (auto simp: records_write_def image_backed_def)
    have "\<not> metadata_changed (pr_before p) ?g" using same_metadata assms(2) by (simp add: records_write_def)
    then show ?thesis
      using assms matches_backed [OF assms(1) a, of ?g] matches_backed [OF assms(1) b(1), of ?g] b(2) Some
      by (auto simp: classify_def left_image_def working_host_def written_file_def split: sum.splits bool.splits)
  qed
qed

lemma keep_conflict:
  assumes "working_host env" and "records_write digest w p orig bytes"
    and "rv_resolve env (recovery_copy p operation) = Inr copy" and "copy \<noteq> target"
  shows "\<exists>out w'. keep_earlier digest env w p operation = (Inr out, w') \<and> tw_fs w' target = tw_fs w target \<and>
     (\<forall>f. orig = Some f \<longrightarrow> (\<exists>g. tw_fs w' copy = Some g \<and> df_bytes g = df_bytes f))"
proof (cases orig)
  case None
  then show ?thesis using assms(2) by (simp add: keep_earlier_def records_write_def)
next
  case (Some f)
  then have "image_backed digest w (pr_before p) (df_bytes f)" "im_present (pr_before p)"
    using assms(2) by (simp_all add: records_write_def)
  then obtain w' where "keep_earlier digest env w p operation = (Inr (RO_Kept (Some (recovery_copy p operation))), w')"
    "tw_fs w' = put_bytes (rv_new env) (tw_fs w) copy (df_bytes f)"
    using keep_earlier_copy [OF assms(1) _ _ assms(3)] by blast
  then show ?thesis
    using Some put_bytes_at [of "rv_new env" "tw_fs w" copy "df_bytes f"] assms(4) by (auto simp: put_bytes_off)
qed



lemma settle_keeps: "settle cd env sid operation w p target = (r, w') \<Longrightarrow> tw_fs w' = tw_fs w \<and> tw_store w' = tw_store w"
  by (auto simp: settle_def Let_def split: sum.splits prod.splits)

lemma judge_keeps:
  assumes "judge digest cd env sid operation w = (r, w')"
  shows "tw_fs w' = tw_fs w \<and> tw_store w' = tw_store w"
  using assms by (auto simp: judge_def Let_def split: sum.splits prod.splits option.splits if_splits dest: settle_keeps)

lemma judge_found:
  assumes "judge digest cd env sid operation w = (Inr (Some x), w')"
  shows "rw_operation x = operation \<and> (rw_state x = WS_Applied \<longrightarrow> rw_committed x)"
  using assms by (auto simp: judge_def Let_def split: sum.splits prod.splits option.splits if_splits)

lemma recover_loop_keeps:
  "recover_loop digest cd env sid ops rep w = (rep', w') \<Longrightarrow> tw_fs w' = tw_fs w \<and> tw_store w' = tw_store w"
  by (induction ops arbitrary: rep w) (fastforce dest: judge_keeps split: sum.splits prod.splits option.splits)+

lemma recover_loop_report:
  "recover_loop digest cd env sid ops rep w = (rep', w') \<Longrightarrow>
   \<exists>ws us. rp_writes rep' = rp_writes rep @ ws \<and> rp_unreadable rep' = rp_unreadable rep @ us \<and>
     subseq (map rw_operation ws) ops \<and> subseq (map fst us) (map Some ops) \<and>
     (\<forall>x \<in> set ws. rw_state x = WS_Applied \<longrightarrow> rw_committed x)"
proof (induction ops arbitrary: rep w)
  case (Cons operation ops)
  obtain r w1 where j: "judge digest cd env sid operation w = (r, w1)" by force
  show ?case
  proof (cases r)
    case (Inl e)
    then obtain ws us where "rp_writes rep' = rp_writes rep @ ws" "rp_unreadable rep' = rp_unreadable rep @ (Some operation, e) # us"
      "subseq (map rw_operation ws) ops" "subseq (map fst us) (map Some ops)"
      "\<forall>x \<in> set ws. rw_state x = WS_Applied \<longrightarrow> rw_committed x"
      using Cons.IH [of "rep\<lparr>rp_unreadable := rp_unreadable rep @ [(Some operation, e)]\<rparr>" w1] Cons.prems j by auto
    then show ?thesis by (intro exI [of _ ws] exI [of _ "(Some operation, e) # us"]) auto
  next
    case (Inr found)
    show ?thesis
    proof (cases found)
      case None
      then show ?thesis using Cons.IH [of rep w1] Cons.prems j Inr by (fastforce intro: list_emb_Cons)
    next
      case (Some x)
      then obtain ws us where "rp_writes rep' = rp_writes rep @ x # ws" "rp_unreadable rep' = rp_unreadable rep @ us"
        "subseq (map rw_operation ws) ops" "subseq (map fst us) (map Some ops)"
        "\<forall>y \<in> set ws. rw_state y = WS_Applied \<longrightarrow> rw_committed y"
        using Cons.IH [of "rep\<lparr>rp_writes := rp_writes rep @ [x]\<rparr>" w1] Cons.prems j Inr by auto
      then show ?thesis using judge_found [of digest cd env sid operation w x w1] j Inr Some
        by (intro exI [of _ "x # ws"] exI [of _ us]) auto
    qed
  qed
qed simp

text \<open>Opening a session only reports: a recovery changes no file and no stored block, lists the writes it could
  judge in the order of their operation ids, each at most once, and every write it calls applied has a commit
  record, written during the recovery when the crash had prevented it.\<close>

lemma recover_only_reports:
  assumes "recover digest cd env sid w = (Inr rep, w')" and "distinct (map fst (tw_journal w sid))"
  shows "tw_fs w' = tw_fs w \<and> tw_store w' = tw_store w \<and> sorted (map rw_operation (rp_writes rep)) \<and>
     distinct (map rw_operation (rp_writes rep)) \<and> (\<forall>x \<in> set (rp_writes rep). rw_state x = WS_Applied \<longrightarrow> rw_committed x)"
proof (cases "rv_rooted env")
  case True
  let ?ops = "sort (filter (\<lambda>n. rv_stat env n = ES_Dir) (map fst (tw_journal w sid)))"
  obtain us where l: "recover_loop digest cd env sid ?ops \<lparr>rp_writes = [], rp_unreadable = us\<rparr> w = (rep, w')"
    using assms(1) True by (auto simp: recover_def Let_def split: if_splits prod.splits)
  from recover_loop_report [OF l] have sub: "subseq (map rw_operation (rp_writes rep)) ?ops"
    and app: "\<forall>x \<in> set (rp_writes rep). rw_state x = WS_Applied \<longrightarrow> rw_committed x" by auto
  have "distinct ?ops" using assms(2) by (metis distinct_filter distinct_sort)
  then have "distinct (map rw_operation (rp_writes rep))" using sub by (metis distinct_nthsI subseq_conv_nths)
  moreover have "sorted (map rw_operation (rp_writes rep))"
    using sub sorted_sort by (metis subseq_conv_nths sorted_nths)
  ultimately show ?thesis using recover_loop_keeps [OF l] app by simp
qed (use assms in \<open>auto simp: recover_def\<close>)

subsection \<open>Witnesses\<close>

definition demo_target :: fpath where
  "demo_target = parse_path ''a''"

definition demo_publish :: publish_env where
  "demo_publish = \<lparr>pu_dir = True, pu_atomic = AI_Ok, pu_temp = ''t''\<rparr>"

definition demo_tx :: tx_env where
  "demo_tx = \<lparr>te_resolve = (\<lambda>p. Inr (parse_path p)), te_ceiling = 9, te_meta = True, te_read = True, te_put_before = demo_put,
     te_put_after = demo_put, te_prepare = demo_publish, te_write = FI_Ok, te_new = (420, 1, 7), te_meta_after = True,
     te_commit = demo_publish, te_operation = ''k'', te_now = 9\<rparr>"

definition demo_file :: disk_file where
  "demo_file = \<lparr>df_bytes = ''x'', df_mode = 420, df_identity = (1, 2)\<rparr>"

definition demo_world :: tx_world where
  "demo_world = \<lparr>tw_fs = (\<lambda>_. None)(demo_target \<mapsto> demo_file), tw_store = \<lparr>bs_files = (\<lambda>_. None), bs_verified = []\<rparr>,
     tw_journal = (\<lambda>_. [])\<rparr>"

definition demo_image :: "str \<Rightarrow> image_record" where
  "demo_image b = \<lparr>im_present = True, im_block_ref = Some (demo_digest b), im_bytes = Some 1, im_mode = Some 420,
     im_identity = Some (1, 2)\<rparr>"

definition demo_prepared :: prepared_record where
  "demo_prepared = prepared_new ''k'' ''s'' ''a'' (demo_image ''x'') (demo_image ''y'')"

text \<open>A codec for the demonstration's own records.\<close>

definition demo_txc :: tx_codec where
  "demo_txc = \<lparr>tc_version = (\<lambda>_. Some 1), tc_print_prepared = (\<lambda>p. if p = demo_prepared then Some ''p'' else None),
     tc_read_prepared = (\<lambda>_. Some demo_prepared),
     tc_print_committed = (\<lambda>c. if c = committed_new ''k'' ''a'' (demo_image ''y'') 9 then Some ''c'' else None),
     tc_read_committed = (\<lambda>_. Some (committed_new ''k'' ''a'' (demo_image ''y'') 9))\<rparr>"

definition demo_rec :: rec_env where
  "demo_rec = \<lparr>rv_rooted = True, rv_list = True, rv_stat = (\<lambda>_. ES_Dir), rv_resolve = (\<lambda>p. Inr (parse_path p)), rv_meta = True, rv_read = True, rv_records = (\<lambda>_ _. True), rv_blocks = True,
     rv_settle = demo_publish, rv_meta_settle = True, rv_now = 11, rv_write = FI_Ok, rv_new = (420, 1, 8), rv_remove = True\<rparr>"

lemmas demo_tx_defs = demo_target_def demo_publish_def demo_tx_def demo_file_def demo_world_def demo_image_def
  demo_prepared_def demo_txc_def demo_rec_def demo_put_def

lemma demo_txc_ok: "tx_codec_ok demo_txc"
  by (simp add: tx_codec_ok_def demo_txc_def demo_prepared_def prepared_new_def committed_new_def TRANSACTION_SCHEMA_def)

lemma demo_undoable: "undoable demo_digest demo_txc demo_tx demo_rec ''s'' demo_world ''a'' demo_target ''y''"
proof -
  have "puts_fresh demo_digest demo_tx demo_world demo_target ''y''"
    using demo_digest_canonical
    by (simp add: puts_fresh_def demo_tx_defs disk_fresh_def block_put_def block_hit_def Let_def) (simp add: demo_digest_def)
  moreover have "is_one_component ''k''" by code_simp
  ultimately show ?thesis
    by (simp add: undoable_def op_dir_def temp_apart_def working_host_def PREPARED_FILE_def COMMITTED_FILE_def)
       (simp add: demo_tx_defs PREPARED_FILE_def COMMITTED_FILE_def)
qed

lemma demo_prepare_ok:
  "tx_prepare demo_digest demo_txc demo_tx ''s'' demo_world ''a'' demo_target ''y'' =
     (Inr demo_prepared, snd (tx_prepare demo_digest demo_txc demo_tx ''s'' demo_world ''a'' demo_target ''y''))"
  by (simp add: tx_prepare_def capture_def store_before_def tx_store_def block_put_def block_hit_def Let_def write_prepared_def
    publish_record_def write_atomic_def demo_tx_defs prepared_new_def)




definition demo_left :: tx_world where
  "demo_left = demo_world\<lparr>tw_store := \<lparr>bs_files = (\<lambda>_. None)(demo_digest ''x'' \<mapsto> \<lparr>bf_bytes = ''x'', bf_modified = None\<rparr>,
        demo_digest ''y'' \<mapsto> \<lparr>bf_bytes = ''y'', bf_modified = None\<rparr>), bs_verified = []\<rparr>,
     tw_fs := (\<lambda>_. None)(demo_target \<mapsto> demo_file\<lparr>df_bytes := ''y''\<rparr>),
     tw_journal := (\<lambda>_. [(''k'', (\<lambda>_. None)(PREPARED_FILE \<mapsto> ''p''))])\<rparr>"

lemma demo_left_open: "open_write demo_txc demo_rec ''s'' ''k'' demo_left = Inr (Some (demo_prepared, demo_target, None))"
  by (simp add: open_write_def read_prepared_def read_committed_def read_record_def op_dir_def demo_left_def demo_tx_defs
    TRANSACTION_SCHEMA_def file_names file_names [symmetric] prepared_new_def)

lemma demo_left_state:
  "classify demo_digest demo_rec demo_left demo_prepared None demo_target = Inr WS_Applied"
  "get_image demo_digest demo_rec demo_left (demo_digest ''x'') = Inr ''x''"
  using demo_digest_canonical
  by (simp_all add: classify_def matches_def holds_def get_image_def block_get_def metadata_changed_def left_image_def
    demo_left_def demo_tx_defs prepared_new_def) (simp_all add: demo_digest_def)



end
