(* ===== verification/File_Edit.thy ===== *)
theory File_Edit
  imports File_Tx Utf8
begin

text \<open>
  The tools that read and change files (\<open>houyicoder-core/src/agent/tools\<close>: \<open>file_edit.rs\<close>, \<open>edit.rs\<close>,
  \<open>multiedit.rs\<close>, \<open>write.rs\<close>, \<open>read.rs\<close>, \<open>diff.rs\<close>) and the text of a recorded write
  (\<open>snapshot/file_transaction/recovery/text.rs\<close>). A tool takes the JSON of the call and the world, and gives the
  JSON of the answer or an error, and the world it left: the files, blocks and journal of \<open>File_Tx\<close> and the
  paths handed to the skill activator, in order. The line diff of the answer is the \<open>similar\<close> crate's and a
  parameter. Texts are UTF-8 bytes.

  An error that carries another one (\<open>Failed\<close> with the text of a sandbox error or of a refused write) keeps
  it as a value. Lengths are below the 64-bit limit, where \<open>usize\<close> arithmetic is exact.
\<close>

subsection \<open>The replacement (file_edit.rs)\<close>

definition EDIT_MAX_BYTES :: nat where
  "EDIT_MAX_BYTES = 64 * 1024 * 1024"

fun decimal :: "nat \<Rightarrow> str" where
  "decimal n = (if n < 10 then [char_of (48 + n)] else decimal (n div 10) @ [char_of (48 + n mod 10)])"

declare decimal.simps [simp del]

definition many_matches :: "nat \<Rightarrow> str \<Rightarrow> str" where
  "many_matches n old =
     ''Found '' @ decimal n @ '' matches of the string to replace, but replace_all is false. '' @
     ''To replace all occurrences, set replace_all to true. To replace only one '' @
     ''occurrence, please provide more context to uniquely identify the instance.'' @ [NL] @ ''String: '' @ old"

definition apply_one :: "str \<Rightarrow> str \<Rightarrow> str \<Rightarrow> bool \<Rightarrow> str + str" where
  "apply_one content old new replace_all =
     (if old = [] then Inl ''old_string must be non-empty''
      else if old = new then Inl ''old_string == new_string (no-op edit refused)''
      else let n = count_matches old content in
        if n = 0 then Inl ''old_string not found''
        else if 1 < n \<and> \<not> replace_all then Inl (many_matches n old)
        else Inr (if replace_all then str_replace old new content else str_replace_first old new content))"

subsection \<open>The world of a tool\<close>

datatype write_failure = WF_Refused write_refusal | WF_Plain sandbox_error

datatype edit_error =
    EE_InvalidInput str
  | EE_Failed str
  | EE_Decode str
  | EE_Read sandbox_error
  | EE_Write write_failure

text \<open>The wiring of a tool: the journal, the session of the call, the sandbox's path resolution for reads,
  whether the host lets a file be read, the activator, the diff, the digest and the record format.\<close>

record edit_env =
  ee_tx :: tx_env
  ee_journal :: bool
  ee_session :: "str option"
  ee_resolve :: "str \<Rightarrow> sandbox_error + fpath"
  ee_readable :: bool
  ee_activator :: bool
  ee_udiff :: "str \<Rightarrow> str \<Rightarrow> nat \<Rightarrow> str"
  ee_digest :: "str \<Rightarrow> str"
  ee_codec :: tx_codec

record edit_world =
  ew_tx :: tx_world
  ew_activated :: "str list list"

definition activate :: "edit_env \<Rightarrow> str \<Rightarrow> edit_world \<Rightarrow> edit_world" where
  "activate env path w = (if ee_activator env then w\<lparr>ew_activated := ew_activated w @ [[path]]\<rparr> else w)"

definition read_file :: "edit_env \<Rightarrow> files \<Rightarrow> str \<Rightarrow> nat \<Rightarrow> sandbox_error + str" where
  "read_file env fs path max_bytes =
     (case ee_resolve env path of
        Inl e \<Rightarrow> Inl e
      | Inr p \<Rightarrow>
          (case fs p of
             None \<Rightarrow> Inl (SB_Io [])
           | Some f \<Rightarrow>
               if \<not> ee_readable env then Inl (SB_Io [])
               else if max_bytes < length (df_bytes f) then Inr (take max_bytes (df_bytes f))
               else Inr (df_bytes f)))"

definition read_editable_text :: "edit_env \<Rightarrow> files \<Rightarrow> str \<Rightarrow> edit_error + str" where
  "read_editable_text env fs path =
     (case read_file env fs path (EDIT_MAX_BYTES + 1) of
        Inl e \<Rightarrow> Inl (EE_Read e)
      | Inr bytes \<Rightarrow>
          if EDIT_MAX_BYTES < length bytes
          then Inl (EE_Failed (''edit: '' @ path @ '' too large (>='' @ decimal EDIT_MAX_BYTES @ '' bytes)''))
          else if \<not> utf8_valid bytes then Inl (EE_Decode ''edit: file is not valid utf-8 (binary?)'')
          else Inr bytes)"

definition write_recorded :: "edit_env \<Rightarrow> tx_world \<Rightarrow> str \<Rightarrow> str \<Rightarrow> (write_failure + unit) \<times> tx_world" where
  "write_recorded env w path bytes =
     (if ee_journal env then
        (case tx_write (ee_digest env) (ee_codec env) (ee_tx env) (ee_session env) w path bytes of
           (Inl r, w') \<Rightarrow> (Inl (WF_Refused r), w')
         | (Inr _, w') \<Rightarrow> (Inr (), w'))
      else
        (case write_file (te_resolve (ee_tx env)) (te_write (ee_tx env)) (te_new (ee_tx env)) (tw_fs w) path bytes of
           (Inl e, fs) \<Rightarrow> (Inl (WF_Plain e), w\<lparr>tw_fs := fs\<rparr>)
         | (Inr _, fs) \<Rightarrow> (Inr (), w\<lparr>tw_fs := fs\<rparr>)))"

definition unified_diff :: "edit_env \<Rightarrow> str \<Rightarrow> str \<Rightarrow> nat \<Rightarrow> str" where
  "unified_diff env original modified ctx =
     ee_udiff env (str_replace [CR, NL] [NL] original) (str_replace [CR, NL] [NL] modified) ctx"

text \<open>The count of \<open>matches\<close> is taken before the replacement refuses an empty pattern; it is used on success only.\<close>

definition apply_edit ::
  "edit_env \<Rightarrow> tx_world \<Rightarrow> str \<Rightarrow> str \<Rightarrow> str \<Rightarrow> bool \<Rightarrow> (edit_error + str \<times> nat \<times> nat) \<times> tx_world" where
  "apply_edit env w path old new replace_all =
     (case read_editable_text env (tw_fs w) path of
        Inl e \<Rightarrow> (Inl e, w)
      | Inr original \<Rightarrow>
          (case apply_one original old new replace_all of
             Inl m \<Rightarrow> (Inl (EE_Failed (''edit: '' @ m)), w)
           | Inr modified \<Rightarrow>
               (case write_recorded env w path modified of
                  (Inl reason, w') \<Rightarrow> (Inl (EE_Write reason), w')
                | (Inr _, w') \<Rightarrow>
                    (Inr (unified_diff env original modified 3, count_matches old original mod 2 ^ 32, length original), w'))))"

subsection \<open>The edit tool (edit.rs)\<close>

definition get_bool :: "json \<Rightarrow> str \<Rightarrow> bool" where
  "get_bool v k = (case Option.bind (json_get v k) json_bool of Some b \<Rightarrow> b | None \<Rightarrow> False)"

definition edit_execute :: "edit_env \<Rightarrow> json \<Rightarrow> edit_world \<Rightarrow> (edit_error + json) \<times> edit_world" where
  "edit_execute env input w =
     (case get_str input ''path'' of
        None \<Rightarrow> (Inl (EE_InvalidInput ''edit: path (string) required''), w)
      | Some path \<Rightarrow>
          let w = activate env path w in
          (case get_str input ''old_string'' of
             None \<Rightarrow> (Inl (EE_InvalidInput ''edit: old_string (string) required''), w)
           | Some old \<Rightarrow>
               (case get_str input ''new_string'' of
                  None \<Rightarrow> (Inl (EE_InvalidInput ''edit: new_string (string) required''), w)
                | Some new \<Rightarrow>
                    (case apply_edit env (ew_tx w) path old new (get_bool input ''replace_all'') of
                       (Inl e, tx) \<Rightarrow> (Inl e, w\<lparr>ew_tx := tx\<rparr>)
                     | (Inr (d, n, bytes), tx) \<Rightarrow>
                         (Inr (JObject [(''path'', JString path), (''diff'', JString d),
                            (''occurrences_replaced'', JInt (int n)), (''bytes'', JInt (int bytes))]), w\<lparr>ew_tx := tx\<rparr>)))))"

subsection \<open>The batch (multiedit.rs)\<close>

fun multi_apply :: "nat \<Rightarrow> json list \<Rightarrow> str \<Rightarrow> edit_error + str" where
  "multi_apply i [] content = Inr content"
| "multi_apply i (e # es) content =
     (case get_str e ''old_string'' of
        None \<Rightarrow> Inl (EE_InvalidInput (''multiedit: edits['' @ decimal i @ ''].old_string required''))
      | Some old \<Rightarrow>
          (case get_str e ''new_string'' of
             None \<Rightarrow> Inl (EE_InvalidInput (''multiedit: edits['' @ decimal i @ ''].new_string required''))
           | Some new \<Rightarrow>
               (case apply_one content old new (get_bool e ''replace_all'') of
                  Inl err \<Rightarrow> Inl (EE_Failed (''multiedit: edits['' @ decimal i @ '']: '' @ err))
                | Inr content' \<Rightarrow> multi_apply (Suc i) es content')))"

definition multiedit_execute :: "edit_env \<Rightarrow> json \<Rightarrow> edit_world \<Rightarrow> (edit_error + json) \<times> edit_world" where
  "multiedit_execute env input w =
     (case get_str input ''path'' of
        None \<Rightarrow> (Inl (EE_InvalidInput ''multiedit: path (string) required''), w)
      | Some path \<Rightarrow>
          let w = activate env path w in
          (case Option.bind (json_get input ''edits'') json_array of
             None \<Rightarrow> (Inl (EE_InvalidInput ''multiedit: edits (array) required''), w)
           | Some edits \<Rightarrow>
               if edits = [] then (Inl (EE_InvalidInput ''multiedit: edits must be non-empty''), w)
               else
                 (case read_editable_text env (tw_fs (ew_tx w)) path of
                    Inl e \<Rightarrow> (Inl e, w)
                  | Inr original \<Rightarrow>
                      (case multi_apply 0 edits original of
                         Inl e \<Rightarrow> (Inl e, w)
                       | Inr content \<Rightarrow>
                           (case write_recorded env (ew_tx w) path content of
                              (Inl reason, tx) \<Rightarrow> (Inl (EE_Write reason), w\<lparr>ew_tx := tx\<rparr>)
                            | (Inr _, tx) \<Rightarrow>
                                (Inr (JObject [(''path'', JString path), (''diff'', JString (unified_diff env original content 3)),
                                   (''edits_applied'', JInt (int (length edits))), (''bytes'', JInt (int (length original)))]),
                                 w\<lparr>ew_tx := tx\<rparr>))))))"

subsection \<open>The write tool (write.rs)\<close>

definition should_skip_unchanged_write :: "bool \<Rightarrow> str option \<Rightarrow> str \<Rightarrow> bool" where
  "should_skip_unchanged_write write_if_unchanged existing content =
     (write_if_unchanged \<and> (case existing of Some b \<Rightarrow> b = content | None \<Rightarrow> False))"

definition write_execute :: "edit_env \<Rightarrow> json \<Rightarrow> edit_world \<Rightarrow> (edit_error + json) \<times> edit_world" where
  "write_execute env input w =
     (case get_str input ''path'' of
        None \<Rightarrow> (Inl (EE_InvalidInput ''write: path (string) required''), w)
      | Some path \<Rightarrow>
          let w = activate env path w in
          (case get_str input ''content'' of
             None \<Rightarrow> (Inl (EE_InvalidInput ''write: content (string) required''), w)
           | Some content \<Rightarrow>
               let cap = max (length content + 1) (EDIT_MAX_BYTES + 1);
                   existing = (case read_file env (tw_fs (ew_tx w)) path cap of Inl _ \<Rightarrow> None | Inr b \<Rightarrow> Some b);
                   lines = length (str_lines content) in
               if should_skip_unchanged_write (get_bool input ''write_if_unchanged'') existing content
               then (Inr (JObject [(''path'', JString path), (''bytes'', JInt (int (length content))),
                       (''lines'', JInt (int lines)), (''unchanged'', JBool True)]), w)
               else
                 (case write_recorded env (ew_tx w) path content of
                    (Inl reason, tx) \<Rightarrow> (Inl (EE_Write reason), w\<lparr>ew_tx := tx\<rparr>)
                  | (Inr _, tx) \<Rightarrow>
                      (Inr (JObject [(''path'', JString path), (''bytes'', JInt (int (length content))), (''lines'', JInt (int lines))]),
                       w\<lparr>ew_tx := tx\<rparr>))))"

subsection \<open>The read tool (read.rs)\<close>

definition parse_usize :: "str \<Rightarrow> nat option" where
  "parse_usize s =
     (let digits = (case s of c # r \<Rightarrow> if c = CHR ''+'' then r else s | [] \<Rightarrow> s) in
      if digits = [] \<or> \<not> list_all is_ascii_digit digits then None
      else let n = foldl (\<lambda>acc c. acc * 10 + (code_of c - 48)) 0 digits in
        if n < 2 ^ 64 then Some n else None)"

definition validate_read_max_bytes :: "nat \<Rightarrow> edit_error + unit" where
  "validate_read_max_bytes budget =
     (if budget = 0 then Inl (EE_InvalidInput ''read: max_bytes must be greater than 0'') else Inr ())"

definition parse_line_param :: "json \<Rightarrow> str \<Rightarrow> edit_error + nat option" where
  "parse_line_param input key =
     (case json_get input key of
        None \<Rightarrow> Inr None
      | Some val \<Rightarrow>
          (case val of
             JNull \<Rightarrow> Inr None
           | JInt i \<Rightarrow>
               (case as_u64 val of
                  Some v \<Rightarrow> Inr (Some v)
                | None \<Rightarrow> Inl (EE_InvalidInput (''read: '' @ key @ '' must be non-negative'')))
           | JFloat _ \<Rightarrow> Inl (EE_InvalidInput (''read: '' @ key @ '' must be non-negative''))
           | JString s \<Rightarrow>
               (case parse_usize (utf8_trim s) of
                  Some v \<Rightarrow> Inr (Some v)
                | None \<Rightarrow> Inl (EE_InvalidInput (''read: '' @ key @ '' must be an integer'')))
           | _ \<Rightarrow> Inl (EE_InvalidInput (''read: '' @ key @ '' must be a number''))))"

definition validate_read_limit :: "nat option \<Rightarrow> edit_error + unit" where
  "validate_read_limit lim =
     (if lim = Some 0 then Inl (EE_InvalidInput ''read: limit must be greater than 0'') else Inr ())"

definition skip_lines :: "nat option \<Rightarrow> nat" where
  "skip_lines offset = (case offset of None \<Rightarrow> 1 | Some n \<Rightarrow> n) - 1"

definition slice_read_window :: "str \<Rightarrow> bool \<Rightarrow> nat option \<Rightarrow> nat option \<Rightarrow> nat \<Rightarrow> str \<times> bool" where
  "slice_read_window raw fetch_truncated offset lim max_bytes =
     (if offset = None \<and> lim = None then (raw, fetch_truncated)
      else
        let iter = drop (skip_lines offset) (split_inclusive raw);
            out = (case lim of Some n \<Rightarrow> concat (take n iter) | None \<Rightarrow> concat iter);
            more_lines = (case lim of Some n \<Rightarrow> drop n iter \<noteq> [] | None \<Rightarrow> False) in
        if max_bytes < length out then (take (floor_char_boundary out max_bytes) out, True)
        else (out, fetch_truncated \<or> more_lines))"

definition read_execute :: "edit_env \<Rightarrow> json \<Rightarrow> edit_world \<Rightarrow> (edit_error + json) \<times> edit_world" where
  "read_execute env input w =
     (case get_str input ''path'' of
        None \<Rightarrow> (Inl (EE_InvalidInput ''read: path (string) required''), w)
      | Some path \<Rightarrow>
          let w = activate env path w;
              budget = (case Option.bind (json_get input ''max_bytes'') as_u64 of Some n \<Rightarrow> n | None \<Rightarrow> 65536) in
          (case validate_read_max_bytes budget of
             Inl e \<Rightarrow> (Inl e, w)
           | Inr _ \<Rightarrow>
               (case parse_line_param input ''offset'' of
                  Inl e \<Rightarrow> (Inl e, w)
                | Inr offset \<Rightarrow>
                    (case (case parse_line_param input ''limit'' of
                             Inl e \<Rightarrow> Inl e
                           | Inr (Some n) \<Rightarrow> Inr (Some n)
                           | Inr None \<Rightarrow> parse_line_param input ''context'') of
                       Inl e \<Rightarrow> (Inl e, w)
                     | Inr lim \<Rightarrow>
                         (case validate_read_limit lim of
                            Inl e \<Rightarrow> (Inl e, w)
                          | Inr _ \<Rightarrow>
                              let fetch_max = (if 0 < skip_lines offset then max budget 1048576 else budget) in
                              (case read_file env (tw_fs (ew_tx w)) path fetch_max of
                                 Inl e \<Rightarrow> (Inl (EE_Read e), w)
                               | Inr bytes \<Rightarrow>
                                   (case slice_read_window (utf8_lossy bytes) (length bytes = fetch_max) offset lim budget of
                                      (content, truncated) \<Rightarrow>
                                        (Inr (JObject [(''path'', JString path), (''content'', JString content),
                                           (''truncated'', JBool truncated)]), w))))))))"

subsection \<open>The two sides of a recorded write (recovery/text.rs)\<close>

definition TEXT_ROOM_BYTES :: nat where
  "TEXT_ROOM_BYTES = 16 * 1024"

definition TEXT_ROOM_LINES :: nat where
  "TEXT_ROOM_LINES = 400"

datatype side_text = ST_Text str bool | ST_Absent | ST_NotKept | ST_NotText

record write_text =
  wt_operation :: str
  wt_target :: str
  wt_before :: side_text
  wt_after :: side_text

definition held_text :: "str \<Rightarrow> side_text" where
  "held_text bytes =
     (if \<not> utf8_valid bytes then ST_NotText
      else if CHR 0x00 \<in> set bytes then ST_NotText
      else let over = TEXT_ROOM_BYTES < length bytes;
               stop = (if over then floor_char_boundary bytes TEXT_ROOM_BYTES else length bytes);
               ls = split_inclusive (take stop bytes) in
        ST_Text (concat (take TEXT_ROOM_LINES ls)) (over \<or> TEXT_ROOM_LINES < length ls))"

definition side_text_of :: "(str \<Rightarrow> str) \<Rightarrow> bool \<Rightarrow> block_store \<Rightarrow> image_record \<Rightarrow> recovery_error + side_text" where
  "side_text_of digest readable s img =
     (if \<not> im_present img then Inr ST_Absent
      else (case im_block_ref img of
              None \<Rightarrow> Inr ST_NotKept
            | Some hash \<Rightarrow>
                (case block_get digest readable s hash of
                   Inl e \<Rightarrow> Inl (RE_Image hash e)
                 | Inr bytes \<Rightarrow> Inr (held_text bytes))))"

definition tx_text ::
  "(str \<Rightarrow> str) \<Rightarrow> tx_codec \<Rightarrow> rec_env \<Rightarrow> str \<Rightarrow> str \<Rightarrow> tx_world \<Rightarrow> recovery_error + write_text" where
  "tx_text digest cd env session operation w =
     (if \<not> rv_rooted env then Inl (RE_Unknown operation)
      else if \<not> is_one_component operation then Inl (RE_Unknown operation)
      else (case read_prepared cd (rv_records env operation PREPARED_FILE) (op_dir w session operation) of
              Inl e \<Rightarrow> Inl (RE_Record e)
            | Inr None \<Rightarrow> Inl (RE_Unknown operation)
            | Inr (Some prepared) \<Rightarrow>
                (case read_committed cd (rv_records env operation COMMITTED_FILE) (op_dir w session operation) of
                   Inl e \<Rightarrow> Inl (RE_Record e)
                 | Inr committed \<Rightarrow>
                     (case side_text_of digest (rv_blocks env) (tw_store w) (pr_before prepared) of
                        Inl e \<Rightarrow> Inl e
                      | Inr before \<Rightarrow>
                          (case side_text_of digest (rv_blocks env) (tw_store w) (left_image prepared committed) of
                             Inl e \<Rightarrow> Inl e
                           | Inr after \<Rightarrow>
                               Inr \<lparr>wt_operation = pr_operation prepared, wt_target = pr_target prepared,
                                    wt_before = before, wt_after = after\<rparr>)))))"

subsection \<open>What a replacement does\<close>

lemma apply_one_ok:
  assumes "apply_one content old new replace_all = Inr r"
  shows "old \<noteq> [] \<and> old \<noteq> new \<and> sublist old content \<and> (replace_all \<or> count_matches old content = 1) \<and>
     r = (if replace_all then str_replace old new content else str_replace_first old new content)"
proof -
  have "old \<noteq> []" "old \<noteq> new" "count_matches old content \<noteq> 0" "replace_all \<or> \<not> 1 < count_matches old content"
    "r = (if replace_all then str_replace old new content else str_replace_first old new content)"
    using assms by (auto simp: apply_one_def Let_def split: if_splits)
  then show ?thesis using count_matches_0 [of old content] by auto
qed

text \<open>An edit without \<open>replace_all\<close> changes one place: the content is a text, the old string and another text, the
  result has the new string between the same two, and every occurrence of the old string in the content
  starts within that place, at its first character or, for a string that overlaps itself, inside it.\<close>

lemma apply_one_single:
  assumes "apply_one content old new False = Inr r"
  shows "\<exists>a b. content = a @ old @ b \<and> r = a @ new @ b \<and>
     (\<forall>a' b'. content = a' @ old @ b' \<longrightarrow> length a \<le> length a' \<and> length a' < length a + length old)"
proof -
  have ok: "old \<noteq> []" "count_matches old content = 1" "sublist old content" "r = str_replace_first old new content"
    using apply_one_ok [OF assms] by simp_all
  then obtain a b where ab: "split_once old content = Some (a, b)" using split_once_None [of old content] by (cases "split_once old content") auto
  then show ?thesis
    using split_once_Some [OF ab] count_matches_1 [OF ok(1,2) _ ab] ok(4) by (auto simp: str_replace_first_def)
qed

text \<open>An edit with \<open>replace_all\<close> replaces every match: the content is a list of texts free of the old string, joined
  by it, and the result is the same texts joined by the new string; it is refused exactly when the old
  string is empty, equal to the new one or not in the content.\<close>

lemma apply_one_all:
  "(case apply_one content old new True of
      Inl _ \<Rightarrow> old = [] \<or> old = new \<or> \<not> sublist old content
    | Inr r \<Rightarrow> old \<noteq> [] \<and> old \<noteq> new \<and>
        (\<exists>ws. content = str_join old ws \<and> r = str_join new ws \<and> length ws = count_matches old content + 1 \<and>
           (\<forall>w \<in> set ws. \<not> sublist old w)))"
proof (cases "apply_one content old new True")
  case (Inl m)
  then show ?thesis using count_matches_0 [of old content] by (auto simp: apply_one_def Let_def split: if_splits)
next
  case (Inr r)
  have "content = str_join old (split_pattern old content)" by (simp add: split_pattern_join)
  moreover have "length (split_pattern old content) = count_matches old content + 1"
    by (cases "split_pattern old content") (auto simp: count_matches_def)
  ultimately show ?thesis
    using Inr apply_one_ok [OF Inr] split_pattern_pieces [of old _ content]
    by (auto simp: str_replace_def intro!: exI [of _ "split_pattern old content"])
qed

text \<open>A string that overlaps itself is not refused although it stands at two places.\<close>

lemma overlapping_edit_accepted:
  "apply_one ''aaa'' ''aa'' ''b'' False = Inr ''ba'' \<and> ''aaa'' = [] @ ''aa'' @ ''a'' \<and> ''aaa'' = ''a'' @ ''aa'' @ []"
  by code_simp

subsection \<open>What a tool leaves\<close>

definition ew_fs :: "edit_world \<Rightarrow> files" where
  "ew_fs w = tw_fs (ew_tx w)"

text \<open>The write itself failed: the one error after which the target may have changed.\<close>

fun write_broke :: "write_failure \<Rightarrow> bool" where
  "write_broke (WF_Refused (WR_Write _ _)) = True"
| "write_broke (WF_Refused _) = False"
| "write_broke (WF_Plain _) = True"

lemma tx_refused_fs:
  assumes "tx_write digest cd env session w path bytes = (Inl r, w')" and "\<not> write_broke (WF_Refused r)"
  shows "tw_fs w' = tw_fs w"
  using assms tx_prepare_fs
  by (auto simp: tx_write_def split: option.splits prod.splits sum.splits)

lemma tx_written_fs:
  assumes "tx_write digest cd env session w path bytes = (Inr u, w')" and "te_resolve env path = Inr target"
  shows "tw_fs w' = put_bytes (te_new env) (tw_fs w) target bytes"
  using assms tx_prepare_fs
  by (fastforce simp: tx_write_def write_file_def split: option.splits prod.splits sum.splits file_io.splits)

lemma write_recorded_error:
  assumes "write_recorded env w path bytes = (Inl r, w')" and "\<not> write_broke r"
  shows "tw_fs w' = tw_fs w"
  using assms by (auto simp: write_recorded_def split: if_splits prod.splits sum.splits dest: tx_refused_fs)

lemma write_recorded_ok:
  assumes "write_recorded env w path bytes = (Inr u, w')" and "te_resolve (ee_tx env) path = Inr target"
  shows "tw_fs w' = put_bytes (te_new (ee_tx env)) (tw_fs w) target bytes"
  using assms by (auto simp: write_recorded_def write_file_def split: if_splits prod.splits sum.splits file_io.splits dest: tx_written_fs)

lemma write_recorded_resolves:
  "write_recorded env w path bytes = (Inr u, w') \<Longrightarrow> \<exists>target. te_resolve (ee_tx env) path = Inr target"
  by (auto simp: write_recorded_def tx_write_def write_file_def split: if_splits option.splits prod.splits sum.splits)

lemma activate_fs [simp]: "ew_fs (activate env path w) = ew_fs w" "ew_tx (activate env path w) = ew_tx w"
  by (simp_all add: activate_def ew_fs_def)

text \<open>A file the edit tools accept is read whole.\<close>

lemma editable_whole:
  assumes "read_editable_text env fs path = Inr original"
  shows "\<exists>p f. ee_resolve env path = Inr p \<and> fs p = Some f \<and> df_bytes f = original \<and> utf8_valid original"
  using assms by (auto simp: read_editable_text_def read_file_def split: sum.splits option.splits if_splits)

text \<open>The edits of a batch, one after the other.\<close>

fun applies :: "json list \<Rightarrow> str \<Rightarrow> str \<Rightarrow> bool" where
  "applies [] content result = (content = result)"
| "applies (e # es) content result =
     (case (get_str e ''old_string'', get_str e ''new_string'') of
        (Some old, Some new) \<Rightarrow>
          (case apply_one content old new (get_bool e ''replace_all'') of
             Inl _ \<Rightarrow> False
           | Inr content' \<Rightarrow> applies es content' result)
      | _ \<Rightarrow> False)"

lemma multi_apply_applies: "multi_apply i es content = Inr result \<longleftrightarrow> applies es content result"
  by (induction es arbitrary: i content) (auto split: option.splits sum.splits)

text \<open>C34. A batch of edits is all or nothing: when the tool answers with success, the target it wrote holds the bytes
  the file had, whole and valid UTF-8, with every edit applied in order; when it answers with an error, no
  file changed, unless every edit applied and the write of the result itself failed half-way.\<close>

theorem multiedit_all_or_nothing:
  assumes "multiedit_execute env input w = (res, w')"
  shows "case res of
     Inl e \<Rightarrow> ew_fs w' = ew_fs w \<or> (\<exists>r. e = EE_Write r \<and> write_broke r)
   | Inr _ \<Rightarrow> \<exists>path edits p f target result.
       get_str input ''path'' = Some path \<and> json_get input ''edits'' = Some (JArray edits) \<and>
       ee_resolve env path = Inr p \<and> ew_fs w p = Some f \<and> utf8_valid (df_bytes f) \<and> applies edits (df_bytes f) result \<and>
       te_resolve (ee_tx env) path = Inr target \<and> ew_fs w' = put_bytes (te_new (ee_tx env)) (ew_fs w) target result"
proof (cases res)
  case (Inl e)
  then show ?thesis
    using assms write_recorded_error
    by (auto simp: multiedit_execute_def ew_fs_def Let_def split: option.splits sum.splits if_splits prod.splits)
next
  case (Inr out)
  then obtain path edits original content tx where
    i: "get_str input ''path'' = Some path" "Option.bind (json_get input ''edits'') json_array = Some edits" and
    o: "read_editable_text env (ew_fs w) path = Inr original" and m: "multi_apply 0 edits original = Inr content" and
    r: "write_recorded env (ew_tx w) path content = (Inr (), tx)" "ew_fs w' = tw_fs tx"
    using assms by (auto simp: multiedit_execute_def ew_fs_def Let_def split: option.splits sum.splits if_splits prod.splits)
  have "json_get input ''edits'' = Some (JArray edits)"
    using i(2) by (cases "json_get input ''edits''") (auto elim: json_array.elims)
  moreover obtain target where "te_resolve (ee_tx env) path = Inr target" using write_recorded_resolves [OF r(1)] by blast
  ultimately show ?thesis
    using Inr i(1) editable_whole [OF o] m [unfolded multi_apply_applies] write_recorded_ok [OF r(1)] r(2)
    by (fastforce simp: ew_fs_def)
qed

lemma tx_write_crash:
  assumes "tx_write digest cd env (Some sid) w path bytes = (Inr u, w')" and "te_resolve env path = Inr target"
  shows "tx_crash digest cd env sid w path target bytes w'"
proof -
  obtain p w1 where p: "tx_prepare digest cd env sid w path target bytes = (Inr p, w1)"
    using assms by (auto simp: tx_write_def split: prod.splits sum.splits)
  then have "w' = tx_commit cd env sid (w1\<lparr>tw_fs := put_bytes (te_new env) (tw_fs w1) target bytes\<rparr>) path target p"
    using assms by (auto simp: tx_write_def write_file_def split: file_io.splits prod.splits sum.splits)
  then show ?thesis using crash_committed [OF p] by simp
qed


text \<open>A write that breaks half-way is an error after which the target is not what it was.\<close>

lemma broken_write_touches:
  "\<exists>env w w'. fst (write_recorded env w ''a'' ''y'') = Inl (WF_Plain (SB_Io [])) \<and>
     w' = snd (write_recorded env w ''a'' ''y'') \<and> tw_fs w' demo_target \<noteq> tw_fs w demo_target"
proof -
  let ?env = "\<lparr>ee_tx = demo_tx\<lparr>te_write := FI_Torn 0\<rparr>, ee_journal = False, ee_session = None, ee_resolve = te_resolve demo_tx,
    ee_readable = True, ee_activator = False, ee_udiff = (\<lambda>a b n. b), ee_digest = demo_digest, ee_codec = demo_txc\<rparr>"
  show ?thesis
    by (rule exI [of _ ?env], rule exI [of _ demo_world])
       (simp add: write_recorded_def write_file_def put_bytes_eq written_file_def demo_tx_defs)
qed

subsection \<open>What a read shows\<close>

lemma slice_bounds:
  assumes "slice_read_window raw short offset lim budget = (content, truncated)" and "offset \<noteq> None \<or> lim \<noteq> None"
  shows "length content \<le> budget"
  using assms by (auto simp: slice_read_window_def Let_def split: if_splits)

text \<open>Nothing is missing from a window that is not marked as cut.\<close>

lemma slice_complete:
  assumes "slice_read_window raw short offset lim budget = (content, False)"
  shows "\<not> short \<and> content = concat (drop (skip_lines offset) (split_inclusive raw))"
  using assms
  by (cases lim) (auto simp: slice_read_window_def skip_lines_def Let_def split: if_splits)

lemma read_file_short: "read_file env fs path budget = Inr bytes \<Longrightarrow> length bytes \<noteq> budget \<Longrightarrow>
  \<exists>p f. ee_resolve env path = Inr p \<and> fs p = Some f \<and> df_bytes f = bytes"
  by (auto simp: read_file_def split: sum.splits option.splits if_splits)

text \<open>A read that is not marked truncated hides nothing: it answered with all the lines of the file from the asked
  offset on, decoded, up to the last byte.\<close>

lemma read_untruncated_complete:
  assumes "read_execute env input w = (Inr (JObject [(''path'', JString path), (''content'', JString content),
      (''truncated'', JBool False)]), w')"
  shows "\<exists>p f offset. ee_resolve env path = Inr p \<and> ew_fs w p = Some f \<and> parse_line_param input ''offset'' = Inr offset \<and>
     content = concat (drop (skip_lines offset) (split_inclusive (utf8_lossy (df_bytes f))))"
proof -
  obtain offset lim budget fetch bytes where
    o: "parse_line_param input ''offset'' = Inr offset" and
    r: "read_file env (ew_fs w) path fetch = Inr bytes" and
    s: "slice_read_window (utf8_lossy bytes) (length bytes = fetch) offset lim budget = (content, False)"
    using assms
    by (auto simp: read_execute_def Let_def ew_fs_def split: option.splits sum.splits prod.splits)
  note c = slice_complete [OF s]
  then obtain p f where "ee_resolve env path = Inr p" "ew_fs w p = Some f" "df_bytes f = bytes"
    using read_file_short [OF r] by auto
  then show ?thesis using o c by blast
qed

text \<open>A window that skips lines or has a limit is within the byte budget, and cut at a character boundary.\<close>

lemma slice_valid:
  assumes "utf8_valid raw"
  shows "utf8_valid (fst (slice_read_window raw short offset lim budget))"
proof -
  have "utf8_valid (concat (take n (drop k (split_inclusive raw))))" "utf8_valid (concat (drop k (split_inclusive raw)))" for n k
    using valid_lines_concat [OF assms] by (meson order_trans set_drop_subset set_take_subset)+
  then show ?thesis
    using assms floor_char_boundary_valid by (auto simp: slice_read_window_def Let_def split: option.splits)
qed

text \<open>The answer of a read is text within its budget: it is valid UTF-8 whatever bytes the file holds, and with a line
  offset or a line limit it is at most \<open>max_bytes\<close> bytes long, cut between characters.\<close>

lemma read_within_budget:
  assumes "read_execute env input w = (Inr (JObject [(''path'', JString path), (''content'', JString content),
      (''truncated'', JBool truncated)]), w')"
  shows "utf8_valid content \<and> w' = activate env path w \<and>
    (parse_line_param input ''offset'' \<noteq> Inr None \<or> parse_line_param input ''limit'' \<noteq> Inr None \<longrightarrow>
     length content \<le> (case Option.bind (json_get input ''max_bytes'') as_u64 of Some n \<Rightarrow> n | None \<Rightarrow> 65536))"
proof -
  define budget where "budget = (case Option.bind (json_get input ''max_bytes'') as_u64 of Some n \<Rightarrow> n | None \<Rightarrow> 65536)"
  obtain offset lim fetch bytes where
    o: "parse_line_param input ''offset'' = Inr offset" and
    l: "parse_line_param input ''limit'' = Inr lim \<or> parse_line_param input ''limit'' = Inr None" and
    s: "slice_read_window (utf8_lossy bytes) (length bytes = fetch) offset lim budget = (content, truncated)" and
    w: "w' = activate env path w"
    using assms
    by (auto simp: read_execute_def Let_def budget_def split: option.splits sum.splits prod.splits)
  have "utf8_valid content" using slice_valid [OF utf8_lossy_is_valid, of bytes] s by (metis fst_conv)
  moreover have "length content \<le> budget" if "offset \<noteq> None \<or> lim \<noteq> None" using slice_bounds [OF s that] .
  ultimately show ?thesis using o l w by (auto simp: budget_def)
qed

lemma concat_take_lines: "\<exists>rest. s = concat (take n (split_inclusive s)) @ rest \<and> (rest = [] \<longleftrightarrow> length (split_inclusive s) \<le> n)"
proof -
  have "concat (drop n (split_inclusive s)) = [] \<longleftrightarrow> drop n (split_inclusive s) = []"
    using split_inclusive_parts [of _ s] by (metis concat.simps(1) concat_eq_Nil_conv drop_eq_Nil in_set_dropD list.set_intros(1) neq_Nil_conv)
  then show ?thesis by (intro exI [of _ "concat (drop n (split_inclusive s))"]) (simp flip: concat_append)
qed

lemma boundary_cut: "length s > i \<Longrightarrow> drop (floor_char_boundary s i) s \<noteq> []"
  using floor_char_boundary_le(1) [of s i] by auto

text \<open>The text a detail shows of a recorded side fits its room: it is a prefix of the kept bytes, valid UTF-8 without
  a null character, at most \<open>TEXT_ROOM_BYTES\<close> long and \<open>TEXT_ROOM_LINES\<close> lines, and it is marked truncated exactly when
  something of the kept bytes is missing.\<close>

lemma held_text_room:
  assumes "held_text bytes = ST_Text shown truncated"
  shows "utf8_valid shown \<and> CHR 0x00 \<notin> set shown \<and> length shown \<le> TEXT_ROOM_BYTES \<and>
     length (split_inclusive shown) \<le> TEXT_ROOM_LINES \<and> (\<exists>rest. bytes = shown @ rest \<and> (truncated \<longleftrightarrow> rest \<noteq> []))"
proof -
  define stop where "stop = (if TEXT_ROOM_BYTES < length bytes then floor_char_boundary bytes TEXT_ROOM_BYTES else length bytes)"
  let ?s = "take stop bytes"
  have v: "utf8_valid bytes" "CHR 0x00 \<notin> set bytes" and sh: "shown = concat (take TEXT_ROOM_LINES (split_inclusive ?s))"
    and tr: "truncated \<longleftrightarrow> TEXT_ROOM_BYTES < length bytes \<or> TEXT_ROOM_LINES < length (split_inclusive ?s)"
    using assms by (auto simp: held_text_def stop_def Let_def split: if_splits)
  obtain r where r: "?s = shown @ r" "r = [] \<longleftrightarrow> length (split_inclusive ?s) \<le> TEXT_ROOM_LINES"
    using concat_take_lines [of ?s TEXT_ROOM_LINES] sh by blast
  have stop: "stop \<le> TEXT_ROOM_BYTES" "drop stop bytes = [] \<longleftrightarrow> \<not> TEXT_ROOM_BYTES < length bytes"
    using floor_char_boundary_le(1) [of bytes TEXT_ROOM_BYTES] boundary_cut [of TEXT_ROOM_BYTES bytes] by (auto simp: stop_def)
  have "utf8_valid ?s" using v(1) floor_char_boundary_valid by (simp add: stop_def)
  then have "utf8_valid shown" unfolding sh by (rule valid_lines_prefix)
  moreover have "bytes = shown @ (r @ drop stop bytes)" using r(1) append_take_drop_id [of stop bytes] by (metis append_assoc)
  moreover have "truncated \<longleftrightarrow> r @ drop stop bytes \<noteq> []" using tr r(2) stop(2) by auto
  moreover have "length shown \<le> TEXT_ROOM_BYTES" using r(1) stop(1) by (metis length_append length_take le_add1 le_trans min.cobounded2)
  moreover have "length (split_inclusive shown) \<le> TEXT_ROOM_LINES" by (simp add: sh split_inclusive_take)
  moreover have "CHR 0x00 \<notin> set shown" using v(2) r(1) by (metis UnCI in_set_takeD set_append)
  ultimately show ?thesis by blast
qed

subsection \<open>Witnesses\<close>

definition demo_edit :: edit_env where
  "demo_edit = \<lparr>ee_tx = demo_tx, ee_journal = True, ee_session = Some ''s'', ee_resolve = (\<lambda>p. Inr (parse_path p)),
     ee_readable = True, ee_activator = True, ee_udiff = (\<lambda>a b n. b), ee_digest = demo_digest, ee_codec = demo_txc\<rparr>"

definition demo_edit_world :: edit_world where
  "demo_edit_world = \<lparr>ew_tx = demo_world, ew_activated = []\<rparr>"


definition demo_batch :: json where
  "demo_batch = JObject [(''path'', JString ''a''), (''edits'', JArray
     [JObject [(''old_string'', JString ''x''), (''new_string'', JString ''z'')],
      JObject [(''old_string'', JString ''x''), (''new_string'', JString ''y'')]])]"

lemma demo_batch_run: "multiedit_execute demo_edit demo_batch demo_edit_world =
    (Inl (EE_Failed ''multiedit: edits[1]: old_string not found''), activate demo_edit ''a'' demo_edit_world)"
proof -
  have "read_editable_text demo_edit (tw_fs demo_world) ''a'' = Inr ''x''"
    by (simp add: read_editable_text_def read_file_def demo_edit_def demo_world_def demo_target_def demo_file_def EDIT_MAX_BYTES_def)
       code_simp
  moreover have "multi_apply 0 [JObject [(''old_string'', JString ''x''), (''new_string'', JString ''z'')],
      JObject [(''old_string'', JString ''x''), (''new_string'', JString ''y'')]] ''x'' =
      Inl (EE_Failed ''multiedit: edits[1]: old_string not found'')" by code_simp
  ultimately show ?thesis
    by (simp add: multiedit_execute_def demo_batch_def get_str_def demo_edit_world_def Let_def)
qed

theorem multiedit_all_or_nothing_witness:
  "ew_fs (snd (multiedit_execute demo_edit demo_batch demo_edit_world)) = ew_fs demo_edit_world"
  using multiedit_all_or_nothing [OF demo_batch_run] demo_batch_run by simp

definition demo_call :: json where
  "demo_call = JObject [(''path'', JString ''a''), (''content'', JString ''y'')]"


definition demo_read :: json where
  "demo_read = JObject [(''path'', JString ''a''), (''offset'', JString '' 1 ''), (''max_bytes'', JInt 8)]"

lemma demo_read_params:
  "parse_line_param demo_read ''offset'' = Inr (Some 1)" "parse_line_param demo_read ''limit'' = Inr None"
  "parse_line_param demo_read ''context'' = Inr None" "get_str demo_read ''path'' = Some ''a''"
  "Option.bind (json_get demo_read ''max_bytes'') as_u64 = Some 8"
proof -
  have "utf8_trim '' 1 '' = ''1''" by code_simp
  moreover have "parse_usize ''1'' = Some 1" by (simp add: parse_usize_def is_ascii_digit_def code_of_def)
  ultimately show "parse_line_param demo_read ''offset'' = Inr (Some 1)" by (simp add: parse_line_param_def demo_read_def)
qed (simp_all add: parse_line_param_def demo_read_def get_str_def as_u64_def)

lemma demo_read_run: "read_execute demo_edit demo_read demo_edit_world =
    (Inr (JObject [(''path'', JString ''a''), (''content'', JString ''x''), (''truncated'', JBool False)]),
     activate demo_edit ''a'' demo_edit_world)"
proof -
  have "read_file demo_edit (tw_fs demo_world) ''a'' 8 = Inr ''x''"
    by (simp add: read_file_def demo_edit_def demo_world_def demo_target_def demo_file_def)
  moreover have "slice_read_window (utf8_lossy ''x'') False (Some 1) None 8 = (''x'', False)" "skip_lines (Some 1) = 0"
    by code_simp+
  ultimately show ?thesis
    by (simp add: demo_read_params read_execute_def validate_read_max_bytes_def validate_read_limit_def Let_def demo_edit_world_def)
qed


end
