(* ===== verification/Block_Ref.thy ===== *)
theory Block_Ref
  imports Tool_Api
begin

text \<open>
  The references to stored blocks a JSON value carries (\<open>houyicoder-protocol\<close>: \<open>block_ref.rs\<close>).
\<close>

subsection \<open>References in a value\<close>

definition BLOCK_REF_KEY :: str where
  "BLOCK_REF_KEY = ''block_ref''"

definition BLOCK_BYTES_KEY :: str where
  "BLOCK_BYTES_KEY = ''bytes''"

fun block_sizes :: "json \<Rightarrow> (str \<times> nat option) list" where
  "block_sizes (JObject kvs) =
     concat (map (\<lambda>(key, child).
       if key = BLOCK_REF_KEY
       then (case json_str child of
               Some raw \<Rightarrow> [(raw, Option.bind (map_of kvs BLOCK_BYTES_KEY) as_u64)]
             | None \<Rightarrow> [])
       else block_sizes child) kvs)"
| "block_sizes (JArray items) = concat (map block_sizes items)"
| "block_sizes _ = []"

definition block_addresses :: "json \<Rightarrow> str list" where
  "block_addresses v = map fst (block_sizes v)"

end
