(* ===== verification/Block_Gc.thy ===== *)
theory Block_Gc
  imports Block_Store Block_Ref "HOL-Library.AList" "HOL-Library.List_Lexorder" "HOL-Library.Char_ord"
begin

text \<open>
  Reclaiming blocks no reference names (\<open>houyicoder-memory\<close>: \<open>local_file/blocks/gc.rs\<close> with \<open>cursor.rs\<close>,
  \<open>sources.rs\<close>, \<open>sweep.rs\<close>; the walk of a value is in \<open>Block_Ref\<close>). A pass marks: it files
  every address a source names into the bucket of its shard; then it sweeps: it walks the shards and removes
  what no bucket names. A cursor beside the buckets lets a later pass resume.

  What is on disk between passes is the record \<open>gc_disk\<close>: the bucket files and the cursor file. The stored
  files are an association list from shard directories to names and times. A source is known by its key; its
  size, time and bytes at the time of the mark are a view. Every write of a pass takes its outcome from a
  stream, so an error, or a crash, can come after any of them and leave part of a line behind. JSON parsing,
  the digest of the source list, the clock and what the file system says are arguments.
\<close>

subsection \<open>Sources (sources.rs) and the cursor (cursor.rs)\<close>

datatype source_kind = SK_Log | SK_Checkpoint | SK_Transaction

record reference_source =
  rs_kind :: source_kind
  rs_key :: str

definition is_append_only :: "reference_source \<Rightarrow> bool" where
  "is_append_only s = (rs_kind s = SK_Log)"

record source_state =
  st_modified_ms :: nat
  st_len :: nat

definition CURSOR_SCHEMA :: nat where
  "CURSOR_SCHEMA = 3"

record cursor =
  cu_schema :: nat
  cu_done :: str
  cu_fingerprint :: str
  cu_filed :: "(str \<times> source_state) list"
  cu_buckets :: "(str \<times> nat) list"
  cu_swept :: "str option"

datatype cursor_file = CF_Missing | CF_Unreadable | CF_Held cursor

type_synonym buckets = "str \<Rightarrow> str option"

record gc_disk =
  gd_refs :: buckets
  gd_cursor :: cursor_file

text \<open>A source as the mark finds it: its size and time, and its bytes.\<close>

record gc_view =
  gv_state :: "str \<Rightarrow> source_state option"
  gv_body :: "str \<Rightarrow> str option"

datatype reclaim_error = GE_Busy | GE_Unreadable str | GE_Budget | GE_Sources | GE_Scratch str

definition source_fingerprint :: "(str \<Rightarrow> str) \<Rightarrow> reference_source list \<Rightarrow> str" where
  "source_fingerprint digest sources = digest (concat (map (\<lambda>s. rs_key s @ [NL]) sources))"

text \<open>The cursor a resumed pass may trust.\<close>

definition state_same :: "gc_view \<Rightarrow> cursor \<Rightarrow> reference_source \<Rightarrow> bool" where
  "state_same v held s =
     (case (gv_state v (rs_key s), map_of (cu_filed held) (rs_key s)) of
        (Some now, Some seen) \<Rightarrow> now = seen
      | _ \<Rightarrow> False)"

definition log_before :: "reference_source list \<Rightarrow> str \<Rightarrow> str" where
  "log_before sources key =
     (case takeWhile (\<lambda>k. k < key) (map rs_key (filter is_append_only sources)) of
        [] \<Rightarrow> []
      | ks \<Rightarrow> last ks)"

definition resumable_cursor ::
  "gc_view \<Rightarrow> gc_disk \<Rightarrow> reference_source list \<Rightarrow> str \<Rightarrow> cursor option" where
  "resumable_cursor v d sources fingerprint =
     (case gd_cursor d of
        CF_Held held \<Rightarrow>
          let filed = filter (\<lambda>s. is_append_only s \<and> rs_key s \<le> cu_done held) sources in
          if cu_schema held \<noteq> CURSOR_SCHEMA \<or> cu_fingerprint held \<noteq> fingerprint then None
          else if length (cu_filed held) \<noteq> length filed \<or>
                  \<not> list_all (\<lambda>s. map_of (cu_filed held) (rs_key s) \<noteq> None) filed then None
          else if \<not> list_all (\<lambda>(name, recorded). case gd_refs d name of None \<Rightarrow> False | Some b \<Rightarrow> recorded \<le> length b)
                    (cu_buckets held) then None
          else (case find (\<lambda>s. \<not> state_same v held s) filed of
                  None \<Rightarrow> Some held
                | Some moved \<Rightarrow>
                    (case (gv_state v (rs_key moved), map_of (cu_filed held) (rs_key moved)) of
                       (Some now, Some seen) \<Rightarrow>
                         if st_len seen < st_len now
                         then Some (held\<lparr>cu_done := log_before sources (rs_key moved),
                                cu_filed := filter (\<lambda>(k, _). k < rs_key moved) (cu_filed held)\<rparr>)
                         else None
                     | _ \<Rightarrow> None))
      | _ \<Rightarrow> None)"

subsection \<open>The mark (gc.rs)\<close>

definition OPEN_BUCKETS :: nat where
  "OPEN_BUCKETS = 32"

definition RECORD_BATCH :: nat where
  "RECORD_BATCH = 64"

definition MAX_RECORD :: nat where
  "MAX_RECORD = 4 * 1024 * 1024"

definition SHARD_CHARS :: nat where
  "SHARD_CHARS = 2"

definition BLOCK_SUFFIX :: str where
  "BLOCK_SUFFIX = ''.bin''"

definition TEMP_SUFFIX :: str where
  "TEMP_SUFFIX = ''.bin.tmp''"

record reclaim_policy =
  po_write_lease :: nat
  po_budget :: nat

record reclaim_report =
  gr_sources :: nat
  gr_blocks :: nat
  gr_removed :: nat
  gr_leased :: nat
  gr_deferred :: nat
  gr_skipped_refs :: nat
  gr_torn_tail :: nat
  gr_complete :: bool

definition report_default :: reclaim_report where
  "report_default = \<lparr>gr_sources = 0, gr_blocks = 0, gr_removed = 0, gr_leased = 0, gr_deferred = 0, gr_skipped_refs = 0,
     gr_torn_tail = 0, gr_complete = False\<rparr>"

text \<open>The outcome of one write: done, or failed after that many bytes.\<close>

datatype gc_io = GI_Ok | GI_Fail nat

datatype unlink_io = UL_Ok | UL_Gone | UL_Error

datatype root_stat = RT_Dir | RT_Missing | RT_Other | RT_Error

datatype lock_io = LK_Ok | LK_Busy | LK_Error

text \<open>The host of one pass: parsing and digest, the outcomes of its writes in order, the time spent at each check,
  the clock and the second reading of a file's time at a removal, and what the listings say.\<close>

record gc_env =
  ge_parse :: "str \<Rightarrow> json option"
  ge_digest :: "str \<Rightarrow> str"
  ge_io :: "nat \<Rightarrow> gc_io"
  ge_mark_elapsed :: "str \<Rightarrow> nat"
  ge_sweep_elapsed :: "str \<Rightarrow> nat"
  ge_now :: "str \<Rightarrow> nat"
  ge_again :: "str \<Rightarrow> nat option"
  ge_unlink :: "str \<Rightarrow> unlink_io"
  ge_root :: root_stat
  ge_workspace :: bool
  ge_lock :: lock_io
  ge_list :: "nat \<Rightarrow> reclaim_error + reference_source list"
  ge_view :: "nat \<Rightarrow> gc_view"

record mark_run =
  mr_refs :: buckets
  mr_cursor :: cursor_file
  mr_tick :: nat
  mr_fingerprint :: str
  mr_done :: "str option"
  mr_filed :: "(str \<times> source_state) list"
  mr_buckets :: "(str \<times> nat) list"
  mr_swept :: "str option"
  mr_open :: "str list"
  mr_since_record :: nat
  mr_record_stride :: nat
  mr_report :: reclaim_report

definition disk_of :: "mark_run \<Rightarrow> gc_disk" where
  "disk_of r = \<lparr>gd_refs = mr_refs r, gd_cursor = mr_cursor r\<rparr>"

text \<open>Reading the outcome of the next write.\<close>

definition tick :: "mark_run \<Rightarrow> mark_run" where
  "tick r = r\<lparr>mr_tick := Suc (mr_tick r)\<rparr>"

definition outcome_of :: "gc_env \<Rightarrow> mark_run \<Rightarrow> gc_io" where
  "outcome_of env r = ge_io env (mr_tick r)"

fun sync_all :: "gc_env \<Rightarrow> str list \<Rightarrow> mark_run \<Rightarrow> (reclaim_error + unit) \<times> mark_run" where
  "sync_all env [] r = (Inr (), r)"
| "sync_all env (name # names) r =
     (if outcome_of env r = GI_Ok then sync_all env names (tick r) else (Inl (GE_Scratch name), tick r))"

definition flush_buckets :: "gc_env \<Rightarrow> mark_run \<Rightarrow> (reclaim_error + unit) \<times> mark_run" where
  "flush_buckets env r = sync_all env (mr_open r) (r\<lparr>mr_open := []\<rparr>)"

definition record_cursor :: "gc_env \<Rightarrow> mark_run \<Rightarrow> (reclaim_error + unit) \<times> mark_run" where
  "record_cursor env r =
     (case outcome_of env r of
        GI_Ok \<Rightarrow>
          (Inr (), (tick r)\<lparr>mr_cursor := CF_Held \<lparr>cu_schema = CURSOR_SCHEMA,
               cu_done = (case mr_done r of None \<Rightarrow> [] | Some k \<Rightarrow> k), cu_fingerprint = mr_fingerprint r,
               cu_filed = mr_filed r, cu_buckets = mr_buckets r, cu_swept = mr_swept r\<rparr>,
             mr_since_record := 0, mr_record_stride := max (gr_sources (mr_report r)) RECORD_BATCH\<rparr>)
      | GI_Fail 0 \<Rightarrow> (Inl (GE_Scratch ''cursor''), tick r)
      | GI_Fail (Suc _) \<Rightarrow> (Inl (GE_Scratch ''cursor''), (tick r)\<lparr>mr_cursor := CF_Unreadable\<rparr>))"

definition open_bucket :: "gc_env \<Rightarrow> str \<Rightarrow> mark_run \<Rightarrow> (reclaim_error + unit) \<times> mark_run" where
  "open_bucket env name r =
     (case (if name \<notin> set (mr_open r) \<and> OPEN_BUCKETS \<le> length (mr_open r) then flush_buckets env r else (Inr (), r)) of
        (Inl e, r1) \<Rightarrow> (Inl e, r1)
      | (Inr _, r1) \<Rightarrow>
          if name \<in> set (mr_open r1) then (Inr (), r1)
          else if outcome_of env r1 \<noteq> GI_Ok then (Inl (GE_Scratch name), tick r1)
          else (Inr (), (tick r1)\<lparr>mr_open := mr_open r1 @ [name],
                  mr_refs := (case mr_refs r1 name of None \<Rightarrow> (mr_refs r1)(name \<mapsto> []) | Some _ \<Rightarrow> mr_refs r1)\<rparr>))"

definition bucket_bytes :: "buckets \<Rightarrow> str \<Rightarrow> str" where
  "bucket_bytes refs name = (case refs name of None \<Rightarrow> [] | Some b \<Rightarrow> b)"

fun mark_addresses :: "gc_env \<Rightarrow> str list \<Rightarrow> mark_run \<Rightarrow> (reclaim_error + unit) \<times> mark_run" where
  "mark_addresses env [] r = (Inr (), r)"
| "mark_addresses env (address # rest) r =
     (if \<not> is_canonical address
      then mark_addresses env rest (r\<lparr>mr_report := (mr_report r)\<lparr>gr_skipped_refs := Suc (gr_skipped_refs (mr_report r))\<rparr>\<rparr>)
      else
        let name = take SHARD_CHARS address in
        (case open_bucket env name r of
           (Inl e, r1) \<Rightarrow> (Inl e, r1)
         | (Inr _, r1) \<Rightarrow>
             (case outcome_of env r1 of
                GI_Fail k \<Rightarrow>
                  (Inl (GE_Scratch name),
                   (tick r1)\<lparr>mr_refs := (mr_refs r1)(name \<mapsto> bucket_bytes (mr_refs r1) name @ take k (address @ [NL]))\<rparr>)
              | GI_Ok \<Rightarrow>
                  mark_addresses env rest
                    ((tick r1)\<lparr>mr_refs := (mr_refs r1)(name \<mapsto> bucket_bytes (mr_refs r1) name @ address @ [NL]),
                       mr_buckets := AList.update name
                         ((case map_of (mr_buckets r1) name of None \<Rightarrow> 0 | Some n \<Rightarrow> n) + length address + 1) (mr_buckets r1)\<rparr>))))"

definition mark_value :: "gc_env \<Rightarrow> json \<Rightarrow> mark_run \<Rightarrow> (reclaim_error + unit) \<times> mark_run" where
  "mark_value env v r = mark_addresses env (block_addresses v) r"

definition torn_tail :: "mark_run \<Rightarrow> mark_run" where
  "torn_tail r = r\<lparr>mr_report := (mr_report r)\<lparr>gr_torn_tail := Suc (gr_torn_tail (mr_report r))\<rparr>\<rparr>"

text \<open>The lines of a log with their separators; only the last can lack one.\<close>

definition over_record :: "str \<Rightarrow> bool" where
  "over_record bytes = (MAX_RECORD < length bytes)"

lemma over_record_code [code]: "over_record bytes = (4194304 < int (length bytes))"
  by (simp add: over_record_def MAX_RECORD_def)

fun mark_lines :: "gc_env \<Rightarrow> str \<Rightarrow> str list \<Rightarrow> mark_run \<Rightarrow> (reclaim_error + unit) \<times> mark_run" where
  "mark_lines env key [] r = (Inr (), r)"
| "mark_lines env key (line # rest) r =
     (if over_record line then (Inl (GE_Unreadable key), r)
      else if \<not> utf8_valid line
      then (if ends_char NL line then (Inl (GE_Unreadable key), r) else (Inr (), torn_tail r))
      else if utf8_trim line = [] then mark_lines env key rest r
      else (case ge_parse env line of
              None \<Rightarrow> if ends_char NL line then (Inl (GE_Unreadable key), r) else (Inr (), torn_tail r)
            | Some v \<Rightarrow>
                (case mark_value env v r of
                   (Inl e, r1) \<Rightarrow> (Inl e, r1)
                 | (Inr _, r1) \<Rightarrow> mark_lines env key rest r1)))"

definition mark_log :: "gc_env \<Rightarrow> gc_view \<Rightarrow> str \<Rightarrow> mark_run \<Rightarrow> (reclaim_error + unit) \<times> mark_run" where
  "mark_log env v key r =
     (case gv_body v key of
        None \<Rightarrow> (Inl (GE_Unreadable key), r)
      | Some body \<Rightarrow> mark_lines env key (split_inclusive body) r)"

definition mark_whole :: "gc_env \<Rightarrow> gc_view \<Rightarrow> str \<Rightarrow> mark_run \<Rightarrow> (reclaim_error + unit) \<times> mark_run" where
  "mark_whole env v key r =
     (case gv_body v key of
        None \<Rightarrow> (Inl (GE_Unreadable key), r)
      | Some body \<Rightarrow>
          if over_record body \<or> \<not> utf8_valid body then (Inl (GE_Unreadable key), r)
          else (case ge_parse env body of
                  None \<Rightarrow> (Inl (GE_Unreadable key), r)
                | Some value \<Rightarrow> mark_value env value r))"

definition flush_record :: "gc_env \<Rightarrow> mark_run \<Rightarrow> (reclaim_error + unit) \<times> mark_run" where
  "flush_record env r =
     (case flush_buckets env r of (Inl e, r1) \<Rightarrow> (Inl e, r1) | (Inr _, r1) \<Rightarrow> record_cursor env r1)"

definition mark_source :: "gc_env \<Rightarrow> gc_view \<Rightarrow> reference_source \<Rightarrow> mark_run \<Rightarrow> (reclaim_error + unit) \<times> mark_run" where
  "mark_source env v s r =
     (case gv_state v (rs_key s) of
        None \<Rightarrow> (Inl (GE_Unreadable (rs_key s)), r)
      | Some state \<Rightarrow>
          (case (if is_append_only s then mark_log env v (rs_key s) r else mark_whole env v (rs_key s) r) of
             (Inl e, r1) \<Rightarrow> (Inl e, r1)
           | (Inr _, r1) \<Rightarrow>
               let r2 = r1\<lparr>mr_report := (mr_report r1)\<lparr>gr_sources := Suc (gr_sources (mr_report r1))\<rparr>\<rparr>;
                   r3 = (if is_append_only s
                         then r2\<lparr>mr_filed := AList.update (rs_key s) state (mr_filed r2), mr_done := Some (rs_key s)\<rparr> else r2);
                   r4 = r3\<lparr>mr_since_record := Suc (mr_since_record r3)\<rparr> in
               if mr_record_stride r4 \<le> mr_since_record r4 then flush_record env r4 else (Inr (), r4)))"

definition already_filed :: "mark_run \<Rightarrow> reference_source \<Rightarrow> bool" where
  "already_filed r s = (is_append_only s \<and> (case mr_done r of None \<Rightarrow> False | Some k \<Rightarrow> rs_key s \<le> k))"

fun mark :: "gc_env \<Rightarrow> reclaim_policy \<Rightarrow> gc_view \<Rightarrow> reference_source list \<Rightarrow> mark_run \<Rightarrow> (reclaim_error + unit) \<times> mark_run" where
  "mark env pol v [] r = flush_record env r"
| "mark env pol v (s # rest) r =
     (if already_filed r s then mark env pol v rest r
      else if po_budget pol \<le> ge_mark_elapsed env (rs_key s)
      then (case flush_record env r of (Inl e, r1) \<Rightarrow> (Inl e, r1) | (Inr _, r1) \<Rightarrow> (Inl GE_Budget, r1))
      else (case mark_source env v s r of
              (Inl e, r1) \<Rightarrow> (Inl e, r1)
            | (Inr _, r1) \<Rightarrow> mark env pol v rest r1))"

fun cut_buckets :: "gc_env \<Rightarrow> (str \<times> nat) list \<Rightarrow> mark_run \<Rightarrow> (reclaim_error + unit) \<times> mark_run" where
  "cut_buckets env [] r = (Inr (), r)"
| "cut_buckets env ((name, recorded) # rest) r =
     (if outcome_of env r \<noteq> GI_Ok then (Inl (GE_Scratch name), tick r)
      else cut_buckets env rest
             ((tick r)\<lparr>mr_refs := (mr_refs r)(name := map_option (take recorded) (mr_refs r name))\<rparr>))"

definition run_start :: "gc_disk \<Rightarrow> nat \<Rightarrow> str \<Rightarrow> mark_run" where
  "run_start d n fingerprint =
     \<lparr>mr_refs = gd_refs d, mr_cursor = gd_cursor d, mr_tick = n, mr_fingerprint = fingerprint, mr_done = None, mr_filed = [],
      mr_buckets = [], mr_swept = None, mr_open = [], mr_since_record = 0, mr_record_stride = RECORD_BATCH,
      mr_report = report_default\<rparr>"

text \<open>Opening a run: the trusted cursor with its buckets cut to their recorded sizes, or an empty workspace. A
  removal that fails may have emptied the directory.\<close>

definition mark_open ::
  "gc_env \<Rightarrow> gc_view \<Rightarrow> gc_disk \<Rightarrow> nat \<Rightarrow> reference_source list \<Rightarrow> (reclaim_error + unit) \<times> mark_run" where
  "mark_open env v d n sources =
     (let fingerprint = source_fingerprint (ge_digest env) sources; r0 = run_start d n fingerprint in
      if outcome_of env r0 \<noteq> GI_Ok then (Inl (GE_Scratch ''refs''), tick r0)
      else
        let r1 = tick r0 in
        (case resumable_cursor v d sources fingerprint of
           Some held \<Rightarrow>
             cut_buckets env (cu_buckets held)
               (r1\<lparr>mr_done := Some (cu_done held), mr_filed := cu_filed held, mr_buckets := cu_buckets held,
                   mr_swept := cu_swept held, mr_record_stride := max RECORD_BATCH (length (cu_filed held))\<rparr>)
         | None \<Rightarrow>
             (case outcome_of env r1 of
                GI_Ok \<Rightarrow> (Inr (), (tick r1)\<lparr>mr_refs := (\<lambda>_. None)\<rparr>)
              | GI_Fail 0 \<Rightarrow> (Inl (GE_Scratch ''refs''), tick r1)
              | GI_Fail (Suc _) \<Rightarrow> (Inl (GE_Scratch ''refs''), (tick r1)\<lparr>mr_refs := (\<lambda>_. None)\<rparr>))))"

subsection \<open>The sweep (sweep.rs)\<close>

text \<open>An entry of the store root: a shard with its files and their times, one that cannot be listed, something that
  is no directory, something that went away, or something without a type.\<close>

datatype shard_entry = SH_Dir "(str \<times> nat option) list" | SH_Locked | SH_Other | SH_Gone | SH_Error

type_synonym cas = "(str \<times> shard_entry) list"

definition is_shard_name :: "str \<Rightarrow> bool" where
  "is_shard_name name = (length name = SHARD_CHARS \<and> list_all (\<lambda>c. is_ascii_hexdigit c \<and> \<not> is_ascii_upper c) name)"

fun shard_list :: "cas \<Rightarrow> reclaim_error + str list" where
  "shard_list [] = Inr []"
| "shard_list ((name, entry) # rest) =
     (if \<not> is_shard_name name then shard_list rest
      else (case entry of
              SH_Error \<Rightarrow> Inl (GE_Unreadable name)
            | SH_Other \<Rightarrow> shard_list rest
            | SH_Gone \<Rightarrow> shard_list rest
            | _ \<Rightarrow> (case shard_list rest of Inl e \<Rightarrow> Inl e | Inr names \<Rightarrow> Inr (name # names))))"

definition shard_dirs :: "cas \<Rightarrow> reclaim_error + str list" where
  "shard_dirs store = (case shard_list store of Inl e \<Rightarrow> Inl e | Inr names \<Rightarrow> Inr (sort names))"

definition read_bucket :: "buckets \<Rightarrow> str \<Rightarrow> bool \<Rightarrow> reclaim_error + str list" where
  "read_bucket refs name expected =
     (case refs name of
        None \<Rightarrow> if expected then Inl (GE_Scratch name) else Inr []
      | Some content \<Rightarrow>
          if \<not> utf8_valid content then Inl (GE_Scratch name)
          else Inr (filter (\<lambda>l. l \<noteq> []) (map utf8_trim (str_lines content))))"

text \<open>Whether the file is gone afterwards.\<close>

definition remove_if_stale ::
  "gc_env \<Rightarrow> reclaim_policy \<Rightarrow> str \<times> nat option \<Rightarrow> reclaim_report \<Rightarrow> bool \<times> reclaim_report" where
  "remove_if_stale env pol f report =
     (case snd f of
        None \<Rightarrow> (False, report\<lparr>gr_deferred := Suc (gr_deferred report)\<rparr>)
      | Some modified \<Rightarrow>
          if ge_now env (fst f) - modified < po_write_lease pol
          then (False, report\<lparr>gr_leased := Suc (gr_leased report)\<rparr>)
          else if ge_again env (fst f) \<noteq> Some modified
          then (False, report\<lparr>gr_deferred := Suc (gr_deferred report)\<rparr>)
          else (case ge_unlink env (fst f) of
                  UL_Ok \<Rightarrow> (True, report\<lparr>gr_removed := Suc (gr_removed report)\<rparr>)
                | UL_Gone \<Rightarrow> (True, report)
                | UL_Error \<Rightarrow> (False, report\<lparr>gr_deferred := Suc (gr_deferred report)\<rparr>)))"

text \<open>The files of a shard in order, against the rest of the sorted bucket; the files that stay.\<close>

fun sweep_files ::
  "gc_env \<Rightarrow> reclaim_policy \<Rightarrow> str list \<Rightarrow> (str \<times> nat option) list \<Rightarrow> reclaim_report \<Rightarrow>
   (str \<times> nat option) list \<times> reclaim_report" where
  "sweep_files env pol named [] report = ([], report)"
| "sweep_files env pol named (f # files) report =
     (let named' = (case strip_suffix BLOCK_SUFFIX (fst f) of
                      Some address \<Rightarrow> dropWhile (\<lambda>n. n < address) named | None \<Rightarrow> named);
          report' = (case strip_suffix BLOCK_SUFFIX (fst f) of
                       Some _ \<Rightarrow> report\<lparr>gr_blocks := Suc (gr_blocks report)\<rparr> | None \<Rightarrow> report);
          candidate = (case strip_suffix BLOCK_SUFFIX (fst f) of
                         Some address \<Rightarrow> (case named' of [] \<Rightarrow> True | entry # _ \<Rightarrow> entry \<noteq> address)
                       | None \<Rightarrow> ends_with TEMP_SUFFIX (fst f));
          (gone, report'') = (if candidate then remove_if_stale env pol f report' else (False, report'));
          (kept, out) = sweep_files env pol named' files report''
      in (if gone then kept else f # kept, out))"

fun is_power_of_two :: "nat \<Rightarrow> bool" where
  "is_power_of_two n = (if n \<le> 1 then n = 1 else even n \<and> is_power_of_two (n div 2))"

declare is_power_of_two.simps [simp del]

definition set_shard :: "str \<Rightarrow> (str \<times> nat option) list \<Rightarrow> cas \<Rightarrow> cas" where
  "set_shard name files store = map (\<lambda>(n, e). if n = name then (n, SH_Dir files) else (n, e)) store"

text \<open>One shard: the bucket, the files in order, and what is left of them.\<close>

definition sweep_shard ::
  "gc_env \<Rightarrow> reclaim_policy \<Rightarrow> str \<Rightarrow> mark_run \<Rightarrow> cas \<Rightarrow> (reclaim_error + unit) \<times> mark_run \<times> cas" where
  "sweep_shard env pol name r store =
     (case read_bucket (mr_refs r) name (map_of (mr_buckets r) name \<noteq> None) of
        Inl e \<Rightarrow> (Inl e, r, store)
      | Inr named \<Rightarrow>
          (case map_of store name of
             Some (SH_Dir files) \<Rightarrow>
               (case sweep_files env pol (remdups_adj (sort named)) (sort_key fst files) (mr_report r) of
                  (kept, report) \<Rightarrow> (Inr (), r\<lparr>mr_report := report\<rparr>, set_shard name kept store))
           | _ \<Rightarrow> (Inl (GE_Unreadable name), r, store)))"

fun sweep_loop ::
  "gc_env \<Rightarrow> reclaim_policy \<Rightarrow> nat \<Rightarrow> str list \<Rightarrow> mark_run \<Rightarrow> cas \<Rightarrow> (reclaim_error + reclaim_report) \<times> mark_run \<times> cas" where
  "sweep_loop env pol finished [] r store =
     (let r' = r\<lparr>mr_report := (mr_report r)\<lparr>gr_complete := True\<rparr>\<rparr> in (Inr (mr_report r'), r', store))"
| "sweep_loop env pol finished (name # rest) r store =
     (if (case mr_swept r of None \<Rightarrow> False | Some swept \<Rightarrow> name \<le> swept) then sweep_loop env pol finished rest r store
      else (case sweep_shard env pol name r store of
              (Inl e, r1, store1) \<Rightarrow> (Inl e, r1, store1)
            | (Inr _, r1, store1) \<Rightarrow>
                let spent = (po_budget pol \<le> ge_sweep_elapsed env name) in
                (case (if is_power_of_two (Suc finished) \<or> spent
                       then record_cursor env (r1\<lparr>mr_swept := Some name\<rparr>) else (Inr (), r1)) of
                   (Inl e, r2) \<Rightarrow> (Inl e, r2, store1)
                 | (Inr _, r2) \<Rightarrow>
                     if spent then (Inr (mr_report r2), r2, store1)
                     else sweep_loop env pol (Suc finished) rest r2 store1)))"

definition sweep :: "gc_env \<Rightarrow> reclaim_policy \<Rightarrow> mark_run \<Rightarrow> cas \<Rightarrow> (reclaim_error + reclaim_report) \<times> mark_run \<times> cas" where
  "sweep env pol r store =
     (case shard_dirs store of
        Inl e \<Rightarrow> (Inl e, r, store)
      | Inr names \<Rightarrow> sweep_loop env pol 0 names r store)"

subsection \<open>A pass\<close>

datatype relist_verdict = RL_Settled | RL_Restart | RL_Moved

definition relist :: "bool \<Rightarrow> bool \<Rightarrow> relist_verdict" where
  "relist changed restarted = (if \<not> changed then RL_Settled else if restarted then RL_Moved else RL_Restart)"

text \<open>The stop of a pass carries what it did so far.\<close>

type_synonym reclaim_stop = "reclaim_error \<times> reclaim_report"

definition mark_run_from ::
  "gc_env \<Rightarrow> reclaim_policy \<Rightarrow> gc_view \<Rightarrow> gc_disk \<Rightarrow> nat \<Rightarrow> reference_source list \<Rightarrow> (reclaim_stop + unit) \<times> mark_run" where
  "mark_run_from env pol v d n sources =
     (case mark_open env v d n sources of
        (Inl e, r) \<Rightarrow> (Inl (e, report_default), r)
      | (Inr _, r) \<Rightarrow>
          (case mark env pol v sources r of
             (Inl e, r') \<Rightarrow> (Inl (e, mr_report r'), r')
           | (Inr _, r') \<Rightarrow> (Inr (), r')))"

function relist_loop ::
  "gc_env \<Rightarrow> reclaim_policy \<Rightarrow> bool \<Rightarrow> reference_source list \<Rightarrow> mark_run \<Rightarrow> (reclaim_stop + reference_source list) \<times> mark_run" where
  "relist_loop env pol restarted sources r =
     (case ge_list env (if restarted then 2 else 1) of
        Inl e \<Rightarrow> (Inl (e, mr_report r), r)
      | Inr now \<Rightarrow>
          (case relist (source_fingerprint (ge_digest env) now \<noteq> mr_fingerprint r) restarted of
             RL_Settled \<Rightarrow> (Inr sources, r)
           | RL_Moved \<Rightarrow> (Inl (GE_Sources, mr_report r), r)
           | RL_Restart \<Rightarrow>
               (case mark_run_from env pol (ge_view env 1) (disk_of r) (mr_tick r) now of
                  (Inl e, r') \<Rightarrow> (Inl e, r')
                | (Inr _, r') \<Rightarrow> relist_loop env pol True now r')))"
  by pat_completeness auto

termination
  by (relation "measure (\<lambda>(env, pol, restarted, sources, r). if restarted then 0 else 1)")
     (auto simp: relist_def split: if_splits)

declare relist_loop.simps [simp del]

text \<open>The cursor goes before the buckets.\<close>

definition gc_finish :: "gc_env \<Rightarrow> mark_run \<Rightarrow> mark_run" where
  "gc_finish env r =
     (if outcome_of env r \<noteq> GI_Ok then tick r
      else let r1 = (tick r)\<lparr>mr_cursor := CF_Missing\<rparr> in
        (case outcome_of env r1 of
           GI_Fail 0 \<Rightarrow> tick r1
         | _ \<Rightarrow> (tick r1)\<lparr>mr_refs := (\<lambda>_. None)\<rparr>))"

definition reclaim_orphan_blocks ::
  "gc_env \<Rightarrow> reclaim_policy \<Rightarrow> gc_disk \<Rightarrow> cas \<Rightarrow> (reclaim_stop + reclaim_report) \<times> gc_disk \<times> cas" where
  "reclaim_orphan_blocks env pol d store =
     (case ge_root env of
        RT_Other \<Rightarrow> (Inl (GE_Unreadable ''root'', report_default), d, store)
      | RT_Error \<Rightarrow> (Inl (GE_Unreadable ''root'', report_default), d, store)
      | RT_Missing \<Rightarrow> (Inr (report_default\<lparr>gr_complete := True\<rparr>), d, store)
      | RT_Dir \<Rightarrow>
          if \<not> ge_workspace env then (Inl (GE_Scratch ''workspace'', report_default), d, store)
          else (case ge_lock env of
                  LK_Busy \<Rightarrow> (Inl (GE_Busy, report_default), d, store)
                | LK_Error \<Rightarrow> (Inl (GE_Scratch ''lock'', report_default), d, store)
                | LK_Ok \<Rightarrow>
                    (case ge_list env 0 of
                       Inl e \<Rightarrow> (Inl (e, report_default), d, store)
                     | Inr sources \<Rightarrow>
                         (case mark_run_from env pol (ge_view env 0) d 0 sources of
                            (Inl e, r) \<Rightarrow> (Inl e, disk_of r, store)
                          | (Inr _, r) \<Rightarrow>
                              (case relist_loop env pol False sources r of
                                 (Inl e, r1) \<Rightarrow> (Inl e, disk_of r1, store)
                               | (Inr _, r1) \<Rightarrow>
                                   (case sweep env pol r1 store of
                                      (Inl e, r2, store2) \<Rightarrow> (Inl (e, mr_report r2), disk_of r2, store2)
                                    | (Inr report, r2, store2) \<Rightarrow>
                                        (Inr report, disk_of (if gr_complete report then gc_finish env r2 else r2), store2)))))))"

subsection \<open>What the buckets hold\<close>

text \<open>The addresses a source names: of a log, those of its records; of a manifest or a write record, those of the
  whole file.\<close>

definition names :: "gc_env \<Rightarrow> source_kind \<Rightarrow> str \<Rightarrow> str set" where
  "names env kind body =
     (if kind = SK_Log
      then {a. \<exists>line v. line \<in> set (split_inclusive body) \<and> utf8_valid line \<and> utf8_trim line \<noteq> [] \<and> ge_parse env line = Some v \<and>
              a \<in> set (block_addresses v) \<and> is_canonical a}
      else {a. \<exists>v. ge_parse env body = Some v \<and> a \<in> set (block_addresses v) \<and> is_canonical a})"

text \<open>The buckets as lists of addresses, and that the files and the recorded sizes are those lists.\<close>

type_synonym filing = "str \<Rightarrow> str list option"

definition filed_in :: "buckets \<Rightarrow> (str \<times> nat) list \<Rightarrow> filing \<Rightarrow> bool" where
  "filed_in refs bk B =
     (distinct (map fst bk) \<and> (\<forall>n. refs n = map_option unlines_nl (B n) \<and> map_of bk n = map_option (\<lambda>xs. length (unlines_nl xs)) (B n) \<and>
          (\<forall>xs. B n = Some xs \<longrightarrow> list_all is_canonical xs)))"

definition held_in :: "filing \<Rightarrow> str set" where
  "held_in B = {a. \<exists>xs. B (take SHARD_CHARS a) = Some xs \<and> a \<in> set xs}"

definition same_run :: "mark_run \<Rightarrow> mark_run \<Rightarrow> bool" where
  "same_run r r' = (mr_cursor r' = mr_cursor r \<and> mr_fingerprint r' = mr_fingerprint r \<and> mr_done r' = mr_done r \<and>
     mr_filed r' = mr_filed r \<and> mr_swept r' = mr_swept r)"

lemma same_run_trans: "same_run a b \<Longrightarrow> same_run b c \<Longrightarrow> same_run a c"
  by (simp add: same_run_def)

lemma tick_simps [simp]:
  "mr_refs (tick r) = mr_refs r" "mr_cursor (tick r) = mr_cursor r" "mr_fingerprint (tick r) = mr_fingerprint r"
  "mr_done (tick r) = mr_done r" "mr_filed (tick r) = mr_filed r" "mr_buckets (tick r) = mr_buckets r"
  "mr_swept (tick r) = mr_swept r" "mr_open (tick r) = mr_open r" "mr_report (tick r) = mr_report r"
  by (simp_all add: tick_def)

lemma sync_all_frame:
  "sync_all env ns r = (res, r') \<Longrightarrow> same_run r r' \<and> mr_refs r' = mr_refs r \<and> mr_buckets r' = mr_buckets r \<and> mr_report r' = mr_report r"
  by (induction ns arbitrary: r) (auto simp: same_run_def split: if_splits)

lemma flush_frame:
  "flush_buckets env r = (res, r') \<Longrightarrow> same_run r r' \<and> mr_refs r' = mr_refs r \<and> mr_buckets r' = mr_buckets r \<and> mr_report r' = mr_report r"
  using sync_all_frame [of env "mr_open r" "r\<lparr>mr_open := []\<rparr>"] by (simp add: flush_buckets_def same_run_def)

lemma open_bucket_ok:
  assumes "open_bucket env name r = (Inr u, r1)"
  shows "same_run r r1 \<and> mr_buckets r1 = mr_buckets r \<and> (\<forall>n. n \<noteq> name \<longrightarrow> mr_refs r1 n = mr_refs r n) \<and>
    bucket_bytes (mr_refs r1) name = bucket_bytes (mr_refs r) name"
proof -
  obtain r0 where r0: "same_run r r0" "mr_refs r0 = mr_refs r" "mr_buckets r0 = mr_buckets r"
    "r1 = r0 \<or> r1 = (tick r0)\<lparr>mr_open := mr_open r0 @ [name],
       mr_refs := (case mr_refs r0 name of None \<Rightarrow> (mr_refs r0)(name \<mapsto> []) | Some _ \<Rightarrow> mr_refs r0)\<rparr>"
    using assms flush_frame [of env r]
    by (auto simp: open_bucket_def same_run_def split: if_splits prod.splits sum.splits)
  then show ?thesis by (auto simp: same_run_def bucket_bytes_def split: option.splits)
qed

text \<open>One address more.\<close>

definition file_address :: "filing \<Rightarrow> str \<Rightarrow> filing" where
  "file_address B a = B(take SHARD_CHARS a \<mapsto> (case B (take SHARD_CHARS a) of None \<Rightarrow> [] | Some xs \<Rightarrow> xs) @ [a])"

lemma held_file_address: "held_in (file_address B a) = insert a (held_in B)"
  by (auto simp: held_in_def file_address_def split: option.splits if_splits)

lemma filed_in_address:
  assumes "filed_in refs bk B" and "is_canonical a" and "\<forall>n. n \<noteq> take SHARD_CHARS a \<longrightarrow> refs' n = refs n"
    and "bucket_bytes refs' (take SHARD_CHARS a) = bucket_bytes refs (take SHARD_CHARS a)"
  shows "filed_in (refs'(take SHARD_CHARS a \<mapsto> bucket_bytes refs' (take SHARD_CHARS a) @ a @ [NL]))
     (AList.update (take SHARD_CHARS a) ((case map_of bk (take SHARD_CHARS a) of None \<Rightarrow> 0 | Some n \<Rightarrow> n) + length a + 1) bk)
     (file_address B a)"
proof -
  let ?n = "take SHARD_CHARS a"
  have b: "bucket_bytes refs ?n = unlines_nl (case B ?n of None \<Rightarrow> [] | Some xs \<Rightarrow> xs)"
    "(case map_of bk ?n of None \<Rightarrow> 0 | Some n \<Rightarrow> n) = length (unlines_nl (case B ?n of None \<Rightarrow> [] | Some xs \<Rightarrow> xs))"
    using assms(1) by (auto simp: filed_in_def bucket_bytes_def split: option.splits)
  have "list_all is_canonical (case B ?n of None \<Rightarrow> [] | Some xs \<Rightarrow> xs)"
    using assms(1) by (auto simp: filed_in_def split: option.splits)
  then show ?thesis using assms b by (simp add: filed_in_def file_address_def update_conv' distinct_update)
qed

lemma mark_addresses_ok:
  "mark_addresses env as r = (Inr u, r') \<Longrightarrow> filed_in (mr_refs r) (mr_buckets r) B \<Longrightarrow>
   same_run r r' \<and> (\<exists>B'. filed_in (mr_refs r') (mr_buckets r') B' \<and> held_in B' = held_in B \<union> {a \<in> set as. is_canonical a})"
proof (induction as arbitrary: r B)
  case Nil
  then show ?case by (auto simp: same_run_def)
next
  case (Cons a as)
  show ?case
  proof (cases "is_canonical a")
    case False
    then show ?thesis using Cons.IH [of _ B] Cons.prems by (fastforce simp: same_run_def)
  next
    case True
    let ?n = "take SHARD_CHARS a"
    obtain r1 where o: "open_bucket env ?n r = (Inr (), r1)" and io: "outcome_of env r1 = GI_Ok"
      using Cons.prems(1) True by (auto simp: Let_def split: prod.splits sum.splits gc_io.splits)
    let ?r2 = "(tick r1)\<lparr>mr_refs := (mr_refs r1)(?n \<mapsto> bucket_bytes (mr_refs r1) ?n @ a @ [NL]),
       mr_buckets := AList.update ?n ((case map_of (mr_buckets r1) ?n of None \<Rightarrow> 0 | Some n \<Rightarrow> n) + length a + 1) (mr_buckets r1)\<rparr>"
    note ob = open_bucket_ok [OF o]
    have "mark_addresses env as ?r2 = (Inr u, r')" using Cons.prems(1) True o io by (simp add: Let_def)
    moreover have "filed_in (mr_refs ?r2) (mr_buckets ?r2) (file_address B a)"
      using filed_in_address [OF Cons.prems(2) True, of "mr_refs r1"] ob by simp
    ultimately obtain B' where "same_run ?r2 r'" "filed_in (mr_refs r') (mr_buckets r') B'"
      "held_in B' = held_in (file_address B a) \<union> {a \<in> set as. is_canonical a}"
      using Cons.IH by blast
    then show ?thesis using ob True by (auto simp: held_file_address same_run_def)
  qed
qed

lemma mark_lines_ok:
  "mark_lines env key ls r = (Inr u, r') \<Longrightarrow> (\<forall>l \<in> set (butlast ls). ends_char NL l) \<Longrightarrow>
   filed_in (mr_refs r) (mr_buckets r) B \<Longrightarrow>
   same_run r r' \<and> (\<exists>B'. filed_in (mr_refs r') (mr_buckets r') B' \<and> held_in B \<subseteq> held_in B' \<and>
     (\<forall>l v a. l \<in> set ls \<longrightarrow> utf8_valid l \<longrightarrow> utf8_trim l \<noteq> [] \<longrightarrow> ge_parse env l = Some v \<longrightarrow> a \<in> set (block_addresses v) \<longrightarrow>
        is_canonical a \<longrightarrow> a \<in> held_in B'))"
proof (induction ls arbitrary: r B)
  case Nil
  then show ?case by (auto simp: same_run_def)
next
  case (Cons l ls)
  have tail: "ls = []" if "\<not> ends_char NL l" using Cons.prems(2) that by (cases ls) auto
  have ends: "\<forall>l \<in> set (butlast ls). ends_char NL l" using Cons.prems(2) by (cases ls) auto
  consider (torn) "ls = []" "r' = torn_tail r" "\<not> utf8_valid l \<or> ge_parse env l = None"
    | (blank) "utf8_trim l = []" "mark_lines env key ls r = (Inr u, r')"
    | (parsed) v r1 where "ge_parse env l = Some v" "mark_value env v r = (Inr (), r1)" "mark_lines env key ls r1 = (Inr u, r')"
    using Cons.prems(1) tail by (auto split: if_splits option.splits prod.splits sum.splits)
  then show ?case
  proof cases
    case torn
    then show ?thesis using Cons.prems(3) by (auto simp: same_run_def torn_tail_def)
  next
    case blank
    then show ?thesis using Cons.IH [OF blank(2) ends Cons.prems(3)] by auto
  next
    case (parsed v r1)
    from mark_addresses_ok [OF parsed(2) [unfolded mark_value_def] Cons.prems(3)] obtain B1 where
      1: "same_run r r1" "filed_in (mr_refs r1) (mr_buckets r1) B1"
        "held_in B1 = held_in B \<union> {a \<in> set (block_addresses v). is_canonical a}" by blast
    from Cons.IH [OF parsed(3) ends 1(2)] obtain B2 where 2: "same_run r1 r'" "filed_in (mr_refs r') (mr_buckets r') B2"
      "held_in B1 \<subseteq> held_in B2"
      "\<forall>l v a. l \<in> set ls \<longrightarrow> utf8_valid l \<longrightarrow> utf8_trim l \<noteq> [] \<longrightarrow> ge_parse env l = Some v \<longrightarrow> a \<in> set (block_addresses v) \<longrightarrow>
        is_canonical a \<longrightarrow> a \<in> held_in B2" by blast
    have "held_in B \<subseteq> held_in B2" "{a \<in> set (block_addresses v). is_canonical a} \<subseteq> held_in B2" using 1(3) 2(3) by blast+
    then show ?thesis using 2 same_run_trans [OF 1(1) 2(1)] parsed(1) by (auto intro!: exI [of _ B2])
  qed
qed

lemma split_inclusive_ends: "\<forall>l \<in> set (butlast (split_inclusive s)). ends_char NL l"
proof (induction s)
  case (Cons c s)
  then show ?case by (cases "split_inclusive s") (auto simp: ends_char_def split: if_splits)
qed simp

lemma mark_body_ok:
  assumes "(if is_append_only s then mark_log env v (rs_key s) r else mark_whole env v (rs_key s) r) = (Inr u, r')"
    and "filed_in (mr_refs r) (mr_buckets r) B"
  shows "same_run r r' \<and> (\<exists>B' body. gv_body v (rs_key s) = Some body \<and> filed_in (mr_refs r') (mr_buckets r') B' \<and>
     held_in B \<subseteq> held_in B' \<and> names env (rs_kind s) body \<subseteq> held_in B')"
proof (cases "is_append_only s")
  case True
  then obtain body where b: "gv_body v (rs_key s) = Some body" "mark_lines env (rs_key s) (split_inclusive body) r = (Inr u, r')"
    using assms(1) by (auto simp: mark_log_def split: option.splits)
  from mark_lines_ok [OF b(2) split_inclusive_ends assms(2)] show ?thesis
    using b(1) True by (auto simp: names_def is_append_only_def)
next
  case False
  then obtain body whole where b: "gv_body v (rs_key s) = Some body" "ge_parse env body = Some whole"
    "mark_addresses env (block_addresses whole) r = (Inr u, r')"
    using assms(1) by (auto simp: mark_whole_def mark_value_def split: option.splits if_splits)
  from mark_addresses_ok [OF b(3) assms(2)] show ?thesis
    using b False by (auto simp: names_def is_append_only_def)
qed

subsection \<open>The invariant of the workspace\<close>

text \<open>The bytes a log had when its size and time were those: what makes it safe to skip a log whose size and time
  have not changed.\<close>

type_synonym log_history = "str \<Rightarrow> source_state \<Rightarrow> str"

definition covered :: "gc_env \<Rightarrow> log_history \<Rightarrow> (str \<times> source_state) list \<Rightarrow> filing \<Rightarrow> bool" where
  "covered env hist filed B = (\<forall>k st. map_of filed k = Some st \<longrightarrow> names env SK_Log (hist k st) \<subseteq> held_in B)"

definition view_of :: "log_history \<Rightarrow> gc_view \<Rightarrow> bool" where
  "view_of hist v = (\<forall>k st. gv_state v k = Some st \<longrightarrow> gv_body v k = Some (hist k st))"

text \<open>A cursor the code would trust speaks of the buckets that are there.\<close>

definition gc_inv :: "gc_env \<Rightarrow> log_history \<Rightarrow> gc_disk \<Rightarrow> bool" where
  "gc_inv env hist d =
     (\<forall>held. gd_cursor d = CF_Held held \<longrightarrow> cu_schema held = CURSOR_SCHEMA \<longrightarrow>
        (\<exists>B. filed_in (gd_refs d) (cu_buckets held) B \<and> covered env hist (cu_filed held) B))"

text \<open>A run whose buckets are in order.\<close>

definition run_ok :: "gc_env \<Rightarrow> log_history \<Rightarrow> mark_run \<Rightarrow> filing \<Rightarrow> bool" where
  "run_ok env hist r B = (filed_in (mr_refs r) (mr_buckets r) B \<and> covered env hist (mr_filed r) B)"

lemma record_ok:
  assumes "record_cursor env r = (Inr u, r')" and "run_ok env' hist r B"
  shows "run_ok env' hist r' B \<and> gc_inv env' hist (disk_of r') \<and> mr_done r' = mr_done r \<and> mr_fingerprint r' = mr_fingerprint r"
  using assms by (auto simp: record_cursor_def run_ok_def gc_inv_def disk_of_def split: gc_io.splits nat.splits intro!: exI [of _ B])

lemma flush_record_ok:
  assumes "flush_record env r = (Inr u, r')" and "run_ok env' hist r B"
  shows "run_ok env' hist r' B \<and> gc_inv env' hist (disk_of r') \<and> mr_done r' = mr_done r \<and> mr_fingerprint r' = mr_fingerprint r"
proof -
  obtain r1 where f: "flush_buckets env r = (Inr (), r1)" and c: "record_cursor env r1 = (Inr u, r')"
    using assms(1) by (auto simp: flush_record_def split: prod.splits sum.splits)
  have "run_ok env' hist r1 B" using flush_frame [OF f] assms(2) by (simp add: run_ok_def same_run_def)
  then show ?thesis using record_ok [OF c] flush_frame [OF f] by (simp add: same_run_def)
qed

lemma mark_source_ok:
  assumes "mark_source env v s r = (Inr u, r')" and "run_ok env hist r B" and "view_of hist v"
  shows "\<exists>B' body. gv_body v (rs_key s) = Some body \<and> run_ok env hist r' B' \<and> held_in B \<subseteq> held_in B' \<and>
     names env (rs_kind s) body \<subseteq> held_in B' \<and> mr_fingerprint r' = mr_fingerprint r \<and>
     mr_done r' = (if is_append_only s then Some (rs_key s) else mr_done r)"
proof -
  obtain state r1 where st: "gv_state v (rs_key s) = Some state" and
    m: "(if is_append_only s then mark_log env v (rs_key s) r else mark_whole env v (rs_key s) r) = (Inr (), r1)"
    using assms(1) by (auto simp: mark_source_def Let_def split: option.splits prod.splits sum.splits)
  have hb: "filed_in (mr_refs r) (mr_buckets r) B" "covered env hist (mr_filed r) B" using assms(2) by (simp_all add: run_ok_def)
  from mark_body_ok [OF m hb(1)] obtain B' body where b: "same_run r r1" "gv_body v (rs_key s) = Some body"
    "filed_in (mr_refs r1) (mr_buckets r1) B'" "held_in B \<subseteq> held_in B'" "names env (rs_kind s) body \<subseteq> held_in B'" by blast
  define r4 where "r4 = (let r2 = r1\<lparr>mr_report := (mr_report r1)\<lparr>gr_sources := Suc (gr_sources (mr_report r1))\<rparr>\<rparr>;
      r3 = (if is_append_only s
            then r2\<lparr>mr_filed := AList.update (rs_key s) state (mr_filed r2), mr_done := Some (rs_key s)\<rparr> else r2)
      in r3\<lparr>mr_since_record := Suc (mr_since_record r3)\<rparr>)"
  have body: "body = hist (rs_key s) state" using assms(3) st b(2) by (auto simp: view_of_def)
  have "covered env hist (mr_filed r) B'" using hb(2) b(4) by (auto simp: covered_def)
  then have ok4: "run_ok env hist r4 B'"
    using b body by (auto simp: r4_def run_ok_def covered_def same_run_def is_append_only_def Let_def update_conv' split: if_splits)
  have d4: "mr_done r4 = (if is_append_only s then Some (rs_key s) else mr_done r)" "mr_fingerprint r4 = mr_fingerprint r"
    using b(1) by (simp_all add: r4_def same_run_def Let_def)
  have "r' = r4 \<or> flush_record env r4 = (Inr u, r')"
    using assms(1) st m by (auto simp: mark_source_def r4_def Let_def split: if_splits)
  then show ?thesis using ok4 d4 b flush_record_ok [of env r4 u r' env hist B'] by auto
qed

text \<open>A budget stop is the only error with that name.\<close>

lemma sync_all_error: "sync_all env ns r = (Inl e, r') \<Longrightarrow> e \<noteq> GE_Budget"
  by (induction ns arbitrary: r) (auto split: if_splits)

lemma flush_error: "flush_buckets env r = (Inl e, r') \<Longrightarrow> e \<noteq> GE_Budget"
  by (auto simp: flush_buckets_def dest: sync_all_error)

lemma record_cursor_error: "record_cursor env r = (Inl e, r') \<Longrightarrow> e \<noteq> GE_Budget"
  by (auto simp: record_cursor_def split: gc_io.splits nat.splits)

lemma flush_record_error: "flush_record env r = (Inl e, r') \<Longrightarrow> e \<noteq> GE_Budget"
  by (auto simp: flush_record_def split: prod.splits sum.splits dest: flush_error record_cursor_error)

lemma open_bucket_error: "open_bucket env name r = (Inl e, r') \<Longrightarrow> e \<noteq> GE_Budget"
  by (auto simp: open_bucket_def split: prod.splits sum.splits if_splits dest: flush_error)

lemma mark_addresses_error: "mark_addresses env as r = (Inl e, r') \<Longrightarrow> e \<noteq> GE_Budget"
  by (induction as arbitrary: r) (auto simp: Let_def split: if_splits prod.splits sum.splits gc_io.splits dest: open_bucket_error)

lemma mark_lines_error: "mark_lines env key ls r = (Inl e, r') \<Longrightarrow> e \<noteq> GE_Budget"
  by (induction ls arbitrary: r)
     (auto simp: mark_value_def split: if_splits option.splits prod.splits sum.splits dest: mark_addresses_error)

lemma mark_source_error: "mark_source env v s r = (Inl e, r') \<Longrightarrow> e \<noteq> GE_Budget"
  by (auto simp: mark_source_def mark_log_def mark_whole_def mark_value_def Let_def
    split: if_splits option.splits prod.splits sum.splits dest: mark_addresses_error mark_lines_error flush_record_error)

definition shown :: "gc_env \<Rightarrow> gc_view \<Rightarrow> filing \<Rightarrow> reference_source \<Rightarrow> bool" where
  "shown env v B s = (\<exists>body. gv_body v (rs_key s) = Some body \<and> names env (rs_kind s) body \<subseteq> held_in B)"

lemma shown_mono: "shown env v B s \<Longrightarrow> held_in B \<subseteq> held_in B' \<Longrightarrow> shown env v B' s"
  by (auto simp: shown_def)

lemma mark_step:
  assumes "mark_source env v s r = (Inr u, r1)" and "run_ok env hist r B" and "view_of hist v"
    and "\<forall>t \<in> set rest. rs_key s < rs_key t" and "\<forall>t \<in> set rest. already_filed r t \<longrightarrow> shown env v B t"
  shows "\<exists>B1. run_ok env hist r1 B1 \<and> held_in B \<subseteq> held_in B1 \<and> mr_fingerprint r1 = mr_fingerprint r \<and> shown env v B1 s \<and>
     (\<forall>t \<in> set rest. already_filed r1 t \<longrightarrow> shown env v B1 t)"
proof -
  from mark_source_ok [OF assms(1-3)] obtain B1 body where
    1: "gv_body v (rs_key s) = Some body" "run_ok env hist r1 B1" "held_in B \<subseteq> held_in B1"
       "names env (rs_kind s) body \<subseteq> held_in B1" "mr_fingerprint r1 = mr_fingerprint r"
       "mr_done r1 = (if is_append_only s then Some (rs_key s) else mr_done r)" by blast
  have "shown env v B1 t" if "t \<in> set rest" "already_filed r1 t" for t
  proof -
    have "already_filed r t" using that 1(6) assms(4) by (auto simp: already_filed_def split: if_splits)
    then show ?thesis using assms(5) that(1) shown_mono 1(3) by blast
  qed
  moreover have "shown env v B1 s" using 1(1,4) by (auto simp: shown_def)
  ultimately show ?thesis using 1(2,3,5) by blast
qed

text \<open>A mark that finishes has filed every address of every source.\<close>

lemma mark_ok:
  "mark env pol v sources r = (res, r') \<Longrightarrow> run_ok env hist r B \<Longrightarrow> view_of hist v \<Longrightarrow>
   sorted_wrt (\<lambda>a b. rs_key a < rs_key b) sources \<Longrightarrow> (\<forall>s \<in> set sources. already_filed r s \<longrightarrow> shown env v B s) \<Longrightarrow>
   (case res of
      Inr _ \<Rightarrow> \<exists>B'. run_ok env hist r' B' \<and> gc_inv env hist (disk_of r') \<and> mr_fingerprint r' = mr_fingerprint r \<and>
        held_in B \<subseteq> held_in B' \<and> (\<forall>s \<in> set sources. shown env v B' s)
    | Inl e \<Rightarrow> e = GE_Budget \<longrightarrow> gc_inv env hist (disk_of r'))"
proof (induction sources arbitrary: r B)
  case Nil
  then show ?case
    using flush_record_ok [of env r _ r' env hist B] flush_record_error [of env r _ r'] by (cases res) auto
next
  case (Cons s rest)
  have sorted: "sorted_wrt (\<lambda>a b. rs_key a < rs_key b) rest" "\<forall>t \<in> set rest. rs_key s < rs_key t" using Cons.prems(4) by auto
  show ?case
  proof (cases "already_filed r s")
    case True
    then have s: "shown env v B s" using Cons.prems(5) by simp
    from Cons.IH [OF _ Cons.prems(2,3) sorted(1)] Cons.prems(1,5) True s show ?thesis
      by (auto split: sum.splits intro: shown_mono)
  next
    case False
    show ?thesis
    proof (cases "po_budget pol \<le> ge_mark_elapsed env (rs_key s)")
      case True
      then show ?thesis
        using Cons.prems(1,2) False flush_record_ok [of env r _ _ env hist B] flush_record_error [of env r]
        by (auto split: prod.splits sum.splits)
    next
      case time: False
      obtain m r1 where m: "mark_source env v s r = (m, r1)" by force
      show ?thesis
      proof (cases m)
        case (Inl e)
        then show ?thesis using Cons.prems(1) False time m mark_source_error [of env v s r e r1] by auto
      next
        case (Inr u)
        have "\<forall>t \<in> set rest. already_filed r t \<longrightarrow> shown env v B t" using Cons.prems(5) by simp
        from mark_step [OF m [unfolded Inr] Cons.prems(2,3) sorted(2) this] obtain B1 where
          1: "run_ok env hist r1 B1" "held_in B \<subseteq> held_in B1" "mr_fingerprint r1 = mr_fingerprint r" "shown env v B1 s"
             "\<forall>t \<in> set rest. already_filed r1 t \<longrightarrow> shown env v B1 t" by blast
        have "mark env pol v rest r1 = (res, r')" using Cons.prems(1) False time m Inr by simp
        from Cons.IH [OF this 1(1) Cons.prems(3) sorted(1) 1(5)]
        show ?thesis using 1(2-4) shown_mono by (fastforce split: sum.splits)
      qed
    qed
  qed
qed

subsection \<open>Resuming\<close>

text \<open>What the listing of the sources promises: keys in order, each once, none empty.\<close>

definition sources_ok :: "reference_source list \<Rightarrow> bool" where
  "sources_ok sources = (sorted_wrt (\<lambda>a b. rs_key a < rs_key b) sources \<and> (\<forall>s \<in> set sources. rs_key s \<noteq> []))"

lemma cut_buckets_same:
  "cut_buckets env bk r = (Inr u, r') \<Longrightarrow> (\<forall>(n, k) \<in> set bk. map_option length (mr_refs r n) = Some k) \<Longrightarrow>
   same_run r r' \<and> mr_refs r' = mr_refs r \<and> mr_buckets r' = mr_buckets r"
proof (induction bk arbitrary: r)
  case (Cons nk bk)
  obtain n k where nk: "nk = (n, k)" by force
  obtain b where b: "mr_refs r n = Some b" "length b = k" using Cons.prems(2) nk by auto
  let ?r1 = "(tick r)\<lparr>mr_refs := (mr_refs r)(n := map_option (take k) (mr_refs r n))\<rparr>"
  have same: "(mr_refs r)(n := map_option (take k) (mr_refs r n)) = mr_refs r" using b by (simp add: fun_upd_idem)
  have "cut_buckets env bk ?r1 = (Inr u, r')" using Cons.prems(1) nk by (auto split: if_splits)
  from Cons.IH [OF this] show ?case using Cons.prems(2) same by (auto simp: same_run_def)
qed (auto simp: same_run_def)

lemma filed_in_sizes: "filed_in refs bk B \<Longrightarrow> (n, k) \<in> set bk \<Longrightarrow> map_option length (refs n) = Some k"
proof -
  assume f: "filed_in refs bk B" and m: "(n, k) \<in> set bk"
  have "distinct (map fst bk)" using f by (simp add: filed_in_def)
  then have "map_of bk n = Some k" using m by simp
  moreover have "refs n = map_option unlines_nl (B n)" "map_of bk n = map_option (\<lambda>xs. length (unlines_nl xs)) (B n)"
    using f by (simp_all add: filed_in_def)
  ultimately show ?thesis by (cases "B n") auto
qed

lemma map_of_filter_key: "map_of (filter (\<lambda>(k, _). P k) xs) k = (if P k then map_of xs k else None)"
  by (induction xs) auto

lemma state_same_shown:
  assumes "state_same v held s" and "is_append_only s" and "view_of hist v" and "covered env hist (cu_filed held) B"
  shows "shown env v B s"
  using assms by (auto simp: state_same_def view_of_def covered_def shown_def is_append_only_def split: option.splits prod.splits)

lemma before_moved:
  assumes "sources_ok sources" and "find P (filter Q sources) = Some m" and "s \<in> set (filter Q sources)" and "rs_key s < rs_key m"
  shows "\<not> P s"
proof -
  let ?xs = "filter Q sources"
  have sorted: "sorted_wrt (\<lambda>a b. rs_key a < rs_key b) ?xs" using assms(1) by (simp add: sources_ok_def sorted_wrt_filter)
  obtain i where i: "i < length ?xs" "m = ?xs ! i" "\<forall>j<i. \<not> P (?xs ! j)" using assms(2) by (auto simp: find_Some_iff)
  obtain j where j: "j < length ?xs" "s = ?xs ! j" using assms(3) by (metis in_set_conv_nth)
  have "j < i"
  proof (rule ccontr)
    assume "\<not> j < i"
    then have "rs_key m \<le> rs_key s" using sorted_wrt_nth_less [OF sorted, of i j] i j by (cases "i = j") auto
    then show False using assms(4) by simp
  qed
  then show ?thesis using i(3) j(2) by simp
qed

lemma log_before_less:
  assumes "sources_ok sources" and "s \<in> set sources" and "is_append_only s" and "rs_key s \<le> log_before sources key"
  shows "rs_key s < key"
proof -
  let ?ks = "takeWhile (\<lambda>k. k < key) (map rs_key (filter is_append_only sources))"
  have "rs_key s \<noteq> []" using assms(1,2) by (simp add: sources_ok_def)
  then have "?ks \<noteq> []" using assms(4) by (auto simp: log_before_def split: list.splits)
  then have "log_before sources key = last ?ks" by (auto simp: log_before_def split: list.splits)
  moreover have "last ?ks < key" using \<open>?ks \<noteq> []\<close> set_takeWhileD [of "last ?ks" "\<lambda>k. k < key"] last_in_set by blast
  ultimately show ?thesis using assms(4) by simp
qed

lemma resumable_ok:
  assumes "resumable_cursor v d sources fp = Some held'" and "gc_inv env hist d" and "view_of hist v" and "sources_ok sources"
  shows "\<exists>B. filed_in (gd_refs d) (cu_buckets held') B \<and> covered env hist (cu_filed held') B \<and>
     (\<forall>s \<in> set sources. is_append_only s \<longrightarrow> rs_key s \<le> cu_done held' \<longrightarrow> shown env v B s)"
proof -
  obtain held where h: "gd_cursor d = CF_Held held" "cu_schema held = CURSOR_SCHEMA"
    using assms(1) by (auto simp: resumable_cursor_def Let_def split: cursor_file.splits if_splits)
  then obtain B where B: "filed_in (gd_refs d) (cu_buckets held) B" "covered env hist (cu_filed held) B"
    using assms(2) by (auto simp: gc_inv_def)
  let ?Q = "\<lambda>s. is_append_only s \<and> rs_key s \<le> cu_done held"
  consider (all) "find (\<lambda>s. \<not> state_same v held s) (filter ?Q sources) = None" "held' = held"
    | (moved) m where "find (\<lambda>s. \<not> state_same v held s) (filter ?Q sources) = Some m"
        "held' = held\<lparr>cu_done := log_before sources (rs_key m), cu_filed := filter (\<lambda>(k, _). k < rs_key m) (cu_filed held)\<rparr>"
    using assms(1) h by (auto simp: resumable_cursor_def Let_def split: if_splits option.splits prod.splits)
  then show ?thesis
  proof cases
    case all
    then have "state_same v held s" if "s \<in> set sources" "?Q s" for s using that by (auto simp: find_None_iff)
    then show ?thesis using B all(2) state_same_shown [OF _ _ assms(3) B(2)] by (intro exI [of _ B]) auto
  next
    case (moved m)
    have m: "rs_key m \<le> cu_done held" using moved(1) by (auto simp: find_Some_iff dest!: nth_mem)
    have "shown env v B s" if s: "s \<in> set sources" "is_append_only s" "rs_key s \<le> log_before sources (rs_key m)" for s
    proof -
      have lt: "rs_key s < rs_key m" using log_before_less [OF assms(4) s] .
      then have "s \<in> set (filter ?Q sources)" using s m by auto
      from before_moved [OF assms(4) moved(1) this lt] show ?thesis using state_same_shown [OF _ s(2) assms(3) B(2)] by simp
    qed
    moreover have "covered env hist (filter (\<lambda>(k, _). k < rs_key m) (cu_filed held)) B"
      using B(2) by (auto simp: covered_def map_of_filter_key split: if_splits)
    ultimately show ?thesis using B(1) moved(2) by (intro exI [of _ B]) auto
  qed
qed

lemma mark_open_ok:
  assumes "mark_open env v d n sources = (Inr u, r)" and "gc_inv env hist d" and "view_of hist v" and "sources_ok sources"
  shows "\<exists>B. run_ok env hist r B \<and> (\<forall>s \<in> set sources. already_filed r s \<longrightarrow> shown env v B s) \<and>
     mr_fingerprint r = source_fingerprint (ge_digest env) sources"
proof (cases "resumable_cursor v d sources (source_fingerprint (ge_digest env) sources)")
  case None
  then have "mr_refs r = (\<lambda>_. None)" "mr_buckets r = []" "mr_filed r = []" "mr_done r = None"
    "mr_fingerprint r = source_fingerprint (ge_digest env) sources"
    using assms(1) by (auto simp: mark_open_def run_start_def Let_def split: if_splits gc_io.splits nat.splits)
  then show ?thesis
    by (intro exI [of _ "\<lambda>_. None"]) (simp add: run_ok_def filed_in_def covered_def already_filed_def)
next
  case (Some held)
  let ?r1 = "(tick (run_start d n (source_fingerprint (ge_digest env) sources)))\<lparr>mr_done := Some (cu_done held), mr_filed := cu_filed held,
     mr_buckets := cu_buckets held, mr_swept := cu_swept held, mr_record_stride := max RECORD_BATCH (length (cu_filed held))\<rparr>"
  from resumable_ok [OF Some assms(2-4)] obtain B where B: "filed_in (gd_refs d) (cu_buckets held) B"
    "covered env hist (cu_filed held) B"
    "\<forall>s \<in> set sources. is_append_only s \<longrightarrow> rs_key s \<le> cu_done held \<longrightarrow> shown env v B s" by blast
  have c: "cut_buckets env (cu_buckets held) ?r1 = (Inr u, r)"
    using assms(1) Some by (auto simp: mark_open_def Let_def split: if_splits)
  have "\<forall>(n, k) \<in> set (cu_buckets held). map_option length (mr_refs ?r1 n) = Some k"
    using filed_in_sizes [OF B(1)] by (auto simp: run_start_def)
  from cut_buckets_same [OF c this] show ?thesis
    using B by (intro exI [of _ B]) (auto simp: run_ok_def same_run_def already_filed_def run_start_def)
qed

subsection \<open>Sweeping\<close>

lemma le_append_same: "length xs = length ys \<Longrightarrow> xs @ (zs :: str) \<le> ys @ zs \<Longrightarrow> xs \<le> ys"
  by (induction xs ys rule: list_induct2) auto

lemma dropWhile_sorted: "sorted xs \<Longrightarrow> x \<in> set xs \<Longrightarrow> y \<le> x \<Longrightarrow> x \<in> set (dropWhile (\<lambda>n. n < y) xs)"
  for x y :: str
  by (induction xs) auto

lemma dropWhile_sorted_head: "sorted xs \<Longrightarrow> x \<in> set xs \<Longrightarrow> \<exists>ys. dropWhile (\<lambda>n. n < x) xs = x # ys"
  for x :: str
proof (induction xs)
  case (Cons a xs)
  then show ?case by (cases "a < x") (auto simp: less_le)
qed simp

text \<open>Block files are named by addresses of one length.\<close>

definition bins_ok :: "(str \<times> nat option) list \<Rightarrow> bool" where
  "bins_ok files = (\<forall>f a. f \<in> set files \<longrightarrow> fst f = a @ BLOCK_SUFFIX \<longrightarrow> length a = 64)"

lemma sweep_files_unfold:
  "sweep_files env pol named (f # files) report =
     (let a = strip_suffix BLOCK_SUFFIX (fst f);
          named' = (case a of Some address \<Rightarrow> dropWhile (\<lambda>n. n < address) named | None \<Rightarrow> named);
          report' = (case a of Some _ \<Rightarrow> report\<lparr>gr_blocks := Suc (gr_blocks report)\<rparr> | None \<Rightarrow> report);
          candidate = (case a of
                         Some address \<Rightarrow> (case named' of [] \<Rightarrow> True | entry # _ \<Rightarrow> entry \<noteq> address)
                       | None \<Rightarrow> ends_with TEMP_SUFFIX (fst f));
          g = (if candidate then remove_if_stale env pol f report' else (False, report'));
          rest = sweep_files env pol named' files (snd g)
      in (if fst g then fst rest else f # fst rest, snd rest))"
  by (simp add: Let_def case_prod_unfold)

lemma sweep_files_keeps:
  "sorted named \<Longrightarrow> sorted (map fst files) \<Longrightarrow> bins_ok files \<Longrightarrow> f \<in> set files \<Longrightarrow> fst f = a @ BLOCK_SUFFIX \<Longrightarrow> a \<in> set named \<Longrightarrow>
   f \<in> set (fst (sweep_files env pol named files report))"
proof (induction files arbitrary: named report)
  case (Cons g files)
  have b: "bins_ok files" "length a = 64"
    using Cons.prems(3-5) unfolding bins_ok_def by (metis list.set_intros(2), metis)
  have le: "fst g \<le> fst f" using Cons.prems(2,4) by auto
  show ?case
  proof (cases "strip_suffix BLOCK_SUFFIX (fst g)")
    case None
    then have "f \<in> set files" using Cons.prems(4,5) strip_suffix_Some_iff [of BLOCK_SUFFIX "fst g" a] by auto
    then show ?thesis
      using None Cons.IH [OF Cons.prems(1) _ b(1) _ Cons.prems(5,6)] Cons.prems(2) by (simp add: sweep_files_unfold Let_def del: sweep_files.simps)
  next
    case (Some c)
    then have g: "fst g = c @ BLOCK_SUFFIX" by (simp add: strip_suffix_Some_iff)
    then have "length c = 64" using Cons.prems(3) unfolding bins_ok_def by (metis list.set_intros(1))
    then have "c \<le> a" using le_append_same [of c a BLOCK_SUFFIX] le g Cons.prems(5) b(2) by simp
    then have in': "a \<in> set (dropWhile (\<lambda>n. n < c) named)" using dropWhile_sorted [OF Cons.prems(1,6)] by simp
    have s': "sorted (dropWhile (\<lambda>n. n < c) named)" using Cons.prems(1) by (rule sorted_dropWhile)
    show ?thesis
    proof (cases "f \<in> set files")
      case True
      then show ?thesis
        using Some Cons.IH [OF s' _ b(1) _ Cons.prems(5) in'] Cons.prems(2) by (simp add: sweep_files_unfold Let_def del: sweep_files.simps)
    next
      case False
      then have "g = f" "c = a" using Cons.prems(4,5) g by auto
      then obtain ys where "dropWhile (\<lambda>n. n < c) named = a # ys" using dropWhile_sorted_head [OF Cons.prems(1,6)] by blast
      then show ?thesis using Some \<open>c = a\<close> \<open>g = f\<close> by (simp add: sweep_files_unfold Let_def del: sweep_files.simps)
    qed
  qed
qed simp

lemma sweep_files_subset: "set (fst (sweep_files env pol named files report)) \<subseteq> set files"
  by (induction files arbitrary: named report) (auto simp: sweep_files_unfold Let_def simp del: sweep_files.simps(2) split: if_splits)

text \<open>Only a block or a temporary file goes, past the lease and with its time unchanged.\<close>

definition expired :: "gc_env \<Rightarrow> reclaim_policy \<Rightarrow> str \<times> nat option \<Rightarrow> bool" where
  "expired env pol f = ((ends_with BLOCK_SUFFIX (fst f) \<or> ends_with TEMP_SUFFIX (fst f)) \<and>
     (\<exists>m. snd f = Some m \<and> po_write_lease pol \<le> ge_now env (fst f) - m \<and> ge_again env (fst f) = Some m))"

lemma remove_if_stale_old:
  "fst (remove_if_stale env pol f report) \<Longrightarrow>
   \<exists>m. snd f = Some m \<and> po_write_lease pol \<le> ge_now env (fst f) - m \<and> ge_again env (fst f) = Some m"
  by (auto simp: remove_if_stale_def split: option.splits if_splits)

lemma sweep_files_old:
  "f \<in> set files \<Longrightarrow> f \<notin> set (fst (sweep_files env pol named files report)) \<Longrightarrow> expired env pol f"
proof (induction files arbitrary: named report)
  case (Cons g files)
  show ?case
  proof (cases "f \<in> set files")
    case True
    then show ?thesis using Cons.IH Cons.prems(2) by (auto simp: sweep_files_unfold Let_def simp del: sweep_files.simps split: if_splits)
  next
    case False
    then have "g = f" using Cons.prems(1) by simp
    then show ?thesis
      using Cons.prems(2) remove_if_stale_old [of env pol f]
      by (auto simp: sweep_files_unfold Let_def expired_def ends_with_def simp del: sweep_files.simps
          split: if_splits option.splits)
  qed
qed simp

lemma canonical_plain:
  assumes "is_canonical a"
  shows "NL \<notin> set a \<and> CR \<notin> set a \<and> a \<noteq> [] \<and> utf8_trim a = a"
proof -
  have hex: "c \<in> set ''0123456789abcdef''" if "c \<in> set a" for c
  proof -
    have "is_ascii_digit c \<or> c \<in> set ''abcdef''" using assms that by (simp add: is_canonical_def list_all_iff)
    then show ?thesis
    proof
      assume "is_ascii_digit c"
      then have "code_of c \<in> {48..57}" by (auto simp: is_ascii_digit_def code_of_def Let_def)
      then have "c \<in> char_of ` {48..57::nat}" by (metis code_of_def char_of_char image_eqI)
      moreover have "char_of ` {48..57::nat} = set ''0123456789''" by code_simp
      ultimately show ?thesis by auto
    qed auto
  qed
  have "set ''0123456789abcdef'' \<inter> set (concat utf8_ws) = {}" by code_simp
  then have "utf8_trim a = a" using hex unfolding list_all_iff by (intro utf8_trim_plain) (unfold list_all_iff, blast)
  moreover have "NL \<notin> set ''0123456789abcdef''" "CR \<notin> set ''0123456789abcdef''" by code_simp+
  moreover have "a \<noteq> []" using assms by (auto simp: is_canonical_def)
  ultimately show ?thesis using hex by blast
qed

lemma read_bucket_filed:
  assumes "filed_in refs bk B" and "read_bucket refs name e = Inr named" and "a \<in> held_in B" and "name = take SHARD_CHARS a"
  shows "a \<in> set named"
proof -
  obtain xs where xs: "B name = Some xs" "a \<in> set xs" using assms(3,4) by (auto simp: held_in_def)
  then have c: "refs name = Some (unlines_nl xs)" "list_all is_canonical xs" using assms(1) by (simp_all add: filed_in_def)
  have "str_lines (unlines_nl xs) = xs" using c(2) canonical_plain by (intro str_lines_unlines) (auto simp: list_all_iff)
  moreover have "is_canonical a" using c(2) xs(2) by (simp add: list_all_iff)
  ultimately show ?thesis
    using assms(2) c(1) xs(2) canonical_plain [of a] by (force simp: read_bucket_def split: if_splits)
qed

text \<open>What a shard holds, and that the names there that end in the block suffix are addresses.\<close>

definition stored :: "cas \<Rightarrow> str \<Rightarrow> str \<times> nat option \<Rightarrow> bool" where
  "stored store name f = (case map_of store name of Some (SH_Dir files) \<Rightarrow> f \<in> set files | _ \<Rightarrow> False)"

definition cas_ok :: "cas \<Rightarrow> bool" where
  "cas_ok store = (\<forall>name files. map_of store name = Some (SH_Dir files) \<longrightarrow> bins_ok files)"

lemma map_of_set_shard: "map_of (set_shard name files store) n = (if n = name \<and> map_of store name \<noteq> None then Some (SH_Dir files) else map_of store n)"
  by (induction store) (auto simp: set_shard_def)

lemma sweep_shard_frame:
  "sweep_shard env pol name r store = (res, r', store') \<Longrightarrow> same_run r r' \<and> mr_refs r' = mr_refs r \<and> mr_buckets r' = mr_buckets r"
  by (auto simp: sweep_shard_def same_run_def split: sum.splits option.splits shard_entry.splits prod.splits)

lemma sweep_shard_cases:
  assumes "sweep_shard env pol name r store = (res, r', store')"
  obtains "store' = store"
  | named files where "read_bucket (mr_refs r) name (map_of (mr_buckets r) name \<noteq> None) = Inr named"
      "map_of store name = Some (SH_Dir files)"
      "store' = set_shard name (fst (sweep_files env pol (remdups_adj (sort named)) (sort_key fst files) (mr_report r))) store"
  using assms by (auto simp: sweep_shard_def split: sum.splits option.splits shard_entry.splits prod.splits)

lemma bins_ok_mono: "bins_ok files \<Longrightarrow> set files' \<subseteq> set files \<Longrightarrow> bins_ok files'"
  unfolding bins_ok_def by blast

lemma sweep_shard_keeps:
  assumes "sweep_shard env pol name r store = (res, r', store')" and "filed_in (mr_refs r) (mr_buckets r) B" and "cas_ok store"
  shows "cas_ok store' \<and> (a \<in> held_in B \<longrightarrow> stored store (take SHARD_CHARS a) f \<longrightarrow> fst f = a @ BLOCK_SUFFIX \<longrightarrow>
           stored store' (take SHARD_CHARS a) f)"
  using assms(1)
proof (cases rule: sweep_shard_cases)
  case (2 named files)
  let ?kept = "fst (sweep_files env pol (remdups_adj (sort named)) (sort_key fst files) (mr_report r))"
  have files: "bins_ok files" using assms(3) 2(2) by (simp add: cas_ok_def)
  have "set ?kept \<subseteq> set files" using sweep_files_subset [of env pol _ "sort_key fst files"] by simp
  then have ok: "bins_ok ?kept" using files bins_ok_mono by blast
  have "f \<in> set ?kept" if "a \<in> held_in B" "name = take SHARD_CHARS a" "f \<in> set files" "fst f = a @ BLOCK_SUFFIX"
    using read_bucket_filed [OF assms(2) 2(1) that(1,2)] that(3,4) bins_ok_mono [OF files, of "sort_key fst files"]
    by (intro sweep_files_keeps) simp_all
  then show ?thesis using ok assms(3) 2 by (auto simp: cas_ok_def stored_def map_of_set_shard split: if_splits option.splits)
qed (use assms(3) in simp)

lemma sweep_shard_old:
  assumes "sweep_shard env pol name r store = (res, r', store')" and "stored store n f" and "\<not> stored store' n f"
  shows "expired env pol f"
  using assms(1)
proof (cases rule: sweep_shard_cases)
  case (2 named files)
  then show ?thesis
    using assms(2,3) by (intro sweep_files_old [of f "sort_key fst files" env pol "remdups_adj (sort named)" "mr_report r"])
      (auto simp: stored_def map_of_set_shard split: if_splits)
qed (use assms(2,3) in simp)

lemma cursor_record_inv:
  assumes "record_cursor env r = (res, r')" and "run_ok env' hist r B" and "gc_inv env' hist (disk_of r)"
  shows "run_ok env' hist r' B \<and> gc_inv env' hist (disk_of r')"
proof (cases res)
  case (Inr u)
  then show ?thesis using record_ok assms by blast
next
  case (Inl e)
  then show ?thesis using assms by (auto simp: record_cursor_def run_ok_def gc_inv_def disk_of_def split: gc_io.splits nat.splits)
qed

text \<open>One shard of the loop: the shard, then the cursor at a power of two or at the end of the budget.\<close>

lemma sweep_shard_inv:
  assumes "sweep_shard env pol name r store = (res, r', store')" and "run_ok env hist r B" and "gc_inv env hist (disk_of r)"
  shows "run_ok env hist r' B" "gc_inv env hist (disk_of r')" "run_ok env hist (r'\<lparr>mr_swept := s\<rparr>) B"
    "gc_inv env hist (disk_of (r'\<lparr>mr_swept := s\<rparr>))"
  using sweep_shard_frame [OF assms(1)] assms(2,3) by (auto simp: same_run_def run_ok_def disk_of_def)

lemma sweep_loop_step:
  assumes "sweep_loop env pol n (name # rest) r store = (res, r', store')" and "\<not> (\<exists>s. mr_swept r = Some s \<and> name \<le> s)"
    and "run_ok env hist r B" and "gc_inv env hist (disk_of r)"
  shows "\<exists>res1 r1 store1. sweep_shard env pol name r store = (res1, r1, store1) \<and>
    (store' = store1 \<and> run_ok env hist r' B \<and> gc_inv env hist (disk_of r') \<or>
     (\<exists>r2. run_ok env hist r2 B \<and> gc_inv env hist (disk_of r2) \<and> sweep_loop env pol (Suc n) rest r2 store1 = (res, r', store')))"
proof -
  obtain res1 r1 store1 where s: "sweep_shard env pol name r store = (res1, r1, store1)" by (metis prod_cases3)
  note inv = sweep_shard_inv [OF s assms(3,4)]
  have sw: "(case mr_swept r of None \<Rightarrow> False | Some swept \<Rightarrow> name \<le> swept) = False" using assms(2) by (auto split: option.splits)
  show ?thesis
  proof (cases res1)
    case (Inl e)
    then show ?thesis using assms(1) s sw inv by auto
  next
    case (Inr u)
    define c where "c = (if is_power_of_two (Suc n) \<or> po_budget pol \<le> ge_sweep_elapsed env name
       then record_cursor env (r1\<lparr>mr_swept := Some name\<rparr>) else (Inr (), r1))"
    obtain cr r2 where c2: "c = (cr, r2)" by force
    have "run_ok env hist r2 B \<and> gc_inv env hist (disk_of r2)"
      using cursor_record_inv [OF _ inv(3,4)] inv(1,2) c2 unfolding c_def by (auto split: if_splits)
    moreover have "(r' = r2 \<and> store' = store1) \<or> sweep_loop env pol (Suc n) rest r2 store1 = (res, r', store')"
      using assms(1) s sw Inr c2 by (auto simp: Let_def simp flip: c_def split: sum.splits if_splits)
    ultimately show ?thesis using s by blast
  qed
qed

lemma sweep_loop_ok:
  "sweep_loop env pol n ns r store = (res, r', store') \<Longrightarrow> run_ok env hist r B \<Longrightarrow> gc_inv env hist (disk_of r) \<Longrightarrow> cas_ok store \<Longrightarrow>
   run_ok env hist r' B \<and> gc_inv env hist (disk_of r') \<and>
   (a \<in> held_in B \<longrightarrow> stored store (take SHARD_CHARS a) f \<longrightarrow> fst f = a @ BLOCK_SUFFIX \<longrightarrow> stored store' (take SHARD_CHARS a) f)"
proof (induction ns arbitrary: n r store)
  case Nil
  then show ?case by (auto simp: run_ok_def disk_of_def Let_def)
next
  case (Cons name ns)
  show ?case
  proof (cases "\<exists>s. mr_swept r = Some s \<and> name \<le> s")
    case True
    then have "sweep_loop env pol n ns r store = (res, r', store')" using Cons.prems(1) by auto
    then show ?thesis using Cons.IH Cons.prems(2-4) by blast
  next
    case False
    from sweep_loop_step [OF Cons.prems(1) False Cons.prems(2,3)] obtain res1 r1 store1 where
      s: "sweep_shard env pol name r store = (res1, r1, store1)"
      "store' = store1 \<and> run_ok env hist r' B \<and> gc_inv env hist (disk_of r') \<or>
       (\<exists>r2. run_ok env hist r2 B \<and> gc_inv env hist (disk_of r2) \<and> sweep_loop env pol (Suc n) ns r2 store1 = (res, r', store'))"
      by blast
    have "filed_in (mr_refs r) (mr_buckets r) B" using Cons.prems(2) by (simp add: run_ok_def)
    note k = sweep_shard_keeps [OF s(1) this Cons.prems(4), of a f]
    from s(2) show ?thesis using k Cons.IH by blast
  qed
qed

lemma sweep_loop_cases:
  assumes "sweep_loop env pol n (name # rest) r store = (res, r', store')"
  shows "\<exists>res1 r1 store1 n2 r2. (sweep_shard env pol name r store = (res1, r1, store1) \<or> store1 = store) \<and>
    (store' = store1 \<or> sweep_loop env pol n2 rest r2 store1 = (res, r', store'))"
proof (cases "\<exists>s. mr_swept r = Some s \<and> name \<le> s")
  case True
  then have "sweep_loop env pol n rest r store = (res, r', store')" using assms by auto
  then show ?thesis by blast
next
  case False
  then have sw: "(case mr_swept r of None \<Rightarrow> False | Some swept \<Rightarrow> name \<le> swept) = False" by (auto split: option.splits)
  obtain res1 r1 store1 where s: "sweep_shard env pol name r store = (res1, r1, store1)" by (metis prod_cases3)
  have "store' = store1 \<or> (\<exists>r2. sweep_loop env pol (Suc n) rest r2 store1 = (res, r', store'))"
    using assms s sw by (auto simp: Let_def split: sum.splits if_splits prod.splits)
  then show ?thesis using s by blast
qed

lemma sweep_loop_old:
  "sweep_loop env pol n ns r store = (res, r', store') \<Longrightarrow> stored store name f \<Longrightarrow> \<not> stored store' name f \<Longrightarrow>
   expired env pol f"
proof (induction ns arbitrary: n r store)
  case (Cons s ns)
  from sweep_loop_cases [OF Cons.prems(1)] obtain res1 r1 store1 n2 r2 where
    1: "sweep_shard env pol s r store = (res1, r1, store1) \<or> store1 = store"
       "store' = store1 \<or> sweep_loop env pol n2 ns r2 store1 = (res, r', store')" by blast
  show ?case
  proof (cases "stored store1 name f")
    case True
    then show ?thesis using 1(2) Cons.IH Cons.prems(3) by blast
  next
    case False
    then show ?thesis using 1(1) sweep_shard_old Cons.prems(2) by blast
  qed
qed (simp add: Let_def)

subsection \<open>The whole pass\<close>

text \<open>What a finished mark over one listing has.\<close>

definition marked :: "gc_env \<Rightarrow> log_history \<Rightarrow> nat \<Rightarrow> reference_source list \<Rightarrow> mark_run \<Rightarrow> filing \<Rightarrow> bool" where
  "marked env hist i sources r B =
     (ge_list env i = Inr sources \<and> run_ok env hist r B \<and> gc_inv env hist (disk_of r) \<and>
      mr_fingerprint r = source_fingerprint (ge_digest env) sources \<and> (\<forall>s \<in> set sources. shown env (ge_view env i) B s))"

text \<open>The listings and views of a pass: in order, and with the bytes the history gives.\<close>

definition gc_env_ok :: "gc_env \<Rightarrow> log_history \<Rightarrow> bool" where
  "gc_env_ok env hist = ((\<forall>i. view_of hist (ge_view env i)) \<and> (\<forall>i sources. ge_list env i = Inr sources \<longrightarrow> sources_ok sources))"

lemma mark_open_budget: "mark_open env v d n sources = (Inl e, r) \<Longrightarrow> e \<noteq> GE_Budget"
proof -
  have "cut_buckets env bk q = (Inl e, r) \<Longrightarrow> e \<noteq> GE_Budget" for bk q
    by (induction bk arbitrary: q) (auto split: if_splits)
  then show "mark_open env v d n sources = (Inl e, r) \<Longrightarrow> e \<noteq> GE_Budget"
    by (auto simp: mark_open_def Let_def split: if_splits option.splits gc_io.splits nat.splits)
qed

lemma mark_run_ok:
  assumes "mark_run_from env pol (ge_view env i) d n sources = (res, r)" and "gc_inv env hist d" and "gc_env_ok env hist"
    and "ge_list env i = Inr sources"
  shows "case res of Inr _ \<Rightarrow> \<exists>B. marked env hist i sources r B | Inl e \<Rightarrow> fst e = GE_Budget \<longrightarrow> gc_inv env hist (disk_of r)"
proof -
  have ok: "view_of hist (ge_view env i)" "sources_ok sources" using assms(3,4) by (auto simp: gc_env_ok_def)
  obtain o0 r0 where o: "mark_open env (ge_view env i) d n sources = (o0, r0)" by force
  show ?thesis
  proof (cases o0)
    case (Inl e)
    then show ?thesis using assms(1) o mark_open_budget [of env "ge_view env i" d n sources e r0] by (auto simp: mark_run_from_def)
  next
    case (Inr u)
    from mark_open_ok [OF o [unfolded Inr] assms(2) ok] obtain B where
      B: "run_ok env hist r0 B" "\<forall>s \<in> set sources. already_filed r0 s \<longrightarrow> shown env (ge_view env i) B s"
         "mr_fingerprint r0 = source_fingerprint (ge_digest env) sources" by blast
    obtain m r1 where m: "mark env pol (ge_view env i) sources r0 = (m, r1)" by force
    have "sorted_wrt (\<lambda>a b. rs_key a < rs_key b) sources" using ok(2) by (simp add: sources_ok_def)
    from mark_ok [OF m B(1) ok(1) this B(2)] show ?thesis
      using assms(1,4) o Inr m B(3) by (auto simp: mark_run_from_def marked_def split: sum.splits)
  qed
qed

lemma relist_settled:
  assumes "relist_loop env pol restarted sources r = (res, r')" and "marked env hist (if restarted then 1 else 0) sources r B"
  obtains (settled) now where "res = Inr sources" "r' = r" "ge_list env (if restarted then 2 else 1) = Inr now"
      "source_fingerprint (ge_digest env) now = source_fingerprint (ge_digest env) sources"
  | (stopped) e where "res = Inl e" "r' = r"
  | (again) now where "\<not> restarted" "ge_list env 1 = Inr now"
      "(case mark_run_from env pol (ge_view env 1) (disk_of r) (mr_tick r) now of
          (Inl e, r1) \<Rightarrow> (Inl e, r1) | (Inr _, r1) \<Rightarrow> relist_loop env pol True now r1) = (res, r')"
  using assms
  by (auto simp: relist_loop.simps [of env pol restarted] relist_def marked_def split: sum.splits if_splits)

lemma relist_ok:
  assumes "relist_loop env pol restarted sources r = (res, r')" and "marked env hist (if restarted then 1 else 0) sources r B"
    and "gc_env_ok env hist"
  shows "case res of
      Inl e \<Rightarrow> fst e = GE_Budget \<longrightarrow> gc_inv env hist (disk_of r')
    | Inr sources' \<Rightarrow> \<exists>i < 2. \<exists>B' now. marked env hist i sources' r' B' \<and> ge_list env (Suc i) = Inr now \<and>
        source_fingerprint (ge_digest env) now = source_fingerprint (ge_digest env) sources'"
proof -
  have inv: "gc_inv env hist (disk_of r)" using assms(2) by (simp add: marked_def)
  have settled: ?thesis if "res = Inr sources" "r' = r" "ge_list env (if restarted then 2 else 1) = Inr now"
      "source_fingerprint (ge_digest env) now = source_fingerprint (ge_digest env) sources" for now
    using that assms(2) by (auto intro!: exI [of _ "if restarted then 1 else 0"] simp: numeral_2_eq_2 split: if_splits)
  from assms(1,2) show ?thesis
  proof (cases rule: relist_settled)
    case (again now)
    obtain m r1 where m: "mark_run_from env pol (ge_view env 1) (disk_of r) (mr_tick r) now = (m, r1)" by force
    note mo = mark_run_ok [OF m inv assms(3) again(2)]
    show ?thesis
    proof (cases m)
      case (Inl e)
      then show ?thesis using again(3) m mo by auto
    next
      case (Inr u)
      then obtain B1 where B1: "marked env hist (if True then 1 else 0) now r1 B1" using mo by auto
      have "relist_loop env pol True now r1 = (res, r')" using again(3) m Inr by simp
      from this B1 show ?thesis
      proof (cases rule: relist_settled)
        case (settled now')
        then show ?thesis using B1 by (auto intro!: exI [of _ 1] simp: numeral_2_eq_2)
      next
        case (stopped e)
        then show ?thesis using B1 by (auto simp: marked_def)
      qed simp
    qed
  qed (use settled inv in auto)
qed

lemma gc_finish_inv: "gc_inv env' hist (disk_of r) \<Longrightarrow> gc_inv env' hist (disk_of (gc_finish env r))"
  by (auto simp: gc_finish_def gc_inv_def disk_of_def Let_def split: gc_io.splits nat.splits)

lemma reclaim_listed:
  assumes "reclaim_orphan_blocks env pol d store = (res, d', store')"
  obtains (early) "store' = store" "d' = d" | (list) sources where "ge_list env 0 = Inr sources"
      "(case mark_run_from env pol (ge_view env 0) d 0 sources of
          (Inl e, r) \<Rightarrow> (Inl e, disk_of r, store)
        | (Inr _, r) \<Rightarrow>
            (case relist_loop env pol False sources r of
               (Inl e, r1) \<Rightarrow> (Inl e, disk_of r1, store)
             | (Inr _, r1) \<Rightarrow>
                 (case sweep env pol r1 store of
                    (Inl e, r2, store2) \<Rightarrow> (Inl (e, mr_report r2), disk_of r2, store2)
                  | (Inr report, r2, store2) \<Rightarrow>
                      (Inr report, disk_of (if gr_complete report then gc_finish env r2 else r2), store2)))) = (res, d', store')"
  using assms by (auto simp: reclaim_orphan_blocks_def split: root_stat.splits if_splits lock_io.splits sum.splits)

text \<open>A pass that frees anything has swept: the mark of one of two equal listings stands behind it.\<close>

lemma reclaim_cases:
  assumes "reclaim_orphan_blocks env pol d store = (res, d', store')" and "gc_inv env hist d" and "gc_env_ok env hist"
  obtains (idle) "store' = store" "d' = d"
  | (stopped) e where "res = Inl e" "store' = store" "fst e = GE_Budget \<longrightarrow> gc_inv env hist d'"
  | (swept) i sources now r B out r2 where "i < 2" "marked env hist i sources r B" "ge_list env (Suc i) = Inr now"
      "source_fingerprint (ge_digest env) now = source_fingerprint (ge_digest env) sources"
      "sweep env pol r store = (out, r2, store')"
      "d' = disk_of r2 \<or> d' = disk_of (gc_finish env r2)"
proof -
  from assms(1) show ?thesis
  proof (cases rule: reclaim_listed)
    case (list sources)
    obtain m r where m: "mark_run_from env pol (ge_view env 0) d 0 sources = (m, r)" by force
    note mo = mark_run_ok [OF m assms(2,3) list(1)]
    obtain l r1 where l: "relist_loop env pol False sources r = (l, r1)" by force
    obtain out r2 store2 where s: "sweep env pol r1 store = (out, r2, store2)" by (metis prod_cases3)
    show ?thesis
    proof (cases m)
      case (Inl e)
      then show ?thesis using list(2) m mo by (intro stopped [of e]) auto
    next
      case Inr: (Inr u)
      then obtain B where "marked env hist (if False then 1 else 0) sources r B" using mo by auto
      note lo = relist_ok [OF l this assms(3)]
      show ?thesis
      proof (cases l)
        case (Inl e)
        then show ?thesis using list(2) m Inr l lo by (intro stopped [of e]) auto
      next
        case (Inr sources')
        then obtain i B' now where "i < 2" "marked env hist i sources' r1 B'" "ge_list env (Suc i) = Inr now"
          "source_fingerprint (ge_digest env) now = source_fingerprint (ge_digest env) sources'" using lo by auto
        then show ?thesis using list(2) m \<open>m = Inr u\<close> l Inr s swept by (auto split: sum.splits)
      qed
    qed
  qed (rule idle)
qed

subsection \<open>Claims on reclamation\<close>

lemma names_cong: "ge_parse env = ge_parse env' \<Longrightarrow> names env = names env'"
  by (intro ext) (simp add: names_def)

lemma gc_inv_cong: "ge_parse env = ge_parse env' \<Longrightarrow> gc_inv env hist d = gc_inv env' hist d"
  using names_cong [of env env'] by (simp add: gc_inv_def covered_def)

text \<open>The workspaces that passes leave behind which end, or stop at their budget.\<close>

definition clean_end :: "reclaim_stop + reclaim_report \<Rightarrow> bool" where
  "clean_end res = (case res of Inl e \<Rightarrow> fst e = GE_Budget | Inr _ \<Rightarrow> True)"

inductive gc_reach :: "(str \<Rightarrow> json option) \<Rightarrow> log_history \<Rightarrow> gc_disk \<Rightarrow> bool" for parse hist where
  fresh: "gd_cursor d = CF_Missing \<Longrightarrow> gc_reach parse hist d"
| pass: "gc_reach parse hist d \<Longrightarrow> ge_parse env = parse \<Longrightarrow> gc_env_ok env hist \<Longrightarrow> cas_ok store \<Longrightarrow>
    reclaim_orphan_blocks env pol d store = (res, d', store') \<Longrightarrow> clean_end res \<Longrightarrow> gc_reach parse hist d'"

lemma sweep_ok:
  assumes "sweep env pol r store = (res, r', store')" and "marked env hist i sources r B" and "cas_ok store"
  shows "gc_inv env hist (disk_of r') \<and>
   (a \<in> held_in B \<longrightarrow> stored store (take SHARD_CHARS a) f \<longrightarrow> fst f = a @ BLOCK_SUFFIX \<longrightarrow> stored store' (take SHARD_CHARS a) f)"
proof (cases "shard_dirs store")
  case (Inl e)
  then show ?thesis using assms by (auto simp: sweep_def marked_def)
next
  case (Inr ns)
  then have "sweep_loop env pol 0 ns r store = (res, r', store')" using assms(1) by (simp add: sweep_def)
  from sweep_loop_ok [OF this, of hist B a f] show ?thesis using assms(2,3) by (simp add: marked_def)
qed

lemma reclaim_inv:
  assumes "reclaim_orphan_blocks env pol d store = (res, d', store')" and "gc_inv env hist d" and "gc_env_ok env hist"
    and "cas_ok store" and "clean_end res"
  shows "gc_inv env hist d'"
  using assms(1-3)
proof (cases rule: reclaim_cases)
  case (stopped e)
  then show ?thesis using assms(5) by (simp add: clean_end_def)
next
  case (swept i sources now r B out r2)
  then show ?thesis using sweep_ok [OF swept(5,2) assms(4)] gc_finish_inv by blast
qed (use assms(2) in simp)

lemma gc_reach_inv: "gc_reach (ge_parse env) hist d \<Longrightarrow> gc_inv env hist d"
proof (induction rule: gc_reach.induct)
  case (fresh d)
  then show ?case by (simp add: gc_inv_def)
next
  case (pass d env' store pol res d' store')
  then show ?case using reclaim_inv [of env' pol d store res d' store' hist] gc_inv_cong [OF pass.hyps(2)] by blast
qed


text \<open>A pass only removes block files and temporary files, each of them older than the write lease by the time
  recorded when the shard was listed, and with the same time still on it when the pass looked again.\<close>

lemma gc_respects_lease:
  assumes "reclaim_orphan_blocks env pol d store = (res, d', store')" and "stored store name f" and "\<not> stored store' name f"
  shows "(ends_with BLOCK_SUFFIX (fst f) \<or> ends_with TEMP_SUFFIX (fst f)) \<and>
    (\<exists>m. snd f = Some m \<and> po_write_lease pol \<le> ge_now env (fst f) - m \<and> ge_again env (fst f) = Some m)"
proof -
  have "\<exists>r out r'. sweep env pol r store = (out, r', store')"
    using assms(1)
  proof (cases rule: reclaim_listed)
    case (list sources)
    then show ?thesis using assms(2,3) by (auto split: sum.splits prod.splits)
  qed (use assms(2,3) in simp)
  then obtain r out r' where s: "sweep env pol r store = (out, r', store')" by blast
  then obtain ns where "sweep_loop env pol 0 ns r store = (out, r', store')"
    using assms(2,3) by (auto simp: sweep_def split: sum.splits)
  from sweep_loop_old [OF this assms(2,3)] show ?thesis by (auto simp: expired_def)
qed

subsection \<open>Examples\<close>

text \<open>Two logs of one record each: the first names a block of bytes b, the second one of bytes a. The parser
  reads a record as the address on it.\<close>

definition sample_address :: "char \<Rightarrow> str" where
  "sample_address c = replicate 64 c"

definition sample_source :: "str \<Rightarrow> reference_source" where
  "sample_source key = \<lparr>rs_kind = SK_Log, rs_key = key\<rparr>"

definition sample_view :: gc_view where
  "sample_view = \<lparr>gv_state = (\<lambda>k. Some \<lparr>st_modified_ms = 1, st_len = 65\<rparr>),
     gv_body = (\<lambda>k. Some (sample_address (if k = ''s1'' then CHR ''b'' else CHR ''a'') @ [NL]))\<rparr>"

definition sample_env :: "(nat \<Rightarrow> gc_io) \<Rightarrow> (str \<Rightarrow> nat) \<Rightarrow> gc_env" where
  "sample_env io elapsed = \<lparr>ge_parse = (\<lambda>s. Some (JObject [(BLOCK_REF_KEY, JString (butlast s))])), ge_digest = (\<lambda>s. s),
     ge_io = io, ge_mark_elapsed = elapsed, ge_sweep_elapsed = (\<lambda>_. 0), ge_now = (\<lambda>_. 100), ge_again = (\<lambda>_. Some 0),
     ge_unlink = (\<lambda>_. UL_Ok), ge_root = RT_Dir, ge_workspace = True, ge_lock = LK_Ok,
     ge_list = (\<lambda>_. Inr [sample_source ''s1'', sample_source ''s2'']), ge_view = (\<lambda>_. sample_view)\<rparr>"

definition sample_policy :: reclaim_policy where
  "sample_policy = \<lparr>po_write_lease = 10, po_budget = 5\<rparr>"

definition sample_disk :: gc_disk where
  "sample_disk = \<lparr>gd_refs = (\<lambda>_. None), gd_cursor = CF_Missing\<rparr>"

definition sample_block :: "char \<Rightarrow> str \<times> nat option" where
  "sample_block c = (sample_address c @ BLOCK_SUFFIX, Some 0)"

definition sample_cas :: cas where
  "sample_cas = [(''aa'', SH_Dir [sample_block (CHR ''a'')]), (''bb'', SH_Dir [sample_block (CHR ''b'')]),
     (''cc'', SH_Dir [sample_block (CHR ''c'')])]"

lemma sample_pass:
  "snd (snd (reclaim_orphan_blocks (sample_env (\<lambda>_. GI_Ok) (\<lambda>_. 0)) sample_policy sample_disk sample_cas)) =
   [(''aa'', SH_Dir [sample_block (CHR ''a'')]), (''bb'', SH_Dir [sample_block (CHR ''b'')]), (''cc'', SH_Dir [])]"
  by code_simp

definition sample_history :: log_history where
  "sample_history k st = sample_address (if k = ''s1'' then CHR ''b'' else CHR ''a'') @ [NL]"

lemma sample_env_ok: "gc_env_ok (sample_env io elapsed) sample_history"
proof -
  have "(''s1'' :: str) < ''s2''" by code_simp
  then show ?thesis
    by (auto simp: gc_env_ok_def sample_env_def view_of_def sample_view_def sample_history_def sources_ok_def sample_source_def)
qed

lemma sample_cas_ok: "cas_ok sample_cas"
proof -
  have "length a = 64" if "sample_address c @ BLOCK_SUFFIX = a @ BLOCK_SUFFIX" for a c
    using arg_cong [OF that, of length] by (simp add: sample_address_def)
  then show ?thesis
    by (auto simp: cas_ok_def sample_cas_def sample_block_def bins_ok_def split: if_splits)
qed



text \<open>Passes one after the other on the same workspace and store.\<close>

definition gc_passes :: "gc_env list \<Rightarrow> gc_disk \<Rightarrow> cas \<Rightarrow> gc_disk \<times> cas" where
  "gc_passes envs d store = fold (\<lambda>env (d, store). snd (reclaim_orphan_blocks env sample_policy d store)) envs (d, store)"

text \<open>The clause on how the earlier passes ended is needed. A pass that stops at its budget leaves a cursor; the next
  one fails while it writes the first address of a bucket the cursor does not know; the third resumes, does not cut
  that bucket, glues its address to the torn one, and frees a block that a log names.\<close>

lemma stray_bucket_frees_live:
  "let late = sample_env (\<lambda>_. GI_Ok) (\<lambda>k. if k = ''s2'' then 5 else 0);
       torn = sample_env (\<lambda>n. if n = 3 then GI_Fail 64 else GI_Ok) (\<lambda>_. 0);
       fine = sample_env (\<lambda>_. GI_Ok) (\<lambda>_. 0);
       block = sample_block (CHR ''a'')
   in sample_address (CHR ''a'') \<in> names fine SK_Log (sample_history ''s2'' st) \<and>
      stored (snd (gc_passes [late, torn] sample_disk sample_cas)) ''aa'' block \<and>
      \<not> stored (snd (gc_passes [late, torn, fine] sample_disk sample_cas)) ''aa'' block \<and>
      stored (snd (gc_passes [late, fine] sample_disk sample_cas)) ''aa'' block"
proof -
  let ?late = "sample_env (\<lambda>_. GI_Ok) (\<lambda>k. if k = ''s2'' then 5 else 0)"
  let ?torn = "sample_env (\<lambda>n. if n = 3 then GI_Fail 64 else GI_Ok) (\<lambda>_. 0)"
  let ?fine = "sample_env (\<lambda>_. GI_Ok) (\<lambda>_. 0)"
  have "stored (snd (gc_passes [?late, ?torn] sample_disk sample_cas)) ''aa'' (sample_block (CHR ''a''))" by code_simp
  moreover have "\<not> stored (snd (gc_passes [?late, ?torn, ?fine] sample_disk sample_cas)) ''aa'' (sample_block (CHR ''a''))" by code_simp
  moreover have "stored (snd (gc_passes [?late, ?fine] sample_disk sample_cas)) ''aa'' (sample_block (CHR ''a''))" by code_simp
  moreover have "sample_address (CHR ''a'') \<in> names ?fine SK_Log (sample_history ''s2'' st)"
  proof -
    let ?l = "sample_address (CHR ''a'') @ [NL]"
    have "?l \<in> set (split_inclusive ?l)" "utf8_valid ?l" "utf8_trim ?l \<noteq> []" "is_canonical (sample_address (CHR ''a''))" by code_simp+
    moreover have "ge_parse ?fine ?l = Some (JObject [(BLOCK_REF_KEY, JString (sample_address (CHR ''a'')))])"
      by (simp add: sample_env_def)
    ultimately show ?thesis
      by (auto simp: names_def sample_history_def block_addresses_def intro!: exI [of _ ?l])
  qed
  ultimately show ?thesis by (simp add: Let_def)
qed

text \<open>The order of the file names is not the order of the addresses. A copy whose name has the address and a space after
  it comes before the block in the listing, but its own name is past the address: the entry of the bucket is used up
  and the block behind it, which a log names, is freed.\<close>

lemma copy_beside_frees_live:
  "let copy = (sample_address (CHR ''a'') @ '' copy'' @ BLOCK_SUFFIX, Some 0);
       store = [(''aa'', SH_Dir [copy, sample_block (CHR ''a'')])]
   in \<not> stored (snd (gc_passes [sample_env (\<lambda>_. GI_Ok) (\<lambda>_. 0)] sample_disk store)) ''aa'' (sample_block (CHR ''a''))"
  by code_simp

end
