(* ===== verification/Session_Event.thy ===== *)
theory Session_Event
  imports Tool_Api Chain Saturating
begin

text \<open>
  The vocabulary of the session log (\<open>houyicoder-context\<close>: \<open>event.rs\<close>, \<open>event/cas.rs\<close>, \<open>event/verdicts.rs\<close>,
  \<open>event/notification.rs\<close>, \<open>hook_types.rs\<close>). A variant of the enumeration is a constructor, with the fields of
  the source in their order; the variants with many fields have a record of their own. Ids are texts, JSON values
  are those of \<open>Tool_Api\<close>, integers keep their width.
\<close>

datatype hook_event_kind =
    HK_PreToolUse | HK_PostToolUse | HK_PostToolUseFailure | HK_SessionStart | HK_SessionEnd | HK_Setup
  | HK_UserPromptSubmit | HK_Stop | HK_StopFailure | HK_Notification | HK_PreCompact | HK_PostCompact | HK_PreSelect
  | HK_InstructionsLoaded | HK_CwdChanged | HK_FileChanged | HK_ConfigChange | HK_SubagentStart | HK_SubagentStop
  | HK_PermissionRequest | HK_PermissionDenied | HK_TeammateIdle | HK_TaskCreated | HK_TaskCompleted | HK_Elicitation
  | HK_ElicitationResult | HK_WorktreeCreate | HK_WorktreeRemove

datatype hook_verdict_kind = HV_Allow | HV_Deny | HV_Feedback | HV_Observe | HV_Inject | HV_Ask | HV_Trigger

datatype hook_error_kind =
    HE_GuestPanic | HE_Timeout | HE_InvalidVerdict | HE_CapabilityDenied | HE_FeedbackExhausted | HE_ConfigError
  | HE_ProcessError

datatype run_completion_status =
    RC_Completed | RC_HandedOff | RC_Interrupted | RC_Failed | RC_VerificationFailed | RC_TurnLimitReached

datatype permission_verdict = PV_Approved | PV_Denied

datatype truncation_signal = TS_ServerUsageNearCap | TS_SelfCountNearCap | TS_UnclosedCodeBlock | TS_None

datatype recap_source = RS_Away | RS_Resume | RS_Unknown

record recap_usage =
  ru_input_tokens :: "64 word option"
  ru_output_tokens :: "64 word option"
  ru_cache_read :: "64 word option"
  ru_cache_write :: "64 word option"
  ru_duration_ms :: "64 word option"

datatype view_form = VF_Materialize | VF_Summarize | VF_Evict | VF_Unavailable | VF_Unknown

record cached_model_view =
  cm_block_ref :: str
  cm_form :: view_form
  cm_size :: "64 word"

datatype read_actor = RA_Model | RA_Ui | RA_Unknown

datatype read_outcome = RO_Read | RO_Failed | RO_Unknown

record cached_read =
  cr_result_id :: str
  cr_actor :: read_actor
  cr_start :: "64 word"
  cr_bytes :: "64 word"
  cr_outcome :: read_outcome

record cached_block_decision =
  cb_block_ref :: str
  cb_decision :: str

datatype notification_topic = NT_ChildCompletion | NT_Task

fun topic_as_word :: "notification_topic \<Rightarrow> str" where
  "topic_as_word NT_ChildCompletion = ''completion''"
| "topic_as_word NT_Task = ''task''"

definition topic_from_word :: "str \<Rightarrow> notification_topic option" where
  "topic_from_word w =
     (if w = ''completion'' then Some NT_ChildCompletion else if w = ''task'' then Some NT_Task else None)"

record turn_usage =
  tu_turn :: "32 word"
  tu_call_in_turn :: "32 word"
  tu_input_tokens :: "64 word"
  tu_output_tokens :: "64 word"
  tu_cache_read :: "64 word"
  tu_cache_write :: "64 word"
  tu_reasoning_tokens :: "64 word"
  tu_model :: str
  tu_recovery :: bool
  tu_effort :: "str option"
  tu_input_reported :: bool
  tu_cache_read_reported :: bool
  tu_cache_write_reported :: bool
  tu_cas_recorded :: bool

record hook_signal =
  hs_event :: hook_event_kind
  hs_verdict :: hook_verdict_kind
  hs_error :: "hook_error_kind option"
  hs_reason :: str
  hs_hook_name :: str
  hs_tool_name :: "str option"
  hs_triggered :: "hook_event_kind option"
  hs_turn :: "32 word option"
  hs_call_in_turn :: "32 word option"

record truncation_verdict =
  tv_raw_finish_reason :: "str option"
  tv_normalized_reason :: "str option"
  tv_signal :: truncation_signal
  tv_server_output :: "32 word"
  tv_self_count :: "32 word"
  tv_max_output :: "32 word"
  tv_recovery_attempts :: "32 word"
  tv_recovery_fired :: bool

record subagent_spawn =
  sp_child :: str
  sp_type :: str
  sp_prompt_summary :: str
  sp_isolation :: str
  sp_policy :: str
  sp_trigger_source :: str

record subagent_return =
  sr_child :: str
  sr_status :: str
  sr_summary :: str
  sr_result_ref :: str
  sr_input_tokens :: "64 word"
  sr_output_tokens :: "64 word"
  sr_cache_read :: "64 word"
  sr_cache_write :: "64 word"
  sr_reasoning_tokens :: "64 word"
  sr_input_reported :: bool
  sr_cache_read_reported :: bool
  sr_cache_write_reported :: bool
  sr_tool_calls :: "32 word"
  sr_tool_failures :: "32 word"
  sr_duration_ms :: "64 word"
  sr_ledger_measured :: bool
  sr_orphaned :: bool

record step_timing =
  mt_turn :: "32 word"
  mt_step :: "32 word"
  mt_total_ms :: "64 word"
  mt_ttft_ms :: "64 word option"
  mt_decode_ms :: "64 word option"
  mt_reasoning_ms :: "64 word option"
  mt_response_ms :: "64 word option"

record permission_decision =
  pd_call_id :: str
  pd_tool :: str
  pd_verdict :: permission_verdict
  pd_scope :: str
  pd_validator :: "str option"
  pd_reason :: "str option"

record notification_injected =
  nj_child :: str
  nj_turn :: "32 word"
  nj_order :: "32 word"
  nj_topic :: str
  nj_summary :: str
  nj_capture :: "json option"

record away_recap =
  aw_text :: str
  aw_last_user_event :: str
  aw_as_of_event :: str
  aw_source :: recap_source
  aw_model :: str
  aw_usage :: "recap_usage option"

datatype session_event =
    EV_UserInput str
  | EV_TurnStarted "32 word" "32 word"
  | EV_MetaUser str
  | EV_MidTurnInput str "64 word option"
  | EV_MemoryRecall str "str list" "32 word"
  | EV_SkillListing str "32 word" "64 word"
  | EV_SkillBody str str "str option" bool
  | EV_AssistantMessage str "str option"
  | EV_AssistantTextDelta str
  | EV_ToolCall str str json
  | EV_ToolResult str json "64 word"
  | EV_TurnUsage turn_usage
  | EV_RewardObservation "32 word" "32 word"
  | EV_HookSignal hook_signal
  | EV_Reasoning str
  | EV_CompactionBoundary str "64 word" "64 word"
  | EV_Summary str
  | EV_PermissionAsked str str
  | EV_PermissionDecision permission_decision
  | EV_TurnAborted str
  | EV_RunCompleted "64 word option" "run_completion_status option"
  | EV_TruncationVerdict truncation_verdict
  | EV_WorktreeEnter str str str "str option"
  | EV_WorktreeExit str str
  | EV_CacheBreak str
  | EV_CacheDecisions "cached_block_decision list" str
  | EV_CasModelView "64 word" "cached_model_view list" str
  | EV_CasRead "cached_read list"
  | EV_SubagentSpawn subagent_spawn
  | EV_SubagentReturn subagent_return
  | EV_ChildDelegated str str
  | EV_NotificationInjected notification_injected
  | EV_ModelStepTiming step_timing
  | EV_ContextCleared "32 word"
  | EV_RecapAttempt str str recap_source str
  | EV_AwayRecap away_recap
  | EV_Unknown

type_synonym session_entry = "session_event log_entry"

fun is_display_delta :: "session_event \<Rightarrow> bool" where
  "is_display_delta (EV_AssistantTextDelta _) = True"
| "is_display_delta _ = False"

fun is_user_input :: "session_event \<Rightarrow> bool" where
  "is_user_input (EV_UserInput _) = True"
| "is_user_input _ = False"

fun is_clear :: "session_event \<Rightarrow> bool" where
  "is_clear (EV_ContextCleared _) = True"
| "is_clear _ = False"

fun is_assistant :: "session_event \<Rightarrow> bool" where
  "is_assistant (EV_AssistantMessage _ _) = True"
| "is_assistant _ = False"

text \<open>The words of a topic are read back.\<close>

lemma topic_roundtrip: "topic_from_word (topic_as_word t) = Some t"
  by (cases t) (simp_all add: topic_from_word_def)

end
