(* ===== verification/Failure_Rule.thy ===== *)
theory Failure_Rule
  imports Tool_Api
begin

text \<open>
  Whether a recorded tool result is a failure (\<open>houyicoder-protocol\<close>: \<open>tool/failure.rs\<close>, \<open>tool/bash_command.rs\<close>).
  The session fold keeps only a part of a command until its result arrives; the last lemma shows that the
  verdict on that part is the verdict on the whole command.
\<close>

subsection \<open>The command word (bash\_command.rs)\<close>

text \<open>The bytes of a text in UTF-8, for the code points the model covers.\<close>

definition utf8_len :: "str \<Rightarrow> nat" where
  "utf8_len s = sum_list (map (\<lambda>c. if code_of c < 128 then 1 else 2) s)"

lemma split_once_shorter: "split_once p s = Some (a, b) \<Longrightarrow> p \<noteq> [] \<Longrightarrow> length b < length s"
  by (drule split_once_Some) auto

function strip_env_prefix :: "str \<Rightarrow> str" where
  "strip_env_prefix cmd =
     (let trimmed = trim_start cmd in
      case split_once ''='' trimmed of
        None \<Rightarrow> trimmed
      | Some (before, after) \<Rightarrow>
          if before = [] \<or> \<not> list_all (\<lambda>c. is_ascii_alnum c \<or> c = CHR ''_'') before then trimmed
          else strip_env_prefix (dropWhile (\<lambda>c. \<not> is_ws c) after))"
  by pat_completeness auto

termination
proof (relation "measure length", goal_cases)
  case (2 cmd trimmed x before after)
  have "length after < length trimmed" using 2 split_once_shorter by fastforce
  moreover have "length trimmed \<le> length cmd" using 2(1) by (simp add: trim_start_def length_dropWhile_le)
  moreover have "length (dropWhile (\<lambda>c. \<not> is_ws c) after) \<le> length after" by (rule length_dropWhile_le)
  ultimately show ?case by simp
qed simp

declare strip_env_prefix.simps [simp del]

definition simple_command_word :: "str \<Rightarrow> str option" where
  "simple_command_word command =
     (let trimmed = trim command in
      if contains_char (CHR ''|'') trimmed \<or> contains_char (CHR '';'') trimmed \<or> str_contains ''&&'' trimmed
         \<or> str_contains ''||'' trimmed
      then None
      else (case split_whitespace (strip_env_prefix trimmed) of
              [] \<Rightarrow> None
            | word # _ \<Rightarrow> if word = [] then None else Some word))"

subsection \<open>The rule (failure.rs)\<close>

fun git_subcommand :: "str list \<Rightarrow> (str \<times> str list) option" where
  "git_subcommand [] = None"
| "git_subcommand (w # ws) =
     (if w \<in> set [''-C'', ''-c'', ''--git-dir'', ''--work-tree'', ''--namespace'', ''--exec-path'']
      then (case ws of [] \<Rightarrow> None | _ # rest \<Rightarrow> git_subcommand rest)
      else if starts_with ''-'' w then git_subcommand ws
      else Some (w, ws))"

definition git_diff_reports_change :: "str \<Rightarrow> bool" where
  "git_diff_reports_change command =
     (case git_subcommand (drop 1 (split_whitespace command)) of
        Some (sub, rest) \<Rightarrow> sub = ''diff'' \<and> list_ex (\<lambda>w. w = ''--exit-code'' \<or> w = ''--quiet'') rest
      | None \<Rightarrow> False)"

definition exit_is_semantic_success :: "str \<Rightarrow> int \<Rightarrow> bool" where
  "exit_is_semantic_success command exit_code =
     (case simple_command_word command of
        None \<Rightarrow> False
      | Some word \<Rightarrow>
          exit_code = 1 \<and> (word = ''grep'' \<or> word = ''rg'' \<or> word = ''diff'' \<or> word = ''git'' \<and> git_diff_reports_change command))"

definition bash_exit_succeeded :: "str \<Rightarrow> int \<Rightarrow> bool" where
  "bash_exit_succeeded command exit_code = (exit_code = 0 \<or> exit_is_semantic_success command exit_code)"

definition tool_result_not_run :: "json \<Rightarrow> bool" where
  "tool_result_not_run output = (Option.bind (json_get output ''not_run'') json_bool = Some True)"

definition tool_result_refused :: "json \<Rightarrow> bool" where
  "tool_result_refused output = (case json_get output ''refused'' of None \<Rightarrow> False | Some v \<Rightarrow> json_is_object v)"

definition tool_result_failed :: "json \<Rightarrow> str \<Rightarrow> json \<Rightarrow> bool" where
  "tool_result_failed output tool_name call_input =
     (if tool_result_not_run output then False
      else
        let has_error = (json_get output ''error'' \<noteq> None);
            success_false = (Option.bind (json_get output ''success'') json_bool = Some False) in
        if \<not> has_error \<and> \<not> success_false then False
        else if tool_name = ''bash'' \<and> \<not> has_error
        then
          let exit_code = (case Option.bind (json_get output ''exit_code'') as_i64 of None \<Rightarrow> 0 | Some c \<Rightarrow> c);
              command = (case Option.bind (json_get call_input ''command'') json_str of None \<Rightarrow> [] | Some c \<Rightarrow> c) in
          \<not> (exit_code \<noteq> 0 \<and> exit_is_semantic_success command exit_code)
        else True)"

definition RETAINED_COMMAND_CAP :: nat where
  "RETAINED_COMMAND_CAP = 512"

definition retained_command :: "str \<Rightarrow> str option" where
  "retained_command command =
     (let trimmed = trim command in
      case simple_command_word trimmed of
        None \<Rightarrow> None
      | Some word \<Rightarrow>
          if contains_char NL trimmed \<or> RETAINED_COMMAND_CAP < utf8_len trimmed
          then if word = ''git'' \<and> git_diff_reports_change trimmed then Some ''git diff --exit-code'' else Some word
          else Some trimmed)"

definition failure_rule_input :: "str option \<Rightarrow> json" where
  "failure_rule_input command =
     (case command of Some c \<Rightarrow> JObject [(''command'', JString c)] | None \<Rightarrow> JNull)"

subsection \<open>A reduced command has the verdict of the whole\<close>

lemma split_by_Cons_not: "\<not> P c \<Longrightarrow> split_by P (c # s) = (c # List.hd (split_by P s)) # tl (split_by P s)"
  using split_by_not_Nil [of P s] by (cases "split_by P s") auto

lemma split_by_app_sep: "P c \<Longrightarrow> split_by P (s @ c # t) = split_by P s @ split_by P t"
proof (induction s)
  case (Cons a s)
  then show ?case using split_by_not_Nil [of P s] by (cases "split_by P s") auto
qed simp

lemma split_whitespace_app: "is_ws c \<Longrightarrow> split_whitespace (s @ c # t) = split_whitespace s @ split_whitespace t"
  by (simp add: split_whitespace_def split_by_app_sep)

lemma split_whitespace_blank: "list_all is_ws s \<Longrightarrow> split_whitespace s = []"
  by (induction s) (auto simp: split_whitespace_def)

lemma split_whitespace_start: "split_whitespace (trim_start s) = split_whitespace s"
proof (induction s)
  case (Cons c s)
  then show ?case using split_whitespace_app [of c "[]" s] by (simp add: trim_start_Cons split_whitespace_blank)
qed (simp add: trim_start_def)

lemma split_whitespace_end: "split_whitespace (trim_end s) = split_whitespace s"
proof (induction s rule: rev_induct)
  case (snoc c s)
  have "is_ws c \<Longrightarrow> trim_end (s @ [c]) = trim_end s" "\<not> is_ws c \<Longrightarrow> trim_end (s @ [c]) = s @ [c]"
    by (simp_all add: trim_end_def)
  then show ?case using snoc split_whitespace_app [of c s "[]"] by (cases "is_ws c") (simp_all add: split_whitespace_blank)
qed (simp add: trim_end_def)

lemma split_whitespace_trim: "split_whitespace (trim s) = split_whitespace s"
  by (simp add: trim_def split_whitespace_end split_whitespace_start)

lemma split_whitespace_word: "list_all (\<lambda>c. \<not> is_ws c) w \<Longrightarrow> w \<noteq> [] \<Longrightarrow> split_whitespace w = [w]"
  by (simp add: split_whitespace_def split_by_no_sep)

lemma split_once_eq: "split_once [c] s = (if c \<in> set s then Some (takeWhile (\<lambda>x. x \<noteq> c) s, tl (dropWhile (\<lambda>x. x \<noteq> c) s)) else None)"
  by (induction s) auto

lemma strip_env_settled:
  "strip_env_prefix x = s \<Longrightarrow> trim_start s = s \<and> suffix s x \<and>
   (CHR ''='' \<in> set s \<longrightarrow> takeWhile (\<lambda>c. c \<noteq> CHR ''='') s = [] \<or>
      \<not> list_all (\<lambda>c. is_ascii_alnum c \<or> c = CHR ''_'') (takeWhile (\<lambda>c. c \<noteq> CHR ''='') s))"
proof (induction x rule: strip_env_prefix.induct)
  case (1 cmd)
  let ?t = "trim_start cmd" and ?b = "takeWhile (\<lambda>c. c \<noteq> CHR ''='') (trim_start cmd)"
  let ?stop = "CHR ''='' \<notin> set ?t \<or> ?b = [] \<or> \<not> list_all (\<lambda>c. is_ascii_alnum c \<or> c = CHR ''_'') ?b"
  have suf: "suffix ?t cmd" by (simp add: trim_start_def suffix_dropWhile)
  show ?case
  proof (cases ?stop)
    case True
    then have "s = ?t" using 1(2) by (subst (asm) strip_env_prefix.simps) (auto simp: split_once_eq Let_def)
    then show ?thesis using True suf by (auto simp: trim_start_idem)
  next
    case False
    let ?rest = "dropWhile (\<lambda>c. \<not> is_ws c) (tl (dropWhile (\<lambda>c. c \<noteq> CHR ''='') ?t))"
    have "strip_env_prefix ?rest = s"
      using False 1(2) by (subst (asm) strip_env_prefix.simps) (auto simp: split_once_eq Let_def)
    moreover have "split_once ''='' ?t = Some (?b, tl (dropWhile (\<lambda>c. c \<noteq> CHR ''='') ?t))" using False by (simp add: split_once_eq)
    moreover have "\<not> (?b = [] \<or> \<not> list_all (\<lambda>c. is_ascii_alnum c \<or> c = CHR ''_'') ?b)" using False by blast
    moreover have "suffix ?rest cmd"
      using suf by (meson suffix_dropWhile suffix_order.trans suffix_tl)
    ultimately show ?thesis using 1(1) [OF refl _ refl, of ?b] suffix_order.trans by blast
  qed
qed

lemma first_word:
  assumes "split_whitespace s = w # ws" and "trim_start s = s"
  shows "w = takeWhile (\<lambda>c. \<not> is_ws c) s"
proof (cases "dropWhile (\<lambda>c. \<not> is_ws c) s")
  case Nil
  then have "list_all (\<lambda>c. \<not> is_ws c) s" by (simp add: dropWhile_eq_Nil_conv list_all_iff)
  then show ?thesis using assms(1) split_whitespace_word [of s] by (cases "s = []") (auto simp: split_whitespace_blank list_all_iff takeWhile_eq_all_conv [THEN iffD2])
next
  case (Cons c r)
  let ?w = "takeWhile (\<lambda>c. \<not> is_ws c) s"
  have s: "s = ?w @ c # r" "is_ws c" using Cons takeWhile_dropWhile_id [of "\<lambda>c. \<not> is_ws c" s] by (simp, metis dropWhile_eq_Cons_conv)
  have "?w \<noteq> []"
  proof
    assume "?w = []"
    then have "s = c # r" using s(1) by simp
    then have "length (trim_start s) < length s" using s(2) length_dropWhile_le [of is_ws r] by (simp add: trim_start_def)
    then show False using assms(2) by simp
  qed
  moreover have "list_all (\<lambda>c. \<not> is_ws c) ?w" by (auto simp: list_all_iff dest: set_takeWhileD)
  ultimately have "split_whitespace s = ?w # split_whitespace r"
    using split_whitespace_app [OF s(2), of ?w r] split_whitespace_word [of ?w] s(1) by simp
  then show ?thesis using assms(1) by simp
qed

lemma reduced_word:
  assumes "simple_command_word c = Some w"
  shows "simple_command_word w = Some w"
proof -
  let ?t = "trim c"
  obtain ws where not: "CHR ''|'' \<notin> set ?t" "CHR '';'' \<notin> set ?t" "\<not> sublist ''&&'' ?t" "\<not> sublist ''||'' ?t"
    and sw: "split_whitespace (strip_env_prefix ?t) = w # ws"
    using assms by (auto simp: simple_command_word_def Let_def str_contains_iff split: if_splits list.splits)
  define s where "s = strip_env_prefix ?t"
  note s = strip_env_settled [OF s_def [symmetric]]
  have w: "w = takeWhile (\<lambda>c. \<not> is_ws c) s" using first_word [of s w ws] sw s by (simp add: s_def)
  have ne: "w \<noteq> []" "list_all (\<lambda>c. \<not> is_ws c) w"
    using split_whitespace_words [of w s] sw by (auto simp: s_def)
  have pre: "prefix w s" using w by (simp add: takeWhile_is_prefix)
  have sub: "sublist w ?t" using pre s sublist_order.order.trans prefix_imp_sublist suffix_imp_sublist by blast
  then have in_t: "set w \<subseteq> set ?t" by (rule set_mono_sublist)
  have nocomp: "\<not> sublist ''&&'' w" "\<not> sublist ''||'' w" using not(3,4) sub sublist_order.order.trans by blast+
  have ends: "trim w = w" "trim_start w = w"
  proof -
    have "\<not> is_ws (List.hd w)" "\<not> is_ws (last w)" using ne by (auto simp: list_all_iff)
    then show "trim_start w = w" using ne(1) by (cases w) (simp_all add: trim_start_def)
    have "rev w = last w # tl (rev w)" using ne(1) by (metis hd_rev list.collapse rev_is_Nil_conv)
    then have "trim_end w = w" using \<open>\<not> is_ws (last w)\<close> by (metis dropWhile.simps(2) rev_rev_ident trim_end_def)
    then show "trim w = w" using \<open>trim_start w = w\<close> by (simp add: trim_def)
  qed
  have tw: "takeWhile (\<lambda>c. c \<noteq> CHR ''='') s = takeWhile (\<lambda>c. c \<noteq> CHR ''='') w" if "CHR ''='' \<in> set w"
    using pre that by (auto simp: prefix_def takeWhile_append1)
  have "strip_env_prefix w = w"
    using ends(2) s tw pre by (subst strip_env_prefix.simps) (auto simp: split_once_eq Let_def dest: set_mono_prefix)
  then show ?thesis
    using not(1,2) in_t nocomp ends(1) ne split_whitespace_word [of w]
    by (auto simp: simple_command_word_def Let_def str_contains_iff)
qed

lemma git_word_reports: "git_diff_reports_change ''git diff --exit-code''" "simple_command_word ''git diff --exit-code'' = Some ''git''"
  by code_simp+

lemma one_word_git: "simple_command_word c = Some w \<Longrightarrow> \<not> git_diff_reports_change w"
proof -
  assume "simple_command_word c = Some w"
  then have "w \<in> set (split_whitespace (strip_env_prefix (trim c)))"
    by (auto simp: simple_command_word_def Let_def split: if_splits list.splits)
  then have "split_whitespace w = [w]" using split_whitespace_words split_whitespace_word by blast
  then show ?thesis by (simp add: git_diff_reports_change_def)
qed

lemma simple_word_trim: "simple_command_word (trim c) = simple_command_word c" "git_diff_reports_change (trim c) = git_diff_reports_change c"
  by (simp_all add: simple_command_word_def git_diff_reports_change_def split_whitespace_trim)

lemma retained_same:
  "exit_is_semantic_success (case retained_command c of None \<Rightarrow> [] | Some r \<Rightarrow> r) e = exit_is_semantic_success c e"
proof (cases "simple_command_word c")
  case None
  have "simple_command_word [] = None" by code_simp
  then show ?thesis using None by (simp add: retained_command_def Let_def simple_word_trim exit_is_semantic_success_def)
next
  case (Some w)
  let ?long = "contains_char NL (trim c) \<or> RETAINED_COMMAND_CAP < utf8_len (trim c)"
  let ?diff = "w = ''git'' \<and> git_diff_reports_change c"
  have r: "retained_command c = (if ?long then if ?diff then Some ''git diff --exit-code'' else Some w else Some (trim c))"
    using Some by (simp only: retained_command_def Let_def simple_word_trim option.case)
  show ?thesis
  proof (cases ?long)
    case False
    then have "retained_command c = Some (trim c)" using r by presburger
    then show ?thesis using Some by (simp add: exit_is_semantic_success_def simple_word_trim)
  next
    case True
    show ?thesis
    proof (cases ?diff)
      case True
      then have "retained_command c = Some ''git diff --exit-code''" using r \<open>?long\<close> by presburger
      then show ?thesis using Some True git_word_reports by (simp add: exit_is_semantic_success_def)
    next
      case False
      then have "retained_command c = Some w" using r True by presburger
      then show ?thesis
        using Some False reduced_word [OF Some] one_word_git [OF Some] by (auto simp: exit_is_semantic_success_def)
    qed
  qed
qed

text \<open>The fold of a session judges a result by what it kept of the command, and that is the verdict of the rule on the whole
  call: whatever the result, the tool and the input of the call are.\<close>

lemma retained_verdict:
  "tool_result_failed output tool
     (failure_rule_input (Option.bind (Option.bind (json_get input ''command'') json_str) retained_command)) =
   tool_result_failed output tool input"
proof -
  let ?c = "Option.bind (json_get input ''command'') json_str"
  have "(case Option.bind (json_get (failure_rule_input (Option.bind ?c retained_command)) ''command'') json_str of None \<Rightarrow> [] | Some c \<Rightarrow> c)
      = (case Option.bind ?c retained_command of None \<Rightarrow> [] | Some r \<Rightarrow> r)"
    by (auto simp: failure_rule_input_def split: option.splits)
  moreover have "exit_is_semantic_success (case Option.bind ?c retained_command of None \<Rightarrow> [] | Some r \<Rightarrow> r) e =
      exit_is_semantic_success (case ?c of None \<Rightarrow> [] | Some c \<Rightarrow> c) e" for e
    using retained_same [of _ e] by (cases ?c) auto
  ultimately show ?thesis by (simp add: tool_result_failed_def Let_def)
qed

end
