(* ===== verification/Summary.thy ===== *)
theory Summary
  imports Session_Event Failure_Rule Block_Ref "HOL-Library.AList"
begin

text \<open>
  The figures of a whole session, folded one event at a time (\<open>houyicoder-session\<close>: \<open>trajectory/summary.rs\<close>,
  \<open>summary/cas_usage.rs\<close>, \<open>summary/ttft.rs\<close>; the delegated and recap halves are in \<open>session.rs\<close> of the api crate,
  the provenance in \<open>llm.rs\<close> of the protocol). Counters are 64-bit words and saturate. A hash map is an association
  list, a hash set a list without repetitions, so that their sizes are lengths. The two figures that are floating
  point, the decode speed and the rank a percentile asks for, are left out of the snapshot; the histogram's search
  takes the rank as an argument.
\<close>

type_synonym count = "64 word"

definition inc :: "count \<Rightarrow> count" where
  "inc n = sat_add n 1"

subsection \<open>Usage and its provenance\<close>

record usage_provenance =
  up_input_reported :: bool
  up_cache_read_reported :: bool
  up_cache_write_reported :: bool

definition ALL_REPORTED :: usage_provenance where
  "ALL_REPORTED = \<lparr>up_input_reported = True, up_cache_read_reported = True, up_cache_write_reported = True\<rparr>"

definition NONE_REPORTED :: usage_provenance where
  "NONE_REPORTED = \<lparr>up_input_reported = False, up_cache_read_reported = False, up_cache_write_reported = False\<rparr>"

definition up_merge :: "usage_provenance \<Rightarrow> usage_provenance \<Rightarrow> usage_provenance" where
  "up_merge a b = \<lparr>up_input_reported = (up_input_reported a \<and> up_input_reported b),
     up_cache_read_reported = (up_cache_read_reported a \<and> up_cache_read_reported b),
     up_cache_write_reported = (up_cache_write_reported a \<and> up_cache_write_reported b)\<rparr>"

record subagent_usage =
  su_calls :: count
  su_unmeasured :: count
  su_input :: count
  su_output :: count
  su_cache_read :: count
  su_cache_write :: count
  su_reasoning :: count
  su_provenance :: usage_provenance

definition subagent_default :: subagent_usage where
  "subagent_default = \<lparr>su_calls = 0, su_unmeasured = 0, su_input = 0, su_output = 0, su_cache_read = 0,
     su_cache_write = 0, su_reasoning = 0, su_provenance = ALL_REPORTED\<rparr>"

fun subagent_record :: "session_event \<Rightarrow> subagent_usage \<Rightarrow> subagent_usage" where
  "subagent_record (EV_SubagentReturn r) u =
     (let u1 = u\<lparr>su_calls := inc (su_calls u)\<rparr>;
          u2 = (if sr_input_tokens r = 0 \<and> sr_output_tokens r = 0 \<and> sr_cache_read r = 0 \<and> sr_cache_write r = 0
                   \<and> sr_reasoning_tokens r = 0
                then u1\<lparr>su_unmeasured := inc (su_unmeasured u1)\<rparr> else u1)
      in u2\<lparr>su_input := sat_add (su_input u2) (sr_input_tokens r), su_output := sat_add (su_output u2) (sr_output_tokens r),
            su_cache_read := sat_add (su_cache_read u2) (sr_cache_read r),
            su_cache_write := sat_add (su_cache_write u2) (sr_cache_write r),
            su_reasoning := sat_add (su_reasoning u2) (sr_reasoning_tokens r),
            su_provenance := up_merge (su_provenance u2)
              \<lparr>up_input_reported = sr_input_reported r, up_cache_read_reported = sr_cache_read_reported r,
               up_cache_write_reported = sr_cache_write_reported r\<rparr>\<rparr>)"
| "subagent_record _ u = u"

record recap_spend =
  rc_calls :: count
  rc_unmeasured :: count
  rc_input :: count
  rc_output :: count
  rc_cache_read :: count
  rc_cache_write :: count
  rc_duration_ms :: "count option"
  rc_provenance :: usage_provenance

definition recap_default :: recap_spend where
  "recap_default = \<lparr>rc_calls = 0, rc_unmeasured = 0, rc_input = 0, rc_output = 0, rc_cache_read = 0,
     rc_cache_write = 0, rc_duration_ms = None, rc_provenance = ALL_REPORTED\<rparr>"

definition count_unmeasured :: "recap_spend \<Rightarrow> recap_spend" where
  "count_unmeasured s = s\<lparr>rc_unmeasured := inc (rc_unmeasured s), rc_provenance := up_merge (rc_provenance s) NONE_REPORTED\<rparr>"

definition or_zero :: "count option \<Rightarrow> count" where
  "or_zero n = (case n of None \<Rightarrow> 0 | Some k \<Rightarrow> k)"

fun recap_record :: "session_event \<Rightarrow> recap_spend \<Rightarrow> recap_spend" where
  "recap_record (EV_AwayRecap a) s =
     (let s1 = s\<lparr>rc_calls := inc (rc_calls s)\<rparr> in
      case aw_usage a of
        None \<Rightarrow> count_unmeasured s1
      | Some u \<Rightarrow>
          if ru_input_tokens u = None \<and> ru_cache_read u = None \<and> ru_cache_write u = None \<and> ru_output_tokens u = None
          then count_unmeasured s1
          else s1\<lparr>rc_input := sat_add (rc_input s1) (or_zero (ru_input_tokens u)),
                  rc_output := sat_add (rc_output s1) (or_zero (ru_output_tokens u)),
                  rc_cache_read := sat_add (rc_cache_read s1) (or_zero (ru_cache_read u)),
                  rc_cache_write := sat_add (rc_cache_write s1) (or_zero (ru_cache_write u)),
                  rc_duration_ms := (case ru_duration_ms u of
                       None \<Rightarrow> rc_duration_ms s1
                     | Some ms \<Rightarrow> Some (sat_add (or_zero (rc_duration_ms s1)) ms)),
                  rc_provenance := up_merge (rc_provenance s1)
                    \<lparr>up_input_reported = (ru_input_tokens u \<noteq> None), up_cache_read_reported = (ru_cache_read u \<noteq> None),
                     up_cache_write_reported = (ru_cache_write u \<noteq> None)\<rparr>\<rparr>)"
| "recap_record _ s = s"

subsection \<open>Approvals\<close>

definition APPROVAL_CALLS_CAP :: nat where
  "APPROVAL_CALLS_CAP = 512"

definition LEGACY_ALWAYS_SCOPE :: str where
  "LEGACY_ALWAYS_SCOPE = ''always''"

datatype approval_scope = AS_Once | AS_Session | AS_Workspace

fun scope_as_str :: "approval_scope \<Rightarrow> str" where
  "scope_as_str AS_Once = ''once''"
| "scope_as_str AS_Session = ''session''"
| "scope_as_str AS_Workspace = ''workspace''"

record approval_call =
  ac_asked :: bool
  ac_answered :: bool

record approval_fold =
  af_cards :: count
  af_answers :: count
  af_approved_once :: count
  af_approved_session :: count
  af_approved_workspace :: count
  af_denied :: count
  af_calls :: "(str \<times> approval_call) list"
  af_order :: "str list"

definition approval_default :: approval_fold where
  "approval_default = \<lparr>af_cards = 0, af_answers = 0, af_approved_once = 0, af_approved_session = 0,
     af_approved_workspace = 0, af_denied = 0, af_calls = [], af_order = []\<rparr>"

definition touch :: "str \<Rightarrow> approval_fold \<Rightarrow> approval_fold" where
  "touch call_id f =
     (if map_of (af_calls f) call_id \<noteq> None then f
      else
        let f1 = (if APPROVAL_CALLS_CAP \<le> length (af_calls f)
                  then (case af_order f of [] \<Rightarrow> f
                        | oldest # rest \<Rightarrow> f\<lparr>af_order := rest, af_calls := AList.delete oldest (af_calls f)\<rparr>)
                  else f)
        in f1\<lparr>af_order := af_order f1 @ [call_id],
              af_calls := AList.update call_id \<lparr>ac_asked = False, ac_answered = False\<rparr> (af_calls f1)\<rparr>)"

text \<open>The entry after \<open>touch\<close>, which is always there.\<close>

definition entry_of_call :: "str \<Rightarrow> approval_fold \<Rightarrow> approval_call" where
  "entry_of_call call_id f =
     (case map_of (af_calls f) call_id of Some e \<Rightarrow> e | None \<Rightarrow> \<lparr>ac_asked = False, ac_answered = False\<rparr>)"

definition record_ask :: "str \<Rightarrow> approval_fold \<Rightarrow> approval_fold" where
  "record_ask call_id f =
     (let f1 = touch call_id f; e = entry_of_call call_id f1 in
      if ac_asked e then f1
      else f1\<lparr>af_calls := AList.update call_id (e\<lparr>ac_asked := True\<rparr>) (af_calls f1), af_cards := inc (af_cards f1)\<rparr>)"

definition record_verdict :: "str \<Rightarrow> permission_verdict \<Rightarrow> str \<Rightarrow> approval_fold \<Rightarrow> approval_fold" where
  "record_verdict call_id verdict scope f =
     (let f1 = touch call_id f; e = entry_of_call call_id f1;
          f2 = f1\<lparr>af_calls := AList.update call_id (e\<lparr>ac_answered := True\<rparr>) (af_calls f1)\<rparr> in
      if ac_answered e then f2
      else
        let f3 = (if \<not> ac_asked e then f2\<lparr>af_cards := inc (af_cards f2)\<rparr> else f2);
            f4 = f3\<lparr>af_answers := inc (af_answers f3)\<rparr> in
        if verdict = PV_Denied then f4\<lparr>af_denied := inc (af_denied f4)\<rparr>
        else if scope = scope_as_str AS_Workspace \<or> scope = LEGACY_ALWAYS_SCOPE
        then f4\<lparr>af_approved_workspace := inc (af_approved_workspace f4)\<rparr>
        else if scope = scope_as_str AS_Session then f4\<lparr>af_approved_session := inc (af_approved_session f4)\<rparr>
        else f4\<lparr>af_approved_once := inc (af_approved_once f4)\<rparr>)"

record approval_audit =
  aa_cards :: count
  aa_approved_once :: count
  aa_approved_session :: count
  aa_approved_workspace :: count
  aa_denied :: count
  aa_unknown_outcome :: count

definition approval_audit_of :: "approval_fold \<Rightarrow> approval_audit" where
  "approval_audit_of f = \<lparr>aa_cards = af_cards f, aa_approved_once = af_approved_once f,
     aa_approved_session = af_approved_session f, aa_approved_workspace = af_approved_workspace f,
     aa_denied = af_denied f, aa_unknown_outcome = sat_sub (af_cards f) (af_answers f)\<rparr>"

subsection \<open>How turns end\<close>

datatype turn_bucket = TB_Completed | TB_Interrupted | TB_Unfinished | TB_Unknown

fun turn_bucket_of :: "run_completion_status option \<Rightarrow> turn_bucket" where
  "turn_bucket_of (Some RC_Completed) = TB_Completed"
| "turn_bucket_of (Some RC_Interrupted) = TB_Interrupted"
| "turn_bucket_of (Some RC_HandedOff) = TB_Unfinished"
| "turn_bucket_of (Some RC_Failed) = TB_Unfinished"
| "turn_bucket_of (Some RC_VerificationFailed) = TB_Unfinished"
| "turn_bucket_of (Some RC_TurnLimitReached) = TB_Unfinished"
| "turn_bucket_of None = TB_Unknown"

record turn_counts =
  tc_completed :: count
  tc_interrupted :: count
  tc_unfinished :: count
  tc_unknown :: count

definition turn_counts_default :: turn_counts where
  "turn_counts_default = \<lparr>tc_completed = 0, tc_interrupted = 0, tc_unfinished = 0, tc_unknown = 0\<rparr>"

fun turn_count :: "turn_bucket \<Rightarrow> turn_counts \<Rightarrow> turn_counts" where
  "turn_count TB_Completed c = c\<lparr>tc_completed := inc (tc_completed c)\<rparr>"
| "turn_count TB_Interrupted c = c\<lparr>tc_interrupted := inc (tc_interrupted c)\<rparr>"
| "turn_count TB_Unfinished c = c\<lparr>tc_unfinished := inc (tc_unfinished c)\<rparr>"
| "turn_count TB_Unknown c = c\<lparr>tc_unknown := inc (tc_unknown c)\<rparr>"

record turn_ends =
  te_counts :: turn_counts
  te_last :: "turn_bucket option"

definition turn_ends_default :: turn_ends where
  "turn_ends_default = \<lparr>te_counts = turn_counts_default, te_last = None\<rparr>"

definition ends_record :: "run_completion_status option \<Rightarrow> turn_ends \<Rightarrow> turn_ends" where
  "ends_record outcome t = t\<lparr>te_last := Some (turn_bucket_of outcome)\<rparr>"

definition record_aborted :: "turn_ends \<Rightarrow> turn_ends" where
  "record_aborted t = t\<lparr>te_last := Some TB_Interrupted\<rparr>"

definition ends_close :: "turn_ends \<Rightarrow> turn_ends" where
  "ends_close t = (case te_last t of None \<Rightarrow> t | Some b \<Rightarrow> t\<lparr>te_last := None, te_counts := turn_count b (te_counts t)\<rparr>)"

definition ends_audit :: "turn_ends \<Rightarrow> turn_counts" where
  "ends_audit t = (case te_last t of None \<Rightarrow> te_counts t | Some b \<Rightarrow> turn_count b (te_counts t))"

subsection \<open>Stored blocks (cas\_usage.rs)\<close>

definition CAPTURE_KEY :: str where "CAPTURE_KEY = ''raw_capture''"

definition RECORD_KEY :: str where "RECORD_KEY = ''record''"

definition CAPTURE_FAILED_KEY :: str where "CAPTURE_FAILED_KEY = ''capture_failed''"

definition STOP_REASON_KEY :: str where "STOP_REASON_KEY = ''stop_reason''"

definition STDOUT_BYTES_KEY :: str where "STDOUT_BYTES_KEY = ''stdout_bytes''"

definition STDERR_BYTES_KEY :: str where "STDERR_BYTES_KEY = ''stderr_bytes''"

datatype cas_size_unit = CU_Tokens | CU_Bytes | CU_Unknown

definition size_unit :: "str \<Rightarrow> cas_size_unit" where
  "size_unit label = (if label = ''tokens'' then CU_Tokens else if label = ''bytes'' then CU_Bytes else CU_Unknown)"

record cas_assembly =
  ca_assembly_id :: count
  ca_full :: count
  ca_preview :: count
  ca_pointer :: count
  ca_unavailable :: count
  ca_unclassified :: count
  ca_size :: count
  ca_unit :: cas_size_unit

record cas_usage =
  cs_result_count :: count
  cs_blocks :: "str list"
  cs_raw_bytes :: "count option"
  cs_unmeasured :: count
  cs_save_failed :: count
  cs_truncated :: count
  cs_assembly :: "cas_assembly option"
  cs_model_reads :: count
  cs_ui_reads :: "count option"
  cs_failed_reads :: count
  cs_unknown_reads :: count
  cs_reads_recorded :: bool
  cs_tracked :: bool

definition cas_usage_default :: cas_usage where
  "cas_usage_default = \<lparr>cs_result_count = 0, cs_blocks = [], cs_raw_bytes = None, cs_unmeasured = 0, cs_save_failed = 0,
     cs_truncated = 0, cs_assembly = None, cs_model_reads = 0, cs_ui_reads = None, cs_failed_reads = 0,
     cs_unknown_reads = 0, cs_reads_recorded = False, cs_tracked = False\<rparr>"

definition observe_writer :: "bool \<Rightarrow> cas_usage \<Rightarrow> cas_usage" where
  "observe_writer records_block_store c = c\<lparr>cs_tracked := (cs_tracked c \<or> records_block_store)\<rparr>"

definition cas_fold_tool_result :: "json \<Rightarrow> cas_usage \<Rightarrow> cas_usage" where
  "cas_fold_tool_result output c =
     (let c1 = c\<lparr>cs_blocks := fold List.insert (map fst (block_sizes output)) (cs_blocks c)\<rparr> in
      case json_get output CAPTURE_KEY of
        None \<Rightarrow> c1
      | Some capture \<Rightarrow>
          let c2 = c1\<lparr>cs_tracked := True\<rparr>;
              c3 = (if json_get capture STOP_REASON_KEY \<noteq> None then c2\<lparr>cs_truncated := inc (cs_truncated c2)\<rparr> else c2) in
          if json_get capture CAPTURE_FAILED_KEY \<noteq> None then c3\<lparr>cs_save_failed := inc (cs_save_failed c3)\<rparr>
          else if Option.bind (Option.bind (json_get capture RECORD_KEY) (\<lambda>r. json_get r BLOCK_REF_KEY)) json_str = None then c3
          else
            let c4 = c3\<lparr>cs_result_count := inc (cs_result_count c3)\<rparr>;
                out = map_option of_nat (Option.bind (json_get capture STDOUT_BYTES_KEY) as_u64);
                err = map_option of_nat (Option.bind (json_get capture STDERR_BYTES_KEY) as_u64) in
            if out = None \<and> err = None then c4\<lparr>cs_unmeasured := inc (cs_unmeasured c4)\<rparr>
            else c4\<lparr>cs_raw_bytes := Some (sat_add (or_zero (cs_raw_bytes c4)) (sat_add (or_zero out) (or_zero err)))\<rparr>)"

fun view_counted :: "cached_model_view \<Rightarrow> cas_assembly \<Rightarrow> cas_assembly" where
  "view_counted v a =
     (let a1 = a\<lparr>ca_size := sat_add (ca_size a) (cm_size v)\<rparr> in
      case cm_form v of
        VF_Materialize \<Rightarrow> a1\<lparr>ca_full := inc (ca_full a1)\<rparr>
      | VF_Summarize \<Rightarrow> a1\<lparr>ca_preview := inc (ca_preview a1)\<rparr>
      | VF_Evict \<Rightarrow> a1\<lparr>ca_pointer := inc (ca_pointer a1)\<rparr>
      | VF_Unavailable \<Rightarrow> a1\<lparr>ca_unavailable := inc (ca_unavailable a1)\<rparr>
      | VF_Unknown \<Rightarrow> a1\<lparr>ca_unclassified := inc (ca_unclassified a1)\<rparr>)"

definition fold_model_view :: "count \<Rightarrow> cached_model_view list \<Rightarrow> str \<Rightarrow> cas_usage \<Rightarrow> cas_usage" where
  "fold_model_view assembly_id views estimate_unit c =
     c\<lparr>cs_tracked := True, cs_assembly := Some (fold view_counted views
         \<lparr>ca_assembly_id = assembly_id, ca_full = 0, ca_preview = 0, ca_pointer = 0, ca_unavailable = 0, ca_unclassified = 0,
          ca_size = 0, ca_unit = size_unit estimate_unit\<rparr>)\<rparr>"

definition read_counted :: "cached_read \<Rightarrow> cas_usage \<Rightarrow> cas_usage" where
  "read_counted r c =
     (case cr_outcome r of
        RO_Unknown \<Rightarrow> c\<lparr>cs_unknown_reads := inc (cs_unknown_reads c)\<rparr>
      | RO_Failed \<Rightarrow> c\<lparr>cs_failed_reads := inc (cs_failed_reads c)\<rparr>
      | RO_Read \<Rightarrow>
          (case cr_actor r of
             RA_Model \<Rightarrow> c\<lparr>cs_model_reads := inc (cs_model_reads c)\<rparr>
           | RA_Ui \<Rightarrow> c\<lparr>cs_ui_reads := Some (inc (or_zero (cs_ui_reads c)))\<rparr>
           | RA_Unknown \<Rightarrow> c\<lparr>cs_unknown_reads := inc (cs_unknown_reads c)\<rparr>))"

definition fold_reads :: "cached_read list \<Rightarrow> cas_usage \<Rightarrow> cas_usage" where
  "fold_reads reads c = fold read_counted reads (c\<lparr>cs_tracked := True, cs_reads_recorded := True\<rparr>)"

record cas_summary =
  cy_results :: "count option"
  cy_blocks :: nat
  cy_raw_bytes :: "count option"
  cy_unmeasured :: "count option"
  cy_save_failed :: "count option"
  cy_truncated :: "count option"
  cy_assembly :: "cas_assembly option"
  cy_model_reads :: count
  cy_ui_reads :: "count option"
  cy_failed_reads :: count
  cy_unknown_reads :: count
  cy_reads_recorded :: bool
  cy_tracked :: bool

definition cas_snapshot :: "cas_usage \<Rightarrow> cas_summary" where
  "cas_snapshot c =
     (let results = (if cs_tracked c \<or> 0 < cs_result_count c then Some (cs_result_count c) else None) in
      \<lparr>cy_results = results, cy_blocks = length (cs_blocks c), cy_raw_bytes = cs_raw_bytes c,
       cy_unmeasured = map_option (\<lambda>_. cs_unmeasured c) results, cy_save_failed = map_option (\<lambda>_. cs_save_failed c) results,
       cy_truncated = map_option (\<lambda>_. cs_truncated c) results, cy_assembly = cs_assembly c,
       cy_model_reads = cs_model_reads c, cy_ui_reads = cs_ui_reads c, cy_failed_reads = cs_failed_reads c,
       cy_unknown_reads = cs_unknown_reads c, cy_reads_recorded = cs_reads_recorded c, cy_tracked = cs_tracked c\<rparr>)"

subsection \<open>Time to the first token (ttft.rs)\<close>

definition TTFT_FINE_BUCKETS :: nat where "TTFT_FINE_BUCKETS = 200"

definition TTFT_COARSE_BUCKETS :: nat where "TTFT_COARSE_BUCKETS = 200"

definition TTFT_WIDE_BUCKETS :: nat where "TTFT_WIDE_BUCKETS = 108"

definition TTFT_BUCKETS :: nat where
  "TTFT_BUCKETS = TTFT_FINE_BUCKETS + TTFT_COARSE_BUCKETS + TTFT_WIDE_BUCKETS + 1"

definition TTFT_FINE_MS :: nat where "TTFT_FINE_MS = 50"

definition TTFT_COARSE_START_MS :: nat where "TTFT_COARSE_START_MS = TTFT_FINE_MS * TTFT_FINE_BUCKETS"

definition TTFT_COARSE_MS :: nat where "TTFT_COARSE_MS = 250"

definition TTFT_WIDE_START_MS :: nat where "TTFT_WIDE_START_MS = TTFT_COARSE_START_MS + TTFT_COARSE_MS * TTFT_COARSE_BUCKETS"

definition TTFT_WIDE_MS :: nat where "TTFT_WIDE_MS = 5000"

lemmas ttft_defs = TTFT_FINE_BUCKETS_def TTFT_COARSE_BUCKETS_def TTFT_WIDE_BUCKETS_def TTFT_BUCKETS_def TTFT_FINE_MS_def
  TTFT_COARSE_START_MS_def TTFT_COARSE_MS_def TTFT_WIDE_START_MS_def TTFT_WIDE_MS_def

definition bucket_of :: "nat \<Rightarrow> nat" where
  "bucket_of ms =
     (if ms < TTFT_COARSE_START_MS then ms div TTFT_FINE_MS
      else if ms < TTFT_WIDE_START_MS then TTFT_FINE_BUCKETS + (ms - TTFT_COARSE_START_MS) div TTFT_COARSE_MS
      else if ms < TTFT_WIDE_START_MS + TTFT_WIDE_MS * TTFT_WIDE_BUCKETS
      then TTFT_FINE_BUCKETS + TTFT_COARSE_BUCKETS + (ms - TTFT_WIDE_START_MS) div TTFT_WIDE_MS
      else TTFT_BUCKETS - 1)"

definition bucket_upper_bound :: "nat \<Rightarrow> nat" where
  "bucket_upper_bound index =
     (if index < TTFT_FINE_BUCKETS then (index + 1) * TTFT_FINE_MS
      else if index < TTFT_FINE_BUCKETS + TTFT_COARSE_BUCKETS
      then TTFT_COARSE_START_MS + (index - TTFT_FINE_BUCKETS + 1) * TTFT_COARSE_MS
      else if index < TTFT_BUCKETS - 1
      then TTFT_WIDE_START_MS + (index - TTFT_FINE_BUCKETS - TTFT_COARSE_BUCKETS + 1) * TTFT_WIDE_MS
      else TTFT_WIDE_START_MS + TTFT_WIDE_MS * TTFT_WIDE_BUCKETS)"

record ttft_histogram =
  th_buckets :: "32 word list"
  th_samples :: count
  th_sum_ms :: count

definition ttft_default :: ttft_histogram where
  "ttft_default = \<lparr>th_buckets = replicate TTFT_BUCKETS 0, th_samples = 0, th_sum_ms = 0\<rparr>"

definition ttft_record :: "count \<Rightarrow> ttft_histogram \<Rightarrow> ttft_histogram" where
  "ttft_record ms h =
     (let index = bucket_of (unat ms) in
      \<lparr>th_buckets = (th_buckets h)[index := sat_add (th_buckets h ! index) 1], th_samples = inc (th_samples h),
       th_sum_ms = sat_add (th_sum_ms h) ms\<rparr>)"

text \<open>The search for a percentile, from the rank its floating-point product rounds up to.\<close>

fun ttft_seek :: "nat \<Rightarrow> nat \<Rightarrow> nat \<Rightarrow> 32 word list \<Rightarrow> nat \<times> bool" where
  "ttft_seek target i seen [] = (bucket_upper_bound (TTFT_BUCKETS - 1), True)"
| "ttft_seek target i seen (count # counts) =
     (if target \<le> seen + unat count then (bucket_upper_bound i, i = TTFT_BUCKETS - 1)
      else ttft_seek target (Suc i) (seen + unat count) counts)"

definition ttft_percentile :: "nat \<Rightarrow> ttft_histogram \<Rightarrow> (nat \<times> bool) option" where
  "ttft_percentile rank h = (if th_samples h = 0 then None else Some (ttft_seek (max rank 1) 0 0 (th_buckets h)))"

subsection \<open>The session summary\<close>

record tool_call_facts =
  cf_tool :: str
  cf_command :: "str option"

definition PENDING_CALLS_CAP :: nat where
  "PENDING_CALLS_CAP = 512"

record summary_state =
  sm_user_inputs :: count
  sm_leading_partial_turn :: bool
  sm_seen_any_event :: bool
  sm_closed_without_usage :: count
  sm_turn_open :: bool
  sm_open_turn_has_usage :: bool
  sm_input_tokens :: count
  sm_output_tokens :: count
  sm_cache_read_tokens :: count
  sm_turn_provenance :: "usage_provenance option"
  sm_failures :: count
  sm_successes :: count
  sm_tool_calls :: count
  sm_subagent :: subagent_usage
  sm_recap :: recap_spend
  sm_approvals :: approval_fold
  sm_turn_ends :: turn_ends
  sm_cas :: cas_usage
  sm_first_ts :: "nat option"
  sm_last_ts :: "nat option"
  sm_model_ms :: count
  sm_tool_ms :: count
  sm_decode_samples :: count
  sm_decode_tokens :: count
  sm_decode_ms :: count
  sm_ttft :: ttft_histogram
  sm_models :: "str list"
  sm_pending_calls :: "(str \<times> tool_call_facts) list"
  sm_pending_order :: "str list"

definition summary_default :: summary_state where
  "summary_default =
     \<lparr>sm_user_inputs = 0, sm_leading_partial_turn = False, sm_seen_any_event = False, sm_closed_without_usage = 0,
      sm_turn_open = False, sm_open_turn_has_usage = False, sm_input_tokens = 0, sm_output_tokens = 0,
      sm_cache_read_tokens = 0, sm_turn_provenance = None, sm_failures = 0, sm_successes = 0, sm_tool_calls = 0,
      sm_subagent = subagent_default, sm_recap = recap_default, sm_approvals = approval_default,
      sm_turn_ends = turn_ends_default, sm_cas = cas_usage_default, sm_first_ts = None, sm_last_ts = None,
      sm_model_ms = 0, sm_tool_ms = 0, sm_decode_samples = 0, sm_decode_tokens = 0, sm_decode_ms = 0,
      sm_ttft = ttft_default, sm_models = [], sm_pending_calls = [], sm_pending_order = []\<rparr>"

definition close_turn :: "summary_state \<Rightarrow> summary_state" where
  "close_turn s =
     (let s1 = (if sm_turn_open s \<and> \<not> sm_open_turn_has_usage s
                then s\<lparr>sm_closed_without_usage := inc (sm_closed_without_usage s)\<rparr> else s)
      in s1\<lparr>sm_turn_open := False, sm_open_turn_has_usage := False\<rparr>)"

definition open_turn :: "summary_state \<Rightarrow> summary_state" where
  "open_turn s =
     (let s1 = close_turn (s\<lparr>sm_turn_ends := ends_close (sm_turn_ends s)\<rparr>)
      in s1\<lparr>sm_user_inputs := inc (sm_user_inputs s1), sm_turn_open := True, sm_open_turn_has_usage := False\<rparr>)"

definition fold_usage :: "turn_usage \<Rightarrow> summary_state \<Rightarrow> summary_state" where
  "fold_usage u s =
     (let p = \<lparr>up_input_reported = tu_input_reported u, up_cache_read_reported = tu_cache_read_reported u,
               up_cache_write_reported = tu_cache_write_reported u\<rparr>
      in s\<lparr>sm_open_turn_has_usage := True, sm_input_tokens := sat_add (sm_input_tokens s) (tu_input_tokens u),
           sm_output_tokens := sat_add (sm_output_tokens s) (tu_output_tokens u),
           sm_cache_read_tokens := sat_add (sm_cache_read_tokens s) (tu_cache_read u),
           sm_turn_provenance := Some (case sm_turn_provenance s of Some folded \<Rightarrow> up_merge folded p | None \<Rightarrow> p),
           sm_decode_tokens := sat_add (sm_decode_tokens s) (tu_output_tokens u),
           sm_models := (if tu_model u = [] then sm_models s else List.insert (tu_model u) (sm_models s))\<rparr>)"

definition fold_timing :: "step_timing \<Rightarrow> summary_state \<Rightarrow> summary_state" where
  "fold_timing t s =
     (let s1 = (case mt_ttft_ms t of Some ms \<Rightarrow> s\<lparr>sm_ttft := ttft_record ms (sm_ttft s)\<rparr> | None \<Rightarrow> s);
          s2 = (case mt_decode_ms t of
                  Some ms \<Rightarrow> s1\<lparr>sm_decode_ms := sat_add (sm_decode_ms s1) ms, sm_decode_samples := inc (sm_decode_samples s1)\<rparr>
                | None \<Rightarrow> s1)
      in s2\<lparr>sm_model_ms := sat_add (sm_model_ms s2) (mt_total_ms t)\<rparr>)"

text \<open>The calls that wait for their results, with the order they were issued in; the oldest goes at the cap.\<close>

type_synonym pending = "(str \<times> tool_call_facts) list \<times> str list"

definition hold_call :: "str \<Rightarrow> tool_call_facts \<Rightarrow> pending \<Rightarrow> pending" where
  "hold_call call_id facts p =
     (let order1 = (if map_of (fst p) call_id \<noteq> None then remove1 call_id (snd p) else snd p);
          (calls2, order2) = (if PENDING_CALLS_CAP \<le> length (fst p)
                              then (case order1 of [] \<Rightarrow> (fst p, order1) | oldest # rest \<Rightarrow> (AList.delete oldest (fst p), rest))
                              else (fst p, order1))
      in (AList.update call_id facts calls2, order2 @ [call_id]))"

definition fold_tool_call :: "str \<Rightarrow> str \<Rightarrow> json \<Rightarrow> summary_state \<Rightarrow> summary_state" where
  "fold_tool_call call_id tool input s =
     (let p = hold_call call_id \<lparr>cf_tool = tool,
                cf_command = Option.bind (Option.bind (json_get input ''command'') json_str) retained_command\<rparr>
              (sm_pending_calls s, sm_pending_order s)
      in s\<lparr>sm_pending_calls := fst p, sm_pending_order := snd p\<rparr>)"

definition fold_tool_result :: "str \<Rightarrow> json \<Rightarrow> count \<Rightarrow> summary_state \<Rightarrow> summary_state" where
  "fold_tool_result call_id output duration_ms s =
     (let facts = map_of (sm_pending_calls s) call_id;
          s1 = s\<lparr>sm_pending_calls := AList.delete call_id (sm_pending_calls s),
                 sm_pending_order := remove1 call_id (sm_pending_order s)\<rparr>;
          failed = (case facts of
                      Some f \<Rightarrow> tool_result_failed output (cf_tool f) (failure_rule_input (cf_command f))
                    | None \<Rightarrow> tool_result_failed output [] JNull);
          s2 = (if failed then s1\<lparr>sm_failures := inc (sm_failures s1)\<rparr>
                else if \<not> tool_result_not_run output then s1\<lparr>sm_successes := inc (sm_successes s1)\<rparr> else s1)
      in s2\<lparr>sm_tool_ms := sat_add (sm_tool_ms s2) duration_ms\<rparr>)"

definition fold_subagent :: "subagent_return \<Rightarrow> summary_state \<Rightarrow> summary_state" where
  "fold_subagent r s =
     (let s1 = (if sr_ledger_measured r
                then let calls = ucast (sr_tool_calls r); failures = ucast (sr_tool_failures r)
                     in s\<lparr>sm_tool_calls := sat_add (sm_tool_calls s) calls, sm_failures := sat_add (sm_failures s) failures,
                          sm_successes := sat_add (sm_successes s) (sat_sub calls failures)\<rparr>
                else s)
      in s1\<lparr>sm_subagent := subagent_record (EV_SubagentReturn r) (sm_subagent s1)\<rparr>)"

fun fold_event :: "session_event \<Rightarrow> summary_state \<Rightarrow> summary_state" where
  "fold_event (EV_UserInput _) s = open_turn s"
| "fold_event (EV_TurnUsage u) s = fold_usage u (s\<lparr>sm_cas := observe_writer (tu_cas_recorded u) (sm_cas s)\<rparr>)"
| "fold_event (EV_ModelStepTiming t) s = fold_timing t s"
| "fold_event (EV_ToolCall call_id tool input) s =
     fold_tool_call call_id tool input (s\<lparr>sm_tool_calls := inc (sm_tool_calls s)\<rparr>)"
| "fold_event (EV_ToolResult call_id output duration_ms) s =
     fold_tool_result call_id output duration_ms (s\<lparr>sm_cas := cas_fold_tool_result output (sm_cas s)\<rparr>)"
| "fold_event (EV_CasModelView assembly_id views estimate_unit) s =
     s\<lparr>sm_cas := fold_model_view assembly_id views estimate_unit (sm_cas s)\<rparr>"
| "fold_event (EV_CasRead reads) s = s\<lparr>sm_cas := fold_reads reads (sm_cas s)\<rparr>"
| "fold_event (EV_SubagentReturn r) s = fold_subagent r s"
| "fold_event (EV_AwayRecap a) s = s\<lparr>sm_recap := recap_record (EV_AwayRecap a) (sm_recap s)\<rparr>"
| "fold_event (EV_PermissionAsked call_id _) s = s\<lparr>sm_approvals := record_ask call_id (sm_approvals s)\<rparr>"
| "fold_event (EV_PermissionDecision d) s =
     s\<lparr>sm_approvals := record_verdict (pd_call_id d) (pd_verdict d) (pd_scope d) (sm_approvals s)\<rparr>"
| "fold_event (EV_TurnAborted _) s = close_turn (s\<lparr>sm_turn_ends := record_aborted (sm_turn_ends s)\<rparr>)"
| "fold_event (EV_RunCompleted _ outcome) s = close_turn (s\<lparr>sm_turn_ends := ends_record outcome (sm_turn_ends s)\<rparr>)"
| "fold_event (EV_ContextCleared _) s = close_turn (s\<lparr>sm_turn_ends := ends_close (sm_turn_ends s)\<rparr>)"
| "fold_event _ s = s"

text \<open>The events a log can open with that are no turn content.\<close>

fun is_turn_boundary :: "session_event \<Rightarrow> bool" where
  "is_turn_boundary (EV_ContextCleared _) = True"
| "is_turn_boundary (EV_CompactionBoundary _ _ _) = True"
| "is_turn_boundary (EV_RecapAttempt _ _ _ _) = True"
| "is_turn_boundary (EV_AwayRecap _) = True"
| "is_turn_boundary (EV_AssistantTextDelta _) = True"
| "is_turn_boundary (EV_CacheDecisions _ _) = True"
| "is_turn_boundary (EV_CasModelView _ _ _) = True"
| "is_turn_boundary (EV_CasRead _) = True"
| "is_turn_boundary _ = False"

definition summary_record :: "session_entry \<Rightarrow> summary_state \<Rightarrow> summary_state" where
  "summary_record e s =
     (let s1 = (if \<not> sm_seen_any_event s \<and> \<not> is_turn_boundary (le_event e)
                then let partial = \<not> is_user_input (le_event e)
                     in s\<lparr>sm_seen_any_event := True, sm_leading_partial_turn := partial,
                          sm_turn_open := (partial \<or> sm_turn_open s)\<rparr>
                else s);
          s2 = (if sm_first_ts s1 = None then s1\<lparr>sm_first_ts := Some (le_ts e)\<rparr> else s1)
      in fold_event (le_event e) (s2\<lparr>sm_last_ts := Some (le_ts e)\<rparr>))"

definition numbered_turns :: "summary_state \<Rightarrow> count" where
  "numbered_turns s = sat_add (sm_user_inputs s) (if sm_leading_partial_turn s then 1 else 0)"

definition totals_known :: "summary_state \<Rightarrow> bool" where
  "totals_known s =
     (0 < numbered_turns s \<and> sm_closed_without_usage s = 0 \<and> (\<not> sm_turn_open s \<or> sm_open_turn_has_usage s))"

record trajectory_summary =
  ty_total_turns :: count
  ty_input_tokens :: count
  ty_output_tokens :: count
  ty_cache_read_tokens :: count
  ty_totals_known :: bool
  ty_provenance :: usage_provenance
  ty_failures :: count
  ty_successes :: count
  ty_tool_calls :: count
  ty_subagent :: subagent_usage
  ty_recap :: recap_spend
  ty_ttft_samples :: count
  ty_ttft_avg_ms :: "count option"
  ty_decode_samples :: count
  ty_model_ms :: count
  ty_tool_ms :: count
  ty_models_used :: nat
  ty_single_model :: "str option"
  ty_duration_ms :: nat
  ty_approvals :: approval_audit
  ty_turns :: turn_counts
  ty_cas :: cas_summary

definition summary_snapshot :: "summary_state \<Rightarrow> trajectory_summary" where
  "summary_snapshot s =
     (let provenance = (case sm_turn_provenance s of Some p \<Rightarrow> p | None \<Rightarrow> ALL_REPORTED) in
      \<lparr>ty_total_turns = numbered_turns s,
       ty_input_tokens = sat_add (sat_add (sm_input_tokens s) (su_input (sm_subagent s))) (rc_input (sm_recap s)),
       ty_output_tokens = sat_add (sat_add (sm_output_tokens s) (su_output (sm_subagent s))) (rc_output (sm_recap s)),
       ty_cache_read_tokens = sat_add (sat_add (sm_cache_read_tokens s) (su_cache_read (sm_subagent s))) (rc_cache_read (sm_recap s)),
       ty_totals_known = (totals_known s \<and> \<not> 0 < su_unmeasured (sm_subagent s) \<and> rc_unmeasured (sm_recap s) = 0),
       ty_provenance = up_merge (up_merge provenance (su_provenance (sm_subagent s))) (rc_provenance (sm_recap s)),
       ty_failures = sm_failures s, ty_successes = sm_successes s, ty_tool_calls = sm_tool_calls s,
       ty_subagent = sm_subagent s, ty_recap = sm_recap s, ty_ttft_samples = th_samples (sm_ttft s),
       ty_ttft_avg_ms = (if 0 < th_samples (sm_ttft s) then Some (th_sum_ms (sm_ttft s) div th_samples (sm_ttft s)) else None),
       ty_decode_samples = sm_decode_samples s, ty_model_ms = sm_model_ms s, ty_tool_ms = sm_tool_ms s,
       ty_models_used = length (sm_models s),
       ty_single_model = (case sm_models s of [m] \<Rightarrow> Some m | _ \<Rightarrow> None),
       ty_duration_ms = (case (sm_first_ts s, sm_last_ts s) of (Some a, Some b) \<Rightarrow> b - a | _ \<Rightarrow> 0),
       ty_approvals = approval_audit_of (sm_approvals s), ty_turns = ends_audit (sm_turn_ends s),
       ty_cas = cas_snapshot (sm_cas s)\<rparr>)"

subsection \<open>Streamed text leaves the figures alone\<close>

text \<open>The figures without the span of time they cover.\<close>

definition figures :: "summary_state \<Rightarrow> summary_state" where
  "figures s = s\<lparr>sm_first_ts := None, sm_last_ts := None\<rparr>"

lemma close_turn_figures: "figures (close_turn s) = close_turn (figures s)"
  by (simp add: figures_def close_turn_def Let_def)

lemma open_turn_figures: "figures (open_turn s) = open_turn (figures s)"
  by (simp add: figures_def open_turn_def close_turn_def Let_def)

lemma fold_usage_figures: "figures (fold_usage u s) = fold_usage u (figures s)"
  by (simp add: figures_def fold_usage_def Let_def)

lemma fold_timing_figures: "figures (fold_timing t s) = fold_timing t (figures s)"
  by (simp add: figures_def fold_timing_def Let_def split: option.splits)

lemma fold_tool_call_figures: "figures (fold_tool_call c t i s) = fold_tool_call c t i (figures s)"
  by (simp add: figures_def fold_tool_call_def Let_def)

lemma fold_tool_result_figures: "figures (fold_tool_result c v d s) = fold_tool_result c v d (figures s)"
  by (simp add: figures_def fold_tool_result_def Let_def)

lemma fold_subagent_figures: "figures (fold_subagent r s) = fold_subagent r (figures s)"
  by (simp add: figures_def fold_subagent_def Let_def)

lemma figures_update:
  "figures (s\<lparr>sm_cas := c\<rparr>) = (figures s)\<lparr>sm_cas := c\<rparr>" "figures (s\<lparr>sm_recap := r\<rparr>) = (figures s)\<lparr>sm_recap := r\<rparr>"
  "figures (s\<lparr>sm_approvals := a\<rparr>) = (figures s)\<lparr>sm_approvals := a\<rparr>"
  "figures (s\<lparr>sm_turn_ends := t\<rparr>) = (figures s)\<lparr>sm_turn_ends := t\<rparr>"
  "figures (s\<lparr>sm_tool_calls := n\<rparr>) = (figures s)\<lparr>sm_tool_calls := n\<rparr>"
  "sm_cas (figures s) = sm_cas s" "sm_recap (figures s) = sm_recap s" "sm_approvals (figures s) = sm_approvals s"
  "sm_turn_ends (figures s) = sm_turn_ends s" "sm_tool_calls (figures s) = sm_tool_calls s"
  by (simp_all add: figures_def)

lemmas figures_simps = close_turn_figures open_turn_figures fold_usage_figures fold_timing_figures fold_tool_call_figures
  fold_tool_result_figures fold_subagent_figures figures_update

lemma fold_event_figures: "figures (fold_event ev s) = fold_event ev (figures s)"
  by (cases ev) (simp_all add: figures_simps)

lemma record_figures:
  assumes "figures s = figures t"
  shows "figures (summary_record e s) = figures (summary_record e t)"
proof -
  have eq: "sm_seen_any_event s = sm_seen_any_event t" "sm_turn_open s = sm_turn_open t"
    using arg_cong [OF assms, of sm_seen_any_event] arg_cong [OF assms, of sm_turn_open] by (simp_all add: figures_def)
  have upd: "figures (x\<lparr>sm_seen_any_event := a, sm_leading_partial_turn := b, sm_turn_open := c\<rparr>) =
      (figures x)\<lparr>sm_seen_any_event := a, sm_leading_partial_turn := b, sm_turn_open := c\<rparr>" for x a b c
    by (simp add: figures_def)
  have span: "figures (x\<lparr>sm_first_ts := a, sm_last_ts := b\<rparr>) = figures x" "figures (x\<lparr>sm_last_ts := b\<rparr>) = figures x"
      "figures (x\<lparr>sm_first_ts := a\<rparr>) = figures x" for x :: summary_state and a b
    by (simp_all add: figures_def)
  show ?thesis
    unfolding summary_record_def Let_def fold_event_figures
    using assms eq by (simp add: span upd)
qed

lemma record_delta: "is_display_delta (le_event e) \<Longrightarrow> figures (summary_record e s) = figures s"
proof -
  assume "is_display_delta (le_event e)"
  then obtain t where "le_event e = EV_AssistantTextDelta t" by (cases "le_event e") auto
  then show ?thesis by (simp add: summary_record_def figures_def Let_def)
qed

lemma fold_figures: "figures s = figures t \<Longrightarrow> figures (fold summary_record es s) = figures (fold summary_record es t)"
proof (induction es arbitrary: s t)
  case (Cons e es)
  show ?case using Cons.IH [OF record_figures [OF Cons.prems]] by simp
qed simp

lemma figures_durable:
  "figures (fold summary_record es s) = figures (fold summary_record (filter (\<lambda>e. \<not> is_display_delta (le_event e)) es) s)"
proof (induction es arbitrary: s)
  case (Cons e es)
  show ?case
  proof (cases "is_display_delta (le_event e)")
    case True
    then have "figures (fold summary_record es (summary_record e s)) = figures (fold summary_record es s)"
      by (intro fold_figures record_delta)
    then show ?thesis using True Cons by simp
  qed (simp add: Cons)
qed simp

subsection \<open>Approvals are counted once\<close>

definition asked_ids :: "session_entry list \<Rightarrow> str set" where
  "asked_ids es = {c. \<exists>e t. e \<in> set es \<and> le_event e = EV_PermissionAsked c t}"

definition answered_ids :: "session_entry list \<Rightarrow> str set" where
  "answered_ids es = {c. \<exists>e d. e \<in> set es \<and> le_event e = EV_PermissionDecision d \<and> pd_call_id d = c}"

text \<open>A call that was answered is asked about again only if it was asked about before.\<close>

fun asks_first :: "str set \<Rightarrow> str set \<Rightarrow> session_entry list \<Rightarrow> bool" where
  "asks_first asked answered [] = True"
| "asks_first asked answered (e # es) =
     (case le_event e of
        EV_PermissionAsked c _ \<Rightarrow> (c \<in> answered \<longrightarrow> c \<in> asked) \<and> asks_first (insert c asked) answered es
      | EV_PermissionDecision d \<Rightarrow> asks_first asked (insert (pd_call_id d) answered) es
      | _ \<Rightarrow> asks_first asked answered es)"

definition ledger_ok :: "str set \<Rightarrow> str set \<Rightarrow> approval_fold \<Rightarrow> bool" where
  "ledger_ok asked answered f =
     (distinct (map fst (af_calls f)) \<and> finite asked \<and> finite answered \<and>
      (\<forall>c. map_of (af_calls f) c = (if c \<in> asked \<union> answered then Some \<lparr>ac_asked = c \<in> asked, ac_answered = c \<in> answered\<rparr> else None)) \<and>
      unat (af_cards f) = card (asked \<union> answered) \<and> unat (af_answers f) = card answered \<and>
      unat (af_approved_once f) + unat (af_approved_session f) + unat (af_approved_workspace f) + unat (af_denied f) = card answered)"

lemma unat_inc: "unat n < 2 ^ 64 - 1 \<Longrightarrow> unat (inc n) = Suc (unat n)"
  by (simp add: inc_def unat_sat_add)

lemma ledger_length:
  assumes "ledger_ok asked answered f"
  shows "length (af_calls f) = card (asked \<union> answered)"
proof -
  have "set (map fst (af_calls f)) = asked \<union> answered"
    using assms by (auto simp: ledger_ok_def dom_map_of_conv_image_fst [symmetric] dom_def split: if_splits)
  then show ?thesis using assms by (metis distinct_card length_map ledger_ok_def)
qed

lemma touch_ok:
  assumes "ledger_ok asked answered f" and "card (insert c (asked \<union> answered)) \<le> APPROVAL_CALLS_CAP"
  shows "touch c f = (if c \<in> asked \<union> answered then f
    else f\<lparr>af_order := af_order f @ [c], af_calls := AList.update c \<lparr>ac_asked = False, ac_answered = False\<rparr> (af_calls f)\<rparr>)"
proof (cases "c \<in> asked \<union> answered")
  case True
  then show ?thesis using assms(1) by (simp add: touch_def ledger_ok_def)
next
  case False
  then have "length (af_calls f) < APPROVAL_CALLS_CAP"
    using ledger_length [OF assms(1)] assms by (simp add: ledger_ok_def)
  then show ?thesis using False assms(1) by (simp add: touch_def ledger_ok_def Let_def)
qed

lemma touched_entry:
  assumes "ledger_ok asked answered f" and "card (insert c (asked \<union> answered)) \<le> APPROVAL_CALLS_CAP"
  shows "entry_of_call c (touch c f) = \<lparr>ac_asked = c \<in> asked, ac_answered = c \<in> answered\<rparr>"
    "map_of (AList.update c e (af_calls (touch c f))) = (map_of (af_calls f))(c \<mapsto> e)"
    "distinct (map fst (AList.update c e (af_calls (touch c f))))"
    "af_cards (touch c f) = af_cards f" "af_answers (touch c f) = af_answers f"
    "af_approved_once (touch c f) = af_approved_once f" "af_approved_session (touch c f) = af_approved_session f"
    "af_approved_workspace (touch c f) = af_approved_workspace f" "af_denied (touch c f) = af_denied f"
  using assms(1) unfolding touch_ok [OF assms] entry_of_call_def
  by (auto simp: ledger_ok_def update_conv' distinct_update)

lemma ask_ok:
  assumes f: "ledger_ok asked answered f" and cap: "card (insert c (asked \<union> answered)) \<le> APPROVAL_CALLS_CAP"
    and first: "c \<in> answered \<longrightarrow> c \<in> asked"
  shows "ledger_ok (insert c asked) answered (record_ask c f)"
proof (cases "c \<in> asked")
  case True
  then have "record_ask c f = f" using touched_entry(1) [OF f cap] touch_ok [OF f cap] by (simp add: record_ask_def Let_def)
  then show ?thesis using f True by (simp add: insert_absorb)
next
  case False
  then have new: "c \<notin> asked \<union> answered" using first by blast
  have card: "card (insert c (asked \<union> answered)) = Suc (card (asked \<union> answered))" using new f by (simp add: ledger_ok_def)
  then have "unat (inc (af_cards f)) = Suc (card (asked \<union> answered))"
    using f cap by (subst unat_inc) (auto simp: ledger_ok_def APPROVAL_CALLS_CAP_def)
  then show ?thesis
    using f new False card touched_entry [OF f cap] by (auto simp: record_ask_def Let_def ledger_ok_def)
qed

lemma verdict_ok:
  assumes f: "ledger_ok asked answered f" and cap: "card (insert c (asked \<union> answered)) \<le> APPROVAL_CALLS_CAP"
  shows "ledger_ok asked (insert c answered) (record_verdict c v sc f)"
proof (cases "c \<in> answered")
  case True
  have "ledger_ok asked answered (record_verdict c v sc f)"
    using f True touched_entry [OF f cap] by (auto simp: record_verdict_def Let_def ledger_ok_def)
  then show ?thesis using True by (simp add: insert_absorb)
next
  case False
  have fin: "finite (asked \<union> answered)" "finite answered" using f by (auto simp: ledger_ok_def)
  have le: "card answered \<le> card (asked \<union> answered)" "card (asked \<union> answered) \<le> card (insert c (asked \<union> answered))"
    using fin by (auto intro: card_mono)
  have small: "card answered < 2 ^ 64 - 1" "card (asked \<union> answered) < 2 ^ 64 - 1"
    using le cap by (auto simp: APPROVAL_CALLS_CAP_def)
  have ans: "card (insert c answered) = Suc (card answered)" using False fin by simp
  have parts: "unat (inc n) = Suc (unat n)" if "n \<in> {af_approved_once f, af_approved_session f, af_approved_workspace f, af_denied f}" for n
    using f that small(1) by (intro unat_inc) (auto simp: ledger_ok_def)
  have incs: "unat (inc (af_answers f)) = Suc (card answered)" "unat (inc (af_cards f)) = Suc (card (asked \<union> answered))"
    using f small by (auto simp: ledger_ok_def unat_inc)
  have cards: "card (insert c (asked \<union> answered)) = (if c \<in> asked then card (asked \<union> answered) else Suc (card (asked \<union> answered)))"
    using False fin by (auto simp: insert_absorb)
  show ?thesis
    using f False ans parts incs cards touched_entry [OF f cap]
    by (auto simp: record_verdict_def Let_def ledger_ok_def)
qed

lemma approvals_frame:
  "sm_approvals (close_turn s) = sm_approvals s" "sm_approvals (open_turn s) = sm_approvals s"
  "sm_approvals (fold_usage u s) = sm_approvals s" "sm_approvals (fold_timing t s) = sm_approvals s"
  "sm_approvals (fold_tool_call c tool i s) = sm_approvals s" "sm_approvals (fold_tool_result c v d s) = sm_approvals s"
  "sm_approvals (fold_subagent r s) = sm_approvals s"
  by (simp_all add: close_turn_def open_turn_def fold_usage_def fold_timing_def fold_tool_call_def fold_tool_result_def
      fold_subagent_def Let_def case_prod_unfold split: option.splits list.splits)

lemma approvals_record:
  "sm_approvals (summary_record e s) =
     (case le_event e of
        EV_PermissionAsked c _ \<Rightarrow> record_ask c (sm_approvals s)
      | EV_PermissionDecision d \<Rightarrow> record_verdict (pd_call_id d) (pd_verdict d) (pd_scope d) (sm_approvals s)
      | _ \<Rightarrow> sm_approvals s)"
proof -
  have ev: "sm_approvals (fold_event (le_event e) t) =
     (case le_event e of
        EV_PermissionAsked c _ \<Rightarrow> record_ask c (sm_approvals t)
      | EV_PermissionDecision d \<Rightarrow> record_verdict (pd_call_id d) (pd_verdict d) (pd_scope d) (sm_approvals t)
      | _ \<Rightarrow> sm_approvals t)" for t
    by (cases "le_event e") (simp_all add: approvals_frame)
  obtain t where "summary_record e s = fold_event (le_event e) t" "sm_approvals t = sm_approvals s"
    unfolding summary_record_def Let_def by fastforce
  then show ?thesis using ev [of t] by (cases "le_event e") simp_all
qed

lemma ids_Cons:
  "asked_ids (e # es) = (case le_event e of EV_PermissionAsked c _ \<Rightarrow> insert c (asked_ids es) | _ \<Rightarrow> asked_ids es)"
  "answered_ids (e # es) = (case le_event e of EV_PermissionDecision d \<Rightarrow> insert (pd_call_id d) (answered_ids es) | _ \<Rightarrow> answered_ids es)"
  by (auto simp: asked_ids_def answered_ids_def split: session_event.splits)

lemma ids_Nil: "asked_ids [] = {}" "answered_ids [] = {}"
  by (simp_all add: asked_ids_def answered_ids_def)

lemma finite_ids: "finite (asked_ids es)" "finite (answered_ids es)"
proof (induction es)
  case (Cons e es)
  { case 1 then show ?case using Cons.IH by (simp add: ids_Cons split: session_event.splits) }
  { case 2 then show ?case using Cons.IH by (simp add: ids_Cons split: session_event.splits) }
qed (simp_all add: asked_ids_def answered_ids_def)

lemma ledger_fold:
  assumes "ledger_ok asked answered (sm_approvals s)" and "asks_first asked answered es"
    and "card (asked \<union> answered \<union> asked_ids es \<union> answered_ids es) \<le> APPROVAL_CALLS_CAP"
  shows "ledger_ok (asked \<union> asked_ids es) (answered \<union> answered_ids es) (sm_approvals (fold summary_record es s))"
  using assms
proof (induction es arbitrary: asked answered s)
  case Nil
  then show ?case by (simp add: asked_ids_def answered_ids_def)
next
  case (Cons e es)
  have fin: "finite (asked_ids (e # es))" "finite (answered_ids (e # es))" "finite asked" "finite answered"
    using finite_ids Cons.prems(1) by (auto simp: ledger_ok_def)
  have cap: "card (insert c (asked \<union> answered)) \<le> APPROVAL_CALLS_CAP"
    if "c \<in> asked_ids (e # es) \<union> answered_ids (e # es)" for c
    using that fin Cons.prems(3) by (intro order.trans [OF card_mono Cons.prems(3)]) auto
  consider (ask) c t where "le_event e = EV_PermissionAsked c t" | (dec) d where "le_event e = EV_PermissionDecision d"
    | (other) "\<forall>c t. le_event e \<noteq> EV_PermissionAsked c t" "\<forall>d. le_event e \<noteq> EV_PermissionDecision d" by blast
  then show ?case
  proof cases
    case (ask c t)
    have "ledger_ok (insert c asked) answered (sm_approvals (summary_record e s))"
      using ask_ok [OF Cons.prems(1) cap, of c] Cons.prems(2) ask by (simp add: approvals_record ids_Cons)
    from Cons.IH [OF this] show ?thesis using Cons.prems(2,3) ask by (simp add: ids_Cons Un_commute Un_left_commute)
  next
    case (dec d)
    have "ledger_ok asked (insert (pd_call_id d) answered) (sm_approvals (summary_record e s))"
      using verdict_ok [OF Cons.prems(1) cap, of "pd_call_id d"] dec by (simp add: approvals_record ids_Cons)
    from Cons.IH [OF this] show ?thesis using Cons.prems(2,3) dec by (simp add: ids_Cons Un_commute Un_left_commute)
  next
    case other
    have "sm_approvals (summary_record e s) = sm_approvals s" "asked_ids (e # es) = asked_ids es" "answered_ids (e # es) = answered_ids es"
      "asks_first asked answered (e # es) = asks_first asked answered es"
      using other by (auto simp: approvals_record ids_Cons split: session_event.splits)
    then show ?thesis using Cons.IH [of asked answered "summary_record e s"] Cons.prems by simp
  qed
qed

lemma ledger_start: "ledger_ok {} {} (sm_approvals summary_default)"
  by (simp add: ledger_ok_def summary_default_def approval_default_def)

text \<open>The approvals of a session are counted once per call, however often a reconnect or a replay repeats a card or an
  answer: for a log with at most as many calls as the ledger holds, in which no call is asked about for the first
  time after it was answered, the cards are the calls asked about or answered, the answers add up to the calls
  answered, and the cards without an outcome are the calls asked about and never answered.\<close>

lemma approvals_counted_once:
  assumes "asks_first {} {} es" and "card (asked_ids es \<union> answered_ids es) \<le> APPROVAL_CALLS_CAP"
  shows "let a = ty_approvals (summary_snapshot (fold summary_record es summary_default)) in
     unat (aa_cards a) = card (asked_ids es \<union> answered_ids es) \<and>
     unat (aa_approved_once a) + unat (aa_approved_session a) + unat (aa_approved_workspace a) + unat (aa_denied a)
       = card (answered_ids es) \<and>
     unat (aa_unknown_outcome a) = card (asked_ids es - answered_ids es)"
proof -
  have l: "ledger_ok (asked_ids es) (answered_ids es) (sm_approvals (fold summary_record es summary_default))"
    using ledger_fold [OF ledger_start assms(1)] assms(2) by simp
  have "card (asked_ids es \<union> answered_ids es) - card (answered_ids es) = card (asked_ids es - answered_ids es)"
    using finite_ids by (simp add: card_Un_disjoint [symmetric] card_Diff_subset [symmetric] Un_Diff)
  then show ?thesis
    using l by (simp add: ledger_ok_def summary_snapshot_def approval_audit_of_def unat_sat_sub Let_def)
qed

text \<open>A log of entries, for the examples.\<close>

definition sample_entries :: "session_event list \<Rightarrow> session_entry list" where
  "sample_entries evs = map (\<lambda>ev. \<lparr>le_id = ''e'', le_session = ''s'', le_ts = 0, le_prev_hash = None, le_event = ev\<rparr>) evs"

definition sample_decision :: "str \<Rightarrow> permission_verdict \<Rightarrow> session_event" where
  "sample_decision c v = EV_PermissionDecision \<lparr>pd_call_id = c, pd_tool = ''bash'', pd_verdict = v, pd_scope = ''once'',
     pd_validator = None, pd_reason = None\<rparr>"

definition sample_replay :: "session_entry list" where
  "sample_replay = sample_entries [EV_PermissionAsked ''c1'' ''bash'', EV_PermissionAsked ''c1'' ''bash'',
     sample_decision ''c1'' PV_Denied, EV_PermissionAsked ''c2'' ''bash'', sample_decision ''c1'' PV_Denied]"


text \<open>The hypothesis on the order is needed: a call that was answered without a recorded ask, and is asked about later,
  is two cards, one of them without an outcome.\<close>

lemma late_ask_counts_twice:
  "let a = ty_approvals (summary_snapshot (fold summary_record
       (sample_entries [sample_decision ''c1'' PV_Denied, EV_PermissionAsked ''c1'' ''bash'']) summary_default))
   in unat (aa_cards a) = 2 \<and> unat (aa_unknown_outcome a) = 1"
proof -
  have "sm_approvals (fold summary_record (sample_entries [sample_decision ''c1'' PV_Denied, EV_PermissionAsked ''c1'' ''bash'']) summary_default)
      = record_ask ''c1'' (record_verdict ''c1'' PV_Denied ''once'' approval_default)"
    by (simp add: sample_entries_def sample_decision_def approvals_record summary_default_def)
  moreover have "unat (aa_cards (approval_audit_of (record_ask ''c1'' (record_verdict ''c1'' PV_Denied ''once'' approval_default)))) = 2"
    "unat (aa_unknown_outcome (approval_audit_of (record_ask ''c1'' (record_verdict ''c1'' PV_Denied ''once'' approval_default)))) = 1"
    by code_simp+
  ultimately show ?thesis by (simp add: summary_snapshot_def Let_def)
qed

subsection \<open>Results are judged by their own calls\<close>

text \<open>The reference: every call is kept whole until its result arrives.\<close>

record outcomes =
  oc_calls :: "str \<Rightarrow> (str \<times> json) option"
  oc_failures :: count
  oc_successes :: count

definition outcomes_default :: outcomes where
  "outcomes_default = \<lparr>oc_calls = (\<lambda>_. None), oc_failures = 0, oc_successes = 0\<rparr>"

fun outcome_step :: "session_event \<Rightarrow> outcomes \<Rightarrow> outcomes" where
  "outcome_step (EV_ToolCall call_id tool input) r = r\<lparr>oc_calls := (oc_calls r)(call_id \<mapsto> (tool, input))\<rparr>"
| "outcome_step (EV_ToolResult call_id output _) r =
     (let r1 = r\<lparr>oc_calls := (oc_calls r)(call_id := None)\<rparr>;
          (tool, input) = (case oc_calls r call_id of Some c \<Rightarrow> c | None \<Rightarrow> ([], JNull)) in
      if tool_result_failed output tool input then r1\<lparr>oc_failures := inc (oc_failures r1)\<rparr>
      else if tool_result_not_run output then r1 else r1\<lparr>oc_successes := inc (oc_successes r1)\<rparr>)"
| "outcome_step (EV_SubagentReturn s) r =
     (if sr_ledger_measured s
      then r\<lparr>oc_failures := sat_add (oc_failures r) (ucast (sr_tool_failures s)),
             oc_successes := sat_add (oc_successes r) (sat_sub (ucast (sr_tool_calls s)) (ucast (sr_tool_failures s)))\<rparr>
      else r)"
| "outcome_step _ r = r"

fun open_below :: "nat \<Rightarrow> outcomes \<Rightarrow> session_entry list \<Rightarrow> bool" where
  "open_below n r [] = True"
| "open_below n r (e # es) = (card (dom (oc_calls r)) < n \<and> open_below n (outcome_step (le_event e) r) es)"

definition kept_facts :: "str \<times> json \<Rightarrow> tool_call_facts" where
  "kept_facts c = \<lparr>cf_tool = fst c,
     cf_command = Option.bind (Option.bind (json_get (snd c) ''command'') json_str) retained_command\<rparr>"

definition outcomes_ok :: "outcomes \<Rightarrow> summary_state \<Rightarrow> bool" where
  "outcomes_ok r s =
     (distinct (map fst (sm_pending_calls s)) \<and>
      (\<forall>c. map_of (sm_pending_calls s) c = map_option kept_facts (oc_calls r c)) \<and>
      sm_failures s = oc_failures r \<and> sm_successes s = oc_successes r)"

lemma outcomes_length:
  assumes "outcomes_ok r s"
  shows "length (sm_pending_calls s) = card (dom (oc_calls r))"
proof -
  have "dom (oc_calls r) = dom (map_of (sm_pending_calls s))" using assms by (auto simp: outcomes_ok_def dom_def)
  also have "\<dots> = set (map fst (sm_pending_calls s))" by (simp add: dom_map_of_conv_image_fst)
  finally show ?thesis using assms by (metis distinct_card length_map outcomes_ok_def)
qed

lemma outcomes_call:
  assumes "outcomes_ok r s" and "card (dom (oc_calls r)) < PENDING_CALLS_CAP"
  shows "outcomes_ok (outcome_step (EV_ToolCall c tool input) r) (fold_tool_call c tool input s)"
  using assms outcomes_length [OF assms(1)]
  by (auto simp: outcomes_ok_def fold_tool_call_def hold_call_def Let_def update_conv' distinct_update kept_facts_def)

lemma kept_verdict:
  "tool_result_failed output (cf_tool (kept_facts c)) (failure_rule_input (cf_command (kept_facts c))) =
   tool_result_failed output (fst c) (snd c)"
  using retained_verdict [of "output" "fst c" "snd c"] by (simp add: kept_facts_def)

lemma outcomes_result:
  assumes "outcomes_ok r s"
  shows "outcomes_ok (outcome_step (EV_ToolResult c output d) r) (fold_tool_result c output d s)"
proof (cases "oc_calls r c")
  case None
  then have "map_of (sm_pending_calls s) c = None" using assms by (simp add: outcomes_ok_def)
  then show ?thesis using assms None
    by (auto simp: outcomes_ok_def fold_tool_result_def Let_def delete_conv' distinct_delete)
next
  case (Some k)
  then have "map_of (sm_pending_calls s) c = Some (kept_facts k)" using assms by (simp add: outcomes_ok_def)
  then show ?thesis using assms Some
    by (auto simp: outcomes_ok_def fold_tool_result_def Let_def delete_conv' distinct_delete kept_verdict case_prod_unfold)
qed

lemma outcomes_cong:
  "outcomes_ok r s \<Longrightarrow> sm_pending_calls t = sm_pending_calls s \<Longrightarrow> sm_failures t = sm_failures s \<Longrightarrow>
   sm_successes t = sm_successes s \<Longrightarrow> outcomes_ok r t"
  by (simp add: outcomes_ok_def)

lemma outcomes_frame:
  "outcomes_ok r s \<Longrightarrow> outcomes_ok r (close_turn s)" "outcomes_ok r s \<Longrightarrow> outcomes_ok r (open_turn s)"
  "outcomes_ok r s \<Longrightarrow> outcomes_ok r (fold_usage u s)" "outcomes_ok r s \<Longrightarrow> outcomes_ok r (fold_timing t s)"
  by (erule outcomes_cong; simp add: close_turn_def open_turn_def fold_usage_def fold_timing_def Let_def split: option.splits)+

lemma outcomes_event:
  assumes "outcomes_ok r s" and "card (dom (oc_calls r)) < PENDING_CALLS_CAP"
  shows "outcomes_ok (outcome_step ev r) (fold_event ev s)"
proof -
  have upd: "outcomes_ok r (s\<lparr>sm_cas := a\<rparr>)" "outcomes_ok r (s\<lparr>sm_recap := b\<rparr>)" "outcomes_ok r (s\<lparr>sm_approvals := c\<rparr>)"
    "outcomes_ok r (s\<lparr>sm_turn_ends := d\<rparr>)" "outcomes_ok r (s\<lparr>sm_tool_calls := n\<rparr>)" for a b c d n
    using assms(1) by (auto simp: outcomes_ok_def)
  have sub: "outcomes_ok (outcome_step (EV_SubagentReturn u) r) (fold_subagent u s)" for u
    using assms(1) by (auto simp: outcomes_ok_def fold_subagent_def Let_def)
  show ?thesis
    using assms upd outcomes_call [OF upd(5) assms(2)] outcomes_result [OF upd(1)] sub
    by (cases ev) (simp_all add: outcomes_frame del: outcome_step.simps(1-3))
qed

lemma outcomes_fold:
  "outcomes_ok r s \<Longrightarrow> open_below PENDING_CALLS_CAP r es \<Longrightarrow>
   outcomes_ok (fold (\<lambda>e. outcome_step (le_event e)) es r) (fold summary_record es s)"
proof (induction es arbitrary: r s)
  case (Cons e es)
  obtain t where t: "summary_record e s = fold_event (le_event e) t" "sm_pending_calls t = sm_pending_calls s"
    "sm_failures t = sm_failures s" "sm_successes t = sm_successes s"
    unfolding summary_record_def Let_def by fastforce
  then have "outcomes_ok r t" using outcomes_cong [OF Cons.prems(1)] by simp
  then show ?case using Cons.IH [OF outcomes_event] Cons.prems(2) t(1) by simp
qed simp

text \<open>C40. Although the fold keeps at most a fixed number of waiting calls, and of each only a reduced command, the failures
  and successes it counts are those of the reference that keeps every call whole, as long as fewer calls than the
  cap are waiting at any time.\<close>

theorem outcomes_as_reference:
  assumes "open_below PENDING_CALLS_CAP outcomes_default es"
  shows "ty_failures (summary_snapshot (fold summary_record es summary_default)) =
           oc_failures (fold (\<lambda>e. outcome_step (le_event e)) es outcomes_default) \<and>
         ty_successes (summary_snapshot (fold summary_record es summary_default)) =
           oc_successes (fold (\<lambda>e. outcome_step (le_event e)) es outcomes_default)"
proof -
  have "outcomes_ok outcomes_default summary_default" by (simp add: outcomes_ok_def outcomes_default_def summary_default_def)
  from outcomes_fold [OF this assms] show ?thesis by (simp add: outcomes_ok_def summary_snapshot_def Let_def)
qed

definition sample_grep :: "session_entry list" where
  "sample_grep = sample_entries [EV_ToolCall ''c1'' ''bash'' (JObject [(''command'', JString ''grep x y'')]),
     EV_ToolResult ''c1'' (JObject [(''success'', JBool False), (''exit_code'', JInt 1)]) 0,
     EV_ToolResult ''c2'' (JObject [(''success'', JBool False), (''exit_code'', JInt 1)]) 0]"

theorem outcomes_as_reference_witness:
  "ty_failures (summary_snapshot (fold summary_record sample_grep summary_default)) = 1 \<and>
   ty_successes (summary_snapshot (fold summary_record sample_grep summary_default)) = 1"
proof -
  have ev: "exit_is_semantic_success ''grep x y'' 1" by code_simp
  have "open_below PENDING_CALLS_CAP outcomes_default sample_grep"
    by (simp add: sample_grep_def sample_entries_def outcomes_default_def PENDING_CALLS_CAP_def tool_result_failed_def
        tool_result_not_run_def ev Let_def)
  moreover have "oc_failures (fold (\<lambda>e. outcome_step (le_event e)) sample_grep outcomes_default) = 1"
    "oc_successes (fold (\<lambda>e. outcome_step (le_event e)) sample_grep outcomes_default) = 1"
    by (simp_all add: sample_grep_def sample_entries_def outcomes_default_def tool_result_failed_def tool_result_not_run_def
        ev Let_def inc_def sat_add_def)
  ultimately show ?thesis using outcomes_as_reference [of sample_grep] by simp
qed

subsection \<open>The histogram\<close>

lemma bucket_of_bound: "bucket_of ms < TTFT_BUCKETS"
  by (auto simp: bucket_of_def ttft_defs less_mult_imp_div_less)

text \<open>A bucket is an interval: a time below its upper bound falls into it or into an earlier one, and the other way round.\<close>

lemma bucket_le_iff:
  assumes "i < TTFT_BUCKETS - 1"
  shows "bucket_of ms \<le> i \<longleftrightarrow> ms < bucket_upper_bound i"
proof -
  consider (fine) "i < 200" | (coarse) "200 \<le> i" "i < 400" | (wide) "400 \<le> i" "i < 508"
    using assms by (force simp: ttft_defs)
  then show ?thesis
  proof cases
    case fine
    then show ?thesis by (auto simp: bucket_of_def bucket_upper_bound_def ttft_defs)
  next
    case coarse
    then show ?thesis by (auto simp: bucket_of_def bucket_upper_bound_def ttft_defs)
  next
    case wide
    then show ?thesis by (auto simp: bucket_of_def bucket_upper_bound_def ttft_defs)
  qed
qed

text \<open>The histogram of a list of samples, while no bucket saturates.\<close>

definition ttft_of :: "count list \<Rightarrow> ttft_histogram" where
  "ttft_of xs = fold ttft_record xs ttft_default"

lemma ttft_buckets_of:
  "length xs < 2 ^ 32 - 1 \<Longrightarrow> length (th_buckets (ttft_of xs)) = TTFT_BUCKETS \<and>
   (\<forall>i < TTFT_BUCKETS. unat (th_buckets (ttft_of xs) ! i) = length (filter (\<lambda>x. bucket_of (unat x) = i) xs)) \<and>
   unat (th_samples (ttft_of xs)) = length xs"
proof (induction xs rule: rev_induct)
  case Nil
  then show ?case by (simp add: ttft_of_def ttft_default_def)
next
  case (snoc x xs)
  let ?h = "ttft_of xs" and ?b = "bucket_of (unat x)"
  have ih: "length (th_buckets ?h) = TTFT_BUCKETS" "\<forall>i < TTFT_BUCKETS. unat (th_buckets ?h ! i) = length (filter (\<lambda>x. bucket_of (unat x) = i) xs)"
    "unat (th_samples ?h) = length xs" using snoc by simp_all
  have step: "ttft_of (xs @ [x]) = ttft_record x ?h" by (simp add: ttft_of_def)
  have small: "length (filter (\<lambda>x. bucket_of (unat x) = ?b) xs) < 2 ^ 32 - 1"
    using snoc.prems by (intro le_less_trans [OF length_filter_le]) simp
  have inc_b: "unat (sat_add (th_buckets ?h ! ?b) 1) = Suc (length (filter (\<lambda>x. bucket_of (unat x) = ?b) xs))"
    using ih(2) bucket_of_bound [of "unat x"] small by (simp add: unat_sat_add)
  have inc_s: "unat (inc (th_samples ?h)) = Suc (length xs)" using ih(3) snoc.prems by (subst unat_inc) simp_all
  show ?case
    using ih inc_b inc_s bucket_of_bound [of "unat x"]
    by (auto simp: step ttft_record_def Let_def nth_list_update)
qed

lemma ttft_seek_found:
  assumes "\<forall>j < length cs. unat (cs ! j) = length (filter (\<lambda>x. bucket_of x = i + j) xs)"
    and "seen = length (filter (\<lambda>x. bucket_of x < i) xs)" and "i + length cs = TTFT_BUCKETS" and "seen < target" and "target \<le> length xs"
  shows "\<exists>b < TTFT_BUCKETS. ttft_seek target i seen cs = (bucket_upper_bound b, b = TTFT_BUCKETS - 1) \<and>
     length (filter (\<lambda>x. bucket_of x < b) xs) < target \<and> target \<le> length (filter (\<lambda>x. bucket_of x \<le> b) xs)"
  using assms
proof (induction cs arbitrary: i seen)
  case Nil
  then have "\<forall>x \<in> set xs. bucket_of x < i" using bucket_of_bound by simp
  then have "filter (\<lambda>x. bucket_of x < i) xs = xs" by simp
  then show ?case using Nil by simp
next
  case (Cons c cs)
  have c: "unat c = length (filter (\<lambda>x. bucket_of x = i) xs)" using Cons.prems(1) by (metis add.right_neutral length_Cons nth_Cons_0 zero_less_Suc)
  have "length (filter (\<lambda>x. bucket_of x < Suc i) ys) = length (filter (\<lambda>x. bucket_of x < i) ys) + length (filter (\<lambda>x. bucket_of x = i) ys)" for ys
    by (induction ys) auto
  then have sum: "length (filter (\<lambda>x. bucket_of x < Suc i) xs) = seen + unat c" "length (filter (\<lambda>x. bucket_of x \<le> i) xs) = seen + unat c"
    using Cons.prems(2) c by (simp_all add: less_Suc_eq_le)
  show ?case
  proof (cases "target \<le> seen + unat c")
    case True
    then show ?thesis using Cons.prems sum by (intro exI [of _ i]) auto
  next
    case False
    have "\<forall>j < length cs. unat (cs ! j) = length (filter (\<lambda>x. bucket_of x = Suc i + j) xs)"
    proof (intro allI impI)
      fix j assume "j < length cs"
      then show "unat (cs ! j) = length (filter (\<lambda>x. bucket_of x = Suc i + j) xs)"
        using Cons.prems(1) [rule_format, of "Suc j"] by simp
    qed
    from Cons.IH [OF this] show ?thesis using False Cons.prems(3,5) sum by simp
  qed
qed

text \<open>The time a percentile reports, for the rank it asks for: at least that many samples are below it, and fewer lie
  below the bucket it bounds, unless it is marked as a floor because the rank falls past the last bucket.\<close>

lemma ttft_percentile_bounds:
  assumes "length xs < 2 ^ 32 - 1" and "0 < rank" and "rank \<le> length xs"
  shows "\<exists>b < TTFT_BUCKETS. ttft_percentile rank (ttft_of xs) = Some (bucket_upper_bound b, b = TTFT_BUCKETS - 1) \<and>
    length (filter (\<lambda>x. bucket_of (unat x) < b) xs) < rank \<and>
    (b < TTFT_BUCKETS - 1 \<longrightarrow> rank \<le> length (filter (\<lambda>x. unat x < bucket_upper_bound b) xs))"
proof -
  note h = ttft_buckets_of [OF assms(1)]
  have len: "length (filter P (map unat xs)) = length (filter (\<lambda>x. P (unat x)) xs)" for P by (simp add: filter_map o_def)
  have "\<exists>b < TTFT_BUCKETS. ttft_seek rank 0 0 (th_buckets (ttft_of xs)) = (bucket_upper_bound b, b = TTFT_BUCKETS - 1) \<and>
     length (filter (\<lambda>x. bucket_of x < b) (map unat xs)) < rank \<and> rank \<le> length (filter (\<lambda>x. bucket_of x \<le> b) (map unat xs))"
    using h assms(2,3) by (intro ttft_seek_found) (auto simp: filter_map o_def)
  then obtain b where b: "b < TTFT_BUCKETS" "ttft_seek rank 0 0 (th_buckets (ttft_of xs)) = (bucket_upper_bound b, b = TTFT_BUCKETS - 1)"
    "length (filter (\<lambda>x. bucket_of (unat x) < b) xs) < rank" "rank \<le> length (filter (\<lambda>x. bucket_of (unat x) \<le> b) xs)"
    unfolding len by blast
  have "th_samples (ttft_of xs) \<noteq> 0" "max rank 1 = rank" using h assms(2,3) by auto
  then have "ttft_percentile rank (ttft_of xs) = Some (bucket_upper_bound b, b = TTFT_BUCKETS - 1)"
    using b(2) by (simp add: ttft_percentile_def)
  moreover have "rank \<le> length (filter (\<lambda>x. unat x < bucket_upper_bound b) xs)" if "b < TTFT_BUCKETS - 1"
    using b(4) bucket_le_iff [OF that] by simp
  ultimately show ?thesis using b(1,3) by blast
qed


end
