(* ===== verification/Trajectory.thy ===== *)
theory Trajectory
  imports Summary
begin

text \<open>
  The in-process state of a session's log and its reading back (\<open>houyicoder-session\<close>: \<open>trajectory.rs\<close>, the fold and
  the page reader of \<open>log_windows.rs\<close>; the positions and pages are of \<open>trajectory_paging.rs\<close> in the api crate). A
  window of the newest rows is held in memory up to a budget of bytes; counts and ids are absolute. The size of a
  record in memory is a constant of the compiler and an argument. The mutex makes each operation one step on the
  map from sessions to states. Reads of the log are the windows of \<open>Log_File\<close>.
\<close>

subsection \<open>The bytes a row is charged\<close>

fun value_bytes :: "json \<Rightarrow> nat" where
  "value_bytes (JString s) = utf8_len s"
| "value_bytes (JArray items) = sum_list (map value_bytes items)"
| "value_bytes (JObject kvs) = sum_list (map (\<lambda>(name, field). utf8_len name + value_bytes field) kvs)"
| "value_bytes _ = 0"

fun event_bytes :: "session_event \<Rightarrow> nat" where
  "event_bytes (EV_UserInput text) = utf8_len text"
| "event_bytes (EV_MetaUser text) = utf8_len text"
| "event_bytes (EV_MidTurnInput text _) = utf8_len text"
| "event_bytes (EV_MemoryRecall text _ _) = utf8_len text"
| "event_bytes (EV_SkillListing text _ _) = utf8_len text"
| "event_bytes (EV_AssistantTextDelta text) = utf8_len text"
| "event_bytes (EV_Reasoning text) = utf8_len text"
| "event_bytes (EV_Summary text) = utf8_len text"
| "event_bytes (EV_SkillBody _ content _ _) = utf8_len content"
| "event_bytes (EV_AssistantMessage text thinking) =
     utf8_len text + (case thinking of None \<Rightarrow> 0 | Some t \<Rightarrow> utf8_len t)"
| "event_bytes (EV_ToolCall call_id tool input) = utf8_len call_id + utf8_len tool + value_bytes input"
| "event_bytes (EV_ToolResult call_id output _) = utf8_len call_id + value_bytes output"
| "event_bytes (EV_RecapAttempt _ _ _ model) = utf8_len model"
| "event_bytes (EV_AwayRecap a) = utf8_len (aw_text a) + utf8_len (aw_model a)"
| "event_bytes _ = 0"

definition resident_bytes :: "nat \<Rightarrow> session_entry \<Rightarrow> nat" where
  "resident_bytes entry_size e = entry_size + event_bytes (le_event e)"

definition DEFAULT_RESIDENT_BYTES :: nat where
  "DEFAULT_RESIDENT_BYTES = 8 * 1024 * 1024"

abbreviation durable :: "session_entry \<Rightarrow> bool" where
  "durable e \<equiv> \<not> is_display_delta (le_event e)"

subsection \<open>One session's state\<close>

record log_state =
  lg_window :: "session_entry list"
  lg_dropped_rows :: nat
  lg_base_index :: nat
  lg_epoch_byte_offset :: "nat option"
  lg_durable_events :: nat
  lg_last_durable_id :: "str option"
  lg_last_event_id :: "str option"
  lg_last_user_input_id :: "str option"
  lg_epoch_event_id :: "str option"
  lg_resident_bytes :: nat
  lg_summary :: summary_state

definition log_state_default :: log_state where
  "log_state_default = \<lparr>lg_window = [], lg_dropped_rows = 0, lg_base_index = 0, lg_epoch_byte_offset = None,
     lg_durable_events = 0, lg_last_durable_id = None, lg_last_event_id = None, lg_last_user_input_id = None,
     lg_epoch_event_id = None, lg_resident_bytes = 0, lg_summary = summary_default\<rparr>"

text \<open>Trimming, on the window, the bytes it holds, the rows and the durable records dropped so far.\<close>

fun trim_rows :: "nat \<Rightarrow> nat \<Rightarrow> session_entry list \<Rightarrow> nat \<Rightarrow> nat \<Rightarrow> nat \<Rightarrow> session_entry list \<times> nat \<times> nat \<times> nat" where
  "trim_rows esz budget (e # e' # es) bytes dropped base =
     (if budget < bytes
      then trim_rows esz budget (e' # es) (bytes - resident_bytes esz e) (Suc dropped) (if durable e then Suc base else base)
      else (e # e' # es, bytes, dropped, base))"
| "trim_rows esz budget es bytes dropped base = (es, bytes, dropped, base)"

definition log_trim :: "nat \<Rightarrow> nat \<Rightarrow> log_state \<Rightarrow> log_state" where
  "log_trim esz budget_bytes st =
     (case trim_rows esz budget_bytes (lg_window st) (lg_resident_bytes st) (lg_dropped_rows st) (lg_base_index st) of
        (window, bytes, dropped, base) \<Rightarrow>
          st\<lparr>lg_window := window, lg_resident_bytes := bytes, lg_dropped_rows := dropped, lg_base_index := base\<rparr>)"

definition log_push :: "nat \<Rightarrow> nat \<Rightarrow> bool \<Rightarrow> session_entry \<Rightarrow> log_state \<Rightarrow> log_state" where
  "log_push esz budget_bytes bounded e st =
     (let st1 = (if durable e
                 then st\<lparr>lg_durable_events := Suc (lg_durable_events st), lg_last_durable_id := Some (le_id e),
                        lg_epoch_event_id := (case lg_epoch_event_id st of None \<Rightarrow> Some (le_id e) | Some i \<Rightarrow> Some i)\<rparr>
                 else st);
          st2 = (if is_user_input (le_event e) then st1\<lparr>lg_last_user_input_id := Some (le_id e)\<rparr> else st1);
          st3 = st2\<lparr>lg_last_event_id := Some (le_id e), lg_summary := summary_record e (lg_summary st2),
                    lg_resident_bytes := lg_resident_bytes st2 + resident_bytes esz e, lg_window := lg_window st2 @ [e]\<rparr>
      in if bounded then log_trim esz budget_bytes st3 else st3)"

definition log_page :: "nat \<Rightarrow> nat \<Rightarrow> log_state \<Rightarrow> session_entry list" where
  "log_page from limit st =
     (if from < lg_base_index st \<or> limit = 0 then []
      else take limit (drop (from - lg_base_index st) (filter durable (lg_window st))))"

record trajectory_revision =
  tr_event_count :: nat
  tr_last_event_id :: "str option"
  tr_durable_event_count :: nat
  tr_last_durable_event_id :: "str option"
  tr_epoch_event_id :: "str option"

definition log_head :: "log_state \<Rightarrow> trajectory_revision \<times> trajectory_summary" where
  "log_head st =
     (\<lparr>tr_event_count = lg_dropped_rows st + length (lg_window st), tr_last_event_id = lg_last_event_id st,
       tr_durable_event_count = lg_durable_events st, tr_last_durable_event_id = lg_last_durable_id st,
       tr_epoch_event_id = lg_epoch_event_id st\<rparr>, summary_snapshot (lg_summary st))"

subsection \<open>A history folded from the log\<close>

record restored_history =
  rh_window :: "session_entry list"
  rh_rows :: nat
  rh_dropped_rows :: nat
  rh_base_index :: nat
  rh_gap_after_run :: bool
  rh_epoch_byte_offset :: "nat option"
  rh_last_durable_id :: "str option"
  rh_last_event_id :: "str option"
  rh_last_user_input_id :: "str option"
  rh_epoch_event_id :: "str option"
  rh_resident_bytes :: nat
  rh_skipped_bytes :: nat
  rh_summary :: summary_state
  rh_budget_bytes :: nat

definition rh_new :: "nat \<Rightarrow> nat option \<Rightarrow> restored_history" where
  "rh_new budget_bytes epoch_byte_offset =
     \<lparr>rh_window = [], rh_rows = 0, rh_dropped_rows = 0, rh_base_index = 0, rh_gap_after_run = False,
      rh_epoch_byte_offset = epoch_byte_offset, rh_last_durable_id = None, rh_last_event_id = None,
      rh_last_user_input_id = None, rh_epoch_event_id = None, rh_resident_bytes = 0, rh_skipped_bytes = 0,
      rh_summary = summary_default, rh_budget_bytes = budget_bytes\<rparr>"

fun rh_trim :: "nat \<Rightarrow> nat \<Rightarrow> session_entry list \<Rightarrow> nat \<Rightarrow> nat \<Rightarrow> nat \<Rightarrow> session_entry list \<times> nat \<times> nat \<times> nat" where
  "rh_trim esz budget (e # e' # es) bytes dropped base =
     (if budget < bytes then rh_trim esz budget (e' # es) (bytes - resident_bytes esz e) (Suc dropped) (Suc base)
      else (e # e' # es, bytes, dropped, base))"
| "rh_trim esz budget es bytes dropped base = (es, bytes, dropped, base)"

definition rh_push :: "nat \<Rightarrow> session_entry \<Rightarrow> restored_history \<Rightarrow> restored_history" where
  "rh_push esz e h =
     (let h1 = (if rh_gap_after_run h
                then h\<lparr>rh_dropped_rows := rh_dropped_rows h + length (rh_window h), rh_window := [], rh_resident_bytes := 0,
                       rh_base_index := rh_rows h, rh_gap_after_run := False\<rparr>
                else h);
          h2 = h1\<lparr>rh_rows := Suc (rh_rows h1),
                  rh_epoch_event_id := (if rh_last_durable_id h1 = None then Some (le_id e) else rh_epoch_event_id h1),
                  rh_last_durable_id := Some (le_id e), rh_last_event_id := Some (le_id e),
                  rh_last_user_input_id := (if is_user_input (le_event e) then Some (le_id e) else rh_last_user_input_id h1),
                  rh_summary := summary_record e (rh_summary h1)\<rparr>
      in case rh_trim esz (rh_budget_bytes h2) (rh_window h2 @ [e]) (rh_resident_bytes h2 + resident_bytes esz e)
                (rh_dropped_rows h2) (rh_base_index h2) of
           (window, bytes, dropped, base) \<Rightarrow>
             h2\<lparr>rh_window := window, rh_resident_bytes := bytes, rh_dropped_rows := dropped, rh_base_index := base\<rparr>)"

definition count_unread :: "restored_history \<Rightarrow> restored_history" where
  "count_unread h = h\<lparr>rh_rows := Suc (rh_rows h), rh_gap_after_run := True\<rparr>"

definition note_skipped :: "nat \<Rightarrow> restored_history \<Rightarrow> restored_history" where
  "note_skipped bytes h = h\<lparr>rh_skipped_bytes := min (rh_skipped_bytes h + bytes) (2 ^ 64 - 1)\<rparr>"

definition restart_epoch :: "nat \<Rightarrow> restored_history \<Rightarrow> restored_history" where
  "restart_epoch byte_offset h =
     h\<lparr>rh_window := [], rh_rows := 0, rh_dropped_rows := 0, rh_base_index := 0, rh_gap_after_run := False,
       rh_epoch_byte_offset := Some byte_offset, rh_last_durable_id := None, rh_last_event_id := None,
       rh_last_user_input_id := None, rh_epoch_event_id := None, rh_resident_bytes := 0, rh_summary := summary_default\<rparr>"

definition rh_from_events :: "nat \<Rightarrow> session_entry list \<Rightarrow> restored_history" where
  "rh_from_events esz events = fold (rh_push esz) events (rh_new (2 ^ 64 - 1) None)"

subsection \<open>The states of all sessions\<close>

record log_states =
  ls_inner :: "str \<Rightarrow> log_state option"
  ls_bounded :: bool
  ls_budget_bytes :: nat

definition log_states_new :: "bool \<Rightarrow> nat \<Rightarrow> log_states" where
  "log_states_new bounded budget_bytes = \<lparr>ls_inner = (\<lambda>_. None), ls_bounded = bounded, ls_budget_bytes = budget_bytes\<rparr>"

definition restore_budget :: "log_states \<Rightarrow> nat" where
  "restore_budget s = (if ls_bounded s then ls_budget_bytes s else 2 ^ 64 - 1)"

definition state_or_default :: "str \<Rightarrow> log_states \<Rightarrow> log_state" where
  "state_or_default session s = (case ls_inner s session of None \<Rightarrow> log_state_default | Some st \<Rightarrow> st)"

definition note_event :: "nat \<Rightarrow> str \<Rightarrow> session_entry \<Rightarrow> log_states \<Rightarrow> log_states" where
  "note_event esz session e s =
     s\<lparr>ls_inner := (ls_inner s)(session \<mapsto> log_push esz (ls_budget_bytes s) (ls_bounded s) e (state_or_default session s))\<rparr>"

definition needs_epoch_offset :: "str \<Rightarrow> log_states \<Rightarrow> bool" where
  "needs_epoch_offset session s =
     (if \<not> ls_bounded s then False
      else case ls_inner s session of None \<Rightarrow> True | Some st \<Rightarrow> lg_epoch_byte_offset st = None)"

definition start_epoch :: "str \<Rightarrow> nat \<Rightarrow> log_states \<Rightarrow> log_states" where
  "start_epoch session byte_offset s =
     s\<lparr>ls_inner := (ls_inner s)(session \<mapsto> log_state_default\<lparr>lg_epoch_byte_offset := Some byte_offset\<rparr>)\<rparr>"

definition states_reset :: "str \<Rightarrow> log_states \<Rightarrow> log_states" where
  "states_reset session s = s\<lparr>ls_inner := (ls_inner s)(session := None)\<rparr>"

definition state_of_history :: "restored_history \<Rightarrow> log_state" where
  "state_of_history h =
     \<lparr>lg_window = rh_window h, lg_dropped_rows = rh_dropped_rows h, lg_base_index = rh_base_index h,
      lg_epoch_byte_offset = rh_epoch_byte_offset h, lg_durable_events = rh_rows h,
      lg_last_durable_id = rh_last_durable_id h, lg_last_event_id = rh_last_event_id h,
      lg_last_user_input_id = rh_last_user_input_id h, lg_epoch_event_id = rh_epoch_event_id h,
      lg_resident_bytes = rh_resident_bytes h, lg_summary = rh_summary h\<rparr>"

definition commit_restore :: "str \<Rightarrow> restored_history \<Rightarrow> log_states \<Rightarrow> log_states" where
  "commit_restore session h s =
     (if rh_rows h = 0 then states_reset session s
      else s\<lparr>ls_inner := (ls_inner s)(session \<mapsto> state_of_history h)\<rparr>)"

definition window_start :: "str \<Rightarrow> log_states \<Rightarrow> nat option" where
  "window_start session s = map_option lg_base_index (ls_inner s session)"

definition states_tail :: "str \<Rightarrow> log_states \<Rightarrow> session_entry list" where
  "states_tail session s = (case ls_inner s session of None \<Rightarrow> [] | Some st \<Rightarrow> lg_window st)"

record trajectory_position =
  tp_index :: nat
  tp_byte_offset :: "nat option"

datatype window_read = WR_Held "session_entry list" nat | WR_Below nat "nat option" | WR_Absent

definition states_page :: "str \<Rightarrow> trajectory_position \<Rightarrow> nat \<Rightarrow> log_states \<Rightarrow> window_read" where
  "states_page session from limit s =
     (case ls_inner s session of
        None \<Rightarrow> WR_Absent
      | Some st \<Rightarrow>
          if tp_index from < lg_base_index st then WR_Below (lg_base_index st) (lg_epoch_byte_offset st)
          else let events = log_page (tp_index from) limit st in WR_Held events (tp_index from + length events))"

definition states_last_id :: "str \<Rightarrow> log_states \<Rightarrow> str option" where
  "states_last_id session s = Option.bind (ls_inner s session) lg_last_event_id"

definition states_last_user_input_id :: "str \<Rightarrow> log_states \<Rightarrow> str option" where
  "states_last_user_input_id session s = Option.bind (ls_inner s session) lg_last_user_input_id"

definition states_head :: "str \<Rightarrow> log_states \<Rightarrow> (trajectory_revision \<times> trajectory_summary) option" where
  "states_head session s = map_option log_head (ls_inner s session)"

subsection \<open>What the state says of the rows it was given\<close>

text \<open>The longest end of a list of rows that fits a budget, the newest row whatever it measures.\<close>

abbreviation total_bytes :: "nat \<Rightarrow> session_entry list \<Rightarrow> nat" where
  "total_bytes esz es \<equiv> sum_list (map (resident_bytes esz) es)"

abbreviation durables :: "session_entry list \<Rightarrow> session_entry list" where
  "durables es \<equiv> filter durable es"

fun newest :: "nat \<Rightarrow> nat \<Rightarrow> session_entry list \<Rightarrow> session_entry list" where
  "newest esz budget (e # e' # es) =
     (if budget < total_bytes esz (e # e' # es) then newest esz budget (e' # es) else e # e' # es)"
| "newest esz budget es = es"

definition last_id :: "(session_entry \<Rightarrow> bool) \<Rightarrow> session_entry list \<Rightarrow> str option" where
  "last_id p es = (case rev (filter p es) of [] \<Rightarrow> None | e # _ \<Rightarrow> Some (le_id e))"

definition first_id :: "session_entry list \<Rightarrow> str option" where
  "first_id es = (case es of [] \<Rightarrow> None | e # _ \<Rightarrow> Some (le_id e))"

definition state_of :: "nat \<Rightarrow> nat \<Rightarrow> bool \<Rightarrow> nat option \<Rightarrow> session_entry list \<Rightarrow> log_state" where
  "state_of esz budget bounded off es =
     (let window = (if bounded then newest esz budget es else es) in
      \<lparr>lg_window = window, lg_dropped_rows = length es - length window,
       lg_base_index = length (durables es) - length (durables window), lg_epoch_byte_offset = off,
       lg_durable_events = length (durables es), lg_last_durable_id = last_id durable es,
       lg_last_event_id = last_id (\<lambda>_. True) es, lg_last_user_input_id = last_id (\<lambda>e. is_user_input (le_event e)) es,
       lg_epoch_event_id = first_id (durables es), lg_resident_bytes = total_bytes esz window,
       lg_summary = fold summary_record es summary_default\<rparr>)"

lemma newest_suffix: "\<exists>k. newest esz b es = drop k es"
proof (induction esz b es rule: newest.induct)
  case (1 esz b e e' es)
  show ?case
  proof (cases "b < total_bytes esz (e # e' # es)")
    case True
    then obtain k where "newest esz b (e' # es) = drop k (e' # es)"
      using 1 by blast
    with True show ?thesis
      by (intro exI [of _ "Suc k"]) simp
  qed (auto intro: exI [of _ 0])
qed (auto intro: exI [of _ 0])

lemma newest_parts:
  obtains old where "es = old @ newest esz b es"
  using newest_suffix [of esz b es] append_take_drop_id by metis

lemma newest_length: "length (newest esz b es) \<le> length es"
  "length (durables (newest esz b es)) \<le> length (durables es)"
proof -
  obtain old where *: "es = old @ newest esz b es"
    by (rule newest_parts)
  show "length (newest esz b es) \<le> length es" "length (durables (newest esz b es)) \<le> length (durables es)"
    by (subst (2) *, simp)+
qed

lemma newest_snoc: "newest esz b (newest esz b es @ [e]) = newest esz b (es @ [e])"
proof (induction esz b es rule: newest.induct)
  case (1 esz b x y es)
  then show ?case
    by (cases "b < total_bytes esz (x # y # es)") auto
qed auto

lemma newest_bytes: "total_bytes esz (newest esz b es) \<le> b \<or> length (newest esz b es) \<le> 1"
  by (induction esz b es rule: newest.induct) auto

lemma newest_nonempty [simp]: "newest esz b es = [] \<longleftrightarrow> es = []"
  by (induction esz b es rule: newest.induct) auto

lemma newest_maximal:
  assumes "es = older @ e # newest esz b es"
  shows "b < total_bytes esz (e # newest esz b es)"
  using assms
proof (induction esz b es arbitrary: older rule: newest.induct)
  case (1 esz b x y es)
  show ?case
  proof (cases "b < total_bytes esz (x # y # es)")
    case True
    then have new: "newest esz b (x # y # es) = newest esz b (y # es)"
      by simp
    show ?thesis
    proof (cases older)
      case Nil
      with 1 new True show ?thesis
        by (metis append_Nil list.inject)
    next
      case (Cons a list)
      with 1 new True show ?thesis
        by (metis append_Cons list.inject)
    qed
  next
    case False
    then have "newest esz b (x # y # es) = x # y # es"
      by simp
    with 1 show ?thesis
      by (metis append_Cons append_eq_append_conv2 append_self_conv list.distinct(1) self_append_conv2
          append_is_Nil_conv length_append less_irrefl add_Suc_right length_Cons)
  qed
qed (auto simp: Cons_eq_append_conv)

lemma trim_rows_newest:
  assumes "bytes = total_bytes esz ws"
  shows "trim_rows esz b ws bytes d base =
    (newest esz b ws, total_bytes esz (newest esz b ws), d + (length ws - length (newest esz b ws)),
     base + (length (durables ws) - length (durables (newest esz b ws))))"
  using assms
proof (induction esz b ws bytes d base rule: trim_rows.induct)
  case (1 esz b x y es bytes d base)
  show ?case
  proof (cases "b < bytes")
    case True
    then show ?thesis
      using 1 newest_length [of esz b "y # es"] by (auto simp: Suc_diff_le)
  qed (use 1 in simp)
qed auto

lemma rh_trim_newest:
  assumes "bytes = total_bytes esz ws"
  shows "rh_trim esz b ws bytes d base =
    (newest esz b ws, total_bytes esz (newest esz b ws), d + (length ws - length (newest esz b ws)),
     base + (length ws - length (newest esz b ws)))"
  using assms
proof (induction esz b ws bytes d base rule: rh_trim.induct)
  case (1 esz b x y es bytes d base)
  show ?case
  proof (cases "b < bytes")
    case True
    then show ?thesis
      using 1 newest_length [of esz b "y # es"] by (auto simp: Suc_diff_le)
  qed (use 1 in simp)
qed auto

lemma last_id_snoc: "last_id p (es @ [e]) = (if p e then Some (le_id e) else last_id p es)"
  by (simp add: last_id_def)

lemma first_id_snoc: "first_id (es @ [e]) = (case first_id es of None \<Rightarrow> Some (le_id e) | Some i \<Rightarrow> Some i)"
  by (simp add: first_id_def split: list.splits)

lemma first_last: "first_id es = None \<longleftrightarrow> last_id (\<lambda>_. True) es = None"
  by (simp add: first_id_def last_id_def split: list.splits)

lemmas state_of_simps = state_of_def Let_def last_id_snoc first_id_snoc newest_snoc

text \<open>The counts add up over the rows dropped before and those dropped now.\<close>

lemma newest_snoc_counts:
  "length es - length (newest esz b es) + (Suc (length (newest esz b es)) - length (newest esz b (es @ [e]))) =
     Suc (length es) - length (newest esz b (es @ [e]))"
  "length (durables es) - length (durables (newest esz b es)) +
     (length (durables (newest esz b es @ [e])) - length (durables (newest esz b (es @ [e])))) =
     length (durables (es @ [e])) - length (durables (newest esz b (es @ [e])))"
proof -
  note newest_length [of esz b es] newest_length [of esz b "newest esz b es @ [e]", unfolded newest_snoc]
  then show
    "length es - length (newest esz b es) + (Suc (length (newest esz b es)) - length (newest esz b (es @ [e]))) =
       Suc (length es) - length (newest esz b (es @ [e]))"
    "length (durables es) - length (durables (newest esz b es)) +
       (length (durables (newest esz b es @ [e])) - length (durables (newest esz b (es @ [e])))) =
       length (durables (es @ [e])) - length (durables (newest esz b (es @ [e])))"
    by auto
qed

lemma log_trim_newest:
  "log_trim esz b (st\<lparr>lg_window := ws, lg_dropped_rows := d, lg_base_index := k, lg_resident_bytes := total_bytes esz ws\<rparr>) =
    st\<lparr>lg_window := newest esz b ws, lg_dropped_rows := d + (length ws - length (newest esz b ws)),
       lg_base_index := k + (length (durables ws) - length (durables (newest esz b ws))),
       lg_resident_bytes := total_bytes esz (newest esz b ws)\<rparr>"
  by (simp add: log_trim_def trim_rows_newest)

lemma log_push_bounded: "log_push esz b True e st = log_trim esz b (log_push esz b False e st)"
  by (simp add: log_push_def Let_def)

lemma log_push_plain:
  "log_push esz b False e st = st\<lparr>lg_window := lg_window st @ [e],
     lg_durable_events := (if durable e then Suc (lg_durable_events st) else lg_durable_events st),
     lg_last_durable_id := (if durable e then Some (le_id e) else lg_last_durable_id st),
     lg_last_event_id := Some (le_id e),
     lg_last_user_input_id := (if is_user_input (le_event e) then Some (le_id e) else lg_last_user_input_id st),
     lg_epoch_event_id := (if durable e
       then (case lg_epoch_event_id st of None \<Rightarrow> Some (le_id e) | Some i \<Rightarrow> Some i) else lg_epoch_event_id st),
     lg_resident_bytes := lg_resident_bytes st + resident_bytes esz e,
     lg_summary := summary_record e (lg_summary st)\<rparr>"
  by (simp add: log_push_def Let_def)

lemma log_push_state_of:
  "log_push esz b bounded e (state_of esz b bounded off es) = state_of esz b bounded off (es @ [e])"
proof (cases bounded)
  case True
  have plain: "log_push esz b False e (state_of esz b True off es) =
      (state_of esz b True off (es @ [e]))\<lparr>lg_window := newest esz b es @ [e],
        lg_dropped_rows := length es - length (newest esz b es),
        lg_base_index := length (durables es) - length (durables (newest esz b es)),
        lg_resident_bytes := total_bytes esz (newest esz b es @ [e])\<rparr>"
    by (simp add: log_push_plain state_of_def Let_def last_id_snoc first_id_snoc)
  show ?thesis
    unfolding eqTrueI [OF True] log_push_bounded plain log_trim_newest newest_snoc length_append_singleton
      newest_snoc_counts
    by (simp add: state_of_def Let_def)
next
  case False
  then show ?thesis
    by (simp add: log_push_plain state_of_def Let_def last_id_snoc first_id_snoc)
qed

lemma log_push_fold:
  "fold (log_push esz b bounded) es (state_of esz b bounded off es0) = state_of esz b bounded off (es0 @ es)"
  by (induction es arbitrary: es0) (simp_all add: log_push_state_of)

lemma state_of_Nil: "state_of esz b bounded off [] = log_state_default\<lparr>lg_epoch_byte_offset := off\<rparr>"
  by (simp add: state_of_def log_state_default_def Let_def first_id_def last_id_def)

lemma state_of_window:
  obtains old where "es = old @ lg_window (state_of esz b bounded off es)"
    "lg_dropped_rows (state_of esz b bounded off es) = length old"
    "lg_base_index (state_of esz b bounded off es) = length (durables old)"
proof -
  define w where "w = (if bounded then newest esz b es else es)"
  obtain old where es: "es = old @ w"
    unfolding w_def by (cases bounded) (auto intro: newest_parts)
  have st: "lg_window (state_of esz b bounded off es) = w"
    "lg_dropped_rows (state_of esz b bounded off es) = length es - length w"
    "lg_base_index (state_of esz b bounded off es) = length (durables es) - length (durables w)"
    unfolding state_of_def Let_def w_def by simp_all
  show thesis
    using that [of old] es unfolding st by simp
qed

lemma log_page_state_of:
  assumes "lg_base_index (state_of esz b bounded off es) \<le> from"
  shows "log_page from limit (state_of esz b bounded off es) = take limit (drop from (durables es))"
proof -
  obtain old where old: "es = old @ lg_window (state_of esz b bounded off es)"
    "lg_base_index (state_of esz b bounded off es) = length (durables old)"
    by (rule state_of_window)
  then have "durables es = durables old @ durables (lg_window (state_of esz b bounded off es))"
    by (metis filter_append)
  then show ?thesis
    using assms old(2) by (simp add: log_page_def)
qed

subsection \<open>A restored history\<close>

definition history_of :: "nat \<Rightarrow> nat \<Rightarrow> nat option \<Rightarrow> session_entry list \<Rightarrow> restored_history" where
  "history_of esz budget off es =
     \<lparr>rh_window = newest esz budget es, rh_rows = length es, rh_dropped_rows = length es - length (newest esz budget es),
      rh_base_index = length es - length (newest esz budget es), rh_gap_after_run = False, rh_epoch_byte_offset = off,
      rh_last_durable_id = last_id (\<lambda>_. True) es, rh_last_event_id = last_id (\<lambda>_. True) es,
      rh_last_user_input_id = last_id (\<lambda>e. is_user_input (le_event e)) es, rh_epoch_event_id = first_id es,
      rh_resident_bytes = total_bytes esz (newest esz budget es), rh_skipped_bytes = 0,
      rh_summary = fold summary_record es summary_default, rh_budget_bytes = budget\<rparr>"

lemma rh_push_plain:
  assumes "\<not> rh_gap_after_run h" "rh_resident_bytes h = total_bytes esz (rh_window h)"
  shows "rh_push esz e h = (let ws = rh_window h @ [e]; ws' = newest esz (rh_budget_bytes h) ws in
    h\<lparr>rh_window := ws', rh_rows := Suc (rh_rows h), rh_dropped_rows := rh_dropped_rows h + (length ws - length ws'),
      rh_base_index := rh_base_index h + (length ws - length ws'),
      rh_last_durable_id := Some (le_id e), rh_last_event_id := Some (le_id e),
      rh_last_user_input_id := (if is_user_input (le_event e) then Some (le_id e) else rh_last_user_input_id h),
      rh_epoch_event_id := (if rh_last_durable_id h = None then Some (le_id e) else rh_epoch_event_id h),
      rh_resident_bytes := total_bytes esz ws', rh_summary := summary_record e (rh_summary h)\<rparr>)"
  using assms by (simp add: rh_push_def Let_def rh_trim_newest)

lemma rh_push_gap:
  assumes "rh_gap_after_run h"
  shows "rh_push esz e h =
    h\<lparr>rh_window := [e], rh_rows := Suc (rh_rows h), rh_dropped_rows := rh_dropped_rows h + length (rh_window h),
      rh_base_index := rh_rows h, rh_gap_after_run := False,
      rh_last_durable_id := Some (le_id e), rh_last_event_id := Some (le_id e),
      rh_last_user_input_id := (if is_user_input (le_event e) then Some (le_id e) else rh_last_user_input_id h),
      rh_epoch_event_id := (if rh_last_durable_id h = None then Some (le_id e) else rh_epoch_event_id h),
      rh_resident_bytes := resident_bytes esz e, rh_summary := summary_record e (rh_summary h)\<rparr>"
  using assms by (simp add: rh_push_def Let_def)

lemma first_id_rule: "first_id (es @ [e]) = (if last_id (\<lambda>_. True) es = None then Some (le_id e) else first_id es)"
  unfolding first_last [symmetric] by (simp add: first_id_snoc split: option.splits)

lemma rh_push_history_of: "rh_push esz e (history_of esz b off es) = history_of esz b off (es @ [e])"
proof -
  have "\<not> rh_gap_after_run (history_of esz b off es)"
    "rh_resident_bytes (history_of esz b off es) = total_bytes esz (rh_window (history_of esz b off es))"
    by (simp_all add: history_of_def)
  note push = rh_push_plain [OF this, of e]
  have "length es - length (newest esz b es) + (length (newest esz b es @ [e]) - length (newest esz b (es @ [e]))) =
      length (es @ [e]) - length (newest esz b (es @ [e]))"
    using newest_snoc_counts(1) [where esz = esz and b = b and es = es and e = e] by simp
  note counts = this newest_snoc
  show ?thesis
    unfolding push
    unfolding Let_def history_of_def restored_history.select_convs restored_history.update_convs counts
      first_id_rule last_id_snoc
    by simp
qed

lemma rh_push_fold: "fold (rh_push esz) es (history_of esz b off es0) = history_of esz b off (es0 @ es)"
  by (induction es arbitrary: es0) (simp_all add: rh_push_history_of)

lemma history_of_Nil: "rh_new b off = history_of esz b off []"
  by (simp add: rh_new_def history_of_def first_id_def last_id_def)

lemma restored_as_live:
  assumes "durables es = es"
  shows "state_of_history (history_of esz b off es) = state_of esz b True off es"
proof -
  obtain old where old: "es = old @ newest esz b es"
    by (rule newest_parts)
  then have "durables (newest esz b es) = newest esz b es"
    using assms by (metis append_eq_append_conv filter_append length_filter_le filter_id_conv in_set_conv_decomp set_append UnI2)
  moreover have "last_id (\<lambda>_. True) es = last_id durable es"
    using assms by (simp add: last_id_def)
  ultimately show ?thesis
    unfolding state_of_history_def history_of_def state_of_def Let_def by (simp add: assms)
qed

lemma newest_longest:
  assumes "es = older @ s" "total_bytes esz s \<le> b \<or> length s \<le> 1"
  shows "length s \<le> length (newest esz b es)"
  using assms
proof (induction esz b es arbitrary: older rule: newest.induct)
  case (1 esz b x y es)
  show ?case
  proof (cases "b < total_bytes esz (x # y # es)")
    case True
    show ?thesis
    proof (cases older)
      case Nil
      with 1 True show ?thesis
        by auto
    next
      case (Cons a older')
      then have "y # es = older' @ s"
        using 1(2) by simp
      moreover have "newest esz b (x # y # es) = newest esz b (y # es)"
        using True by simp
      ultimately show ?thesis
        using 1(1) [OF True _ 1(3)] by metis
    qed
  next
    case False
    with 1(2) show ?thesis
      by (metis newest.simps(1) length_append le_add2)
  qed
qed (auto simp: Cons_eq_append_conv)

lemma total_durables: "total_bytes esz (durables es) \<le> total_bytes esz es"
  by (induction es) auto

lemma newest_durables: "durables (newest esz b (durables es)) = newest esz b (durables es)"
  using newest_suffix [of esz b "durables es"] by (auto simp: filter_id_conv dest!: in_set_dropD)

lemma base_durables:
  "lg_base_index (state_of esz b True off (durables es)) \<le> lg_base_index (state_of esz b True off es)"
proof -
  obtain old where "es = old @ newest esz b es"
    by (rule newest_parts)
  then have split: "durables es = durables old @ durables (newest esz b es)"
    by (metis filter_append)
  have "total_bytes esz (durables (newest esz b es)) \<le> b \<or> length (durables (newest esz b es)) \<le> 1"
    using newest_bytes [of esz b es] total_durables [of esz "newest esz b es"]
      length_filter_le [of durable "newest esz b es"] by linarith
  from newest_longest [OF split this] show ?thesis
    unfolding state_of_def Let_def using newest_length(1) [of esz b "durables es"]
      newest_length(2) [of esz b "durables es"] newest_durables by simp
qed

text \<open>The window of a session that was appended to is the longest end of its rows that fits the budget of bytes,
  the newest row whatever it measures: it never holds more than the budget except as a single row, and one row more
  would not fit. The rows before it are counted, its durable ones as the ordinal the window starts at. The counts,
  the ids of the newest row, the newest durable row, the newest user input and the row the epoch opened with, and the
  figures of the session are those of all rows, and a page at an ordinal of the window is the durable rows from
  there.\<close>

lemma log_window_tracks:
  assumes "st = fold (log_push esz b True) es (log_state_default\<lparr>lg_epoch_byte_offset := off\<rparr>)"
  shows "\<exists>old. es = old @ lg_window st \<and>
      (lg_resident_bytes st \<le> b \<or> length (lg_window st) \<le> 1) \<and>
      (\<forall>older e. old = older @ [e] \<longrightarrow> b < resident_bytes esz e + lg_resident_bytes st) \<and>
      lg_resident_bytes st = total_bytes esz (lg_window st) \<and>
      tr_event_count (fst (log_head st)) = length es \<and> lg_base_index st = length (durables old) \<and>
      tr_durable_event_count (fst (log_head st)) = length (durables es) \<and>
      lg_last_event_id st = last_id (\<lambda>_. True) es \<and> lg_last_durable_id st = last_id durable es \<and>
      lg_last_user_input_id st = last_id (\<lambda>e. is_user_input (le_event e)) es \<and>
      lg_epoch_event_id st = first_id (durables es) \<and>
      lg_summary st = fold summary_record es summary_default \<and>
      (\<forall>from limit. lg_base_index st \<le> from \<longrightarrow> log_page from limit st = take limit (drop from (durables es)))"
proof -
  have st: "st = state_of esz b True off es"
    using assms log_push_fold [of esz b True es off "[]"] by (simp add: state_of_Nil)
  obtain old where old: "es = old @ lg_window st" "lg_dropped_rows st = length old" "lg_base_index st = length (durables old)"
    unfolding st by (rule state_of_window)
  have window: "lg_window st = newest esz b es" "lg_resident_bytes st = total_bytes esz (lg_window st)"
    by (simp_all add: st state_of_def Let_def)
  have maximal: "b < resident_bytes esz e + lg_resident_bytes st" if "old = older @ [e]" for older e
    using newest_maximal [OF old(1) [unfolded that window(1) append.assoc append_Cons append_Nil]]
    unfolding window by simp
  have counts: "tr_event_count (fst (log_head st)) = length es"
    using arg_cong [OF old(1), of length] old(2) by (simp add: log_head_def)
  have bytes: "lg_resident_bytes st \<le> b \<or> length (lg_window st) \<le> 1"
    unfolding window by (rule newest_bytes)
  have page: "log_page i limit st = take limit (drop i (durables es))" if "lg_base_index st \<le> i" for i limit
    unfolding st using that [unfolded st] by (rule log_page_state_of)
  show ?thesis
    by (rule exI [of _ old]; intro conjI allI impI; (fact old counts window(2) maximal bytes page)?)
      (simp_all add: st state_of_def Let_def log_head_def)
qed

definition sample_row :: "str \<Rightarrow> session_event \<Rightarrow> session_entry" where
  "sample_row i ev = \<lparr>le_id = i, le_session = ''s'', le_ts = 0, le_prev_hash = None, le_event = ev\<rparr>"

definition sample_rows :: "session_entry list" where
  "sample_rows = [sample_row ''e1'' (EV_UserInput ''hello''), sample_row ''e2'' (EV_AssistantTextDelta ''ab''),
     sample_row ''e3'' (EV_AssistantMessage ''abc'' None)]"

lemma sample_row_simps:
  "newest 10 25 sample_rows = drop 1 sample_rows" "length (durables sample_rows) = 2" "length (durables (drop 1 sample_rows)) = 1"
  "newest 10 25 (durables sample_rows) = drop 1 (durables sample_rows)" "total_bytes 10 (drop 1 sample_rows) = 25"
  "take 5 (drop 1 (durables sample_rows)) = [sample_row ''e3'' (EV_AssistantMessage ''abc'' None)]"
  "filter durable (drop 1 sample_rows) = [sample_row ''e3'' (EV_AssistantMessage ''abc'' None)]"
  "last_id (\<lambda>e. is_user_input (le_event e)) sample_rows = Some ''e1''"
  by code_simp+


lemma user_input_durable: "is_user_input ev \<Longrightarrow> \<not> is_display_delta ev"
  by (cases ev) simp_all

lemma last_id_durables:
  "last_id durable (durables es) = last_id durable es"
  "last_id (\<lambda>e. is_user_input (le_event e)) (durables es) = last_id (\<lambda>e. is_user_input (le_event e)) es"
proof -
  have "(\<lambda>e. durable e \<and> is_user_input (le_event e)) = (\<lambda>e. is_user_input (le_event e))"
    using user_input_durable by blast
  then show "last_id durable (durables es) = last_id durable es"
    "last_id (\<lambda>e. is_user_input (le_event e)) (durables es) = last_id (\<lambda>e. is_user_input (le_event e)) es"
    by (simp_all add: last_id_def filter_filter)
qed

text \<open>C39. A session resumed from its log answers as the process that wrote it. The log keeps the rows but the streamed
  deltas; the history folded from them has the same durable count, the same newest durable row and user input, the same
  opening row of the epoch and the same figures up to the span of time. Its window starts at the same ordinal or an
  earlier one, since no delta takes room in it, and at every ordinal the writer's window held both give the same page;
  without deltas the two states are equal in every field.\<close>

theorem restore_answers_as_live:
  assumes live_def: "live = fold (log_push esz b True) es (log_state_default\<lparr>lg_epoch_byte_offset := off\<rparr>)"
    and restored_def: "restored = state_of_history (fold (rh_push esz) (durables es) (rh_new b off))"
  shows "lg_durable_events restored = lg_durable_events live \<and> lg_last_durable_id restored = lg_last_durable_id live \<and>
    lg_last_user_input_id restored = lg_last_user_input_id live \<and> lg_epoch_event_id restored = lg_epoch_event_id live \<and>
    figures (lg_summary restored) = figures (lg_summary live) \<and> lg_base_index restored \<le> lg_base_index live \<and>
    (\<forall>i limit. lg_base_index live \<le> i \<longrightarrow> log_page i limit restored = log_page i limit live) \<and>
    (durables es = es \<longrightarrow> restored = live)"
proof -
  have live: "live = state_of esz b True off es"
    unfolding live_def state_of_Nil [symmetric, where esz = esz and b = b and bounded = True] by (simp add: log_push_fold)
  have restored: "restored = state_of esz b True off (durables es)"
    unfolding restored_def history_of_Nil [of b off esz] by (simp add: rh_push_fold restored_as_live)
  have base: "lg_base_index restored \<le> lg_base_index live"
    unfolding live restored by (rule base_durables)
  have page: "log_page i limit restored = log_page i limit live" if "lg_base_index live \<le> i" for i limit
    using log_page_state_of [OF that [unfolded live]] log_page_state_of [OF order.trans [OF base that, unfolded restored]]
    unfolding live restored by simp
  have figures: "figures (lg_summary restored) = figures (lg_summary live)"
    unfolding live restored by (simp add: state_of_def Let_def figures_durable [symmetric])
  have "restored = live" if "durables es = es"
    unfolding live restored that ..
  then show ?thesis
    using base page figures by (auto simp: live restored state_of_def Let_def last_id_durables)
qed

theorem restore_answers_as_live_witness:
  "let restored = state_of_history (fold (rh_push 10) (durables sample_rows) (rh_new 25 (Some 0)))
   in lg_base_index restored = 1 \<and> log_page 1 5 restored = [sample_row ''e3'' (EV_AssistantMessage ''abc'' None)]"
proof -
  define restored where "restored = state_of_history (fold (rh_push 10) (durables sample_rows) (rh_new 25 (Some 0)))"
  define live where "live = fold (log_push 10 25 True) sample_rows (log_state_default\<lparr>lg_epoch_byte_offset := Some 0\<rparr>)"
  have live: "live = state_of 10 25 True (Some 0) sample_rows"
    unfolding live_def state_of_Nil [symmetric, where esz = 10 and b = 25 and bounded = True] by (simp add: log_push_fold)
  then have base: "lg_base_index live = 1"
    using sample_row_simps(1-3) by (simp add: state_of_def Let_def)
  moreover have "log_page 1 5 live = [sample_row ''e3'' (EV_AssistantMessage ''abc'' None)]"
    unfolding live sample_row_simps(6) [symmetric] by (rule log_page_state_of) (use base live in simp)
  moreover have "lg_base_index restored = 1"
    unfolding restored_def history_of_Nil [of 25 "Some 0" 10] append_Nil rh_push_fold
    using sample_row_simps(2,4) by (simp add: state_of_history_def history_of_def)
  ultimately show ?thesis
    using restore_answers_as_live [OF live_def restored_def] unfolding Let_def restored_def [symmetric] by simp
qed

subsection \<open>Records no read can hold\<close>

text \<open>The ordinals of an epoch: the row each names, or a record wider than any window. The rows a window holds are
  the records at their ordinals, however many unreadable ones lie before, between and after them.\<close>

datatype log_item = Row session_entry | Unread

fun rows_of :: "log_item list \<Rightarrow> session_entry list" where
  "rows_of [] = []"
| "rows_of (Row e # items) = e # rows_of items"
| "rows_of (Unread # items) = rows_of items"

fun fold_item :: "nat \<Rightarrow> log_item \<Rightarrow> restored_history \<Rightarrow> restored_history" where
  "fold_item esz (Row e) h = rh_push esz e h"
| "fold_item esz Unread h = count_unread h"

definition newest_run_ok :: "log_item list \<Rightarrow> restored_history \<Rightarrow> bool" where
  "newest_run_ok items h = (\<exists>pre gap. items = pre @ map Row (rh_window h) @ replicate gap Unread \<and>
     rh_base_index h = length pre \<and> rh_gap_after_run h = (0 < gap))"

definition history_ok :: "nat \<Rightarrow> nat \<Rightarrow> log_item list \<Rightarrow> restored_history \<Rightarrow> bool" where
  "history_ok esz budget items h =
     (newest_run_ok items h \<and> rh_budget_bytes h = budget \<and> rh_rows h = length items \<and>
      rh_dropped_rows h + length (rh_window h) = length (rows_of items) \<and>
      rh_resident_bytes h = total_bytes esz (rh_window h) \<and>
      (rh_resident_bytes h \<le> budget \<or> length (rh_window h) \<le> 1) \<and>
      rh_last_durable_id h = last_id (\<lambda>_. True) (rows_of items) \<and>
      rh_last_event_id h = last_id (\<lambda>_. True) (rows_of items) \<and>
      rh_last_user_input_id h = last_id (\<lambda>e. is_user_input (le_event e)) (rows_of items) \<and>
      rh_epoch_event_id h = first_id (rows_of items) \<and>
      rh_summary h = fold summary_record (rows_of items) summary_default)"

lemma rows_of_append [simp]: "rows_of (xs @ ys) = rows_of xs @ rows_of ys"
  by (induction xs rule: rows_of.induct) simp_all

lemma rows_of_map [simp]: "rows_of (map Row es) = es"
  by (induction es) simp_all

lemma newest_run_push:
  assumes "newest_run_ok items h" "rh_rows h = length items" "rh_resident_bytes h = total_bytes esz (rh_window h)"
  shows "newest_run_ok (items @ [Row e]) (rh_push esz e h)"
proof (cases "rh_gap_after_run h")
  case True
  then show ?thesis
    unfolding newest_run_ok_def rh_push_gap [OF True]
    by (intro exI [of _ items] exI [of _ 0]) (simp add: assms(2))
next
  case False
  then obtain pre where items: "items = pre @ map Row (rh_window h)" "rh_base_index h = length pre"
    using assms(1) unfolding newest_run_ok_def by auto
  obtain old where old: "rh_window h @ [e] = old @ newest esz (rh_budget_bytes h) (rh_window h @ [e])"
    by (rule newest_parts)
  have "map Row (rh_window h) @ [Row e] = map Row (rh_window h @ [e])"
    by simp
  also have "\<dots> = map Row old @ map Row (newest esz (rh_budget_bytes h) (rh_window h @ [e]))"
    by (subst old) simp
  finally have "items @ [Row e] =
      (pre @ map Row old) @ map Row (newest esz (rh_budget_bytes h) (rh_window h @ [e])) @ replicate 0 Unread"
    by (simp add: items)
  moreover have "length (rh_window h @ [e]) - length (newest esz (rh_budget_bytes h) (rh_window h @ [e])) = length old"
    by (subst old) simp
  ultimately show ?thesis
    unfolding newest_run_ok_def rh_push_plain [OF False assms(3)] Let_def
    by (intro exI [of _ "pre @ map Row old"] exI [of _ 0]) (simp add: items(2) False)
qed

lemma newest_run_unread:
  assumes "newest_run_ok items h"
  shows "newest_run_ok (items @ [Unread]) (count_unread h)"
proof -
  obtain pre gap where items: "items = pre @ map Row (rh_window h) @ replicate gap Unread" "rh_base_index h = length pre"
    using assms unfolding newest_run_ok_def by auto
  show ?thesis
    unfolding newest_run_ok_def count_unread_def
    by (intro exI [of _ pre] exI [of _ "Suc gap"]) (simp add: items replicate_append_same)
qed

lemma history_ok_push:
  assumes "history_ok esz b items h"
  shows "history_ok esz b (items @ [Row e]) (rh_push esz e h)"
proof -
  have ok: "newest_run_ok items h" "rh_rows h = length items" "rh_resident_bytes h = total_bytes esz (rh_window h)"
    using assms by (simp_all add: history_ok_def)
  note run = newest_run_push [OF this]
  show ?thesis
  proof (cases "rh_gap_after_run h")
    case True
    then show ?thesis
      using assms run unfolding history_ok_def rh_push_gap [OF True]
      by (simp add: last_id_snoc first_id_rule)
  next
    case False
    then show ?thesis
      using assms run [of e] newest_bytes [of esz b "rh_window h @ [e]"] newest_length(1) [of esz b "rh_window h @ [e]"]
      unfolding history_ok_def rh_push_plain [OF False ok(3)] Let_def
      by (auto simp: last_id_snoc first_id_rule)
  qed
qed

lemma history_ok_item: "history_ok esz b items h \<Longrightarrow> history_ok esz b (items @ [i]) (fold_item esz i h)"
proof (cases i)
  case (Row e)
  then show "history_ok esz b items h \<Longrightarrow> ?thesis"
    by (simp add: history_ok_push)
next
  case Unread
  then show "history_ok esz b items h \<Longrightarrow> ?thesis"
    using newest_run_unread [of items h] by (auto simp: history_ok_def) (auto simp: count_unread_def)
qed

lemma history_ok_new: "history_ok esz b [] (rh_new b off)"
  by (simp add: history_ok_def newest_run_ok_def rh_new_def last_id_def first_id_def)

lemma history_ok_fold: "history_ok esz b items0 h \<Longrightarrow> history_ok esz b (items0 @ items) (fold (fold_item esz) items h)"
proof (induction items arbitrary: items0 h)
  case (Cons i items)
  show ?case
    using Cons.IH [OF history_ok_item [OF Cons.prems]] by simp
qed simp

end
