(* ===== verification/Trajectory_Log.thy ===== *)
theory Trajectory_Log
  imports Trajectory
begin

text \<open>
  A session's history read back through the windows of its log: the fold of the current epoch, the page reader below
  the resident window (\<open>log_windows.rs\<close> of \<open>houyicoder-session\<close>), the paged read and the appends of the session store
  (\<open>lib.rs\<close>) and the walk over all pages (\<open>trajectory_paging.rs\<close> of the api crate). A backend is the reader of its
  windows, its size and its whole log; the file backend gives \<open>read_byte_range\<close>. The loops are partial functions, and
  the theorems show that they return.
\<close>

subsection \<open>Folding the current epoch\<close>

definition WINDOW_BYTES :: nat where
  "WINDOW_BYTES = 1048576"

definition parse_record :: "session_event codec \<Rightarrow> str \<Rightarrow> context_error + session_entry" where
  "parse_record cd line = (case cd_parse cd line of None \<Rightarrow> Inl (CE_Corrupt ''bad event line'') | Some e \<Rightarrow> Inr e)"

fun fold_lines ::
  "session_event codec \<Rightarrow> nat \<Rightarrow> (nat \<times> str) list \<Rightarrow> restored_history \<Rightarrow> context_error + restored_history" where
  "fold_lines cd esz [] h = Inr h"
| "fold_lines cd esz ((line_offset, line) # ls) h =
     (if line = [] then fold_lines cd esz ls h
      else (case parse_record cd line of
              Inl err \<Rightarrow> Inl err
            | Inr e \<Rightarrow>
                let h' = (if is_clear (le_event e) then restart_epoch line_offset h else h) in
                fold_lines cd esz ls (rh_push esz e h')))"

definition passed_bytes :: "range_read \<Rightarrow> nat \<Rightarrow> nat" where
  "passed_bytes window offset =
     rr_next_offset window - (offset + sum_list (map (\<lambda>(_, line). length line + 1) (rr_lines window)))"

partial_function (option) fold_loop ::
  "(nat \<Rightarrow> nat \<Rightarrow> range_read) \<Rightarrow> session_event codec \<Rightarrow> nat \<Rightarrow> nat \<Rightarrow> nat \<Rightarrow> restored_history \<Rightarrow>
   (context_error + restored_history) option" where
  "fold_loop rd cd esz held offset history =
     (case read_window rd offset WINDOW_BYTES of None \<Rightarrow> None
      | Some window \<Rightarrow>
          if rr_bytes_total window = 0 \<and> 0 < held then Some (Inl CE_Io)
          else (case fold_lines cd esz (rr_lines window) ((count_unread ^^ unread_records window) history) of
                  Inl err \<Rightarrow> Some (Inl err)
                | Inr h \<Rightarrow>
                    let passed = passed_bytes window offset;
                        h' = (if 0 < passed then note_skipped passed h else h)
                    in if rr_next_offset window \<le> offset then Some (Inr h')
                       else fold_loop rd cd esz held (rr_next_offset window) h'))"

definition fold_epoch ::
  "(nat \<Rightarrow> nat \<Rightarrow> range_read) \<Rightarrow> nat \<Rightarrow> session_event codec \<Rightarrow> nat \<Rightarrow> nat \<Rightarrow> (context_error + restored_history) option" where
  "fold_epoch rd held cd esz budget_bytes = fold_loop rd cd esz held 0 (rh_new budget_bytes (Some 0))"

subsection \<open>Pages below the window\<close>

record trajectory_page =
  pg_events :: "session_entry list"
  pg_next :: trajectory_position
  pg_skipped_bytes :: nat

definition page_at :: "session_entry list \<Rightarrow> nat \<Rightarrow> nat \<Rightarrow> nat \<Rightarrow> trajectory_page" where
  "page_at events index byte_offset skipped_bytes =
     \<lparr>pg_events = events, pg_next = \<lparr>tp_index = index, tp_byte_offset = Some byte_offset\<rparr>, pg_skipped_bytes = skipped_bytes\<rparr>"

definition unreadable_position :: "trajectory_position \<Rightarrow> trajectory_page" where
  "unreadable_position from = \<lparr>pg_events = [], pg_next = from, pg_skipped_bytes = 0\<rparr>"

datatype page_step = PS_Err context_error | PS_Done "session_entry list" nat nat | PS_More "session_entry list" nat

fun page_lines ::
  "session_event codec \<Rightarrow> nat \<Rightarrow> nat \<Rightarrow> nat \<Rightarrow> (nat \<times> str) list \<Rightarrow> session_entry list \<Rightarrow> nat \<Rightarrow> page_step" where
  "page_lines cd from limit horizon [] events ordinal = PS_More events ordinal"
| "page_lines cd from limit horizon ((line_offset, line) # ls) events ordinal =
     (if line = [] then page_lines cd from limit horizon ls events ordinal
      else (case (if from \<le> ordinal \<and> length events < limit then map_sum id (\<lambda>e. events @ [e]) (parse_record cd line)
                  else Inr events) of
              Inl err \<Rightarrow> PS_Err err
            | Inr events' \<Rightarrow>
                if horizon \<le> Suc ordinal \<or> limit \<le> length events'
                then PS_Done events' (Suc ordinal) (line_offset + length line + 1)
                else page_lines cd from limit horizon ls events' (Suc ordinal)))"

partial_function (option) page_loop ::
  "(nat \<Rightarrow> nat \<Rightarrow> range_read) \<Rightarrow> nat \<Rightarrow> session_event codec \<Rightarrow> nat \<Rightarrow> nat \<Rightarrow> nat \<Rightarrow> nat \<Rightarrow> nat \<Rightarrow> session_entry list \<Rightarrow> nat \<Rightarrow>
   (context_error + trajectory_page) option" where
  "page_loop rd held cd from limit horizon offset ordinal events skipped =
     (if horizon \<le> ordinal \<or> limit \<le> length events then Some (Inr (page_at events ordinal offset skipped))
      else (case read_window rd offset WINDOW_BYTES of None \<Rightarrow> None
        | Some window \<Rightarrow>
            if rr_bytes_total window = 0 \<and> 0 < held then Some (Inl CE_Io)
            else
              let skipped' = min (skipped + passed_bytes window offset) (2 ^ 64 - 1) in
              if rr_lines window = [] \<and> rr_next_offset window \<le> offset
              then Some (Inr (page_at events ordinal offset skipped'))
              else
                let ordinal' = ordinal + unread_records window in
                if horizon \<le> ordinal'
                then Some (Inr (page_at events ordinal'
                       (case rr_lines window of [] \<Rightarrow> rr_next_offset window | (start, _) # _ \<Rightarrow> start) skipped'))
                else (case page_lines cd from limit horizon (rr_lines window) events ordinal' of
                        PS_Err err \<Rightarrow> Some (Inl err)
                      | PS_Done events' o' off' \<Rightarrow> Some (Inr (page_at events' o' off' skipped'))
                      | PS_More events' o' \<Rightarrow>
                          page_loop rd held cd from limit horizon (rr_next_offset window) o' events' skipped')))"

definition read_page ::
  "(nat \<Rightarrow> nat \<Rightarrow> range_read) \<Rightarrow> nat \<Rightarrow> session_event codec \<Rightarrow> trajectory_position \<Rightarrow> nat \<Rightarrow> nat \<Rightarrow> nat option \<Rightarrow>
   (context_error + trajectory_page) option" where
  "read_page rd held cd from limit horizon epoch_byte_offset =
     (case (tp_byte_offset from, epoch_byte_offset) of
        (Some offset, _) \<Rightarrow> page_loop rd held cd (tp_index from) limit horizon offset (tp_index from) [] 0
      | (None, Some epoch) \<Rightarrow> page_loop rd held cd (tp_index from) limit horizon epoch 0 [] 0
      | (None, None) \<Rightarrow> Some (Inr (unreadable_position from)))"

subsection \<open>The windows of a log whose records fit\<close>

text \<open>The lines of a log from number \<open>i\<close> on, each with the byte it starts at.\<close>

definition numbered :: "str list \<Rightarrow> nat \<Rightarrow> (nat \<times> str) list" where
  "numbered ls i = zip (map (line_pos ls) [i..<length ls]) (drop i ls)"

definition skip :: "nat \<Rightarrow> restored_history \<Rightarrow> restored_history" where
  "skip n h = (if 0 < n then note_skipped n h else h)"

lemma note_skipped_add: "note_skipped a (note_skipped b h) = note_skipped (a + b) h"
proof -
  have sat: "min (min (x + b) m + a) m = min (x + (a + b)) m" for x m :: nat
    by (auto simp: min_def)
  show ?thesis
    unfolding note_skipped_def by (cases h) (simp only: restored_history.select_convs restored_history.update_convs sat)
qed

lemma skip_add: "skip a (skip b h) = skip (a + b) h"
  by (simp add: skip_def note_skipped_add)

lemma numbered_split:
  assumes "i + j \<le> length ls"
  shows "numbered ls i = zip (map (\<lambda>k. line_pos ls (i + k)) [0..<j]) (take j (drop i ls)) @ numbered ls (i + j)"
proof -
  have upt: "[i..<length ls] = [i..<i + j] @ [i + j..<length ls]"
    using assms by (metis le_add1 upt_add_eq_append le_add_diff_inverse)
  have starts: "map (line_pos ls) [i..<i + j] = map (\<lambda>k. line_pos ls (i + k)) [0..<j]"
    by (rule nth_equalityI) simp_all
  have lines: "drop i ls = take j (drop i ls) @ drop (i + j) ls"
    by (metis append_take_drop_id drop_drop add.commute)
  show ?thesis
    unfolding numbered_def upt map_append starts by (subst lines) (use assms in \<open>simp add: zip_append\<close>)
qed

lemma numbered_Cons: "i < length ls \<Longrightarrow> numbered ls i = (line_pos ls i, ls ! i) # numbered ls (Suc i)"
  by (simp add: numbered_def upt_conv_Cons Cons_nth_drop_Suc [symmetric])

lemma numbered_end: "numbered ls (length ls) = []"
  by (simp add: numbered_def)

lemma length_numbered_bytes:
  "sum_list (map (\<lambda>(_, line). length line + 1) (zip (map f [0..<length xs]) xs)) = length (unlines_nl xs)"
proof -
  have "map (\<lambda>(_, line). length line + 1) (zip (map f [0..<length xs]) xs) = map (\<lambda>l. length l + 1) xs"
    by (rule nth_equalityI) simp_all
  then show ?thesis
    by (simp add: unlines_nl_def length_concat o_def)
qed

lemma fold_lines_append:
  "fold_lines cd esz (xs @ ys) h = (case fold_lines cd esz xs h of Inl err \<Rightarrow> Inl err | Inr h' \<Rightarrow> fold_lines cd esz ys h')"
  by (induction cd esz xs h rule: fold_lines.induct) (auto simp: Let_def split: sum.splits)

context log_source
begin

lemma window_step:
  assumes "i < length ls" "length (ls ! i) < MAX_WINDOW_BYTES" "\<forall>l\<in>set ls. utf8_valid l"
  obtains r j where "0 < j" "i + j \<le> length ls" "read_window rd (line_pos ls i) WINDOW_BYTES = Some r"
    "rr_lines r = zip (map (\<lambda>k. line_pos ls (i + k)) [0..<j]) (take j (drop i ls))" "unread_records r = 0"
    "rr_bytes_total r = length (unlines_nl ls @ t)" "rr_next_offset r = line_pos ls (i + j)"
    "line_pos ls i < rr_next_offset r" "passed_bytes r (line_pos ls i) = 0" "rr_lines r \<noteq> []"
proof -
  have "0 < WINDOW_BYTES"
    by (simp add: WINDOW_BYTES_def)
  from window_at_line [OF assms(1,2) this] obtain r j where r: "0 < j" "i + j \<le> length ls"
    "read_window rd (line_pos ls i) WINDOW_BYTES = Some r"
    "map snd (rr_lines r) = map utf8_lossy (take j (drop i ls))"
    "map fst (rr_lines r) = map (\<lambda>k. line_pos ls (i + k)) [0..<j]" "unread_records r = 0"
    "rr_bytes_total r = length (unlines_nl ls @ t)" "rr_next_offset r = line_pos ls (i + j)"
    by blast
  have "set (take j (drop i ls)) \<subseteq> set ls"
    by (meson set_drop_subset set_take_subset subset_trans)
  then have "map utf8_lossy (take j (drop i ls)) = take j (drop i ls)"
    using assms(3) by (intro map_idI utf8_lossy_valid) blast
  then have lines: "rr_lines r = zip (map (\<lambda>k. line_pos ls (i + k)) [0..<j]) (take j (drop i ls))"
    using r(4,5) by (metis zip_map_fst_snd)
  have "length (take j (drop i ls)) = j"
    using r(2) by simp
  then have "sum_list (map (\<lambda>(_, line). length line + 1) (rr_lines r)) = line_pos (drop i ls) j"
    unfolding lines line_pos_def using length_numbered_bytes by metis
  then have passed: "passed_bytes r (line_pos ls i) = 0"
    unfolding passed_bytes_def r(8) line_pos_add by simp
  have "line_pos ls (Suc i) \<le> line_pos ls (i + j)"
    using r(1) by (intro line_pos_mono) simp
  then have "line_pos ls i < rr_next_offset r"
    using line_pos_simps(2) [OF assms(1)] r(8) by simp
  moreover have "rr_lines r \<noteq> []"
    using lines r(1,2) by (auto simp: zip_eq_Nil_iff)
  ultimately show thesis
    using that r lines passed by blast
qed

lemma fold_tail:
  assumes "line_pos ls (length ls) \<le> off" "off \<le> length (unlines_nl ls @ t)" "held = length (unlines_nl ls @ t)"
  shows "fold_loop rd cd esz held off h = Some (Inr (skip (length (unlines_nl ls @ t) - off) h))"
  using assms(1,2)
proof (induction "length (unlines_nl ls @ t) - off" arbitrary: off h rule: less_induct)
  case less
  let ?total = "length (unlines_nl ls @ t)"
  have pos: "0 < WINDOW_BYTES"
    by (simp add: WINDOW_BYTES_def)
  from read_window_total [OF this, of rd off] obtain w where
    w: "0 < w" "read_window rd off WINDOW_BYTES = Some (rd off w)"
    by blast
  show ?case
  proof (cases "off < ?total")
    case True
    have r: "rr_lines (rd off w) = [] \<and> unread_records (rd off w) = 0 \<and> rr_bytes_total (rd off w) = ?total \<and>
      off < rr_next_offset (rd off w) \<and> rr_next_offset (rd off w) \<le> ?total"
    proof (cases "off = line_pos ls (length ls)")
      case True
      then show ?thesis
        using at_line [of "length ls" w] \<open>off < ?total\<close> w(1) by (auto simp: Let_def MAX_WINDOW_BYTES_def)
    next
      case False
      then show ?thesis
        using in_tail [OF _ True w(1)] less.prems(1) by simp
    qed
    then have "fold_loop rd cd esz held (rr_next_offset (rd off w)) (skip (rr_next_offset (rd off w) - off) h) =
        Some (Inr (skip (?total - rr_next_offset (rd off w)) (skip (rr_next_offset (rd off w) - off) h)))"
      using less.prems(1) True by (intro less.hyps) auto
    moreover have "skip (?total - rr_next_offset (rd off w)) (skip (rr_next_offset (rd off w) - off) h) = skip (?total - off) h"
      using r by (simp add: skip_add)
    ultimately show ?thesis
      using r True w(2) assms(3) by (subst fold_loop.simps) (auto simp: passed_bytes_def skip_def)
  next
    case False
    then have "rd off w = rr_default\<lparr>rr_bytes_total := ?total\<rparr>"
      by (intro past_end) simp
    then show ?thesis
      using w(2) less.prems False
      by (subst fold_loop.simps) (auto simp: rr_default_def unread_records_def assms(3) passed_bytes_def skip_def)
  qed
qed

lemma fold_from:
  assumes "\<forall>l\<in>set ls. length l < MAX_WINDOW_BYTES \<and> utf8_valid l" "held = length (unlines_nl ls @ t)" "i \<le> length ls"
  shows "fold_loop rd cd esz held (line_pos ls i) h =
     Some (map_sum id (skip (length t)) (fold_lines cd esz (numbered ls i) h))"
  using assms(3)
proof (induction "length ls - i" arbitrary: i h rule: less_induct)
  case less
  show ?case
  proof (cases "i < length ls")
    case True
    obtain r j where r: "0 < j" "i + j \<le> length ls" "read_window rd (line_pos ls i) WINDOW_BYTES = Some r"
      "rr_lines r = zip (map (\<lambda>k. line_pos ls (i + k)) [0..<j]) (take j (drop i ls))" "unread_records r = 0"
      "rr_bytes_total r = length (unlines_nl ls @ t)" "rr_next_offset r = line_pos ls (i + j)"
      "line_pos ls i < rr_next_offset r" "passed_bytes r (line_pos ls i) = 0"
      using window_step [OF True] assms(1) True by (metis nth_mem)
    have ih: "\<And>h. fold_loop rd cd esz held (line_pos ls (i + j)) h =
        Some (map_sum id (skip (length t)) (fold_lines cd esz (numbered ls (i + j)) h))"
      using less.hyps [of "i + j"] r(1,2) True by auto
    have split: "numbered ls i = rr_lines r @ numbered ls (i + j)"
      unfolding r(4) by (rule numbered_split [OF r(2)])
    show ?thesis
      using r(3,5-9) ih assms(2)
      by (subst fold_loop.simps) (auto simp: split fold_lines_append split: sum.splits)
  next
    case False
    then have "i = length ls"
      using less.prems by simp
    then show ?thesis
      using fold_tail [OF _ _ assms(2), of "line_pos ls i" cd esz h] line_pos_simps(1) [of ls]
      by (simp add: numbered_end)
  qed
qed

end

subsection \<open>The fold gives the current epoch\<close>

fun last_clear_index :: "session_entry list \<Rightarrow> nat option" where
  "last_clear_index [] = None"
| "last_clear_index (e # es) =
     (case last_clear_index es of Some i \<Rightarrow> Some (Suc i)
      | None \<Rightarrow> if is_clear (le_event e) then Some 0 else None)"

definition epoch_start :: "session_entry list \<Rightarrow> nat" where
  "epoch_start events = (case last_clear_index events of None \<Rightarrow> 0 | Some i \<Rightarrow> i)"

lemma last_clear_snoc:
  "last_clear_index (es @ [e]) = (if is_clear (le_event e) then Some (length es) else last_clear_index es)"
  by (induction es) (auto split: option.splits)

lemma epoch_start_snoc: "epoch_start (es @ [e]) = (if is_clear (le_event e) then length es else epoch_start es)"
  by (simp add: epoch_start_def last_clear_snoc)

lemma last_clear_less: "last_clear_index es = Some i \<Longrightarrow> i < length es"
  by (induction es arbitrary: i) (auto split: option.splits if_splits)

lemma epoch_start_le: "epoch_start es \<le> length es"
  using last_clear_less [of es] by (auto simp: epoch_start_def split: option.splits intro: less_imp_le)

lemma restart_history_of: "restart_epoch off (history_of esz b off' es) = history_of esz b (Some off) []"
  by (simp add: restart_epoch_def history_of_def last_id_def first_id_def)

lemma fold_lines_written:
  assumes "map (cd_parse cd) ls = map Some es" "\<forall>l\<in>set ls. l \<noteq> []" "i \<le> length es"
  shows "fold_lines cd esz (numbered ls i)
      (history_of esz b (Some (line_pos ls (epoch_start (take i es)))) (drop (epoch_start (take i es)) (take i es))) =
    Inr (history_of esz b (Some (line_pos ls (epoch_start es))) (drop (epoch_start es) es))"
  using assms(3)
proof (induction "length es - i" arbitrary: i)
  case 0
  moreover have "length ls = length es"
    using assms(1) map_eq_imp_length_eq by blast
  ultimately show ?case
    using numbered_end [of ls] by simp
next
  case (Suc n)
  then have i: "i < length es" "i < length ls"
    using map_eq_imp_length_eq [OF assms(1)] by simp_all
  then have line: "cd_parse cd (ls ! i) = Some (es ! i)" "ls ! i \<noteq> []"
    using arg_cong [OF assms(1), of "\<lambda>xs. xs ! i"] assms(2) by simp_all
  let ?k = "epoch_start (take i es)" and ?k' = "epoch_start (take (Suc i) es)" and ?e = "es ! i"
  have take: "take (Suc i) es = take i es @ [?e]"
    using i by (simp add: take_Suc_conv_app_nth)
  have "rh_push esz ?e (if is_clear (le_event ?e)
      then restart_epoch (line_pos ls i) (history_of esz b (Some (line_pos ls ?k)) (drop ?k (take i es)))
      else history_of esz b (Some (line_pos ls ?k)) (drop ?k (take i es))) =
    history_of esz b (Some (line_pos ls ?k')) (drop ?k' (take (Suc i) es))"
    using i epoch_start_le [of "take i es"]
    by (simp add: take epoch_start_snoc restart_history_of rh_push_history_of min_def)
  then show ?case
    using Suc.hyps(1) [of "Suc i"] Suc.hyps(2) i line
    by (simp add: numbered_Cons parse_record_def Let_def del: fold_lines.simps(1))
qed

lemma fold_epoch_written:
  assumes "codec_ok cd" "written cd es ls" "\<forall>l\<in>set ls. length l < MAX_WINDOW_BYTES" "NL \<notin> set t"
  shows "fold_epoch (read_byte_range (Some (unlines_nl ls @ t))) (length (unlines_nl ls @ t)) cd esz b =
    Some (Inr (skip (length t) (history_of esz b (Some (line_pos ls (epoch_start es))) (drop (epoch_start es) es))))"
proof -
  note lines = written_line [OF assms(1,2)]
  have log: "log_lines (unlines_nl ls @ t) = ls" "log_tail (unlines_nl ls @ t) = t"
    using log_lines_unlines [of ls t] lines assms(4) by simp_all
  have "fold_loop (read_byte_range (Some (unlines_nl ls @ t))) cd esz (length (unlines_nl ls @ t)) (line_pos ls 0) h =
      Some (map_sum id (skip (length t)) (fold_lines cd esz (numbered ls 0) h))" for h
    using disk.fold_from [of "unlines_nl ls @ t", unfolded log] lines assms(3) by simp
  moreover have "fold_lines cd esz (numbered ls 0) (history_of esz b (Some 0) []) =
      Inr (history_of esz b (Some (line_pos ls (epoch_start es))) (drop (epoch_start es) es))"
    using fold_lines_written [OF written_parse(1) [OF assms(1,2)], of 0 esz b] lines
    by (simp add: epoch_start_def line_pos_def)
  ultimately show ?thesis
    by (simp add: fold_epoch_def history_of_Nil [of b "Some 0" esz] line_pos_def)
qed

subsection \<open>A page read from the log\<close>

lemma page_lines_append:
  "page_lines cd from limit horizon (xs @ ys) events ordinal =
     (case page_lines cd from limit horizon xs events ordinal of
        PS_More events' ordinal' \<Rightarrow> page_lines cd from limit horizon ys events' ordinal' | r \<Rightarrow> r)"
  by (induction cd "from" limit horizon xs events ordinal rule: page_lines.induct) (auto split: sum.splits)

lemma page_lines_more:
  assumes "page_lines cd from limit horizon xs events ordinal = PS_More events' ordinal'"
    and "\<not> (horizon \<le> ordinal \<or> limit \<le> length events)"
  shows "\<not> (horizon \<le> ordinal' \<or> limit \<le> length events')"
  using assms
  by (induction cd "from" limit horizon xs events ordinal rule: page_lines.induct)
    (auto split: sum.splits if_splits)

context log_source
begin

lemma page_from:
  assumes "\<forall>l\<in>set ls. length l < MAX_WINDOW_BYTES \<and> utf8_valid l" "i \<le> length ls" "held = length (unlines_nl ls @ t)"
    and "page_lines cd from limit horizon (numbered ls i) events ordinal = PS_Done events' ordinal' off'"
    and "\<not> (horizon \<le> ordinal \<or> limit \<le> length events)" "skipped \<le> 2 ^ 64 - 1"
  shows "page_loop rd held cd from limit horizon (line_pos ls i) ordinal events skipped =
     Some (Inr (page_at events' ordinal' off' skipped))"
  using assms(2,4,5)
proof (induction "length ls - i" arbitrary: i ordinal events rule: less_induct)
  case less
  have True: "i < length ls"
    using less.prems by (cases "i = length ls") (auto simp: numbered_end)
  obtain r j where r: "0 < j" "i + j \<le> length ls" "read_window rd (line_pos ls i) WINDOW_BYTES = Some r"
    "rr_lines r = zip (map (\<lambda>k. line_pos ls (i + k)) [0..<j]) (take j (drop i ls))" "unread_records r = 0"
    "rr_bytes_total r = length (unlines_nl ls @ t)" "rr_next_offset r = line_pos ls (i + j)"
    "line_pos ls i < rr_next_offset r" "passed_bytes r (line_pos ls i) = 0" "rr_lines r \<noteq> []"
    using window_step [OF True] assms(1) True by (metis nth_mem)
  have split: "numbered ls i = rr_lines r @ numbered ls (i + j)"
    unfolding r(4) by (rule numbered_split [OF r(2)])
  have io: "\<not> (rr_bytes_total r = 0 \<and> 0 < held)"
    using r(6) assms(3) by simp
  have sat: "min (skipped + 0) (2 ^ 64 - 1) = skipped"
    using assms(6) by (simp only: add_0_right min_absorb1)
  show ?case
  proof (cases "page_lines cd from limit horizon (rr_lines r) events ordinal")
    case (PS_More e2 o2)
    then have "page_loop rd held cd from limit horizon (line_pos ls (i + j)) o2 e2 skipped =
        Some (Inr (page_at events' ordinal' off' skipped))"
      using less.prems r(1,2) True page_lines_more [OF PS_More less.prems(3)]
      by (intro less.hyps) (auto simp: split page_lines_append)
    then show ?thesis
      using less.prems(3) r(3,5,7,8,10) io PS_More
      by (subst page_loop.simps) (simp only: option.case if_False Let_def r(9) sat, simp)
  qed (use less.prems(2,3) r(3,5,8,10) io in
      \<open>subst page_loop.simps, simp only: option.case if_False Let_def r(9) sat, simp add: split page_lines_append\<close>)+
qed

end

lemma page_lines_written:
  assumes "map (cd_parse cd) ls = map Some es" "\<forall>l\<in>set ls. l \<noteq> []" "k \<le> length es"
    and "stop = min horizon (i + limit)" "ord < stop" "horizon \<le> length (drop k es)" "i < horizon" "0 < limit"
  shows "page_lines cd i limit horizon (numbered ls (k + ord)) (drop i (take ord (drop k es))) ord =
    PS_Done (drop i (take stop (drop k es))) stop (line_pos ls (k + stop))"
  using assms(5)
proof (induction "stop - ord" arbitrary: ord)
  case (Suc n)
  let ?ds = "drop k es"
  have len: "length ls = length es"
    using assms(1) map_eq_imp_length_eq by blast
  have o: "ord < length ?ds" "k + ord < length ls"
    using Suc.prems assms(3,4,6) len by auto
  then have line: "cd_parse cd (ls ! (k + ord)) = Some (?ds ! ord)" "ls ! (k + ord) \<noteq> []"
    using arg_cong [OF assms(1), of "\<lambda>xs. xs ! (k + ord)"] assms(2) len by simp_all
  have take: "take (Suc ord) ?ds = take ord ?ds @ [?ds ! ord]"
    using o(1) by (rule take_Suc_conv_app_nth)
  have short: "length (drop i (take ord ?ds)) = ord - i"
    using o(1) by simp
  have room: "ord - i < limit"
    using Suc.prems assms(4,8) by auto
  have got: "(if i \<le> ord \<and> length (drop i (take ord ?ds)) < limit
      then map_sum id (\<lambda>e. drop i (take ord ?ds) @ [e]) (parse_record cd (ls ! (k + ord)))
      else Inr (drop i (take ord ?ds))) = Inr (drop i (take (Suc ord) ?ds))"
    using o(1) room unfolding short take by (auto simp: parse_record_def line)
  have len': "length (drop i (take (Suc ord) ?ds)) = Suc ord - i"
    using o(1) by simp
  have fin: "horizon \<le> Suc ord \<or> limit \<le> Suc ord - i \<longleftrightarrow> stop = Suc ord"
    using Suc.prems assms(4,8) by auto
  have pos: "line_pos ls (k + ord) + length (ls ! (k + ord)) + 1 = line_pos ls (k + Suc ord)"
    using line_pos_simps(2) [OF o(2)] by simp
  show ?case
  proof (cases "stop = Suc ord")
    case True
    then show ?thesis
      unfolding numbered_Cons [OF o(2)] using line(2) fin pos
      by (simp only: page_lines.simps got sum.case if_False len' if_True) simp
  next
    case False
    then show ?thesis
      unfolding numbered_Cons [OF o(2)] using line(2) fin Suc.hyps(1) [of "Suc ord"] Suc.hyps(2) Suc.prems
      by (simp only: page_lines.simps got sum.case if_False len' add_Suc_right)
  qed
qed simp

lemma read_page_written:
  assumes "codec_ok cd" "written cd es ls" "\<forall>l\<in>set ls. length l < MAX_WINDOW_BYTES" "NL \<notin> set t" "k \<le> length es"
    and "horizon \<le> length (drop k es)" "tp_index from < horizon" "0 < limit"
    and "tp_byte_offset from = None \<or> tp_byte_offset from = Some (line_pos ls (k + tp_index from))"
    and "stop = min horizon (tp_index from + limit)"
  shows "read_page (read_byte_range (Some (unlines_nl ls @ t))) (length (unlines_nl ls @ t)) cd from limit horizon
      (Some (line_pos ls k)) =
    Some (Inr (page_at (drop (tp_index from) (take stop (drop k es))) stop (line_pos ls (k + stop)) 0))"
proof -
  let ?rd = "read_byte_range (Some (unlines_nl ls @ t))" and ?held = "length (unlines_nl ls @ t)"
  note lines = written_line [OF assms(1,2)]
  have log: "log_lines (unlines_nl ls @ t) = ls" "log_tail (unlines_nl ls @ t) = t"
    using log_lines_unlines [of ls t] lines assms(4) by simp_all
  have len: "length ls = length es"
    using map_eq_imp_length_eq [OF written_parse(1) [OF assms(1,2)]] .
  have "page_loop ?rd ?held cd (tp_index from) limit horizon (line_pos ls (k + ord)) ord [] 0 =
      Some (Inr (page_at (drop (tp_index from) (take stop (drop k es))) stop (line_pos ls (k + stop)) 0))"
    if "ord \<le> tp_index from" for ord
  proof -
    have ord: "ord < stop" "drop (tp_index from) (take ord (drop k es)) = []"
      using that assms(7,8,10) by auto
    have "page_lines cd (tp_index from) limit horizon (numbered ls (k + ord)) [] ord =
        PS_Done (drop (tp_index from) (take stop (drop k es))) stop (line_pos ls (k + stop))"
      using page_lines_written [OF written_parse(1) [OF assms(1,2)] _ assms(5,10) ord(1) assms(6-8)] lines ord(2) by simp
    then show ?thesis
      using disk.page_from [of "unlines_nl ls @ t", unfolded log, of "k + ord"] lines assms(3) that assms(5-8) len
      by simp
  qed
  from this [of "tp_index from"] this [of 0] show ?thesis
    using assms(9) by (auto simp: read_page_def)
qed

subsection \<open>The paged read of the store\<close>

text \<open>A backend as one session's reader sees it: whether it serves windows, the windows, the size of the log in bytes,
  and the whole log.\<close>

record log_backend =
  lb_windows :: bool
  lb_read :: "nat \<Rightarrow> nat \<Rightarrow> range_read"
  lb_size :: nat
  lb_log :: "context_error + session_entry list"

definition fold_session ::
  "log_backend \<Rightarrow> session_event codec \<Rightarrow> nat \<Rightarrow> str \<Rightarrow> log_states \<Rightarrow> ((context_error + nat) \<times> log_states) option" where
  "fold_session be cd esz session s =
     (case (if lb_windows be then fold_epoch (lb_read be) (lb_size be) cd esz (restore_budget s)
            else Some (case lb_log be of
                         Inl err \<Rightarrow> Inl err
                       | Inr replayed \<Rightarrow> Inr (rh_from_events esz (drop (epoch_start replayed) replayed)))) of
        None \<Rightarrow> None
      | Some (Inl err) \<Rightarrow> Some (Inl err, s)
      | Some (Inr history) \<Rightarrow> Some (Inr (rh_rows history), commit_restore session history s))"

partial_function (option) page_walk ::
  "log_backend \<Rightarrow> session_event codec \<Rightarrow> nat \<Rightarrow> str \<Rightarrow> nat \<Rightarrow> trajectory_position \<Rightarrow> nat \<Rightarrow> log_states \<Rightarrow>
   ((context_error + trajectory_page) \<times> log_states) option" where
  "page_walk be cd esz session limit from passed s =
     (case states_page session from limit s of
        WR_Held events next_index \<Rightarrow>
          Some (Inr \<lparr>pg_events = events, pg_next = \<lparr>tp_index = next_index, tp_byte_offset = None\<rparr>,
                     pg_skipped_bytes = min passed (2 ^ 64 - 1)\<rparr>, s)
      | WR_Below base_index epoch_byte_offset \<Rightarrow>
          (case read_page (lb_read be) (lb_size be) cd from limit base_index epoch_byte_offset of
             None \<Rightarrow> None
           | Some (Inl err) \<Rightarrow> Some (Inl err, s)
           | Some (Inr read) \<Rightarrow>
               if pg_events read = [] \<and> pg_next read \<noteq> from
               then page_walk be cd esz session limit (pg_next read) (min (passed + pg_skipped_bytes read) (2 ^ 64 - 1)) s
               else Some (Inr (read\<lparr>pg_skipped_bytes := min (pg_skipped_bytes read + passed) (2 ^ 64 - 1)\<rparr>), s))
      | WR_Absent \<Rightarrow>
          (case fold_session be cd esz session s of
             None \<Rightarrow> None
           | Some (Inl err, s') \<Rightarrow> Some (Inl err, s')
           | Some (Inr rows, s') \<Rightarrow>
               if rows = 0
               then Some (Inr ((unreadable_position from)\<lparr>pg_skipped_bytes := min passed (2 ^ 64 - 1)\<rparr>), s')
               else page_walk be cd esz session limit from passed s'))"

definition store_trajectory_page ::
  "log_backend \<Rightarrow> session_event codec \<Rightarrow> nat \<Rightarrow> str \<Rightarrow> trajectory_position \<Rightarrow> nat \<Rightarrow> log_states \<Rightarrow>
   ((context_error + trajectory_page) \<times> log_states) option" where
  "store_trajectory_page be cd esz session from limit s = page_walk be cd esz session limit from 0 s"

definition replay_starts_at ::
  "log_backend \<Rightarrow> session_event codec \<Rightarrow> nat \<Rightarrow> str \<Rightarrow> log_states \<Rightarrow> ((context_error + nat option) \<times> log_states) option" where
  "replay_starts_at be cd esz session s =
     (case window_start session s of
        Some base \<Rightarrow> Some (Inr (Some base), s)
      | None \<Rightarrow>
          (case fold_session be cd esz session s of
             None \<Rightarrow> None
           | Some (Inl err, s') \<Rightarrow> Some (Inl err, s')
           | Some (Inr rows, s') \<Rightarrow> Some (Inr (if rows = 0 then None else window_start session s'), s')))"

subsection \<open>Walking all pages\<close>

definition PAGE_EVENTS :: nat where
  "PAGE_EVENTS = 512"

record trajectory_pages =
  tw_position :: trajectory_position
  tw_done :: bool

type_synonym 's fetch = "trajectory_position \<Rightarrow> nat \<Rightarrow> 's \<Rightarrow> ((context_error + trajectory_page) \<times> 's) option"

definition pages_next ::
  "'s fetch \<Rightarrow> trajectory_pages \<Rightarrow> 's \<Rightarrow> ((context_error + trajectory_page) option \<times> trajectory_pages \<times> 's) option" where
  "pages_next fetch it s =
     (if tw_done it then Some (None, it, s)
      else (case fetch (tw_position it) PAGE_EVENTS s of
              None \<Rightarrow> None
            | Some (Inl err, s') \<Rightarrow> Some (Some (Inl err), it\<lparr>tw_done := True\<rparr>, s')
            | Some (Inr page, s') \<Rightarrow>
                if pg_events page = [] then Some (None, it\<lparr>tw_done := True\<rparr>, s')
                else Some (Some (Inr page),
                       \<lparr>tw_position = pg_next page, tw_done = (tw_done it \<or> pg_next page = tw_position it)\<rparr>, s')))"

text \<open>A reader that takes every page: the records it saw, and the error it stopped at if any.\<close>

partial_function (option) read_all ::
  "'s fetch \<Rightarrow> trajectory_pages \<Rightarrow> session_entry list \<Rightarrow> 's \<Rightarrow> (session_entry list \<times> context_error option \<times> 's) option" where
  "read_all fetch it seen s =
     (case pages_next fetch it s of
        None \<Rightarrow> None
      | Some (None, _, s') \<Rightarrow> Some (seen, None, s')
      | Some (Some (Inl err), _, s') \<Rightarrow> Some (seen, Some err, s')
      | Some (Some (Inr page), it', s') \<Rightarrow> read_all fetch it' (seen @ pg_events page) s')"

locale paged_log =
  fixes fetch :: "'s fetch" and valid :: "'s \<Rightarrow> bool" and at :: "trajectory_position \<Rightarrow> bool" and history :: "session_entry list"
  assumes fetch_page: "\<And>s p limit. \<lbrakk>valid s; at p; tp_index p \<le> length history; 0 < limit\<rbrakk> \<Longrightarrow>
    \<exists>page s'. fetch p limit s = Some (Inr page, s') \<and> valid s' \<and> at (pg_next page) \<and>
      tp_index (pg_next page) = tp_index p + length (pg_events page) \<and>
      pg_events page = take (length (pg_events page)) (drop (tp_index p) history) \<and>
      (tp_index p < length history \<longrightarrow> pg_events page \<noteq> [])"
begin

lemma read_all_history:
  assumes "valid s" "at p" "tp_index p \<le> length history"
  shows "\<exists>s'. read_all fetch \<lparr>tw_position = p, tw_done = False\<rparr> seen s =
    Some (seen @ drop (tp_index p) history, None, s') \<and> valid s'"
  using assms
proof (induction "length history - tp_index p" arbitrary: p s seen rule: less_induct)
  case less
  have "0 < PAGE_EVENTS"
    by (simp add: PAGE_EVENTS_def)
  from fetch_page [OF less.prems this] obtain page s' where
    page: "fetch p PAGE_EVENTS s = Some (Inr page, s')" "valid s'" "at (pg_next page)"
    "tp_index (pg_next page) = tp_index p + length (pg_events page)"
    "pg_events page = take (length (pg_events page)) (drop (tp_index p) history)"
    "tp_index p < length history \<longrightarrow> pg_events page \<noteq> []"
    by blast
  show ?case
  proof (cases "pg_events page = []")
    case True
    then have "drop (tp_index p) history = []"
      using page(6) less.prems(3) by auto
    then show ?thesis
      using page(1,2) True by (subst read_all.simps) (simp add: pages_next_def)
  next
    case False
    have "length (pg_events page) \<le> length history - tp_index p"
      using arg_cong [OF page(5), of length] by simp
    then have le: "tp_index (pg_next page) \<le> length history"
      using page(4) less.prems(3) by simp
    moreover have "0 < length (pg_events page)"
      using False by simp
    ultimately have "length history - tp_index (pg_next page) < length history - tp_index p"
      using page(4) by linarith
    then obtain s'' where rest: "valid s''"
      "read_all fetch \<lparr>tw_position = pg_next page, tw_done = False\<rparr> (seen @ pg_events page) s' =
        Some ((seen @ pg_events page) @ drop (tp_index (pg_next page)) history, None, s'')"
      using less.hyps [of "pg_next page" s' "seen @ pg_events page"] page(2,3) le by blast
    have "drop (tp_index p) history = pg_events page @ drop (tp_index (pg_next page)) history"
      using page(4,5) append_take_drop_id [of "length (pg_events page)" "drop (tp_index p) history"] by (simp add: add.commute)
    moreover have "pg_next page \<noteq> p"
      using page(4) False by auto
    ultimately show ?thesis
      using page(1) rest False by (subst read_all.simps) (simp add: pages_next_def)
  qed
qed

end

subsection \<open>The store is a paged log\<close>

definition file_log :: "str \<Rightarrow> log_backend \<Rightarrow> bool" where
  "file_log bytes be = (lb_windows be \<and> lb_read be = read_byte_range (Some bytes) \<and> lb_size be = length bytes)"

definition log_of :: "session_event codec \<Rightarrow> log_backend \<Rightarrow> session_entry list \<Rightarrow> str list \<Rightarrow> bool" where
  "log_of cd be es ls =
     (codec_ok cd \<and> written cd es ls \<and> durables es = es \<and> (\<forall>l\<in>set ls. length l < MAX_WINDOW_BYTES) \<and>
      (\<exists>t. NL \<notin> set t \<and> file_log (unlines_nl ls @ t) be))"

abbreviation epoch :: "session_entry list \<Rightarrow> session_entry list" where
  "epoch es \<equiv> drop (epoch_start es) es"

definition held_state :: "nat \<Rightarrow> str \<Rightarrow> session_entry list \<Rightarrow> str list \<Rightarrow> log_states \<Rightarrow> bool" where
  "held_state esz session es ls s = (\<exists>rows. durables rows = epoch es \<and>
     ls_inner s session = Some (state_of esz (ls_budget_bytes s) True (Some (line_pos ls (epoch_start es))) rows))"

definition readable ::
  "log_backend \<Rightarrow> session_event codec \<Rightarrow> nat \<Rightarrow> str \<Rightarrow> session_entry list \<Rightarrow> str list \<Rightarrow> log_states \<Rightarrow> bool" where
  "readable be cd esz session es ls s =
     (log_of cd be es ls \<and> ls_bounded s \<and> (ls_inner s session = None \<or> held_state esz session es ls s))"

definition position_ok :: "session_entry list \<Rightarrow> str list \<Rightarrow> trajectory_position \<Rightarrow> bool" where
  "position_ok es ls p =
     (tp_byte_offset p = None \<or> tp_byte_offset p = Some (line_pos ls (epoch_start es + tp_index p)))"

lemma epoch_durables: "durables es = es \<Longrightarrow> durables (epoch es) = epoch es"
  by (metis append_take_drop_id filter_append filter_id_conv in_set_dropD)

lemma fold_session_epoch:
  assumes "log_of cd be es ls" "ls_bounded s"
  shows "\<exists>s'. fold_session be cd esz session s = Some (Inr (length (epoch es)), s') \<and> ls_bounded s' \<and>
    ls_budget_bytes s' = ls_budget_bytes s \<and>
    ls_inner s' = (ls_inner s)(session := (if epoch es = [] then None
      else Some (state_of esz (ls_budget_bytes s) True (Some (line_pos ls (epoch_start es))) (epoch es))))"
proof -
  obtain t where t: "codec_ok cd" "written cd es ls" "\<forall>l\<in>set ls. length l < MAX_WINDOW_BYTES" "NL \<notin> set t"
    "file_log (unlines_nl ls @ t) be" "durables es = es"
    using assms(1) by (auto simp: log_of_def)
  let ?h = "history_of esz (ls_budget_bytes s) (Some (line_pos ls (epoch_start es))) (epoch es)"
  have "fold_session be cd esz session s =
      Some (Inr (rh_rows (skip (length t) ?h)), commit_restore session (skip (length t) ?h) s)"
    using fold_epoch_written [OF t(1-4)] t(5) assms(2) by (simp add: fold_session_def file_log_def restore_budget_def)
  moreover have "rh_rows (skip (length t) ?h) = length (epoch es)"
    by (simp add: skip_def note_skipped_def history_of_def)
  moreover have "state_of_history (skip (length t) ?h) = state_of_history ?h"
    by (simp add: skip_def note_skipped_def state_of_history_def)
  ultimately show ?thesis
    using restored_as_live [OF epoch_durables [OF t(6)]] assms(2)
    by (auto simp: commit_restore_def states_reset_def)
qed

lemma page_present:
  assumes "log_of cd be es ls" "ls_bounded s" "held_state esz session es ls s" "position_ok es ls p"
    and "tp_index p \<le> length (epoch es)" "0 < limit"
  shows "\<exists>page. page_walk be cd esz session limit p 0 s = Some (Inr page, s) \<and> position_ok es ls (pg_next page) \<and>
      pg_skipped_bytes page = 0 \<and> tp_index (pg_next page) = tp_index p + length (pg_events page) \<and>
      pg_events page = take (length (pg_events page)) (drop (tp_index p) (epoch es)) \<and>
      (tp_index p < length (epoch es) \<longrightarrow> pg_events page \<noteq> [])"
proof -
  obtain rows where rows: "durables rows = epoch es"
    "ls_inner s session = Some (state_of esz (ls_budget_bytes s) True (Some (line_pos ls (epoch_start es))) rows)"
    using assms(3) by (auto simp: held_state_def)
  obtain t where t: "codec_ok cd" "written cd es ls" "\<forall>l\<in>set ls. length l < MAX_WINDOW_BYTES" "NL \<notin> set t"
    "file_log (unlines_nl ls @ t) be"
    using assms(1) by (auto simp: log_of_def)
  let ?st = "state_of esz (ls_budget_bytes s) True (Some (line_pos ls (epoch_start es))) rows" and ?i = "tp_index p"
  show ?thesis
  proof (cases "lg_base_index ?st \<le> ?i")
    case True
    let ?events = "take limit (drop ?i (epoch es))"
    have "states_page session p limit s = WR_Held ?events (?i + length ?events)"
      using True log_page_state_of [OF True, of limit] rows by (simp add: states_page_def Let_def)
    then show ?thesis
      using assms(5,6) by (subst page_walk.simps) (auto simp: position_ok_def min_def)
  next
    case False
    let ?base = "lg_base_index ?st"
    let ?stop = "min ?base (?i + limit)"
    have base: "?base \<le> length (epoch es)" "lg_epoch_byte_offset ?st = Some (line_pos ls (epoch_start es))"
      by (simp_all add: state_of_def Let_def rows(1))
    have "states_page session p limit s = WR_Below ?base (Some (line_pos ls (epoch_start es)))"
      using False rows(2) base(2) by (simp add: states_page_def)
    moreover have "read_page (lb_read be) (lb_size be) cd p limit ?base (Some (line_pos ls (epoch_start es))) =
        Some (Inr (page_at (drop ?i (take ?stop (epoch es))) ?stop (line_pos ls (epoch_start es + ?stop)) 0))"
      using read_page_written [OF t(1-4) epoch_start_le base(1) _ assms(6) _ refl] t(5) False assms(4)
      by (simp add: file_log_def position_ok_def)
    moreover have "length (drop ?i (take ?stop (epoch es))) = ?stop - ?i" "?i < ?stop"
      using base(1) False assms(6) by auto
    ultimately show ?thesis
      by (subst page_walk.simps) (auto simp: page_at_def position_ok_def drop_take)
  qed
qed

interpretation store: paged_log "store_trajectory_page be cd esz session" "readable be cd esz session es ls"
  "position_ok es ls" "epoch es" for be cd esz session es ls
proof
  fix s p and limit :: nat
  assume s: "readable be cd esz session es ls s" and p: "position_ok es ls p" "tp_index p \<le> length (epoch es)" "0 < limit"
  have log: "log_of cd be es ls" "ls_bounded s"
    using s by (simp_all add: readable_def)
  show "\<exists>page s'. store_trajectory_page be cd esz session p limit s = Some (Inr page, s') \<and>
      readable be cd esz session es ls s' \<and> position_ok es ls (pg_next page) \<and>
      tp_index (pg_next page) = tp_index p + length (pg_events page) \<and>
      pg_events page = take (length (pg_events page)) (drop (tp_index p) (epoch es)) \<and>
      (tp_index p < length (epoch es) \<longrightarrow> pg_events page \<noteq> [])"
  proof (cases "held_state esz session es ls s")
    case True
    then show ?thesis
      using page_present [OF log True p] s by (auto simp: store_trajectory_page_def)
  next
    case False
    then have absent: "ls_inner s session = None"
      using s by (simp add: readable_def)
    obtain s' where s': "fold_session be cd esz session s = Some (Inr (length (epoch es)), s')" "ls_bounded s'"
      "ls_budget_bytes s' = ls_budget_bytes s" "ls_inner s' = (ls_inner s)(session := (if epoch es = [] then None
        else Some (state_of esz (ls_budget_bytes s) True (Some (line_pos ls (epoch_start es))) (epoch es))))"
      using fold_session_epoch [OF log] by blast
    show ?thesis
    proof (cases "epoch es = []")
      case True
      then show ?thesis
        using s' log p absent
        by (subst store_trajectory_page_def, subst page_walk.simps)
          (auto simp: states_page_def unreadable_position_def readable_def)
    next
      case False
      have held: "held_state esz session es ls s'"
        using s' False epoch_durables [of es] log(1) by (auto simp: held_state_def log_of_def)
      have "page_walk be cd esz session limit p 0 s = page_walk be cd esz session limit p 0 s'"
        using s'(1) False absent by (subst page_walk.simps) (simp add: states_page_def)
      then show ?thesis
        using page_present [OF log(1) s'(2) held p] held log(1) s'(2)
        by (auto simp: store_trajectory_page_def readable_def)
    qed
  qed
qed

subsection \<open>Appends, clears and restarts\<close>

text \<open>The store of one session over the file backend: its log and chain, and the states in memory.\<close>

record traj_store =
  ts_log :: session_store
  ts_states :: log_states

definition backend_of :: "session_event codec \<Rightarrow> session_store \<Rightarrow> log_backend" where
  "backend_of cd s = \<lparr>lb_windows = True, lb_read = read_byte_range (sf_log (ss_file s)),
     lb_size = length (log_bytes (ss_file s)), lb_log = read_log cd (ss_file s)\<rparr>"

definition store_append ::
  "session_event codec \<Rightarrow> append_io \<Rightarrow> nat \<Rightarrow> session_entry \<Rightarrow> traj_store \<Rightarrow> (context_error + str) \<times> traj_store" where
  "store_append cd io esz event ts =
     (let session = le_session event in
      if is_display_delta (le_event event)
      then (Inr (le_id event), ts\<lparr>ts_states := note_event esz session event (ts_states ts)\<rparr>)
      else
        let states = (if needs_epoch_offset session (ts_states ts)
                      then start_epoch session (lb_size (backend_of cd (ts_log ts))) (ts_states ts) else ts_states ts);
            prev_hash = (case fst (chain_link cd (ts_log ts)) of Inl _ \<Rightarrow> None | Inr h \<Rightarrow> h)
        in case append_locked cd io (ts_log ts) event of
             (Inl err, log) \<Rightarrow> (Inl err, \<lparr>ts_log = log, ts_states = states\<rparr>)
           | (Inr i, log) \<Rightarrow>
               (Inr i, \<lparr>ts_log = log, ts_states = note_event esz session (event\<lparr>le_prev_hash := prev_hash\<rparr>) states\<rparr>))"

definition reset_trajectory :: "str \<Rightarrow> traj_store \<Rightarrow> traj_store" where
  "reset_trajectory session ts = ts\<lparr>ts_states := states_reset session (ts_states ts)\<rparr>"

definition restore_trajectory ::
  "session_event codec \<Rightarrow> nat \<Rightarrow> str \<Rightarrow> traj_store \<Rightarrow> ((context_error + nat) \<times> traj_store) option" where
  "restore_trajectory cd esz session ts =
     (case fold_session (backend_of cd (ts_log ts)) cd esz session (ts_states ts) of
        None \<Rightarrow> None
      | Some (r, s) \<Rightarrow> Some (r, ts\<lparr>ts_states := s\<rparr>))"

definition append_if ::
  "session_event codec \<Rightarrow> append_io \<Rightarrow> nat \<Rightarrow> session_entry \<Rightarrow> (session_entry list \<Rightarrow> bool) \<Rightarrow> traj_store \<Rightarrow>
   (context_error + str option) \<times> traj_store" where
  "append_if cd io esz event allow ts =
     (case lb_log (backend_of cd (ts_log ts)) of
        Inl err \<Rightarrow> (Inl err, ts)
      | Inr events \<Rightarrow>
          if \<not> allow events then (Inr None, ts)
          else (case store_append cd io esz event ts of
                  (Inl err, ts') \<Rightarrow> (Inl err, ts')
                | (Inr i, ts') \<Rightarrow> (Inr (Some i), ts')))"

record import_report =
  im_durable_count :: nat
  im_deltas_dropped :: nat
  im_source_chain :: chain_verdict
  im_head_hash :: "str option"

fun seed_loop ::
  "session_event codec \<Rightarrow> (nat \<Rightarrow> append_io) \<Rightarrow> nat \<Rightarrow> str \<Rightarrow> session_entry list \<Rightarrow> nat \<Rightarrow> nat \<Rightarrow> traj_store \<Rightarrow>
   (context_error + nat \<times> nat) \<times> traj_store" where
  "seed_loop cd io esz session [] durable_count deltas ts = (Inr (durable_count, deltas), ts)"
| "seed_loop cd io esz session (e # es) durable_count deltas ts =
     (if is_display_delta (le_event e) then seed_loop cd io esz session es durable_count (Suc deltas) ts
      else (case store_append cd (io durable_count) esz (e\<lparr>le_session := session\<rparr>) ts of
              (Inl err, ts') \<Rightarrow> (Inl err, ts')
            | (Inr _, ts') \<Rightarrow> seed_loop cd io esz session es (Suc durable_count) deltas ts'))"

definition seed_trajectory ::
  "session_event codec \<Rightarrow> (nat \<Rightarrow> append_io) \<Rightarrow> nat \<Rightarrow> str \<Rightarrow> session_entry list \<Rightarrow> traj_store \<Rightarrow>
   (context_error + import_report) \<times> traj_store" where
  "seed_trajectory cd io esz session events ts =
     (case seed_loop cd io esz session events 0 0 ts of
        (Inl err, ts') \<Rightarrow> (Inl err, ts')
      | (Inr (durable_count, deltas), ts') \<Rightarrow>
          (Inr \<lparr>im_durable_count = durable_count, im_deltas_dropped = deltas, im_source_chain = verify_source cd events,
                im_head_hash = ss_last_hash (ts_log ts')\<rparr>, ts'))"

text \<open>A new process over the same log: nothing is held in memory.\<close>

definition reopened :: "nat \<Rightarrow> traj_store \<Rightarrow> traj_store" where
  "reopened budget ts =
     \<lparr>ts_log = \<lparr>ss_file = (ss_file (ts_log ts))\<lparr>sf_seen := None\<rparr>, ss_last_hash = None\<rparr>, ts_states = log_states_new True budget\<rparr>"

definition traj_ok ::
  "session_event codec \<Rightarrow> nat \<Rightarrow> str \<Rightarrow> traj_store \<Rightarrow> session_entry list \<Rightarrow> str list \<Rightarrow> bool" where
  "traj_ok cd esz session ts es ls =
     (session_ok cd (ts_log ts) es ls \<and> durables es = es \<and> (\<forall>l\<in>set ls. length l < MAX_WINDOW_BYTES) \<and>
      length (unlines_nl ls) < 2 ^ 64 \<and> ls_bounded (ts_states ts))"

lemma line_pos_snoc: "k \<le> length ls \<Longrightarrow> line_pos (ls @ [l]) k = line_pos ls k"
  by (simp add: line_pos_def)

lemma held_note:
  assumes "held_state esz session es ls s" "ls_bounded s" "durables [e] = epoch_new"
    and "epoch es' = epoch es @ epoch_new" "line_pos ls' (epoch_start es') = line_pos ls (epoch_start es)"
  shows "held_state esz session es' ls' (note_event esz session e s)"
proof -
  obtain rows where rows: "durables rows = epoch es"
    "ls_inner s session = Some (state_of esz (ls_budget_bytes s) True (Some (line_pos ls (epoch_start es))) rows)"
    using assms(1) by (auto simp: held_state_def)
  have "durables (rows @ [e]) = epoch es'"
    using rows(1) assms(3,4) by (simp only: filter_append)
  then show ?thesis
    using rows(2) assms(2,5)
    unfolding held_state_def note_event_def state_or_default_def
    by (intro exI [of _ "rows @ [e]"]) (simp add: log_push_state_of)
qed

lemma held_start:
  assumes "ls_bounded s" "durable e" "epoch es' = [e]" "off = line_pos ls' (epoch_start es')"
  shows "held_state esz session es' ls' (note_event esz session e (start_epoch session off s))"
  using assms log_push_state_of [of esz "ls_budget_bytes s" True e "Some off" "[]"]
  unfolding held_state_def note_event_def state_or_default_def start_epoch_def
  by (intro exI [of _ "[e]"]) (simp add: state_of_Nil)

lemma store_append_ok:
  assumes "codec_ok cd" "cd_is_delta cd = is_display_delta" "traj_ok cd esz session ts es ls" "le_session event = session"
    and "durable event" "le_id event \<notin> set (map le_id es)"
    and "prev = (if ls = [] then None else Some (hash_line_bytes cd (last ls)))"
    and "cd_ser cd (event\<lparr>le_prev_hash := prev\<rparr>) = Some l" "length l < MAX_WINDOW_BYTES"
    and "length (unlines_nl (ls @ [l])) < 2 ^ 64"
    and "held_state esz session es ls (ts_states ts) \<and> \<not> is_clear (le_event event) \<or>
      ls_inner (ts_states ts) session = None \<and> (es = [] \<or> is_clear (le_event event))"
  shows "\<exists>ts'. store_append cd IO_Ok esz event ts = (Inr (le_id event), ts') \<and>
    traj_ok cd esz session ts' (es @ [event\<lparr>le_prev_hash := prev\<rparr>]) (ls @ [l]) \<and>
    held_state esz session (es @ [event\<lparr>le_prev_hash := prev\<rparr>]) (ls @ [l]) (ts_states ts') \<and>
    ls_budget_bytes (ts_states ts') = ls_budget_bytes (ts_states ts)"
proof -
  let ?e = "event\<lparr>le_prev_hash := prev\<rparr>" and ?es = "es @ [event\<lparr>le_prev_hash := prev\<rparr>]"
  have ok: "session_ok cd (ts_log ts) es ls" "durables es = es" "\<forall>l\<in>set ls. length l < MAX_WINDOW_BYTES"
    "length (unlines_nl ls) < 2 ^ 64" "ls_bounded (ts_states ts)"
    using assms(3) by (simp_all add: traj_ok_def)
  then have w: "written cd es ls" "log_bytes (ss_file (ts_log ts)) = unlines_nl ls"
    by (simp_all add: session_ok_def)
  have len: "length ls = length es"
    using w(1) map_eq_imp_length_eq unfolding written_def by fastforce
  obtain log where log: "append_locked cd IO_Ok (ts_log ts) event = (Inr (le_id event), log)"
    "session_ok cd log ?es (ls @ [l])"
    using append_locked_ok [OF assms(1) ok(1,4) _ assms(6-8)] assms(2,5) by auto
  obtain s1 where link: "chain_link cd (ts_log ts) = (Inr prev, s1)"
    using chain_link_ok [OF assms(1) ok(1,4)] assms(7) by blast
  define states where "states = (if needs_epoch_offset session (ts_states ts)
      then start_epoch session (length (unlines_nl ls)) (ts_states ts) else ts_states ts)"
  have run: "store_append cd IO_Ok esz event ts =
      (Inr (le_id event), \<lparr>ts_log = log, ts_states = note_event esz session ?e states\<rparr>)"
    using assms(4,5) log(1) link w(2) by (simp add: store_append_def Let_def states_def backend_of_def)
  have states: "ls_bounded states" "ls_budget_bytes states = ls_budget_bytes (ts_states ts)"
    using ok(5) by (simp_all add: states_def start_epoch_def)
  have "held_state esz session ?es (ls @ [l]) (note_event esz session ?e states)"
    using assms(11)
  proof
    assume "held_state esz session es ls (ts_states ts) \<and> \<not> is_clear (le_event event)"
    then have held: "held_state esz session es ls (ts_states ts)" and keep: "\<not> is_clear (le_event event)"
      by blast+
    then have "states = ts_states ts"
      by (auto simp: states_def needs_epoch_offset_def held_state_def state_of_def Let_def)
    then show ?thesis
      using held_note [OF held ok(5), of ?e "[?e]"] keep assms(5) epoch_start_le [of es] len
      by (simp add: epoch_start_snoc line_pos_snoc)
  next
    assume "ls_inner (ts_states ts) session = None \<and> (es = [] \<or> is_clear (le_event event))"
    then have absent: "ls_inner (ts_states ts) session = None" and opens: "es = [] \<or> is_clear (le_event event)"
      by blast+
    then have "states = start_epoch session (length (unlines_nl ls)) (ts_states ts)"
      using ok(5) by (simp add: states_def needs_epoch_offset_def)
    moreover have "epoch_start ?es = length es"
      using opens by (auto simp: epoch_start_def last_clear_snoc)
    ultimately show ?thesis
      using held_start [OF ok(5), of ?e ?es "length (unlines_nl ls)" "ls @ [l]"] assms(5) len
        line_pos_snoc [of "length ls" ls l] line_pos_simps(1) [of ls]
      by simp
  qed
  moreover have "traj_ok cd esz session \<lparr>ts_log = log, ts_states = note_event esz session ?e states\<rparr> ?es (ls @ [l])"
    using log(2) ok assms(5,9,10) states(1) by (auto simp: traj_ok_def note_event_def)
  ultimately show ?thesis
    using run states(2) by (simp add: note_event_def)
qed

text \<open>What can happen to one session: its records are appended, streamed deltas arrive between them, it is cleared (the
  state is dropped and the boundary record appended), and the process ends and another one resumes it. The list is the
  durable records written so far.\<close>

definition appends ::
  "session_event codec \<Rightarrow> nat \<Rightarrow> session_entry \<Rightarrow> traj_store \<Rightarrow> session_entry list \<Rightarrow> traj_store \<Rightarrow> session_entry list \<Rightarrow> bool" where
  "appends cd esz event ts es ts' es' = (\<exists>l prev. le_id event \<notin> set (map le_id es) \<and>
     prev = (case fst (chain_link cd (ts_log ts)) of Inl _ \<Rightarrow> None | Inr h \<Rightarrow> h) \<and>
     cd_ser cd (event\<lparr>le_prev_hash := prev\<rparr>) = Some l \<and> length l < MAX_WINDOW_BYTES \<and>
     length (log_bytes (ss_file (ts_log ts))) + length l + 1 < 2 ^ 64 \<and>
     store_append cd IO_Ok esz event ts = (Inr (le_id event), ts') \<and> es' = es @ [event\<lparr>le_prev_hash := prev\<rparr>])"

inductive traj_run :: "session_event codec \<Rightarrow> nat \<Rightarrow> nat \<Rightarrow> str \<Rightarrow> traj_store \<Rightarrow> session_entry list \<Rightarrow> bool"
  for cd esz budget session where
  run_new: "traj_run cd esz budget session
     \<lparr>ts_log = \<lparr>ss_file = \<lparr>sf_log = None, sf_seen = None\<rparr>, ss_last_hash = None\<rparr>, ts_states = log_states_new True budget\<rparr> []"
| run_record: "\<lbrakk>traj_run cd esz budget session ts es; le_session event = session; durable event; \<not> is_clear (le_event event);
     appends cd esz event ts es ts' es'\<rbrakk> \<Longrightarrow> traj_run cd esz budget session ts' es'"
| run_delta: "\<lbrakk>traj_run cd esz budget session ts es; es \<noteq> []; le_session event = session; \<not> durable event;
     store_append cd IO_Ok esz event ts = (r, ts')\<rbrakk> \<Longrightarrow> traj_run cd esz budget session ts' es"
| run_clear: "\<lbrakk>traj_run cd esz budget session ts es; le_session event = session; is_clear (le_event event);
     appends cd esz event (reset_trajectory session ts) es ts' es'\<rbrakk> \<Longrightarrow> traj_run cd esz budget session ts' es'"
| run_resume: "\<lbrakk>traj_run cd esz budget session ts es;
     restore_trajectory cd esz session (reopened budget ts) = Some (r, ts')\<rbrakk> \<Longrightarrow> traj_run cd esz budget session ts' es"

definition run_inv :: "session_event codec \<Rightarrow> nat \<Rightarrow> str \<Rightarrow> traj_store \<Rightarrow> session_entry list \<Rightarrow> bool" where
  "run_inv cd esz session ts es = (\<exists>ls. traj_ok cd esz session ts es ls \<and>
     (if es = [] then ls_inner (ts_states ts) session = None else held_state esz session es ls (ts_states ts)))"

lemma epoch_nonempty: "epoch es = [] \<longleftrightarrow> es = []"
  by (cases "last_clear_index es") (auto simp: epoch_start_def dest: last_clear_less)

lemma traj_ok_reset: "traj_ok cd esz session (reset_trajectory session ts) es ls = traj_ok cd esz session ts es ls"
  by (simp add: traj_ok_def reset_trajectory_def states_reset_def)

lemma appends_inv:
  assumes "codec_ok cd" "cd_is_delta cd = is_display_delta" "traj_ok cd esz session ts es ls" "le_session event = session"
    and "durable event" "appends cd esz event ts es ts' es'"
    and "held_state esz session es ls (ts_states ts) \<and> \<not> is_clear (le_event event) \<or>
      ls_inner (ts_states ts) session = None \<and> (es = [] \<or> is_clear (le_event event))"
  shows "run_inv cd esz session ts' es'"
proof -
  have ok: "session_ok cd (ts_log ts) es ls" "length (unlines_nl ls) < 2 ^ 64"
    using assms(3) by (simp_all add: traj_ok_def)
  then have bytes: "log_bytes (ss_file (ts_log ts)) = unlines_nl ls"
    by (simp add: session_ok_def)
  obtain s1 where link: "chain_link cd (ts_log ts) = (Inr (if ls = [] then None else Some (hash_line_bytes cd (last ls))), s1)"
    using chain_link_ok [OF assms(1) ok] by blast
  obtain l where l: "le_id event \<notin> set (map le_id es)" "length l < MAX_WINDOW_BYTES"
    "cd_ser cd (event\<lparr>le_prev_hash := (if ls = [] then None else Some (hash_line_bytes cd (last ls)))\<rparr>) = Some l"
    "length (unlines_nl (ls @ [l])) < 2 ^ 64" "store_append cd IO_Ok esz event ts = (Inr (le_id event), ts')"
    "es' = es @ [event\<lparr>le_prev_hash := (if ls = [] then None else Some (hash_line_bytes cd (last ls)))\<rparr>]"
    using assms(6) by (auto simp: appends_def link bytes)
  from store_append_ok [OF assms(1-5) l(1) refl l(3,2,4) assms(7)] l(5,6) show ?thesis
    by (auto simp: run_inv_def)
qed

lemma fold_epoch_missing: "fold_epoch (read_byte_range None) 0 cd esz b = Some (Inr (rh_new b (Some 0)))"
proof -
  obtain w where "read_window (read_byte_range None) 0 WINDOW_BYTES = Some (read_byte_range None 0 w)"
    using read_window_total [of WINDOW_BYTES "read_byte_range None" 0] by (auto simp: WINDOW_BYTES_def)
  then show ?thesis
    unfolding fold_epoch_def
    by (subst fold_loop.simps) (simp add: read_byte_range_def rr_default_def unread_records_def passed_bytes_def)
qed

lemma fold_session_ok:
  assumes "codec_ok cd" "traj_ok cd esz session ts es ls" "s = ts_states ts"
  shows "\<exists>s'. fold_session (backend_of cd (ts_log ts)) cd esz session s = Some (Inr (length (epoch es)), s') \<and>
    ls_bounded s' \<and> ls_budget_bytes s' = ls_budget_bytes s \<and>
    (if es = [] then ls_inner s' session = None else held_state esz session es ls s')"
proof (cases "sf_log (ss_file (ts_log ts))")
  case None
  have "written cd es ls" "unlines_nl ls = []"
    using assms(2) None by (simp_all add: traj_ok_def session_ok_def log_bytes_def)
  then have "es = []"
    by (cases ls) (simp_all add: written_def)
  moreover have "fold_session (backend_of cd (ts_log ts)) cd esz session s = Some (Inr 0, states_reset session s)"
    using None by (simp add: fold_session_def backend_of_def log_bytes_def fold_epoch_missing commit_restore_def)
      (simp add: rh_new_def)
  ultimately show ?thesis
    using assms(2,3) by (simp add: states_reset_def traj_ok_def)
next
  case (Some bytes)
  then have log: "log_of cd (backend_of cd (ts_log ts)) es ls" "durables es = es" "ls_bounded s"
    using assms by (auto simp: log_of_def file_log_def backend_of_def traj_ok_def session_ok_def log_bytes_def intro!: exI [of _ "[]"])
  obtain s' where s': "fold_session (backend_of cd (ts_log ts)) cd esz session s = Some (Inr (length (epoch es)), s')"
    "ls_bounded s'" "ls_budget_bytes s' = ls_budget_bytes s"
    "ls_inner s' = (ls_inner s)(session := (if epoch es = [] then None
      else Some (state_of esz (ls_budget_bytes s) True (Some (line_pos ls (epoch_start es))) (epoch es))))"
    using fold_session_epoch [OF log(1,3)] by blast
  moreover have "if es = [] then ls_inner s' session = None else held_state esz session es ls s'"
    unfolding s'(4) held_state_def epoch_nonempty s'(3) using epoch_durables [OF log(2)] by auto
  ultimately show ?thesis
    by blast
qed

lemma resume_inv:
  assumes "codec_ok cd" "run_inv cd esz session ts es" "restore_trajectory cd esz session (reopened budget ts) = Some (r, ts')"
  shows "run_inv cd esz session ts' es \<and> r = Inr (length (epoch es))"
proof -
  obtain ls where ls: "traj_ok cd esz session ts es ls"
    using assms(2) by (auto simp: run_inv_def)
  then have ok: "traj_ok cd esz session (reopened budget ts) es ls"
    by (auto simp: traj_ok_def reopened_def session_ok_def log_bytes_def log_states_new_def)
  from fold_session_ok [OF assms(1) ok refl] obtain s' where
    s': "restore_trajectory cd esz session (reopened budget ts) = Some (Inr (length (epoch es)), (reopened budget ts)\<lparr>ts_states := s'\<rparr>)"
    "ls_bounded s'" "if es = [] then ls_inner s' session = None else held_state esz session es ls s'"
    by (auto simp: restore_trajectory_def)
  then have "ts' = (reopened budget ts)\<lparr>ts_states := s'\<rparr>" "r = Inr (length (epoch es))"
    using assms(3) by simp_all
  then show ?thesis
    using ok s'(2,3) by (auto simp: run_inv_def traj_ok_def)
qed

lemma delta_inv:
  assumes "run_inv cd esz session ts es" "es \<noteq> []" "le_session event = session" "\<not> durable event"
    and "store_append cd io esz event ts = (r, ts')"
  shows "run_inv cd esz session ts' es"
proof -
  obtain ls where ls: "traj_ok cd esz session ts es ls" "held_state esz session es ls (ts_states ts)"
    using assms(1,2) by (auto simp: run_inv_def)
  have ts': "ts' = ts\<lparr>ts_states := note_event esz session event (ts_states ts)\<rparr>"
    using assms(3-5) by (simp add: store_append_def Let_def)
  have "ls_bounded (ts_states ts)"
    using ls(1) by (simp add: traj_ok_def)
  from held_note [OF ls(2) this, of event "[]"] assms(4)
  have "held_state esz session es ls (note_event esz session event (ts_states ts))"
    by simp
  moreover have "traj_ok cd esz session ts' es ls"
    using ls(1) by (simp add: ts' traj_ok_def note_event_def)
  ultimately show ?thesis
    using assms(2) by (auto simp: run_inv_def ts')
qed

lemma run_invariant:
  assumes "traj_run cd esz budget session ts es" "codec_ok cd" "cd_is_delta cd = is_display_delta"
  shows "run_inv cd esz session ts es"
  using assms(1)
proof induction
  case run_new
  show ?case
    by (auto simp: run_inv_def traj_ok_def session_ok_def written_def log_bytes_def chain_verdict_of_def log_states_new_def
        intro!: exI [of _ "[]"])
next
  case (run_record ts es event ts' es')
  then obtain ls where ls: "traj_ok cd esz session ts es ls"
    "if es = [] then ls_inner (ts_states ts) session = None else held_state esz session es ls (ts_states ts)"
    by (auto simp: run_inv_def)
  show ?case
    by (rule appends_inv [OF assms(2,3) ls(1) run_record.hyps(2,3,5)]) (use ls(2) run_record.hyps(4) in \<open>auto split: if_splits\<close>)
next
  case (run_delta ts es event r ts')
  then show ?case
    using delta_inv by blast
next
  case (run_clear ts es event ts' es')
  then obtain ls where "traj_ok cd esz session (reset_trajectory session ts) es ls"
    by (auto simp: run_inv_def traj_ok_reset)
  moreover have "durable event"
    using run_clear.hyps(3) by (cases "le_event event") simp_all
  moreover have "ls_inner (ts_states (reset_trajectory session ts)) session = None"
    by (simp add: reset_trajectory_def states_reset_def)
  ultimately show ?case
    using appends_inv [OF assms(2,3)] run_clear.hyps by blast
next
  case (run_resume ts es r ts')
  then show ?case
    using resume_inv [OF assms(2)] by blast
qed

subsection \<open>A reader of the pages sees the session\<close>

lemma run_readable:
  assumes "codec_ok cd" "run_inv cd esz session ts es" "es \<noteq> []"
  obtains ls where "readable (backend_of cd (ts_log ts)) cd esz session es ls (ts_states ts)"
proof -
  obtain ls where ls: "traj_ok cd esz session ts es ls" "held_state esz session es ls (ts_states ts)"
    using assms(2,3) by (auto simp: run_inv_def)
  then have ok: "written cd es ls" "log_bytes (ss_file (ts_log ts)) = unlines_nl ls"
    by (simp_all add: traj_ok_def session_ok_def)
  then have "ls \<noteq> []"
    using assms(3) by (auto simp: written_def)
  then have "sf_log (ss_file (ts_log ts)) = Some (unlines_nl ls @ [])"
    using ok(2) by (cases ls) (auto simp: log_bytes_def split: option.splits)
  then have "log_of cd (backend_of cd (ts_log ts)) es ls"
    using ls(1) assms(1) by (auto simp: log_of_def file_log_def backend_of_def traj_ok_def session_ok_def log_bytes_def intro!: exI [of _ "[]"])
  then show thesis
    using that [of ls] ls by (simp add: readable_def traj_ok_def)
qed

lemma read_all_empty:
  assumes "codec_ok cd" "run_inv cd esz session ts []"
  shows "\<exists>s'. read_all (store_trajectory_page (backend_of cd (ts_log ts)) cd esz session)
    \<lparr>tw_position = p, tw_done = False\<rparr> [] (ts_states ts) = Some ([], None, s')"
proof -
  obtain ls where ls: "traj_ok cd esz session ts [] ls" "ls_inner (ts_states ts) session = None"
    using assms(2) by (auto simp: run_inv_def)
  obtain s' where "fold_session (backend_of cd (ts_log ts)) cd esz session (ts_states ts) = Some (Inr 0, s')"
    using fold_session_ok [OF assms(1) ls(1) refl] by auto
  then have "store_trajectory_page (backend_of cd (ts_log ts)) cd esz session p PAGE_EVENTS (ts_states ts) =
      Some (Inr (unreadable_position p), s')"
    using ls(2) by (subst store_trajectory_page_def, subst page_walk.simps)
      (simp add: states_page_def unreadable_position_def)
  then show ?thesis
    by (subst read_all.simps) (simp add: pages_next_def unreadable_position_def)
qed



subsection \<open>A session of two records\<close>

lemma written_lines: "written cd es ls \<Longrightarrow> ls = map (the \<circ> cd_ser cd) es"
  by (induction ls arbitrary: es) (auto simp: written_def)

lemma run_append_exists:
  assumes "traj_run cd esz budget session ts es" "codec_ok cd" "cd_is_delta cd = is_display_delta"
    and "le_session event = session" "durable event" "\<not> is_clear (le_event event)" "le_id event \<notin> set (map le_id es)"
    and "prev = (if es = [] then None else Some (hash_line_bytes cd (the (cd_ser cd (last es)))))"
    and "cd_ser cd (event\<lparr>le_prev_hash := prev\<rparr>) = Some l" "length l < MAX_WINDOW_BYTES"
    and "length (unlines_nl (map (the \<circ> cd_ser cd) es @ [l])) < 2 ^ 64"
  shows "\<exists>ts'. traj_run cd esz budget session ts' (es @ [event\<lparr>le_prev_hash := prev\<rparr>])"
proof -
  obtain ls where ls: "traj_ok cd esz session ts es ls"
    "if es = [] then ls_inner (ts_states ts) session = None else held_state esz session es ls (ts_states ts)"
    using run_invariant [OF assms(1-3)] by (auto simp: run_inv_def)
  then have ok: "session_ok cd (ts_log ts) es ls" "length (unlines_nl ls) < 2 ^ 64"
    by (simp_all add: traj_ok_def)
  then have w: "written cd es ls" "log_bytes (ss_file (ts_log ts)) = unlines_nl ls"
    by (simp_all add: session_ok_def)
  have lines: "ls = map (the \<circ> cd_ser cd) es"
    by (rule written_lines [OF w(1)])
  then have prev: "prev = (if ls = [] then None else Some (hash_line_bytes cd (last ls)))"
    using assms(8) by (simp add: last_map)
  have bytes: "length (unlines_nl (ls @ [l])) < 2 ^ 64"
    using assms(11) lines by simp
  obtain s1 where link: "chain_link cd (ts_log ts) = (Inr prev, s1)"
    using chain_link_ok [OF assms(2) ok] prev by blast
  have "held_state esz session es ls (ts_states ts) \<and> \<not> is_clear (le_event event) \<or>
      ls_inner (ts_states ts) session = None \<and> (es = [] \<or> is_clear (le_event event))"
    using ls(2) assms(6) by (auto split: if_splits)
  from store_append_ok [OF assms(2,3) ls(1) assms(4,5,7) prev assms(9,10) bytes this] obtain ts' where
    "store_append cd IO_Ok esz event ts = (Inr (le_id event), ts')"
    by blast
  then have "appends cd esz event ts es ts' (es @ [event\<lparr>le_prev_hash := prev\<rparr>])"
    unfolding appends_def using assms(7,9,10) bytes by (auto simp: link w(2) intro!: exI [of _ l])
  from traj_run.run_record [OF assms(1,4,5,6) this] show ?thesis
    by blast
qed

definition sample_first :: session_entry where
  "sample_first = sample_row ''e1'' (EV_UserInput ''hello'')"

definition sample_second :: session_entry where
  "sample_second = (sample_row ''e2'' (EV_AssistantMessage ''abc'' None))\<lparr>le_prev_hash := Some ''a''\<rparr>"

definition sample_codec :: "session_event codec" where
  "sample_codec = \<lparr>cd_ser = (\<lambda>e. if e = sample_first then Some ''a'' else if e = sample_second then Some ''b'' else None),
     cd_parse = (\<lambda>l. if l = ''a'' then Some sample_first else if l = ''b'' then Some sample_second else None),
     cd_digest = (\<lambda>l. l), cd_is_delta = is_display_delta\<rparr>"

lemma sample_codec_ok: "codec_ok sample_codec" "cd_is_delta sample_codec = is_display_delta"
proof -
  have "utf8_valid ''a''" "utf8_valid ''b''" "NL \<notin> set ''a''" "CR \<notin> set ''a''" "NL \<notin> set ''b''" "CR \<notin> set ''b''"
    by code_simp+
  then show "codec_ok sample_codec" "cd_is_delta sample_codec = is_display_delta"
    by (auto simp: codec_ok_def sample_codec_def split: if_splits)
qed

lemma sample_run: "\<exists>ts. traj_run sample_codec 10 25 ''s'' ts [sample_first, sample_second]"
proof -
  have ser: "cd_ser sample_codec sample_first = Some ''a''" "cd_ser sample_codec sample_second = Some ''b''"
    "sample_first\<lparr>le_prev_hash := None\<rparr> = sample_first" "sample_second\<lparr>le_prev_hash := Some ''a''\<rparr> = sample_second"
    "hash_line_bytes sample_codec ''a'' = ''a''" "sample_second \<noteq> sample_first"
    by (simp_all add: sample_codec_def sample_first_def sample_second_def sample_row_def hash_line_bytes_def)
  obtain ts1 where ts1: "traj_run sample_codec 10 25 ''s'' ts1 [sample_first]"
    using run_append_exists [OF traj_run.run_new sample_codec_ok, where session = "''s''" and esz = 10 and budget = 25
        and event = sample_first and prev = None and l = "''a''"] ser
    by (auto simp: sample_first_def sample_row_def MAX_WINDOW_BYTES_def)
  from run_append_exists [OF ts1 sample_codec_ok, where event = sample_second and prev = "Some ''a''" and l = "''b''"] ser show ?thesis
    by (auto simp: sample_first_def sample_second_def sample_row_def MAX_WINDOW_BYTES_def)
qed



subsection \<open>Records that no window can hold\<close>

text \<open>In a history that was folded from a log with records too wide to read, the rows in memory stay at their own
  ordinals: the count is that of all records, readable or not, and every row a page returns is the record at the ordinal
  the page gives it, so no row slides into the place of an unreadable one.\<close>

lemma restored_ordinals:
  assumes "st = state_of_history (fold (fold_item esz) items (rh_new b off))" "durables (rows_of items) = rows_of items"
  shows "lg_durable_events st = length items \<and> lg_base_index st + length (lg_window st) \<le> length items \<and>
    (\<forall>i limit k. lg_base_index st \<le> i \<longrightarrow> k < length (log_page i limit st) \<longrightarrow> items ! (i + k) = Row (log_page i limit st ! k))"
proof -
  define h where "h = fold (fold_item esz) items (rh_new b off)"
  have "history_ok esz b items h"
    using history_ok_fold [OF history_ok_new, of esz b items off] by (simp add: h_def)
  then obtain pre gap where items: "items = pre @ map Row (rh_window h) @ replicate gap Unread" "rh_base_index h = length pre"
    "rh_rows h = length items"
    by (auto simp: history_ok_def newest_run_ok_def)
  have st: "lg_window st = rh_window h" "lg_base_index st = length pre" "lg_durable_events st = length items"
    using assms(1) items(2,3) by (simp_all add: h_def state_of_history_def)
  have "set (rh_window h) \<subseteq> set (rows_of items)"
    by (subst items(1)) auto
  then have "durables (rh_window h) = rh_window h"
    using assms(2) by (auto simp: filter_id_conv)
  then have page: "log_page i limit st = take limit (drop (i - length pre) (rh_window h))" if "length pre \<le> i" for i limit
    using that by (auto simp: log_page_def st)
  have "items ! (i + k) = Row (log_page i limit st ! k)"
    if i: "length pre \<le> i" and k: "k < length (log_page i limit st)" for i limit k
  proof -
    obtain d where d: "i = length pre + d"
      using i le_Suc_ex by blast
    have "d + k < length (rh_window h)" "k < limit"
      using k unfolding page [OF i] by (auto simp: d)
    then show ?thesis
      unfolding page [OF i] by (subst items(1)) (simp add: d nth_append add.assoc)
  qed
  moreover have "length pre + length (rh_window h) \<le> length items"
    by (subst items(1)) simp
  ultimately show ?thesis
    by (simp add: st)
qed


text \<open>The state that is installed forgets that a gap follows its window: when the newest record of the log is too wide
  and another one is appended after the resume, the window serves it at the ordinal of the unreadable record, and a
  page at its own ordinal is empty although the count includes it.\<close>

lemma append_after_gap_shifts:
  "let st = state_of_history (fold (fold_item 10) [Row sample_first, Unread] (rh_new 1000 (Some 0)));
       st' = log_push 10 1000 True sample_second st
   in lg_durable_events st' = 3 \<and> log_page 1 5 st' = [sample_second] \<and> log_page 2 5 st' = []"
  by code_simp

text \<open>A clear record that arrives through an import does not start an epoch in memory: the process that imported it counts
  the archived records, the one that reads the log back does not.\<close>

lemma import_keeps_cleared_records:
  "let es = [sample_first, sample_row ''e2'' (EV_ContextCleared 1), sample_second]
   in lg_durable_events (fold (log_push 10 1000 True) es (log_state_default\<lparr>lg_epoch_byte_offset := Some 0\<rparr>)) = 3 \<and>
      length (epoch es) = 2"
  by code_simp

text \<open>A read that begins inside a record too wide for a window, and finds its end but no whole line after it, continues
  past the beginning of the next record: that record is passed over and counted as unreadable, although a read from its
  first byte returns it whole.\<close>

lemma readable_record_passed_over:
  assumes "x \<noteq> NL" "y \<noteq> NL" "M = MAX_WINDOW_BYTES" "utf8_valid (replicate (M - 1) y @ [NL])"
    and "bytes = replicate (M + 1) x @ [NL] @ replicate (M - 1) y @ [NL]"
  shows "rr_lines (read_byte_range (Some bytes) M M) = [] \<and> unread_records (read_byte_range (Some bytes) M M) = 1 \<and>
    rr_next_offset (read_byte_range (Some bytes) M M) = 2 * M \<and>
    rr_lines (read_byte_range (Some bytes) (M + 2) M) = [(M + 2, replicate (M - 1) y)]"
proof -
  have M: "2 < M"
    by (simp add: assms(3) MAX_WINDOW_BYTES_def)
  then have "M = Suc (Suc (M - 2))"
    by simp
  then obtain n where n: "M = Suc (Suc n)"
    by blast
  have total: "length bytes = 2 * M + 2"
    using M by (simp add: assms(5))
  have "replicate (M + 1) x = replicate M x @ [x]" "replicate (M - 1) y = replicate n y @ [y]"
    by (simp_all add: n replicate_append_same)
  then have "bytes = replicate M x @ ([x, NL] @ replicate n y) @ [y, NL]"
    by (simp add: assms(5))
  then have buf: "take (min M MAX_WINDOW_BYTES) (drop M bytes) = [x, NL] @ replicate n y"
    by (simp add: assms(3) [symmetric] n)
  have prev: "bytes ! (M - 1) = x"
    using M by (simp add: assms(5) nth_append)
  have no: "window_lines (M + 2) (replicate n y) = []"
    using assms(2) by (intro window_lines_no_newline) simp
  have first: "read_byte_range (Some bytes) M M =
      \<lparr>rr_lines = [], rr_next_offset = M + M, rr_bytes_total = 2 * M + 2, rr_line_breaks = 1\<rparr>"
    using M total prev no assms(1) unfolding read_byte_range_def Let_def option.case buf
    by (simp add: n)
  have buf2: "take (min M MAX_WINDOW_BYTES) (drop (M + 2) bytes) = replicate (M - 1) y @ [NL]"
    by (simp add: assms(3) [symmetric] assms(5) n min_def)
  have lines: "window_lines (M + 2) (replicate (M - 1) y @ [NL]) = [(M + 2, replicate (M - 1) y)]"
    using window_lines_Cons [of "replicate (M - 1) y" "M + 2" "[]"] window_lines_no_newline [of "[]"] assms(2) by simp
  have "bytes ! (M + 2 - 1) = NL"
    by (simp add: assms(5) nth_append)
  then have "rr_lines (read_byte_range (Some bytes) (M + 2) M) = [(M + 2, replicate (M - 1) y)]"
    using read_aligned [of "M + 2" bytes _ M] total M lines assms(4) buf2
    by (simp add: window_text_def complete_span_def assms(3) [symmetric])
  then show ?thesis
    by (simp add: first unread_records_def)
qed

end
