(* ===== verification/Retention.thy ===== *)
theory Retention
  imports Session_Event Utf8 Block_Ref Chain "HOL-Library.List_Lexorder" "HOL-Library.Char_ord"
begin

text \<open>
  How a stored tool result reaches a request (\<open>houyicoder-core/src/agent/context/retention.rs\<close>): whether a later call
  supersedes it, the policy by age, the policy that bounds what one assembly retrieves, and the tier that is applied
  to a marker. A policy is a record of its operations over a state, so that one policy can wrap another; the two calls
  that report a retrieved block (its length and its content) are one operation, as they are always made together.
  Beside it stand the record of the forms each assembly served (\<open>context/cas_views.rs\<close>) and the sizing of the
  budget (\<open>context/budget.rs\<close>). Printing and parsing of JSON, the tokenizer and the block store are arguments. Strings
  are the bytes of their UTF-8 form, so the length of a string is \<^const>\<open>length\<close>.
\<close>

subsection \<open>Supersession\<close>

definition resource_key :: "str \<Rightarrow> json \<Rightarrow> str option" where
  "resource_key tool input =
     (if tool \<in> set [''read'', ''write'', ''edit'', ''multiedit''] then get_str input ''path''
      else if tool = ''bash'' then get_str input ''command''
      else None)"

definition is_mutation :: "str \<Rightarrow> bool" where
  "is_mutation tool = (tool \<in> set [''write'', ''edit'', ''multiedit''])"

record json_io =
  ji_print :: "json \<Rightarrow> str"
  ji_parse :: "str \<Rightarrow> json option"

definition range_field :: "json_io \<Rightarrow> json \<Rightarrow> str \<Rightarrow> str option" where
  "range_field io input key =
     (case json_get input key of
        None \<Rightarrow> None
      | Some JNull \<Rightarrow> None
      | Some (JString s) \<Rightarrow> Some s
      | Some v \<Rightarrow> Some (ji_print io v))"

definition read_range :: "json_io \<Rightarrow> json \<Rightarrow> str option \<times> str option \<times> str option" where
  "read_range io input =
     (range_field io input ''offset'',
      (case range_field io input ''limit'' of Some l \<Rightarrow> Some l | None \<Rightarrow> range_field io input ''context''),
      range_field io input ''max_bytes'')"

definition read_covers :: "json_io \<Rightarrow> json \<Rightarrow> json \<Rightarrow> bool" where
  "read_covers io own_input later_input =
     (let later = read_range io later_input in later = (None, None, None) \<or> later = read_range io own_input)"

fun own_call :: "str \<Rightarrow> session_event list \<Rightarrow> (str \<times> json) option" where
  "own_call call_id [] = None"
| "own_call call_id (EV_ToolCall cid tool input # evs) = (if cid = call_id then Some (tool, input) else own_call call_id evs)"
| "own_call call_id (_ # evs) = own_call call_id evs"

fun result_id :: "session_event \<Rightarrow> str option" where
  "result_id (EV_ToolResult call_id _ _) = Some call_id"
| "result_id _ = None"

fun supersedes :: "json_io \<Rightarrow> str \<Rightarrow> json \<Rightarrow> str \<Rightarrow> str list \<Rightarrow> session_event \<Rightarrow> bool" where
  "supersedes io own_tool own_input key answered (EV_ToolCall later_call tool input) =
     (case resource_key tool input of
        None \<Rightarrow> False
      | Some later_key \<Rightarrow>
          later_key = key \<and>
          (is_mutation tool \<or> (tool = own_tool \<and> (own_tool \<noteq> ''read'' \<or> read_covers io own_input input))) \<and>
          later_call \<in> set answered)"
| "supersedes io own_tool own_input key answered _ = False"

definition superseded_by_later :: "json_io \<Rightarrow> session_event list \<Rightarrow> nat \<Rightarrow> bool" where
  "superseded_by_later io evs i =
     (case result_id (evs ! i) of
        None \<Rightarrow> False
      | Some call_id \<Rightarrow>
          (case own_call call_id (rev (take i evs)) of
             None \<Rightarrow> False
           | Some (own_tool, own_input) \<Rightarrow>
               (case resource_key own_tool own_input of
                  None \<Rightarrow> False
                | Some key \<Rightarrow>
                    list_ex (supersedes io own_tool own_input key (List.map_filter result_id (drop (Suc i) evs)))
                      (drop (Suc i) evs))))"

subsection \<open>The forms an assembly served\<close>

text \<open>A \<open>BTreeMap\<close> is its list of entries in key order.\<close>

fun bt_insert :: "'k::linorder \<Rightarrow> 'v \<Rightarrow> ('k \<times> 'v) list \<Rightarrow> ('k \<times> 'v) list" where
  "bt_insert k v [] = [(k, v)]"
| "bt_insert k v ((k', v') # kvs) =
     (if k < k' then (k, v) # (k', v') # kvs else if k = k' then (k, v) # kvs else (k', v') # bt_insert k v kvs)"

record cas_view_state =
  cv_estimate_unit :: str
  cv_views :: "(nat \<times> (str \<times> cached_model_view) list) list"

definition cas_views_new :: "str \<Rightarrow> cas_view_state" where
  "cas_views_new estimate_unit = \<lparr>cv_estimate_unit = estimate_unit, cv_views = []\<rparr>"

definition view_record :: "nat \<Rightarrow> str \<Rightarrow> view_form \<Rightarrow> nat \<Rightarrow> cas_view_state \<Rightarrow> cas_view_state" where
  "view_record assembly_id block_ref form sz st =
     (let per_block = (case map_of (cv_views st) assembly_id of None \<Rightarrow> [] | Some m \<Rightarrow> m);
          view = \<lparr>cm_block_ref = block_ref, cm_form = form, cm_size = of_nat sz\<rparr>
      in st\<lparr>cv_views := bt_insert assembly_id (bt_insert block_ref view per_block) (cv_views st)\<rparr>)"

definition view_take :: "cas_view_state \<Rightarrow> (nat \<times> cached_model_view list) list \<times> cas_view_state" where
  "view_take st = (map (\<lambda>(assembly_id, per_block). (assembly_id, map snd per_block)) (cv_views st), st\<lparr>cv_views := []\<rparr>)"

subsection \<open>Decisions and policies\<close>

datatype retention_decision = RD_Materialize | RD_Summarize | RD_Evict

definition decision_label :: "retention_decision \<Rightarrow> str" where
  "decision_label d = (case d of RD_Materialize \<Rightarrow> ''materialize'' | RD_Summarize \<Rightarrow> ''summarize'' | RD_Evict \<Rightarrow> ''evict'')"

definition decision_from_label :: "str \<Rightarrow> retention_decision option" where
  "decision_from_label label =
     (if label = ''materialize'' then Some RD_Materialize else if label = ''summarize'' then Some RD_Summarize
      else if label = ''evict'' then Some RD_Evict else None)"

record assembly_scope =
  sc_id :: nat
  sc_mutating :: bool

record retention_context =
  rx_age_in_turns :: nat
  rx_is_superseded :: bool
  rx_block_ref :: "str option"
  rx_stored_bytes :: "nat option"
  rx_logged_result_tokens :: "nat option"
  rx_assembly_id :: nat
  rx_mutating :: bool

definition TURN_RESULT_BUDGET_CAP_TOKENS :: nat where
  "TURN_RESULT_BUDGET_CAP_TOKENS = 8192"

record 'p retention_policy =
  rp_decide :: "retention_context \<Rightarrow> 'p \<Rightarrow> retention_decision \<times> 'p"
  rp_materialized :: "str \<Rightarrow> str \<Rightarrow> 'p \<Rightarrow> 'p"
  rp_set_turn_budget :: "nat \<Rightarrow> 'p \<Rightarrow> 'p"
  rp_shell_history_budget :: "'p \<Rightarrow> nat"
  rp_count_tokens :: "str \<Rightarrow> nat"
  rp_charge_assembly_tokens :: "nat \<Rightarrow> nat \<Rightarrow> 'p \<Rightarrow> 'p"
  rp_cas_views :: "'p \<Rightarrow> cas_view_state option"
  rp_put_views :: "cas_view_state \<Rightarrow> 'p \<Rightarrow> 'p"

record age_retention =
  ag_materialize_turns :: nat
  ag_summarize_turns :: nat

definition age_default :: age_retention where
  "age_default = \<lparr>ag_materialize_turns = 2, ag_summarize_turns = 6\<rparr>"

definition age_decide :: "age_retention \<Rightarrow> retention_context \<Rightarrow> retention_decision" where
  "age_decide a ctx =
     (if rx_is_superseded ctx then RD_Evict
      else if rx_age_in_turns ctx < ag_materialize_turns a then RD_Materialize
      else if rx_age_in_turns ctx < ag_summarize_turns a then RD_Summarize
      else RD_Evict)"

definition age_policy :: "age_retention \<Rightarrow> unit retention_policy" where
  "age_policy a =
     \<lparr>rp_decide = (\<lambda>ctx p. (age_decide a ctx, p)), rp_materialized = (\<lambda>_ _ p. p),
      rp_set_turn_budget = (\<lambda>_ p. p), rp_shell_history_budget = (\<lambda>_. TURN_RESULT_BUDGET_CAP_TOKENS), rp_count_tokens = length,
      rp_charge_assembly_tokens = (\<lambda>_ _ p. p), rp_cas_views = (\<lambda>_. None), rp_put_views = (\<lambda>_ p. p)\<rparr>"

text \<open>The counters of the bounding policy and the state of the policy it wraps.\<close>

record 'p budgeted =
  bg_inner :: 'p
  bg_budget_tokens :: nat
  bg_accumulated :: nat
  bg_charged :: nat
  bg_assembly :: nat
  bg_cas_views :: "cas_view_state option"

definition budgeted_new :: "'p \<Rightarrow> 'p budgeted" where
  "budgeted_new inner = \<lparr>bg_inner = inner, bg_budget_tokens = TURN_RESULT_BUDGET_CAP_TOKENS, bg_accumulated = 0,
     bg_charged = 0, bg_assembly = 2 ^ 64 - 1, bg_cas_views = None\<rparr>"

definition set_cas_views :: "cas_view_state \<Rightarrow> 'p budgeted \<Rightarrow> 'p budgeted" where
  "set_cas_views views s = s\<lparr>bg_cas_views := Some views\<rparr>"

definition start_assembly :: "nat \<Rightarrow> 'p budgeted \<Rightarrow> 'p budgeted" where
  "start_assembly assembly_id s =
     (if bg_assembly s \<noteq> assembly_id then s\<lparr>bg_assembly := assembly_id, bg_accumulated := 0, bg_charged := 0\<rparr> else s)"

definition release_charge :: "nat \<Rightarrow> 'p budgeted \<Rightarrow> 'p budgeted" where
  "release_charge tokens s = s\<lparr>bg_charged := bg_charged s - tokens\<rparr>"

definition budgeted_decide ::
  "'p retention_policy \<Rightarrow> retention_context \<Rightarrow> 'p budgeted \<Rightarrow> retention_decision \<times> 'p budgeted" where
  "budgeted_decide inner ctx s =
     (case rp_decide inner ctx (bg_inner s) of
        (decision, p) \<Rightarrow>
          let s0 = s\<lparr>bg_inner := p\<rparr> in
          if decision = RD_Materialize
          then let s1 = start_assembly (rx_assembly_id ctx) s0;
                   replaced = (case rx_logged_result_tokens ctx of None \<Rightarrow> 0 | Some t \<Rightarrow> t);
                   estimated = (bg_accumulated s1 + (bg_charged s1 - replaced) +
                     (case rx_stored_bytes ctx of None \<Rightarrow> 0 | Some b \<Rightarrow> b)) mod 2 ^ 64
               in if bg_budget_tokens s1 \<le> estimated then (RD_Summarize, s1) else (decision, release_charge replaced s1)
          else (decision, s0))"

definition budgeted_materialized ::
  "'p retention_policy \<Rightarrow> (str \<Rightarrow> nat) \<Rightarrow> str \<Rightarrow> str \<Rightarrow> 'p budgeted \<Rightarrow> 'p budgeted" where
  "budgeted_materialized inner count block_ref content s =
     s\<lparr>bg_inner := rp_materialized inner block_ref content (bg_inner s),
       bg_accumulated := (bg_accumulated s + (if utf8_valid content then count content else length content)) mod 2 ^ 64\<rparr>"

definition set_turn_budget :: "nat \<Rightarrow> 'p budgeted \<Rightarrow> 'p budgeted" where
  "set_turn_budget tokens s = s\<lparr>bg_budget_tokens := tokens\<rparr>"

definition budgeted_charge :: "nat \<Rightarrow> nat \<Rightarrow> 'p budgeted \<Rightarrow> 'p budgeted" where
  "budgeted_charge assembly_id tokens s = (start_assembly assembly_id s)\<lparr>bg_charged := tokens\<rparr>"

definition budgeted_policy :: "'p retention_policy \<Rightarrow> (str \<Rightarrow> nat) \<Rightarrow> 'p budgeted retention_policy" where
  "budgeted_policy inner count =
     \<lparr>rp_decide = budgeted_decide inner, rp_materialized = budgeted_materialized inner count,
      rp_set_turn_budget = set_turn_budget, rp_shell_history_budget = bg_budget_tokens, rp_count_tokens = count,
      rp_charge_assembly_tokens = budgeted_charge, rp_cas_views = bg_cas_views, rp_put_views = set_cas_views\<rparr>"

text \<open>The sizing of the budget; \<open>static_overhead\<close> is what the last measurement gives for the system prompt and the tools.\<close>

definition model_window_output_cap :: "nat \<Rightarrow> nat" where
  "model_window_output_cap window = max 4096 (min (window div 4) 32768)"

definition turn_budget :: "nat \<Rightarrow> nat \<Rightarrow> nat" where
  "turn_budget window static_overhead =
     (let reserve = min (model_window_output_cap window + window div 4) (2 ^ 32 - 1);
          w = window - static_overhead - reserve
      in min (w div 10) TURN_RESULT_BUDGET_CAP_TOKENS)"

definition push_turn_budget :: "'p retention_policy \<Rightarrow> nat \<Rightarrow> (nat \<times> nat) option \<Rightarrow> 'p \<Rightarrow> 'p" where
  "push_turn_budget pol window measured p =
     (if window = 0 then p
      else rp_set_turn_budget pol
             (turn_budget window
                (case measured of None \<Rightarrow> 0 | Some (system_prompt, tools) \<Rightarrow> min (system_prompt + tools) (2 ^ 32 - 1))) p)"

subsection \<open>Serving a marker\<close>

definition PREVIEW_KEY :: str where
  "PREVIEW_KEY = ''preview''"

definition HINT_KEY :: str where
  "HINT_KEY = ''hint''"

definition unavailable_marker :: "str \<Rightarrow> str \<Rightarrow> json" where
  "unavailable_marker hash reason =
     JObject [(BLOCK_REF_KEY, JString hash), (''unavailable'', JBool True), (''reason'', JString reason),
       (HINT_KEY, JString ''large output unavailable; its stored content could not be read'')]"

definition summarized_marker :: "str \<Rightarrow> json \<Rightarrow> json" where
  "summarized_marker hash preview =
     JObject [(''summarized'', JBool True), (PREVIEW_KEY, preview), (BLOCK_REF_KEY, JString hash),
       (HINT_KEY, JString ''large output summarized; search the conversation to read it'')]"

definition evicted_marker :: "str \<Rightarrow> json" where
  "evicted_marker hash =
     JObject [(BLOCK_REF_KEY, JString hash), (''evicted'', JBool True),
       (HINT_KEY, JString ''large output left out of this request; search the conversation to read it'')]"

type_synonym blocks = "str \<Rightarrow> context_error + str"

definition view_size :: "json_io \<Rightarrow> 'p retention_policy \<Rightarrow> bool \<Rightarrow> json \<Rightarrow> nat" where
  "view_size io pol recording v = (if recording then rp_count_tokens pol (ji_print io v) else 0)"

definition corrupt_reason :: str where
  "corrupt_reason = ''block content corrupt or unreadable''"

definition materialized_view ::
  "json_io \<Rightarrow> blocks \<Rightarrow> 'p retention_policy \<Rightarrow> bool \<Rightarrow> str \<Rightarrow> 'p \<Rightarrow> json \<times> view_form \<times> nat \<times> 'p" where
  "materialized_view io get pol recording hash p =
     (let unavailable = (\<lambda>reason. let v = unavailable_marker hash reason in (v, VF_Unavailable, view_size io pol recording v, p)) in
      case get hash of
        Inl (CE_Corrupt _) \<Rightarrow> unavailable corrupt_reason
      | Inl _ \<Rightarrow> unavailable ''block_get failed; the stored content could not be read''
      | Inr bytes \<Rightarrow>
          (case ji_parse io bytes of
             None \<Rightarrow> unavailable corrupt_reason
           | Some v \<Rightarrow>
               (v, VF_Materialize,
                if recording then (if utf8_valid bytes then rp_count_tokens pol bytes else length bytes) else 0,
                rp_materialized pol hash bytes p)))"

definition serve ::
  "json_io \<Rightarrow> blocks \<Rightarrow> 'p retention_policy \<Rightarrow> bool \<Rightarrow> str \<Rightarrow> json \<Rightarrow> retention_decision \<Rightarrow> 'p \<Rightarrow> json \<times> view_form \<times> nat \<times> 'p" where
  "serve io get pol recording hash marker decision p =
     (case decision of
        RD_Materialize \<Rightarrow> materialized_view io get pol recording hash p
      | RD_Summarize \<Rightarrow>
          (case json_get marker PREVIEW_KEY of
             Some preview \<Rightarrow> let v = summarized_marker hash preview in (v, VF_Summarize, view_size io pol recording v, p)
           | None \<Rightarrow> (marker, VF_Evict, view_size io pol recording marker, p))
      | RD_Evict \<Rightarrow> let v = evicted_marker hash in (v, VF_Evict, view_size io pol recording v, p))"

definition apply_tier ::
  "json_io \<Rightarrow> blocks option \<Rightarrow> 'p retention_policy \<Rightarrow> str \<Rightarrow> json \<Rightarrow> retention_context \<Rightarrow> 'p \<Rightarrow> json \<times> 'p" where
  "apply_tier io backend pol hash marker ctx0 p =
     (case backend of
        None \<Rightarrow> (marker, p)
      | Some get \<Rightarrow>
          let ctx = ctx0\<lparr>rx_block_ref := Some hash, rx_stored_bytes := Option.bind (json_get marker BLOCK_BYTES_KEY) as_u64\<rparr>;
              recording = (rx_mutating ctx \<and> rp_cas_views pol p \<noteq> None)
          in case rp_decide pol ctx p of
               (decision, p1) \<Rightarrow>
                 (case serve io get pol recording hash marker decision p1 of
                    (v, form, sz, p2) \<Rightarrow>
                      (v, (case rp_cas_views pol p2 of
                             Some views \<Rightarrow>
                               if recording then rp_put_views pol (view_record (rx_assembly_id ctx) hash form sz views) p2
                               else p2
                           | None \<Rightarrow> p2))))"

fun marked_field :: "(str \<times> json) list \<Rightarrow> (str \<times> str \<times> json) option" where
  "marked_field [] = None"
| "marked_field ((k, v) # kvs) =
     (case get_str v BLOCK_REF_KEY of Some hash \<Rightarrow> Some (k, hash, v) | None \<Rightarrow> marked_field kvs)"

definition materialize_block ::
  "json_io \<Rightarrow> blocks option \<Rightarrow> 'p retention_policy \<Rightarrow> json \<Rightarrow> retention_context \<Rightarrow> 'p \<Rightarrow> json \<times> 'p" where
  "materialize_block io backend pol out ctx p =
     (case get_str out BLOCK_REF_KEY of
        Some hash \<Rightarrow> apply_tier io backend pol hash out ctx p
      | None \<Rightarrow>
          (case out of
             JObject kvs \<Rightarrow>
               (case marked_field kvs of
                  Some (k, hash, marker) \<Rightarrow>
                    (case apply_tier io backend pol hash marker ctx p of
                       (v, p') \<Rightarrow> (JObject (map (\<lambda>(k', v'). (k', if k' = k then v else v')) kvs), p'))
                | None \<Rightarrow> (out, p))
           | _ \<Rightarrow> (out, p)))"

subsection \<open>Facts about the record of served forms\<close>

lemma map_of_bt_insert [simp]: "map_of (bt_insert k v m) = (map_of m)(k \<mapsto> v)"
  by (induction k v m rule: bt_insert.induct) (auto simp: fun_eq_iff)

lemma bt_insert_keys [simp]: "fst ` set (bt_insert k v m) = insert k (fst ` set m)"
  by (induction k v m rule: bt_insert.induct) auto

definition in_key_order :: "('k::linorder \<times> 'v) list \<Rightarrow> bool" where
  "in_key_order m = sorted_wrt (<) (map fst m)"

lemma bt_insert_order: "in_key_order m \<Longrightarrow> in_key_order (bt_insert k v m)"
  unfolding in_key_order_def
proof (induction k v m rule: bt_insert.induct)
  case (2 k v k' v' kvs)
  have keys: "set (map fst (bt_insert k v kvs)) = insert k (set (map fst kvs))" by simp
  show ?case
  proof (cases "k < k'")
    case False
    then show ?thesis using 2 keys by (cases "k = k'") (auto simp del: map_of_bt_insert)
  qed (use 2 in auto)
qed simp

definition views_wf :: "cas_view_state \<Rightarrow> bool" where
  "views_wf st \<longleftrightarrow> in_key_order (cv_views st) \<and>
     (\<forall>(assembly_id, per_block) \<in> set (cv_views st). in_key_order per_block \<and>
        (\<forall>(block_ref, view) \<in> set per_block. cm_block_ref view = block_ref))"

lemma in_order_map_of: "in_key_order m \<Longrightarrow> (k, v) \<in> set m \<longleftrightarrow> map_of m k = Some v"
  unfolding in_key_order_def by (simp add: strict_sorted_iff)

lemma set_bt_insert: "set (bt_insert k v m) \<subseteq> insert (k, v) (set m)"
  by (induction k v m rule: bt_insert.induct) auto

lemma view_record_wf: "views_wf st \<Longrightarrow> views_wf (view_record assembly_id block_ref form sz st)"
proof -
  assume wf: "views_wf st"
  let ?per = "case map_of (cv_views st) assembly_id of None \<Rightarrow> [] | Some m \<Rightarrow> m"
  have per: "in_key_order ?per \<and> (\<forall>(r, view) \<in> set ?per. cm_block_ref view = r)"
    using wf by (cases "map_of (cv_views st) assembly_id") (auto simp: views_wf_def in_key_order_def dest!: map_of_SomeD)
  define per where "per = bt_insert block_ref \<lparr>cm_block_ref = block_ref, cm_form = form, cm_size = of_nat sz\<rparr> ?per"
  have new: "in_key_order per \<and> (\<forall>(r, view) \<in> set per. cm_block_ref view = r)"
    using per bt_insert_order set_bt_insert[of block_ref _ ?per] unfolding per_def by fastforce
  have views: "cv_views (view_record assembly_id block_ref form sz st) = bt_insert assembly_id per (cv_views st)"
    unfolding view_record_def per_def by (simp add: Let_def)
  show ?thesis
    using wf new set_bt_insert[of assembly_id per "cv_views st"] unfolding views_wf_def views
    by (blast intro: bt_insert_order)
qed

subsection \<open>The budget of an assembly\<close>

definition within_budget :: "nat \<Rightarrow> 'p budgeted \<Rightarrow> bool" where
  "within_budget B s \<longleftrightarrow> bg_budget_tokens s = B \<and> B < 2 ^ 32 \<and> bg_accumulated s + bg_charged s \<le> B"

text \<open>A marker whose stored length covers the block it names.\<close>

definition truthful_marker :: "blocks \<Rightarrow> str \<Rightarrow> json \<Rightarrow> bool" where
  "truthful_marker get hash marker =
     (case Option.bind (json_get marker BLOCK_BYTES_KEY) as_u64 of
        None \<Rightarrow> False
      | Some n \<Rightarrow> n < 2 ^ 63 \<and> (case get hash of Inl _ \<Rightarrow> True | Inr bytes \<Rightarrow> length bytes \<le> n))"

lemma start_assembly_within: "within_budget B s \<Longrightarrow> within_budget B (start_assembly a s)"
  unfolding within_budget_def start_assembly_def by simp

lemma start_assembly_budget [simp]: "bg_budget_tokens (start_assembly a s) = bg_budget_tokens s"
  unfolding start_assembly_def by simp

lemma budgeted_decide_within:
  assumes "within_budget B s" and "rx_stored_bytes ctx = Some n" and "n < 2 ^ 63"
    and dec: "budgeted_decide inner ctx s = (d, s')"
  shows "within_budget B s' \<and> (d = RD_Materialize \<longrightarrow> bg_accumulated s' + bg_charged s' + n < B)"
proof -
  obtain d0 p where inner: "rp_decide inner ctx (bg_inner s) = (d0, p)" by fastforce
  define s1 where "s1 = start_assembly (rx_assembly_id ctx) (s\<lparr>bg_inner := p\<rparr>)"
  have w0: "within_budget B (s\<lparr>bg_inner := p\<rparr>)" using assms(1) by (simp add: within_budget_def)
  have w1: "within_budget B s1" unfolding s1_def by (rule start_assembly_within[OF w0])
  have b1: "bg_budget_tokens s1 = bg_budget_tokens s" by (simp add: s1_def)
  have fits: "bg_accumulated s1 + (bg_charged s1 - r) + n < 2 ^ 64" for r
    using w1 assms(3) unfolding within_budget_def by auto
  show ?thesis
    using dec inner w0 w1 b1 assms(2) fits
    by (auto simp: budgeted_decide_def s1_def[symmetric] Let_def within_budget_def release_charge_def split: if_splits)
qed

lemma budgeted_materialized_within:
  assumes "bg_accumulated s + bg_charged s + n < B" and "bg_budget_tokens s = B \<and> B < 2 ^ 32"
    and "length content \<le> n" and "count content \<le> length content"
  shows "within_budget B (budgeted_materialized inner count hash content s)"
  using assms unfolding within_budget_def budgeted_materialized_def by simp

lemma budgeted_policy_sel [simp]:
  "rp_decide (budgeted_policy inner count) = budgeted_decide inner"
  "rp_materialized (budgeted_policy inner count) = budgeted_materialized inner count"
  "rp_set_turn_budget (budgeted_policy inner count) = set_turn_budget"
  "rp_shell_history_budget (budgeted_policy inner count) = bg_budget_tokens"
  "rp_count_tokens (budgeted_policy inner count) = count"
  "rp_charge_assembly_tokens (budgeted_policy inner count) = budgeted_charge"
  "rp_cas_views (budgeted_policy inner count) = bg_cas_views"
  "rp_put_views (budgeted_policy inner count) = set_cas_views"
  by (simp_all add: budgeted_policy_def)

lemma set_cas_views_within [simp]: "within_budget B (set_cas_views v s) = within_budget B s"
  by (simp add: within_budget_def set_cas_views_def)

lemma materialized_view_within:
  assumes "bg_accumulated s + bg_charged s + n < B" and "bg_budget_tokens s = B \<and> B < 2 ^ 32"
    and "\<And>t. count t \<le> length t" and "\<And>bytes. get hash = Inr bytes \<Longrightarrow> length bytes \<le> n"
  shows "within_budget B (snd (snd (snd (materialized_view io get (budgeted_policy inner count) recording hash s))))"
proof -
  have "within_budget B s" using assms(1,2) by (simp add: within_budget_def)
  moreover have "within_budget B (budgeted_materialized inner count hash bytes s)" if "get hash = Inr bytes" for bytes
    using budgeted_materialized_within[OF assms(1,2), where content = bytes and count = count] assms(3)[of bytes] assms(4)[OF that]
    by blast
  ultimately show ?thesis
    by (simp add: materialized_view_def Let_def split: sum.splits option.splits context_error.splits)
qed

lemma serve_within:
  assumes "within_budget B s" and "d = RD_Materialize \<longrightarrow> bg_accumulated s + bg_charged s + n < B"
    and "\<And>t. count t \<le> length t" and "\<And>bytes. get hash = Inr bytes \<Longrightarrow> length bytes \<le> n"
    and "serve io get (budgeted_policy inner count) recording hash marker d s = (v, form, sz, s')"
  shows "within_budget B s'"
proof (cases d)
  case RD_Materialize
  have "bg_budget_tokens s = B \<and> B < 2 ^ 32" using assms(1) by (simp add: within_budget_def)
  then show ?thesis
    using materialized_view_within[where inner = inner and io = io and recording = recording and count = count and get = get
        and hash = hash and s = s and n = n and B = B] assms RD_Materialize
    by (simp add: serve_def)
qed (use assms(1,5) in \<open>auto simp: serve_def Let_def split: option.splits\<close>)

lemma apply_tier_within:
  assumes "within_budget B s" and "\<And>t. count t \<le> length t"
    and "\<And>get. backend = Some get \<Longrightarrow> truthful_marker get hash marker"
  shows "within_budget B (snd (apply_tier io backend (budgeted_policy inner count) hash marker ctx s))"
proof (cases backend)
  case (Some get)
  obtain n where n: "Option.bind (json_get marker BLOCK_BYTES_KEY) as_u64 = Some n" "n < 2 ^ 63"
      "\<And>bytes. get hash = Inr bytes \<Longrightarrow> length bytes \<le> n"
    using assms(3)[OF Some] unfolding truthful_marker_def by (cases "Option.bind (json_get marker BLOCK_BYTES_KEY) as_u64") (auto split: sum.splits)
  define ctx' where "ctx' = ctx\<lparr>rx_block_ref := Some hash, rx_stored_bytes := Some n\<rparr>"
  define recording where "recording = (rx_mutating ctx' \<and> (\<exists>y. bg_cas_views s = Some y))"
  obtain d s1 where dec: "budgeted_decide inner ctx' s = (d, s1)" by fastforce
  obtain v form sz s2 where served: "serve io get (budgeted_policy inner count) recording hash marker d s1 = (v, form, sz, s2)"
    by (metis prod_cases4)
  have d1: "within_budget B s1 \<and> (d = RD_Materialize \<longrightarrow> bg_accumulated s1 + bg_charged s1 + n < B)"
    using budgeted_decide_within[OF assms(1) _ n(2) dec] by (auto simp: ctx'_def)
  have "within_budget B s2" by (rule serve_within[OF _ _ assms(2) n(3) served]) (use d1 in auto)
  then show ?thesis
    using Some n(1) dec served
    by (simp add: apply_tier_def Let_def ctx'_def[symmetric] recording_def[symmetric] split: option.splits)
qed (use assms(1) in \<open>simp add: apply_tier_def\<close>)

definition markers_truthful :: "blocks option \<Rightarrow> json \<Rightarrow> bool" where
  "markers_truthful backend out =
     (case backend of
        None \<Rightarrow> True
      | Some get \<Rightarrow>
          (case get_str out BLOCK_REF_KEY of
             Some hash \<Rightarrow> truthful_marker get hash out
           | None \<Rightarrow>
               (case out of
                  JObject kvs \<Rightarrow> (case marked_field kvs of None \<Rightarrow> True | Some (_, hash, marker) \<Rightarrow> truthful_marker get hash marker)
                | _ \<Rightarrow> True)))"

lemma materialize_block_within:
  assumes "within_budget B s" and "\<And>t. count t \<le> length t" and "markers_truthful backend out"
  shows "within_budget B (snd (materialize_block io backend (budgeted_policy inner count) out ctx s))"
proof -
  have tier: "within_budget B (snd (apply_tier io backend (budgeted_policy inner count) hash marker ctx s))"
    if "\<And>get. backend = Some get \<Longrightarrow> truthful_marker get hash marker" for hash marker
    by (rule apply_tier_within[OF assms(1,2) that])
  show ?thesis
  proof (cases "get_str out BLOCK_REF_KEY")
    case (Some hash)
    then show ?thesis using tier[of hash out] assms(3) by (cases backend) (simp_all add: materialize_block_def markers_truthful_def)
  next
    case None
    show ?thesis
    proof (cases "\<exists>kvs k hash marker. out = JObject kvs \<and> marked_field kvs = Some (k, hash, marker)")
      case True
      then obtain kvs k hash marker where out: "out = JObject kvs" "marked_field kvs = Some (k, hash, marker)" by blast
      then have "within_budget B (snd (apply_tier io backend (budgeted_policy inner count) hash marker ctx s))"
        using tier[of hash marker] assms(3) None by (cases backend) (simp_all add: markers_truthful_def)
      then show ?thesis using None out by (simp add: materialize_block_def case_prod_beta)
    qed (use None assms(1) in \<open>auto simp: materialize_block_def split: json.splits option.splits\<close>)
  qed
qed

text \<open>
  A second assembly with the same id, a continuation or a measurement of the same turn, finds what the first one
  retrieved still counted: a block of more than half the budget that the first assembly retrieved is demoted to its
  preview by the second. The charge for logged text is replaced, the count of retrieved text is not.
\<close>

theorem second_assembly_spends_again:
  assumes "rp_decide inner ctx (bg_inner s) = (RD_Materialize, p)"
    and "rp_decide inner ctx (rp_materialized inner h content p) = (RD_Materialize, p')"
    and "rx_stored_bytes ctx = Some n" and "rx_logged_result_tokens ctx = None" and "bg_assembly s \<noteq> rx_assembly_id ctx"
    and "utf8_valid content" and "count content = n"
    and "n < bg_budget_tokens s" and "bg_budget_tokens s \<le> 2 * n" and "bg_budget_tokens s < 2 ^ 32"
  shows "fst (budgeted_decide inner ctx s) = RD_Materialize \<and>
    fst (budgeted_decide inner ctx
      (budgeted_charge (rx_assembly_id ctx) 0
        (budgeted_materialized inner count h content (snd (budgeted_decide inner ctx s))))) = RD_Summarize"
  using assms by (simp add: budgeted_decide_def start_assembly_def release_charge_def budgeted_materialized_def
      budgeted_charge_def Let_def)

end
