(* ===== verification/Cache_Liveness.thy ===== *)
theory Cache_Liveness
  imports Retention "HOL-Library.AList" "HOL-Library.Multiset"
begin

text \<open>
  The decisions a session holds per block while the provider reports cache reads
  (\<open>houyicoder-core/src/agent/context/cache_liveness.rs\<close> and \<open>cache_liveness/state.rs\<close>). The atomics and the state
  behind the lock are one record; the branches for a poisoned lock are left out. The map of decisions is a list of
  entries with distinct keys.
\<close>

subsection \<open>State\<close>

definition BATCH_DEMOTE_MIN_BLOCKS :: nat where
  "BATCH_DEMOTE_MIN_BLOCKS = 4"

definition BATCH_DEMOTE_MIN_BYTES :: nat where
  "BATCH_DEMOTE_MIN_BYTES = 64 * 1024"

definition PRUNE_AFTER_ASSEMBLIES :: nat where
  "PRUNE_AFTER_ASSEMBLIES = 2"

record held_decision =
  hl_generation :: nat
  hl_decision :: retention_decision
  hl_last_age :: nat
  hl_bytes :: "nat option"
  hl_last_seen_assembly :: nat

datatype recompute = RC_None | RC_All | RC_OverAge

record cached_prefix =
  cp_generation :: nat
  cp_last_completion_ts :: nat
  cp_last_cache_read_tokens :: nat
  cp_decisions :: "(str \<times> held_decision) list"
  cp_pending :: recompute
  cp_dead_band :: bool
  cp_alive :: bool
  cp_last_assembly :: "nat option"
  cp_dirty :: bool
  cp_prefix_changed :: bool
  cp_retention_demoted :: bool

definition cached_prefix_new :: cached_prefix where
  "cached_prefix_new =
     \<lparr>cp_generation = 0, cp_last_completion_ts = 0, cp_last_cache_read_tokens = 0, cp_decisions = [], cp_pending = RC_None,
      cp_dead_band = False, cp_alive = False, cp_last_assembly = None, cp_dirty = False, cp_prefix_changed = False,
      cp_retention_demoted = False\<rparr>"

subsection \<open>Turns\<close>

definition collapsed :: "nat \<Rightarrow> nat \<Rightarrow> bool" where
  "collapsed previous cache_read_tokens \<longleftrightarrow>
     0 < previous \<and> (cache_read_tokens = 0 \<or> cache_read_tokens < previous div 2)"

definition record_turn :: "nat \<Rightarrow> nat \<Rightarrow> cached_prefix \<Rightarrow> cached_prefix" where
  "record_turn now_ms cache_read_tokens s =
     (let previous = cp_last_cache_read_tokens s;
          s1 = s\<lparr>cp_last_cache_read_tokens := cache_read_tokens, cp_last_completion_ts := now_ms, cp_prefix_changed := False\<rparr>
      in if collapsed previous cache_read_tokens \<and> (cache_read_tokens = 0 \<or> \<not> cp_prefix_changed s)
         then s1\<lparr>cp_pending := RC_All\<rparr>
         else if 0 < cache_read_tokens
         then s1\<lparr>cp_dead_band := False, cp_pending := (if cp_pending s = RC_All then RC_None else cp_pending s)\<rparr>
         else s1)"

definition seed_turn :: "nat \<Rightarrow> nat option \<Rightarrow> cached_prefix \<Rightarrow> cached_prefix" where
  "seed_turn now_ms cache_read_tokens s =
     (let s1 = s\<lparr>cp_last_completion_ts := now_ms\<rparr>;
          s2 = (case cache_read_tokens of None \<Rightarrow> s1 | Some tokens \<Rightarrow> s1\<lparr>cp_last_cache_read_tokens := tokens\<rparr>)
      in s2\<lparr>cp_pending := RC_None, cp_dead_band := False\<rparr>)"

definition touch_timestamp :: "nat \<Rightarrow> cached_prefix \<Rightarrow> cached_prefix" where
  "touch_timestamp now_ms s = s\<lparr>cp_last_completion_ts := now_ms\<rparr>"

definition cache_live :: "cached_prefix \<Rightarrow> bool" where
  "cache_live s = (0 < cp_last_cache_read_tokens s)"

definition clear_decisions :: "cached_prefix \<Rightarrow> cached_prefix" where
  "clear_decisions s =
     s\<lparr>cp_decisions := [], cp_pending := RC_None, cp_dead_band := False, cp_alive := False, cp_dirty := False,
       cp_prefix_changed := False, cp_retention_demoted := False\<rparr>"

definition invalidate :: "cached_prefix \<Rightarrow> cached_prefix" where
  "invalidate s =
     s\<lparr>cp_generation := (cp_generation s + 1) mod 2 ^ 64, cp_last_cache_read_tokens := 0, cp_decisions := [],
       cp_pending := RC_None, cp_dead_band := False, cp_alive := False, cp_dirty := False, cp_prefix_changed := False,
       cp_retention_demoted := False\<rparr>"

definition clear_retention_demoted :: "cached_prefix \<Rightarrow> cached_prefix" where
  "clear_retention_demoted s = s\<lparr>cp_retention_demoted := False\<rparr>"

text \<open>What a completed turn reports: the cache read, when the provider names one.\<close>

definition record_turn_cache :: "nat \<Rightarrow> nat option \<Rightarrow> cached_prefix \<Rightarrow> cached_prefix" where
  "record_turn_cache now_ms reported s =
     (case reported of
        Some cache_read \<Rightarrow> clear_retention_demoted (record_turn now_ms cache_read s)
      | None \<Rightarrow> touch_timestamp now_ms s)"

subsection \<open>Assemblies\<close>

definition retain :: "(held_decision \<Rightarrow> bool) \<Rightarrow> (str \<times> held_decision) list \<Rightarrow> (str \<times> held_decision) list" where
  "retain keep ds = filter (\<lambda>(_, held). keep held) ds"

definition unseen_pruned :: "nat \<Rightarrow> cached_prefix \<Rightarrow> (str \<times> held_decision) list" where
  "unseen_pruned assembly_id s =
     retain (\<lambda>held. hl_generation held = cp_generation s \<and>
       assembly_id - PRUNE_AFTER_ASSEMBLIES \<le> hl_last_seen_assembly held) (cp_decisions s)"

definition consume_pending :: "nat \<Rightarrow> cached_prefix \<Rightarrow> cached_prefix" where
  "consume_pending materialize_turns_live s =
     (case cp_pending s of
        RC_All \<Rightarrow>
          let changed = (cp_decisions s \<noteq> []) in
          s\<lparr>cp_pending := RC_None, cp_prefix_changed := changed, cp_retention_demoted := changed, cp_decisions := [],
            cp_dead_band := True\<rparr>
      | RC_OverAge \<Rightarrow>
          let kept = retain (\<lambda>held. hl_generation held = cp_generation s \<and>
                (hl_decision held \<noteq> RD_Materialize \<or> hl_last_age held < materialize_turns_live)) (cp_decisions s);
              changed = (length kept \<noteq> length (cp_decisions s))
          in s\<lparr>cp_pending := RC_None, cp_decisions := kept, cp_prefix_changed := changed, cp_retention_demoted := changed,
               cp_dead_band := False\<rparr>
      | RC_None \<Rightarrow> s)"

definition begin_assembly :: "nat \<Rightarrow> nat \<Rightarrow> cached_prefix \<Rightarrow> bool \<times> cached_prefix" where
  "begin_assembly assembly_id materialize_turns_live s =
     (if cp_last_assembly s \<noteq> Some assembly_id
      then let kept = unseen_pruned assembly_id s;
               s1 = s\<lparr>cp_last_assembly := Some assembly_id, cp_prefix_changed := False, cp_retention_demoted := False,
                      cp_decisions := kept, cp_dirty := (cp_dirty s \<or> length kept \<noteq> length (cp_decisions s))\<rparr>;
               s2 = consume_pending materialize_turns_live s1;
               alive = (cache_live s2 \<and> \<not> cp_dead_band s2)
           in (alive, s2\<lparr>cp_alive := alive\<rparr>)
      else (cp_alive s, s))"

definition cache_live_readonly :: "cached_prefix \<Rightarrow> bool" where
  "cache_live_readonly s \<longleftrightarrow> cache_live s \<and> \<not> cp_dead_band s \<and> cp_pending s \<noteq> RC_All"

definition over_age_held :: "nat \<Rightarrow> nat \<Rightarrow> nat \<Rightarrow> (str \<times> held_decision) list \<Rightarrow> held_decision list" where
  "over_age_held generation assembly_id materialize_turns_live ds =
     filter (\<lambda>held. hl_generation held = generation \<and> hl_last_seen_assembly held = assembly_id \<and>
       hl_decision held = RD_Materialize \<and> materialize_turns_live \<le> hl_last_age held) (map snd ds)"

definition saturating_total :: "nat list \<Rightarrow> nat" where
  "saturating_total bs = foldl (\<lambda>acc b. min (acc + b) (2 ^ 64 - 1)) 0 bs"

definition lookup_held ::
  "str \<Rightarrow> nat \<Rightarrow> nat \<Rightarrow> nat \<Rightarrow> cached_prefix \<Rightarrow> retention_decision option \<times> cached_prefix" where
  "lookup_held hash age_in_turns materialize_turns_live assembly_id s =
     (case map_of (cp_decisions s) hash of
        None \<Rightarrow> (None, s)
      | Some held \<Rightarrow>
          if hl_generation held \<noteq> cp_generation s then (None, s)
          else let ds = AList.update hash (held\<lparr>hl_last_age := age_in_turns, hl_last_seen_assembly := assembly_id\<rparr>) (cp_decisions s);
                   s1 = s\<lparr>cp_decisions := ds\<rparr>;
                   over_age = (hl_decision held = RD_Materialize \<and> materialize_turns_live \<le> age_in_turns);
                   batch = over_age_held (cp_generation s) assembly_id materialize_turns_live ds;
                   bytes = saturating_total (map (\<lambda>h. case hl_bytes h of None \<Rightarrow> 0 | Some b \<Rightarrow> b) batch)
               in (Some (hl_decision held),
                   if over_age \<and> cp_pending s = RC_None \<and>
                      (BATCH_DEMOTE_MIN_BLOCKS \<le> length batch \<or> BATCH_DEMOTE_MIN_BYTES \<le> bytes)
                   then s1\<lparr>cp_pending := RC_OverAge\<rparr> else s1))"

definition lookup_held_readonly :: "str \<Rightarrow> cached_prefix \<Rightarrow> retention_decision option" where
  "lookup_held_readonly hash s =
     (case map_of (cp_decisions s) hash of
        None \<Rightarrow> None
      | Some held \<Rightarrow> if hl_generation held = cp_generation s then Some (hl_decision held) else None)"

definition store_decision :: "str \<Rightarrow> retention_decision \<Rightarrow> nat \<Rightarrow> nat \<Rightarrow> cached_prefix \<Rightarrow> cached_prefix" where
  "store_decision hash decision age_in_turns assembly_id s =
     (let fresh = (\<lambda>bytes. \<lparr>hl_generation = cp_generation s, hl_decision = decision, hl_last_age = age_in_turns,
                       hl_bytes = bytes, hl_last_seen_assembly = assembly_id\<rparr>);
          added = s\<lparr>cp_decisions := AList.update hash (fresh None) (cp_decisions s), cp_dirty := True,
                    cp_prefix_changed := (cp_prefix_changed s \<or> 0 < age_in_turns)\<rparr>
      in case map_of (cp_decisions s) hash of
           None \<Rightarrow> added
         | Some held \<Rightarrow>
             if hl_generation held \<noteq> cp_generation s then added
             else if hl_decision held = decision
             then s\<lparr>cp_decisions := AList.update hash
                      (held\<lparr>hl_last_age := age_in_turns, hl_last_seen_assembly := assembly_id\<rparr>) (cp_decisions s)\<rparr>
             else s\<lparr>cp_decisions := AList.update hash (fresh (hl_bytes held)) (cp_decisions s), cp_dirty := True,
                    cp_prefix_changed := True\<rparr>)"

definition forget :: "str \<Rightarrow> cached_prefix \<Rightarrow> cached_prefix" where
  "forget hash s =
     (if map_of (cp_decisions s) hash \<noteq> None
      then s\<lparr>cp_decisions := AList.delete hash (cp_decisions s), cp_dirty := True, cp_prefix_changed := True\<rparr>
      else s)"

definition record_materialized_bytes :: "str \<Rightarrow> nat \<Rightarrow> cached_prefix \<Rightarrow> cached_prefix" where
  "record_materialized_bytes hash bytes s =
     (case map_of (cp_decisions s) hash of
        None \<Rightarrow> s
      | Some held \<Rightarrow> s\<lparr>cp_decisions := AList.update hash (held\<lparr>hl_bytes := Some bytes\<rparr>) (cp_decisions s)\<rparr>)"

subsection \<open>The durable map\<close>

definition decision_rows :: "(held_decision \<Rightarrow> bool) \<Rightarrow> cached_prefix \<Rightarrow> cached_block_decision list" where
  "decision_rows keep s =
     sort_key cb_block_ref
       (map (\<lambda>(hash, held). \<lparr>cb_block_ref = hash, cb_decision = decision_label (hl_decision held)\<rparr>)
         (retain (\<lambda>held. hl_generation held = cp_generation s \<and> keep held) (cp_decisions s)))"

definition drain_if_dirty :: "cached_prefix \<Rightarrow> cached_block_decision list option \<times> cached_prefix" where
  "drain_if_dirty s =
     (if \<not> cp_dirty s then (None, s)
      else let current = (case cp_last_assembly s of None \<Rightarrow> 0 | Some a \<Rightarrow> a)
           in (Some (decision_rows (\<lambda>held. hl_last_seen_assembly held = current) s), s\<lparr>cp_dirty := False\<rparr>))"

definition decision_snapshot :: "cached_prefix \<Rightarrow> cached_block_decision list" where
  "decision_snapshot s = decision_rows (\<lambda>_. True) s"

definition restore_row :: "nat \<Rightarrow> (str \<times> held_decision) list \<Rightarrow> cached_block_decision \<Rightarrow> (str \<times> held_decision) list" where
  "restore_row generation ds row =
     (case decision_from_label (cb_decision row) of
        None \<Rightarrow> ds
      | Some decision \<Rightarrow>
          AList.update (cb_block_ref row)
            \<lparr>hl_generation = generation, hl_decision = decision, hl_last_age = 0, hl_bytes = None,
             hl_last_seen_assembly = 0\<rparr> ds)"

definition replace_decisions :: "cached_block_decision list \<Rightarrow> cached_prefix \<Rightarrow> cached_prefix" where
  "replace_decisions rows s = s\<lparr>cp_decisions := foldl (restore_row (cp_generation s)) [] rows, cp_dirty := False\<rparr>"

subsection \<open>The policy\<close>

record liveness =
  lv_materialize_turns_live :: nat
  lv_summarize_turns_live :: nat
  lv_materialize_turns_dead :: nat
  lv_summarize_turns_dead :: nat

definition liveness_new :: liveness where
  "liveness_new = \<lparr>lv_materialize_turns_live = 6, lv_summarize_turns_live = 12, lv_materialize_turns_dead = 2,
     lv_summarize_turns_dead = 6\<rparr>"

definition band :: "liveness \<Rightarrow> bool \<Rightarrow> nat \<times> nat" where
  "band l alive = (if alive then (lv_materialize_turns_live l, lv_summarize_turns_live l)
                   else (lv_materialize_turns_dead l, lv_summarize_turns_dead l))"

definition tier :: "nat \<Rightarrow> nat \<Rightarrow> nat \<Rightarrow> retention_decision" where
  "tier age_in_turns materialize_under summarize_under =
     (if age_in_turns < materialize_under then RD_Materialize
      else if age_in_turns < summarize_under then RD_Summarize
      else RD_Evict)"

definition liveness_decide :: "liveness \<Rightarrow> retention_context \<Rightarrow> cached_prefix \<Rightarrow> retention_decision \<times> cached_prefix" where
  "liveness_decide l ctx s =
     (let (alive, s1) = (if rx_mutating ctx then begin_assembly (rx_assembly_id ctx) (lv_materialize_turns_live l) s
                         else (cache_live_readonly s, s))
      in if rx_is_superseded ctx
         then (RD_Evict, (case rx_block_ref ctx of Some hash \<Rightarrow> if rx_mutating ctx then forget hash s1 else s1 | None \<Rightarrow> s1))
         else let (held, s2) =
                    (case rx_block_ref ctx of
                       None \<Rightarrow> (None, s1)
                     | Some hash \<Rightarrow>
                         if rx_mutating ctx
                         then lookup_held hash (rx_age_in_turns ctx) (lv_materialize_turns_live l) (rx_assembly_id ctx) s1
                         else (lookup_held_readonly hash s1, s1))
              in case (if alive then held else None) of
                   Some d \<Rightarrow> (d, s2)
                 | None \<Rightarrow>
                     let decision = tier (rx_age_in_turns ctx) (fst (band l alive)) (snd (band l alive))
                     in (decision,
                         (case rx_block_ref ctx of
                            Some hash \<Rightarrow>
                              if rx_mutating ctx
                              then store_decision hash decision (rx_age_in_turns ctx) (rx_assembly_id ctx) s2
                              else s2
                          | None \<Rightarrow> s2)))"

definition liveness_policy :: "liveness \<Rightarrow> cached_prefix retention_policy" where
  "liveness_policy l =
     \<lparr>rp_decide = liveness_decide l, rp_materialized = (\<lambda>hash content. record_materialized_bytes hash (length content)),
      rp_set_turn_budget = (\<lambda>_ p. p), rp_shell_history_budget = (\<lambda>_. TURN_RESULT_BUDGET_CAP_TOKENS),
      rp_count_tokens = length, rp_charge_assembly_tokens = (\<lambda>_ _ p. p), rp_cas_views = (\<lambda>_. None),
      rp_put_views = (\<lambda>_ p. p)\<rparr>"

text \<open>
  One assembly over the blocks of a window, in the order the walk meets them: each block with its age and whether a later
  call superseded it. \<open>sizes\<close> gives the stored length of a block that can be read, which is reported when the block
  is retrieved.
\<close>

definition block_ctx :: "bool \<Rightarrow> nat \<Rightarrow> str \<times> nat \<times> bool \<Rightarrow> retention_context" where
  "block_ctx mutating assembly_id b =
     \<lparr>rx_age_in_turns = fst (snd b), rx_is_superseded = snd (snd b), rx_block_ref = Some (fst b), rx_stored_bytes = None,
      rx_logged_result_tokens = None, rx_assembly_id = assembly_id, rx_mutating = mutating\<rparr>"

definition decide_block ::
  "liveness \<Rightarrow> (str \<Rightarrow> nat option) \<Rightarrow> bool \<Rightarrow> nat \<Rightarrow> str \<times> nat \<times> bool \<Rightarrow> cached_prefix \<Rightarrow> retention_decision \<times> cached_prefix" where
  "decide_block l sizes mutating assembly_id b s =
     (let (d, s1) = liveness_decide l (block_ctx mutating assembly_id b) s
      in (d, (case sizes (fst b) of
                Some n \<Rightarrow> if d = RD_Materialize then record_materialized_bytes (fst b) n s1 else s1
              | None \<Rightarrow> s1)))"

fun assembly_decisions ::
  "liveness \<Rightarrow> (str \<Rightarrow> nat option) \<Rightarrow> bool \<Rightarrow> nat \<Rightarrow> (str \<times> nat \<times> bool) list \<Rightarrow> cached_prefix \<Rightarrow>
   retention_decision list \<times> cached_prefix" where
  "assembly_decisions l sizes mutating assembly_id [] s = ([], s)"
| "assembly_decisions l sizes mutating assembly_id (b # bs) s =
     (let (d, s1) = decide_block l sizes mutating assembly_id b s;
          (ds, s2) = assembly_decisions l sizes mutating assembly_id bs s1
      in (d # ds, s2))"

subsection \<open>One decision of a request\<close>

text \<open>What a decision leaves alone, and the entry it leaves behind.\<close>

definition same_turn :: "cached_prefix \<Rightarrow> cached_prefix \<Rightarrow> bool" where
  "same_turn s s' \<longleftrightarrow> cp_generation s' = cp_generation s \<and> cp_last_cache_read_tokens s' = cp_last_cache_read_tokens s \<and>
     cp_dead_band s' = cp_dead_band s \<and> cp_alive s' = cp_alive s \<and> cp_last_assembly s' = cp_last_assembly s \<and>
     (cp_pending s' = RC_All \<longleftrightarrow> cp_pending s = RC_All)"

definition held_entry :: "(str \<Rightarrow> nat option) \<Rightarrow> nat \<Rightarrow> str \<times> nat \<times> bool \<Rightarrow> retention_decision \<Rightarrow> cached_prefix \<Rightarrow> bool" where
  "held_entry sizes assembly_id b d s \<longleftrightarrow>
     (\<exists>held. map_of (cp_decisions s) (fst b) = Some held \<and> hl_decision held = d \<and> hl_generation held = cp_generation s \<and>
        hl_last_age held = fst (snd b) \<and> hl_last_seen_assembly held = assembly_id \<and>
        (d = RD_Materialize \<longrightarrow> sizes (fst b) \<noteq> None \<longrightarrow> hl_bytes held = sizes (fst b)))"

definition others_kept :: "str \<Rightarrow> cached_prefix \<Rightarrow> cached_prefix \<Rightarrow> bool" where
  "others_kept hash s s' \<longleftrightarrow> (\<forall>k. k \<noteq> hash \<longrightarrow> map_of (cp_decisions s') k = map_of (cp_decisions s) k)"

lemma same_turn_refl [simp]: "same_turn s s"
  by (simp add: same_turn_def)

lemma same_turn_trans: "same_turn s t \<Longrightarrow> same_turn t u \<Longrightarrow> same_turn s u"
  by (simp add: same_turn_def)

lemma others_kept_refl [simp]: "others_kept h s s"
  by (simp add: others_kept_def)

lemma others_kept_trans: "others_kept h s t \<Longrightarrow> others_kept h t u \<Longrightarrow> others_kept h s u"
  by (simp add: others_kept_def)

lemma begun [simp]: "cp_last_assembly s = Some a \<Longrightarrow> begin_assembly a m s = (cp_alive s, s)"
  by (simp add: begin_assembly_def)

lemma lookup_held_frame:
  "same_turn s (snd (lookup_held h age m a s)) \<and> others_kept h s (snd (lookup_held h age m a s))"
  by (auto simp: lookup_held_def same_turn_def others_kept_def Let_def update_conv' split: option.splits)

lemma store_decision_frame:
  "same_turn s (store_decision h d age a s) \<and> others_kept h s (store_decision h d age a s)"
  by (auto simp: store_decision_def same_turn_def others_kept_def Let_def update_conv' split: option.splits)

lemma forget_frame: "same_turn s (forget h s) \<and> others_kept h s (forget h s)"
  by (auto simp: forget_def same_turn_def others_kept_def delete_conv' split: option.splits)

lemma record_bytes_frame:
  "same_turn s (record_materialized_bytes h n s) \<and> others_kept h s (record_materialized_bytes h n s)"
  by (auto simp: record_materialized_bytes_def same_turn_def others_kept_def update_conv' split: option.splits)

lemma lookup_held_entry:
  "lookup_held h age m a s = (Some d, s') \<Longrightarrow> held_entry (\<lambda>_. None) a (h, age, x) d s'"
  by (auto simp: lookup_held_def held_entry_def Let_def update_conv' split: option.splits if_splits)

lemma store_decision_entry: "held_entry (\<lambda>_. None) a (h, age, x) d (store_decision h d age a s)"
  by (auto simp: store_decision_def held_entry_def Let_def update_conv' split: option.splits)

lemma record_bytes_entry:
  "held_entry (\<lambda>_. None) a (h, age, x) d s \<Longrightarrow> sizes h = Some n \<Longrightarrow>
   held_entry sizes a (h, age, x) d (record_materialized_bytes h n s)"
  by (auto simp: record_materialized_bytes_def held_entry_def update_conv')

lemma liveness_decide_request:
  assumes "cp_last_assembly s = Some a" and "liveness_decide l (block_ctx True a (h, age, x)) s = (d, s')"
  shows "same_turn s s'" and "others_kept h s s'" and "x \<Longrightarrow> d = RD_Evict"
    and "\<not> x \<Longrightarrow> held_entry (\<lambda>_. None) a (h, age, x) d s'"
    and "\<not> x \<Longrightarrow> \<not> cp_alive s \<Longrightarrow> d = tier age (lv_materialize_turns_dead l) (lv_summarize_turns_dead l)"
    and "\<not> x \<Longrightarrow> cp_alive s \<Longrightarrow> lookup_held_readonly h s = Some d' \<Longrightarrow> d = d'"
proof -
  obtain held s2 where look: "lookup_held h age (lv_materialize_turns_live l) a s = (held, s2)" by fastforce
  have frame: "same_turn s s2" "others_kept h s s2" using lookup_held_frame[of s h age _ a] look by (metis snd_conv)+
  let ?tier = "tier age (fst (band l (cp_alive s))) (snd (band l (cp_alive s)))"
  have cases: "(d, s') = (if x then (RD_Evict, forget h s)
      else case (if cp_alive s then held else None) of Some d \<Rightarrow> (d, s2) | None \<Rightarrow> (?tier, store_decision h ?tier age a s2))"
    using assms look by (simp add: liveness_decide_def block_ctx_def Let_def split: option.splits if_splits)
  show "same_turn s s'" "others_kept h s s'"
    using cases frame forget_frame[of s h] store_decision_frame[of s2 h]
    by (auto split: if_splits option.splits intro: same_turn_trans others_kept_trans)
  show "x \<Longrightarrow> d = RD_Evict" using cases by simp
  show "\<not> x \<Longrightarrow> held_entry (\<lambda>_. None) a (h, age, x) d s'"
    using cases look lookup_held_entry[of h age _ a s] store_decision_entry by (auto split: if_splits option.splits)
  show "d = tier age (lv_materialize_turns_dead l) (lv_summarize_turns_dead l)" if "\<not> x" "\<not> cp_alive s"
    using cases that by (simp add: band_def)
  show "d = d'" if "\<not> x" "cp_alive s" "lookup_held_readonly h s = Some d'"
  proof -
    have "held = Some d'"
      using that(3) look by (auto simp: lookup_held_readonly_def lookup_held_def Let_def split: option.splits if_splits)
    then show ?thesis using cases that by simp
  qed
qed

lemma decide_block_request:
  assumes "cp_last_assembly s = Some a" and "decide_block l sizes True a (h, age, x) s = (d, s')"
  shows "same_turn s s'" and "others_kept h s s'" and "x \<Longrightarrow> d = RD_Evict"
    and "\<not> x \<Longrightarrow> held_entry sizes a (h, age, x) d s'"
    and "\<not> x \<Longrightarrow> \<not> cp_alive s \<Longrightarrow> d = tier age (lv_materialize_turns_dead l) (lv_summarize_turns_dead l)"
    and "\<not> x \<Longrightarrow> cp_alive s \<Longrightarrow> lookup_held_readonly h s = Some d' \<Longrightarrow> d = d'"
proof -
  obtain s1 where dec: "liveness_decide l (block_ctx True a (h, age, x)) s = (d, s1)"
    and s': "s' = (case sizes h of Some n \<Rightarrow> if d = RD_Materialize then record_materialized_bytes h n s1 else s1 | None \<Rightarrow> s1)"
    using assms(2) by (cases "sizes h") (auto simp: decide_block_def Let_def split: prod.splits)
  note step = liveness_decide_request[OF assms(1) dec]
  show "same_turn s s'" "others_kept h s s'"
    using step(1,2) record_bytes_frame[of s1 h] unfolding s'
    by (auto split: option.splits intro: same_turn_trans others_kept_trans)
  show "\<not> x \<Longrightarrow> held_entry sizes a (h, age, x) d s'"
    using step(4) record_bytes_entry[of a h age x d s1 sizes] unfolding s' by (auto simp: held_entry_def split: option.splits)
qed (use assms in \<open>auto simp: decide_block_def Let_def split: prod.splits dest: liveness_decide_request(3,5,6)\<close>)

lemma entry_others: "held_entry sizes a b d s \<Longrightarrow> others_kept h s s' \<Longrightarrow> same_turn s s' \<Longrightarrow> fst b \<noteq> h \<Longrightarrow> held_entry sizes a b d s'"
  by (auto simp: held_entry_def others_kept_def same_turn_def)

subsection \<open>One assembly\<close>

definition decided ::
  "liveness \<Rightarrow> (str \<Rightarrow> nat option) \<Rightarrow> nat \<Rightarrow> cached_prefix \<Rightarrow> cached_prefix \<Rightarrow> str \<times> nat \<times> bool \<Rightarrow> retention_decision \<Rightarrow> bool" where
  "decided l sizes a s s' b d \<longleftrightarrow>
     (if snd (snd b) then d = RD_Evict
      else held_entry sizes a b d s' \<and>
        (if cp_alive s then \<forall>d'. lookup_held_readonly (fst b) s = Some d' \<longrightarrow> d = d'
         else d = tier (fst (snd b)) (lv_materialize_turns_dead l) (lv_summarize_turns_dead l)))"

lemma decided_later:
  assumes "decided l sizes a s s1 b d" and "fst b \<noteq> h" and "others_kept h s1 s2" and "same_turn s1 s2"
  shows "decided l sizes a s s2 b d"
  using assms entry_others[of sizes a b d s1 h s2] by (auto simp: decided_def)

lemma decided_earlier:
  assumes "decided l sizes a s1 s' b d" and "fst b \<noteq> h" and "others_kept h s s1" and "same_turn s s1"
  shows "decided l sizes a s s' b d"
proof -
  have "lookup_held_readonly (fst b) s1 = lookup_held_readonly (fst b) s" "cp_alive s1 = cp_alive s"
    using assms(2-4) by (simp_all add: lookup_held_readonly_def others_kept_def same_turn_def cong: option.case_cong)
  then show ?thesis using assms(1) by (simp add: decided_def)
qed

lemma assembly_request:
  assumes "cp_last_assembly s = Some a" and "distinct (map fst bs)" and "assembly_decisions l sizes True a bs s = (ds, s')"
  shows "same_turn s s' \<and> (\<forall>k. k \<notin> fst ` set bs \<longrightarrow> map_of (cp_decisions s') k = map_of (cp_decisions s) k) \<and>
    list_all2 (decided l sizes a s s') bs ds"
  using assms
proof (induction bs arbitrary: s ds)
  case (Cons b bs)
  obtain h age x where b: "b = (h, age, x)" by (metis prod_cases3)
  obtain d s1 ds1 where dec: "decide_block l sizes True a (h, age, x) s = (d, s1)"
    and rest: "assembly_decisions l sizes True a bs s1 = (ds1, s')" and ds: "ds = d # ds1"
    using Cons.prems(3) b by (auto split: prod.splits)
  note step = decide_block_request[OF Cons.prems(1) dec]
  have "cp_last_assembly s1 = Some a" using step(1) Cons.prems(1) by (simp add: same_turn_def)
  then have IH: "same_turn s1 s'" "\<And>k. k \<notin> fst ` set bs \<Longrightarrow> map_of (cp_decisions s') k = map_of (cp_decisions s1) k"
      "list_all2 (decided l sizes a s1 s') bs ds1"
    using Cons.IH[OF _ _ rest] Cons.prems(2) by simp_all
  have fresh: "h \<notin> fst ` set bs" using Cons.prems(2) b by simp
  have "decided l sizes a s s' b d"
    using step(3-6) IH(1) IH(2)[OF fresh] by (auto simp: decided_def b held_entry_def same_turn_def)
  moreover have "list_all2 (decided l sizes a s s') bs ds1"
    using IH(3) by (rule list.rel_mono_strong) (use fresh decided_earlier[OF _ _ step(2,1)] in fastforce)
  ultimately show ?case
    using step(1,2) IH(1,2) fresh b ds by (auto simp: others_kept_def intro: same_turn_trans)
qed simp

subsection \<open>Starting an assembly\<close>

lemma begin_assembly_new:
  assumes "cp_last_assembly s \<noteq> Some a" and "begin_assembly a m s = (alive, s0)"
  shows "cp_last_assembly s0 = Some a" and "cp_alive s0 = alive" and "alive = cache_live_readonly s0"
    and "cp_pending s0 = RC_None"
  using assms by (auto simp: begin_assembly_def consume_pending_def cache_live_readonly_def cache_live_def Let_def
      split: recompute.splits)

lemma assembly_begins:
  assumes "cp_last_assembly s \<noteq> Some a" and "bs \<noteq> []"
  shows "assembly_decisions l sizes True a bs s =
    assembly_decisions l sizes True a bs (snd (begin_assembly a (lv_materialize_turns_live l) s))"
proof -
  obtain alive s0 where b: "begin_assembly a (lv_materialize_turns_live l) s = (alive, s0)" by fastforce
  have "liveness_decide l (block_ctx True a c) s = liveness_decide l (block_ctx True a c) s0" for c
    using b begin_assembly_new[OF assms(1) b] by (simp add: liveness_decide_def block_ctx_def)
  then have "decide_block l sizes True a c s = decide_block l sizes True a c s0" for c
    by (simp add: decide_block_def)
  then show ?thesis using assms(2) b by (cases bs) simp_all
qed

lemma assembly_new:
  assumes "cp_last_assembly s \<noteq> Some a" and "bs \<noteq> []" and "distinct (map fst bs)"
    and "assembly_decisions l sizes True a bs s = (ds, s')"
  obtains alive s0 where "begin_assembly a (lv_materialize_turns_live l) s = (alive, s0)"
    and "same_turn s0 s'" and "list_all2 (decided l sizes a s0 s') bs ds"
    and "\<And>k. k \<notin> fst ` set bs \<Longrightarrow> map_of (cp_decisions s') k = map_of (cp_decisions s0) k"
proof -
  obtain alive s0 where b: "begin_assembly a (lv_materialize_turns_live l) s = (alive, s0)" by fastforce
  have "assembly_decisions l sizes True a bs s0 = (ds, s')" using assembly_begins[OF assms(1,2)] assms(4) b by simp
  from assembly_request[OF begin_assembly_new(1)[OF assms(1) b] assms(3) this] show ?thesis
    using that[OF b] by blast
qed

lemma same_turn_readonly: "same_turn s s' \<Longrightarrow> cache_live_readonly s' = cache_live_readonly s"
  by (simp add: same_turn_def cache_live_readonly_def cache_live_def)

subsection \<open>A measurement reports what the request carried\<close>

lemma record_bytes_again:
  "map_of (cp_decisions s) h = Some held \<Longrightarrow> hl_bytes held = Some n \<Longrightarrow> record_materialized_bytes h n s = s"
  by (simp add: record_materialized_bytes_def update_triv)

lemma measure_block:
  assumes "decided l sizes a s0 s b d" and "cp_alive s0 = cache_live_readonly s"
  shows "decide_block l sizes False a b s = (d, s)"
proof -
  have "liveness_decide l (block_ctx False a b) s = (d, s)"
    using assms by (auto simp: liveness_decide_def block_ctx_def decided_def held_entry_def lookup_held_readonly_def band_def
        Let_def split: if_splits)
  moreover have "(case sizes (fst b) of Some n \<Rightarrow> if d = RD_Materialize then record_materialized_bytes (fst b) n s else s
      | None \<Rightarrow> s) = s"
    using assms(1) by (auto simp: decided_def held_entry_def split: option.splits if_splits intro: record_bytes_again)
  ultimately show ?thesis by (simp add: decide_block_def)
qed

lemma measure_all:
  assumes "list_all2 (decided l sizes a s0 s) bs ds" and "cp_alive s0 = cache_live_readonly s"
  shows "assembly_decisions l sizes False a bs s = (ds, s)"
  using assms(1) by (induction rule: list_all2_induct) (simp_all add: measure_block[OF _ assms(2)])



subsection \<open>A decision is held while the provider reports hits\<close>

lemma retain_keeps: "map_of ds h = Some held \<Longrightarrow> keep held \<Longrightarrow> map_of (retain keep ds) h = Some held"
  unfolding retain_def by (induction ds) (auto split: if_splits)

lemma begin_keeps:
  assumes "cp_last_assembly s \<noteq> Some a" and "begin_assembly a m s = (alive, s0)"
    and "map_of (cp_decisions s) h = Some held" and "hl_generation held = cp_generation s"
    and "a - PRUNE_AFTER_ASSEMBLIES \<le> hl_last_seen_assembly held" and "cp_pending s \<noteq> RC_All"
    and "cp_pending s = RC_OverAge \<Longrightarrow> hl_decision held \<noteq> RD_Materialize \<or> hl_last_age held < m"
  shows "lookup_held_readonly h s0 = Some (hl_decision held)"
proof -
  have "map_of (unseen_pruned a s) h = Some held"
    unfolding unseen_pruned_def by (rule retain_keeps) (use assms(3-5) in auto)
  then have "map_of (cp_decisions s0) h = Some held \<and> cp_generation s0 = cp_generation s"
    using assms(1,2,4,6,7) by (cases "cp_pending s")
      (auto simp: begin_assembly_def consume_pending_def Let_def intro!: retain_keeps)
  then show ?thesis using assms(4) by (simp add: lookup_held_readonly_def)
qed

lemma hit_alive:
  assumes "0 < tokens" and "\<not> collapsed (cp_last_cache_read_tokens s) tokens \<or> cp_prefix_changed s"
    and "cp_last_assembly s = Some a"
    and "begin_assembly (Suc a) m (record_turn_cache now (Some tokens) s) = (alive, s0)"
  shows "alive"
  using assms by (cases "cp_pending s")
    (auto simp: begin_assembly_def record_turn_cache_def record_turn_def clear_retention_demoted_def consume_pending_def
      cache_live_def Let_def)

lemma hit_keeps_decisions:
  assumes "0 < tokens" and "\<not> collapsed (cp_last_cache_read_tokens s) tokens \<or> cp_prefix_changed s"
  shows "cp_decisions (record_turn_cache now (Some tokens) s) = cp_decisions s"
    and "cp_generation (record_turn_cache now (Some tokens) s) = cp_generation s"
    and "cp_last_assembly (record_turn_cache now (Some tokens) s) = cp_last_assembly s"
    and "cp_pending (record_turn_cache now (Some tokens) s) = (if cp_pending s = RC_All then RC_None else cp_pending s)"
  using assms by (auto simp: record_turn_cache_def record_turn_def clear_retention_demoted_def Let_def)



subsection \<open>Reopening a session\<close>

text \<open>The walk over a log that seeds the state of a reopened session (\<open>SeedState\<close> of \<open>agent/status.rs\<close>).\<close>

record seed_state =
  sd_first_ts :: "nat option"
  sd_epoch_ts :: "nat option"
  sd_last_model :: "str option"

definition seed_default :: seed_state where
  "seed_default = \<lparr>sd_first_ts = None, sd_epoch_ts = None, sd_last_model = None\<rparr>"

type_synonym seeding = "seed_state \<times> cached_prefix \<times> nat option"

fun seed_event :: "nat \<Rightarrow> session_event \<Rightarrow> seeding \<Rightarrow> seeding" where
  "seed_event ts (EV_ContextCleared _) (sd, cached, prev_read) = (sd, clear_decisions cached, prev_read)"
| "seed_event ts (EV_CompactionBoundary _ _ _) (sd, cached, prev_read) = (sd, clear_decisions cached, prev_read)"
| "seed_event ts (EV_TurnUsage u) (sd, cached, prev_read) =
     (let switched = (case sd_last_model sd of None \<Rightarrow> False | Some previous \<Rightarrow> previous \<noteq> tu_model u);
          cached1 = (if switched then clear_decisions cached else cached);
          reported = (if tu_cache_read_reported u then Some (unat (tu_cache_read u)) else None)
      in (sd\<lparr>sd_last_model := Some (tu_model u)\<rparr>, seed_turn ts reported cached1,
          if tu_cache_read_reported u then reported else prev_read))"
| "seed_event ts (EV_CacheDecisions decisions model) (sd, cached, prev_read) =
     (sd, (if model = [] \<or> sd_last_model sd = Some model then replace_decisions decisions cached else clear_decisions cached),
      prev_read)"
| "seed_event ts _ st = st"

definition seed_fold :: "seeding \<Rightarrow> session_entry \<Rightarrow> seeding" where
  "seed_fold st entry =
     (let (sd, cached, prev_read) = st;
          first = (if sd_first_ts sd = None then Some (le_ts entry) else sd_first_ts sd)
      in seed_event (le_ts entry) (le_event entry) (sd\<lparr>sd_first_ts := first\<rparr>, cached, prev_read))"

definition seed_finish :: "seed_state \<Rightarrow> nat option" where
  "seed_finish sd = (case sd_epoch_ts sd of None \<Rightarrow> sd_first_ts sd | ts \<Rightarrow> ts)"

definition seed_page :: "seeding \<Rightarrow> session_entry list \<Rightarrow> seeding" where
  "seed_page st entries =
     (case st of
        (sd, cached, prev_read) \<Rightarrow>
          let sd1 = (case find (\<lambda>e. is_clear (le_event e)) (rev entries) of
                       Some e \<Rightarrow> sd\<lparr>sd_epoch_ts := Some (le_ts e)\<rparr>
                     | None \<Rightarrow> sd)
          in foldl seed_fold (sd1, cached, prev_read) entries)"

definition seed_session_from_log :: "session_entry list list \<Rightarrow> nat option \<times> cached_prefix \<times> nat option" where
  "seed_session_from_log pages =
     (case foldl seed_page (seed_default, cached_prefix_new, None) pages of
        (sd, cached, prev_read) \<Rightarrow> (seed_finish sd, cached, prev_read))"

subsection \<open>Each block is held once\<close>

definition held_once :: "cached_prefix \<Rightarrow> bool" where
  "held_once s = distinct (map fst (cp_decisions s))"

lemma retain_distinct: "distinct (map fst ds) \<Longrightarrow> distinct (map fst (retain keep ds))"
  unfolding retain_def by (induction ds) auto

lemma held_once_ops:
  assumes "held_once s"
  shows "held_once (snd (begin_assembly a m s))" and "held_once (snd (lookup_held h age m a s))"
    and "held_once (store_decision h d age a s)" and "held_once (forget h s)"
    and "held_once (record_materialized_bytes h n s)"
  using assms unfolding held_once_def
  by (auto simp: begin_assembly_def consume_pending_def unseen_pruned_def lookup_held_def store_decision_def forget_def
      record_materialized_bytes_def Let_def retain_distinct distinct_update distinct_delete
      split: recompute.splits option.splits)

lemma liveness_decide_once: "held_once s \<Longrightarrow> held_once (snd (liveness_decide l ctx s))"
  by (auto simp: liveness_decide_def Let_def case_prod_beta held_once_ops split: option.splits)

lemma assembly_once: "held_once s \<Longrightarrow> held_once (snd (assembly_decisions l sizes mutating a bs s))"
proof (induction bs arbitrary: s)
  case (Cons b bs)
  have "held_once (snd (decide_block l sizes mutating a b s))"
    using liveness_decide_once[OF Cons.prems] by (auto simp: decide_block_def case_prod_beta held_once_ops split: option.splits)
  then show ?case using Cons.IH by (simp add: case_prod_beta)
qed simp

lemma label_roundtrip [simp]: "decision_from_label (decision_label d) = Some d"
  by (cases d) (simp_all add: decision_from_label_def decision_label_def)

lemma restore_rows_other:
  "k \<notin> cb_block_ref ` set rows \<Longrightarrow> map_of (foldl (restore_row g) ds rows) k = map_of ds k"
  by (induction rows arbitrary: ds) (auto simp: restore_row_def update_conv' split: option.splits)

lemma restore_rows:
  assumes "distinct (map cb_block_ref rows)" and "row \<in> set rows" and "decision_from_label (cb_decision row) = Some d"
  shows "map_of (foldl (restore_row g) ds rows) (cb_block_ref row) =
    Some \<lparr>hl_generation = g, hl_decision = d, hl_last_age = 0, hl_bytes = None, hl_last_seen_assembly = 0\<rparr>"
  using assms
proof (induction rows arbitrary: ds)
  case (Cons r rows)
  show ?case
  proof (cases "row = r")
    case True
    then have "cb_block_ref row \<notin> cb_block_ref ` set rows" using Cons.prems(1) by auto
    then have "map_of (foldl (restore_row g) ds (r # rows)) (cb_block_ref row) = map_of (restore_row g ds r) (cb_block_ref row)"
      by (simp add: restore_rows_other)
    also have "\<dots> = Some \<lparr>hl_generation = g, hl_decision = d, hl_last_age = 0, hl_bytes = None, hl_last_seen_assembly = 0\<rparr>"
      using True Cons.prems(3) by (simp add: restore_row_def update_conv')
    finally show ?thesis .
  qed (use Cons in simp)
qed simp

lemma decision_rows_distinct: "held_once s \<Longrightarrow> distinct (map cb_block_ref (decision_rows keep s))"
proof -
  assume "held_once s"
  let ?ds = "retain (\<lambda>held. hl_generation held = cp_generation s \<and> keep held) (cp_decisions s)"
  let ?rows = "map (\<lambda>(hash, held). \<lparr>cb_block_ref = hash, cb_decision = decision_label (hl_decision held)\<rparr>) ?ds"
  have refs: "map cb_block_ref ?rows = map fst ?ds" by (auto simp: case_prod_beta)
  have "mset (map cb_block_ref (decision_rows keep s)) = mset (map cb_block_ref ?rows)"
    unfolding decision_rows_def mset_map mset_sort ..
  moreover have "distinct (map cb_block_ref ?rows)"
    using \<open>held_once s\<close> unfolding refs held_once_def by (rule retain_distinct)
  ultimately show ?thesis using mset_eq_imp_distinct_iff by blast
qed

lemma decision_rows_mem:
  assumes "map_of (cp_decisions s) h = Some held" and "hl_generation held = cp_generation s" and "keep held"
  shows "\<lparr>cb_block_ref = h, cb_decision = decision_label (hl_decision held)\<rparr> \<in> set (decision_rows keep s)"
  using map_of_SomeD[OF assms(1)] assms(2,3) by (force simp: decision_rows_def retain_def)

lemma record_turn_cache_decisions:
  "cp_decisions (record_turn_cache now r s) = cp_decisions s" "cp_generation (record_turn_cache now r s) = cp_generation s"
  "cp_last_assembly (record_turn_cache now r s) = cp_last_assembly s" "cp_dirty (record_turn_cache now r s) = cp_dirty s"
  by (simp_all add: record_turn_cache_def record_turn_def clear_retention_demoted_def touch_timestamp_def Let_def
      split: option.splits)

lemma seed_fold_unstarted: "cp_last_assembly (fst (snd (foldl seed_fold st es))) = cp_last_assembly (fst (snd st))"
proof (induction es arbitrary: st)
  case (Cons e es)
  have "cp_last_assembly (fst (snd (seed_event ts ev st))) = cp_last_assembly (fst (snd st))" for ts ev st
    by (induction ts ev st rule: seed_event.induct)
      (simp_all add: clear_decisions_def seed_turn_def replace_decisions_def Let_def split: option.splits)
  then have "cp_last_assembly (fst (snd (seed_fold st e))) = cp_last_assembly (fst (snd st))"
    by (cases st) (simp add: seed_fold_def)
  then show ?case using Cons.IH by simp
qed simp

lemma seed_last_turn:
  assumes "tu_cache_read_reported u" and "le_event e1 = EV_TurnUsage u" and "le_event e2 = EV_CacheDecisions rows (tu_model u)"
    and "foldl seed_fold st (log @ [e1, e2]) = (sd, c, prev)"
  shows "cp_decisions c = foldl (restore_row (cp_generation c)) [] rows" and "cp_pending c = RC_None"
    and "\<not> cp_dead_band c" and "cp_last_cache_read_tokens c = unat (tu_cache_read u)"
  using assms by (auto simp: seed_fold_def seed_turn_def replace_decisions_def Let_def split: prod.splits)

text \<open>C14. A reopened session sends what its previous process sent: when the log ends with the usage of a turn whose
  provider reported a cache read and the decisions drained after it, the first request of the process that reads the log
  decides each block that neither request found superseded as the recorded request did, whatever its age is by then.\<close>

theorem reopened_session_decides_as_recorded:
  assumes "held_once s" and "cp_last_assembly s \<noteq> Some a" and "distinct (map fst bs)"
    and "assembly_decisions l sizes True a bs s = (ds, s1)"
    and "fst (drain_if_dirty (record_turn_cache now reported s1)) = Some rows"
    and "tu_cache_read_reported u" and "0 < unat (tu_cache_read u)"
    and "le_event e1 = EV_TurnUsage u" and "le_event e2 = EV_CacheDecisions rows (tu_model u)"
    and "foldl seed_fold (seed_default, cached_prefix_new, None) (log @ [e1, e2]) = (sd, c, prev)"
    and "distinct (map fst bs')" and "assembly_decisions l sizes' True 1 bs' c = (ds', s2)"
    and "i < length bs" and "bs ! i = (h, age, False)" and "j < length bs'" and "bs' ! j = (h, age', False)"
  shows "ds' ! j = ds ! i"
proof -
  have nonempty: "bs \<noteq> []" "bs' \<noteq> []" using assms(13,15) by auto
  obtain alive s0 where b0: "begin_assembly a (lv_materialize_turns_live l) s = (alive, s0)" and turn: "same_turn s0 s1"
    and all: "list_all2 (decided l sizes a s0 s1) bs ds"
    using assembly_new[OF assms(2) nonempty(1) assms(3,4)] by blast
  let ?s = "record_turn_cache now reported s1"
  have last1: "cp_last_assembly ?s = Some a"
    using begin_assembly_new(1)[OF assms(2) b0] turn by (simp add: same_turn_def record_turn_cache_decisions)
  have rows: "rows = decision_rows (\<lambda>held. hl_last_seen_assembly held = a) ?s"
    using assms(5) last1 by (simp add: drain_if_dirty_def split: if_splits)
  have once: "held_once ?s"
    using assembly_once[OF assms(1)] assms(4) by (metis held_once_def record_turn_cache_decisions(1) snd_conv)
  obtain held where held: "map_of (cp_decisions ?s) h = Some held" "hl_decision held = ds ! i"
      "hl_generation held = cp_generation ?s" "hl_last_seen_assembly held = a"
    using list_all2_nthD[OF all assms(13)] assms(14) by (auto simp: decided_def held_entry_def record_turn_cache_decisions)
  note seed = seed_last_turn[OF assms(6,8,9,10)]
  have restored: "map_of (cp_decisions c) h =
      Some \<lparr>hl_generation = cp_generation c, hl_decision = ds ! i, hl_last_age = 0, hl_bytes = None, hl_last_seen_assembly = 0\<rparr>"
    using restore_rows[OF decision_rows_distinct[OF once] decision_rows_mem[OF held(1,3)], where d = "ds ! i"] held(2,4)
    by (simp add: seed(1) rows)
  have new: "cp_last_assembly c \<noteq> Some 1"
    using seed_fold_unstarted[of "(seed_default, cached_prefix_new, None)" "log @ [e1, e2]"] assms(10)
    by (simp add: cached_prefix_new_def)
  obtain alive' s0' where b1: "begin_assembly 1 (lv_materialize_turns_live l) c = (alive', s0')"
    and all': "list_all2 (decided l sizes' 1 s0' s2) bs' ds'"
    using assembly_new[OF new nonempty(2) assms(11,12)] by blast
  have "lookup_held_readonly h s0' = Some (ds ! i)"
    using begin_keeps[OF new b1 restored] seed(2) by (simp add: PRUNE_AFTER_ASSEMBLIES_def)
  moreover have "cp_alive s0'"
    using b1 new seed assms(7) by (auto simp: begin_assembly_def consume_pending_def cache_live_def Let_def)
  ultimately show ?thesis using list_all2_nthD[OF all' assms(15)] assms(16) by (auto simp: decided_def)
qed

text \<open>A block retrieved in the last recorded request is retrieved when the session is reopened eight turns later.\<close>

definition sample_usage :: turn_usage where
  "sample_usage = \<lparr>tu_turn = 1, tu_call_in_turn = 0, tu_input_tokens = 0, tu_output_tokens = 0, tu_cache_read = 100,
     tu_cache_write = 0, tu_reasoning_tokens = 0, tu_model = ''m'', tu_recovery = False, tu_effort = None,
     tu_input_reported = True, tu_cache_read_reported = True, tu_cache_write_reported = True, tu_cas_recorded = True\<rparr>"

definition sample_log :: "session_entry list" where
  "sample_log =
     [\<lparr>le_id = ''1'', le_session = ''s'', le_ts = 5, le_prev_hash = None, le_event = EV_TurnUsage sample_usage\<rparr>,
      \<lparr>le_id = ''2'', le_session = ''s'', le_ts = 6, le_prev_hash = None,
       le_event = EV_CacheDecisions [\<lparr>cb_block_ref = ''b1'', cb_decision = ''materialize''\<rparr>] ''m''\<rparr>]"

theorem reopened_session_decides_as_recorded_witness:
  "fst (assembly_decisions liveness_new (\<lambda>_. None) True 1 [(''b1'', 8, False)]
     (fst (snd (foldl seed_fold (seed_default, cached_prefix_new, None) sample_log)))) ! 0 = RD_Materialize"
proof -
  let ?r = "assembly_decisions liveness_new (\<lambda>_. None) True 1 [(''b1'', 0, False)] cached_prefix_new"
  let ?f = "foldl seed_fold (seed_default, cached_prefix_new, None) sample_log"
  let ?r' = "assembly_decisions liveness_new (\<lambda>_. None) True 1 [(''b1'', 8, False)] (fst (snd ?f))"
  have r: "?r = ([RD_Materialize], snd ?r)" by code_simp
  have rows: "fst (drain_if_dirty (record_turn_cache 5 (Some 100) (snd ?r))) =
      Some [\<lparr>cb_block_ref = ''b1'', cb_decision = ''materialize''\<rparr>]" by code_simp
  have f: "foldl seed_fold (seed_default, cached_prefix_new, None) ([] @ [sample_log ! 0, sample_log ! 1]) =
      (fst ?f, fst (snd ?f), snd (snd ?f))" by (simp add: sample_log_def)
  have "fst ?r' ! 0 = [RD_Materialize] ! 0"
    by (rule reopened_session_decides_as_recorded[OF _ _ _ r rows _ _ _ _ f, where u = sample_usage
          and h = "''b1''" and age = 0 and age' = 8 and bs' = "[(''b1'', 8, False)]" and sizes' = "\<lambda>_. None"
          and ds' = "fst ?r'" and ?s2.0 = "snd ?r'"])
      (simp_all add: held_once_def cached_prefix_new_def sample_usage_def sample_log_def)
  then show ?thesis by simp
qed

end
