(* ===== verification/Shell_History.thy ===== *)
theory Shell_History
  imports Retention "HOL-Library.AList"
begin

text \<open>
  The share of a request that the commands typed at the input box may take
  (\<open>houyicoder-core/src/agent/context/shell_history.rs\<close>) and the call ids that mark such commands
  (\<open>houyicoder-protocol/src/tool/user_shell.rs\<close>). The tokenizer and the printer of JSON are arguments; strings are the
  bytes of their UTF-8 form.
\<close>

subsection \<open>Call ids of typed commands\<close>

definition USER_SHELL_CALL_PREFIX :: str where
  "USER_SHELL_CALL_PREFIX = ''shell-''"

definition EVENT_ID_DISPLAY_LEN :: nat where
  "EVENT_ID_DISPLAY_LEN = 26"

definition user_shell_call_id :: "str \<Rightarrow> str" where
  "user_shell_call_id event_id = USER_SHELL_CALL_PREFIX @ event_id"

definition is_event_id_char :: "char \<Rightarrow> bool" where
  "is_event_id_char b = (let n = code_of b in
     (48 \<le> n \<and> n \<le> 57) \<or> (65 \<le> n \<and> n \<le> 72) \<or> n = 74 \<or> n = 75 \<or> n = 77 \<or> n = 78 \<or> (80 \<le> n \<and> n \<le> 84) \<or>
     (86 \<le> n \<and> n \<le> 90))"

definition is_user_shell_call_id :: "str \<Rightarrow> bool" where
  "is_user_shell_call_id call_id =
     (prefix USER_SHELL_CALL_PREFIX call_id \<and>
      (let rest = drop (length USER_SHELL_CALL_PREFIX) call_id
       in length rest = EVENT_ID_DISPLAY_LEN \<and> list_all is_event_id_char rest))"

definition model_call_id :: "str \<Rightarrow> str" where
  "model_call_id call_id = (if is_user_shell_call_id call_id then ''model-'' @ call_id else call_id)"

text \<open>The decimal form of a number.\<close>

fun nat_str :: "nat \<Rightarrow> str" where
  "nat_str n = (if n < 10 then [char_of (48 + n)] else nat_str (n div 10) @ [char_of (48 + n mod 10)])"

declare nat_str.simps [simp del]

text \<open>The loop over the suffixes; \<open>n\<close> counts up as a \<open>u32\<close>, and \<open>fuel\<close> bounds the rounds.\<close>

fun suffixed_id :: "nat \<Rightarrow> str \<Rightarrow> nat \<Rightarrow> str list \<Rightarrow> str option" where
  "suffixed_id 0 base n taken = None"
| "suffixed_id (Suc fuel) base n taken =
     (let candidate = base @ ''-'' @ nat_str n
      in if candidate \<in> set taken then suffixed_id fuel base (n + 1) taken else Some candidate)"

definition unique_model_call_id :: "str \<Rightarrow> str list \<Rightarrow> (str \<times> str list) option" where
  "unique_model_call_id call_id taken =
     (let base = model_call_id call_id
      in map_option (\<lambda>candidate. (candidate, candidate # taken))
           (if base \<in> set taken then suffixed_id (Suc (length taken)) base 1 taken else Some base))"

subsection \<open>The plan\<close>

definition NOTICE_PREVIEWS :: nat where
  "NOTICE_PREVIEWS = 5"

definition NOTICE_PREVIEW_CHARS :: nat where
  "NOTICE_PREVIEW_CHARS = 48"

definition COMMAND_FRAMING_TOKENS :: nat where
  "COMMAND_FRAMING_TOKENS = 48"

definition NOTICE_RESERVE_TOKENS :: nat where
  "NOTICE_RESERVE_TOKENS = 320"

record shell_history_plan =
  sp_kept :: "(str \<times> nat) list"
  sp_notice :: "str option"
  sp_charged_tokens :: nat

definition plan_default :: shell_history_plan where
  "plan_default = \<lparr>sp_kept = [], sp_notice = None, sp_charged_tokens = 0\<rparr>"

definition plan_keeps :: "shell_history_plan \<Rightarrow> str \<Rightarrow> bool" where
  "plan_keeps plan call_id = (map_of (sp_kept plan) call_id \<noteq> None)"

definition charged_result_tokens :: "shell_history_plan \<Rightarrow> str \<Rightarrow> nat option" where
  "charged_result_tokens plan call_id = map_of (sp_kept plan) call_id"

definition kept_count :: "shell_history_plan \<Rightarrow> nat" where
  "kept_count plan = length (sp_kept plan)"

record shell_command =
  sh_call_id :: str
  sh_command :: str
  sh_input :: json
  sh_output :: "json option"

fun result_output :: "str \<Rightarrow> session_event list \<Rightarrow> json option" where
  "result_output call_id [] = None"
| "result_output call_id (EV_ToolResult cid out _ # evs) = (if cid = call_id then Some out else result_output call_id evs)"
| "result_output call_id (_ # evs) = result_output call_id evs"

fun shell_command_of :: "session_event list \<Rightarrow> session_event \<Rightarrow> shell_command option" where
  "shell_command_of evs (EV_ToolCall call_id _ input) =
     (if is_user_shell_call_id call_id
      then Some \<lparr>sh_call_id = call_id, sh_command = (case get_str input ''command'' of None \<Rightarrow> [] | Some c \<Rightarrow> c),
                 sh_input = input, sh_output = result_output call_id evs\<rparr>
      else None)"
| "shell_command_of evs _ = None"

definition collect_commands :: "session_event list \<Rightarrow> shell_command list" where
  "collect_commands evs = List.map_filter (shell_command_of evs) evs"

definition logged_result_tokens :: "json_io \<Rightarrow> shell_command \<Rightarrow> nat" where
  "logged_result_tokens io r =
     min (case sh_output r of None \<Rightarrow> 0 | Some out \<Rightarrow> length (ji_print io out)) (2 ^ 32 - 1)"

definition command_cost :: "json_io \<Rightarrow> (str \<Rightarrow> nat) \<Rightarrow> shell_command \<Rightarrow> nat" where
  "command_cost io count r =
     min (count (ji_print io (sh_input r)) + logged_result_tokens io r + COMMAND_FRAMING_TOKENS) (2 ^ 32 - 1)"

definition first_line :: "str \<Rightarrow> str" where
  "first_line s = (let l = takeWhile (\<lambda>c. c \<noteq> NL) s
     in if length l < length s \<and> l \<noteq> [] \<and> last l = CR then butlast l else l)"

function split_spaces :: "str \<Rightarrow> str \<Rightarrow> str list" where
  "split_spaces acc s =
     (if s = [] then [rev acc]
      else case find (\<lambda>w. prefix w s \<and> w \<noteq> []) utf8_ws of
             Some w \<Rightarrow> rev acc # split_spaces [] (drop (length w) s)
           | None \<Rightarrow> split_spaces (hd s # acc) (tl s))"
  by pat_completeness auto
termination
  by (relation "measure (\<lambda>(_, s). length s)") (auto simp: find_Some_iff)

fun take_chars :: "nat \<Rightarrow> str \<Rightarrow> str" where
  "take_chars n [] = []"
| "take_chars n (c # cs) =
     (if is_cont c then c # take_chars n cs else case n of 0 \<Rightarrow> [] | Suc m \<Rightarrow> c # take_chars m cs)"

definition command_preview :: "str \<Rightarrow> str" where
  "command_preview command =
     (let flat = str_join '' '' (filter (\<lambda>w. w \<noteq> []) (split_spaces [] (first_line command)))
      in if length (filter (\<lambda>c. \<not> is_cont c) flat) \<le> NOTICE_PREVIEW_CHARS then flat
         else take_chars NOTICE_PREVIEW_CHARS flat @ [CHR 0xE2, CHR 0x80, CHR 0xA6])"

definition ABSENT_NOTICE :: str where
  "ABSENT_NOTICE = ''[The history of user shell commands is not available in this request.]''"

definition full_notice :: "shell_command list \<Rightarrow> str" where
  "full_notice folded =
     ''['' @ nat_str (length folded) @ '' earlier user shell commands are not in this request. Most recent: '' @
     str_join '' | '' (map (\<lambda>r. command_preview (sh_command r)) (take NOTICE_PREVIEWS (rev folded))) @
     ''. The session log still holds every command and its output.]''"

definition folded_notice :: "(str \<Rightarrow> nat) \<Rightarrow> shell_command list \<Rightarrow> nat \<Rightarrow> str \<times> nat" where
  "folded_notice count folded remaining =
     (let full = full_notice folded; full_tokens = count full mod 2 ^ 32;
          pointer = ''['' @ nat_str (length folded) @ '' earlier user shell commands are not in this request. '' @
                    ''The session log still holds them and their output.]'';
          pointer_tokens = count pointer mod 2 ^ 32
      in if full_tokens \<le> remaining then (full, full_tokens)
         else if pointer_tokens \<le> remaining then (pointer, pointer_tokens)
         else (ABSENT_NOTICE, count ABSENT_NOTICE mod 2 ^ 32))"

text \<open>The walk over the commands, newest first: what was spent, what is kept, and the commands that are folded.\<close>

fun keep_newest ::
  "json_io \<Rightarrow> (str \<Rightarrow> nat) \<Rightarrow> nat \<Rightarrow> nat \<Rightarrow> (str \<times> nat) list \<Rightarrow> shell_command list \<Rightarrow>
   nat \<times> (str \<times> nat) list \<times> shell_command list" where
  "keep_newest io count command_budget spent kept [] = (spent, kept, [])"
| "keep_newest io count command_budget spent kept (r # older) =
     (let cost = command_cost io count r
      in if command_budget < min (spent + cost) (2 ^ 32 - 1) then (spent, kept, rev (r # older))
         else keep_newest io count command_budget (spent + cost)
                (AList.update (sh_call_id r) (logged_result_tokens io r) kept) older)"

definition plan_shell_history :: "json_io \<Rightarrow> (str \<Rightarrow> nat) \<Rightarrow> nat \<Rightarrow> session_event list \<Rightarrow> shell_history_plan" where
  "plan_shell_history io count budget_tokens evs =
     (let commands = collect_commands evs
      in if commands = [] then plan_default
         else case keep_newest io count (budget_tokens - NOTICE_RESERVE_TOKENS) 0 [] (rev commands) of
                (spent, kept, folded) \<Rightarrow>
                  if folded = [] then \<lparr>sp_kept = kept, sp_notice = None, sp_charged_tokens = spent\<rparr>
                  else case folded_notice count folded (budget_tokens - spent) of
                         (notice, notice_tokens) \<Rightarrow>
                           \<lparr>sp_kept = kept, sp_notice = Some notice,
                            sp_charged_tokens = min (spent + notice_tokens) (2 ^ 32 - 1)\<rparr>)"

subsection \<open>Ids of model calls\<close>

lemma nat_str_Suc: "10 \<le> n \<Longrightarrow> nat_str n = nat_str (n div 10) @ [char_of (48 + n mod 10)]"
  by (subst nat_str.simps) simp

lemma nat_str_digit: "n < 10 \<Longrightarrow> nat_str n = [char_of (48 + n)]"
  by (subst nat_str.simps) simp

lemma digit_char_inj: "a < 10 \<Longrightarrow> b < 10 \<Longrightarrow> (char_of (48 + a) :: char) = char_of (48 + b) \<Longrightarrow> a = (b :: nat)"
  by (simp add: char_of_eq_iff take_bit_eq_mod)

lemma nat_str_nonempty [simp]: "nat_str n \<noteq> []"
  by (subst nat_str.simps) simp

lemma nat_str_inj: "nat_str m = nat_str n \<Longrightarrow> m = n"
proof (induction m arbitrary: n rule: less_induct)
  case (less m)
  consider "m < 10" "n < 10" | "m < 10" "10 \<le> n" | "10 \<le> m" "n < 10" | "10 \<le> m" "10 \<le> n" by linarith
  then show ?case
  proof cases
    case 1
    then show ?thesis using less.prems digit_char_inj by (simp add: nat_str_digit)
  next
    case 4
    then have eq: "nat_str (m div 10) = nat_str (n div 10)" "(char_of (48 + m mod 10) :: char) = char_of (48 + n mod 10)"
      using less.prems by (simp_all add: nat_str_Suc)
    have "m div 10 = n div 10" using less.IH[OF _ eq(1)] 4 by simp
    moreover have "m mod 10 = n mod 10" using digit_char_inj[OF _ _ eq(2)] by simp
    ultimately show ?thesis by (metis div_mult_mod_eq)
  qed (use less.prems in \<open>auto simp: nat_str_digit nat_str_Suc Cons_eq_append_conv append_eq_Cons_conv\<close>)
qed

lemma nat_str_length: "n < 10 ^ k \<Longrightarrow> 0 < k \<Longrightarrow> length (nat_str n) \<le> k"
proof (induction k arbitrary: n)
  case (Suc k)
  show ?case
  proof (cases "n < 10")
    case False
    then have "length (nat_str (n div 10)) \<le> k" using Suc by (cases k) (simp_all add: less_mult_imp_div_less mult.commute)
    then show ?thesis using False by (simp add: nat_str_Suc)
  qed (simp add: nat_str_digit)
qed simp

lemma suffixed_id_fresh: "suffixed_id fuel base n taken = Some c \<Longrightarrow>
    c \<notin> set taken \<and> (\<exists>k. k < fuel \<and> c = base @ ''-'' @ nat_str (n + k))"
proof (induction fuel arbitrary: n)
  case (Suc fuel)
  show ?case
  proof (cases "base @ ''-'' @ nat_str n \<in> set taken")
    case True
    then obtain k where "c \<notin> set taken" "k < fuel" "c = base @ ''-'' @ nat_str (n + 1 + k)"
      using Suc.IH[of "n + 1"] Suc.prems by (auto simp: Let_def)
    then show ?thesis by (intro conjI exI[of _ "Suc k"]) simp_all
  next
    case False
    then show ?thesis using Suc.prems by (auto simp: Let_def intro!: exI[of _ 0])
  qed
qed simp

lemma suffixed_id_None: "suffixed_id fuel base n taken = None \<Longrightarrow>
    (\<lambda>k. base @ ''-'' @ nat_str (n + k)) ` {..<fuel} \<subseteq> set taken"
proof (induction fuel arbitrary: n)
  case (Suc fuel)
  then have "base @ ''-'' @ nat_str n \<in> set taken" "suffixed_id fuel base (n + 1) taken = None"
    by (auto simp: Let_def split: if_splits)
  with Suc.IH[of "n + 1"] have "(\<lambda>k. base @ ''-'' @ nat_str (n + Suc k)) ` {..<fuel} \<subseteq> set taken" by simp
  then show ?case
    using \<open>base @ ''-'' @ nat_str n \<in> set taken\<close> by (auto simp: lessThan_Suc_eq_insert_0)
qed simp

lemma suffixed_id_total: "suffixed_id (Suc (length taken)) base n taken \<noteq> None"
proof
  let ?f = "\<lambda>k. base @ ''-'' @ nat_str (n + k)"
  assume "suffixed_id (Suc (length taken)) base n taken = None"
  then have "card (?f ` {..<Suc (length taken)}) \<le> card (set taken)"
    by (intro card_mono suffixed_id_None) simp_all
  moreover have "inj_on ?f {..<Suc (length taken)}" by (auto intro!: inj_onI dest: nat_str_inj)
  ultimately show False using card_length[of taken] by (simp add: card_image)
qed

lemma dash_not_event_char: "\<not> is_event_id_char (CHR ''-'')"
  by (simp add: is_event_id_char_def code_of_def)

lemma shell_id_iff: "is_user_shell_call_id c \<longleftrightarrow>
    (\<exists>t. c = ''shell-'' @ t \<and> length t = EVENT_ID_DISPLAY_LEN \<and> list_all is_event_id_char t)"
  by (auto simp: is_user_shell_call_id_def USER_SHELL_CALL_PREFIX_def Let_def prefix_def)

lemma suffixed_not_shell:
  assumes "length (nat_str n) < EVENT_ID_DISPLAY_LEN"
  shows "\<not> is_user_shell_call_id (base @ ''-'' @ nat_str n)"
proof
  assume "is_user_shell_call_id (base @ ''-'' @ nat_str n)"
  then obtain t where t: "base @ ''-'' @ nat_str n = ''shell-'' @ t" "length t = EVENT_ID_DISPLAY_LEN" "list_all is_event_id_char t"
    by (auto simp: shell_id_iff)
  have "length base + 1 + length (nat_str n) = 6 + length t" using arg_cong[OF t(1), of length] by simp
  then have "6 \<le> length base" using assms t(2) by simp
  then have "drop 6 base @ ''-'' @ nat_str n = t" using arg_cong[OF t(1), of "drop 6"] by simp
  then have "CHR ''-'' \<in> set t" by (metis append_Cons in_set_conv_decomp)
  then show False using t(3) dash_not_event_char by (auto simp: list_all_iff)
qed

lemma model_call_id_not_shell: "\<not> is_user_shell_call_id (model_call_id call_id)"
  by (auto simp: model_call_id_def shell_id_iff)

text \<open>C28. Every call of a response gets an id, and it is one no other call has: the search for a free id ends, the id is
  not among the ids already taken and is recorded as taken, and it never has the shape reserved for commands the user
  typed, for responses of fewer than \<open>2 ^ 32\<close> calls.\<close>

theorem model_call_ids_unique:
  assumes "length taken < 2 ^ 32 - 1"
  shows "\<exists>c. unique_model_call_id call_id taken = Some (c, c # taken) \<and> c \<notin> set taken \<and> \<not> is_user_shell_call_id c"
proof (cases "model_call_id call_id \<in> set taken")
  case True
  let ?base = "model_call_id call_id"
  obtain c where c: "suffixed_id (Suc (length taken)) ?base 1 taken = Some c" using suffixed_id_total by blast
  from suffixed_id_fresh[OF this] obtain k where k: "c \<notin> set taken" "k < Suc (length taken)" "c = ?base @ ''-'' @ nat_str (1 + k)"
    by blast
  have "length (nat_str (1 + k)) \<le> 10" by (rule nat_str_length) (use k(2) assms in simp_all)
  then have "\<not> is_user_shell_call_id c" unfolding k(3) by (intro suffixed_not_shell) (simp add: EVENT_ID_DISPLAY_LEN_def)
  then show ?thesis using True c k(1) by (simp add: unique_model_call_id_def Let_def)
qed (simp add: unique_model_call_id_def model_call_id_not_shell Let_def)

theorem model_call_ids_unique_witness:
  "length [''model-shell-01ARZ3NDEKTSV4RRFFQ69G5FAV''] < 2 ^ 32 - 1 \<and>
   (\<exists>c. unique_model_call_id ''shell-01ARZ3NDEKTSV4RRFFQ69G5FAV'' [''model-shell-01ARZ3NDEKTSV4RRFFQ69G5FAV''] =
          Some (c, [c, ''model-shell-01ARZ3NDEKTSV4RRFFQ69G5FAV'']) \<and>
        c \<notin> set [''model-shell-01ARZ3NDEKTSV4RRFFQ69G5FAV''] \<and> \<not> is_user_shell_call_id c)"
  using model_call_ids_unique[of "[''model-shell-01ARZ3NDEKTSV4RRFFQ69G5FAV'']" "''shell-01ARZ3NDEKTSV4RRFFQ69G5FAV''"]
  by simp

subsection \<open>What the plan keeps\<close>

definition total_cost :: "json_io \<Rightarrow> (str \<Rightarrow> nat) \<Rightarrow> shell_command list \<Rightarrow> nat" where
  "total_cost io count rs = sum_list (map (command_cost io count) rs)"

lemma keep_newest_run:
  assumes "keep_newest io count cb spent kept rs = (spent', kept', folded)" and "spent \<le> cb" and "cb < 2 ^ 32 - 1"
  shows "\<exists>n \<le> length rs. folded = rev (drop n rs) \<and> spent' = spent + total_cost io count (take n rs) \<and> spent' \<le> cb \<and>
    fst ` set kept' = fst ` set kept \<union> sh_call_id ` set (take n rs) \<and>
    (n < length rs \<longrightarrow> cb < spent' + command_cost io count (rs ! n))"
  using assms
proof (induction rs arbitrary: spent kept)
  case (Cons r rs)
  let ?cost = "command_cost io count r"
  show ?case
  proof (cases "cb < min (spent + ?cost) (2 ^ 32 - 1)")
    case True
    then show ?thesis using Cons.prems by (intro exI[of _ 0]) (auto simp: total_cost_def)
  next
    case False
    let ?kept = "AList.update (sh_call_id r) (logged_result_tokens io r) kept"
    have fits: "spent + ?cost \<le> cb" using False Cons.prems(3) by (simp add: min_def split: if_splits)
    have "keep_newest io count cb (spent + ?cost) ?kept rs = (spent', kept', folded)"
      using Cons.prems(1) False by (simp only: keep_newest.simps Let_def if_False)
    from Cons.IH[OF this fits Cons.prems(3)] obtain n where n: "n \<le> length rs" "folded = rev (drop n rs)"
      "spent' = spent + ?cost + total_cost io count (take n rs)" "spent' \<le> cb"
      "fst ` set kept' = fst ` set ?kept \<union> sh_call_id ` set (take n rs)"
      "n < length rs \<longrightarrow> cb < spent' + command_cost io count (rs ! n)" by blast
    have "fst ` set ?kept = insert (sh_call_id r) (fst ` set kept)"
      using dom_update[of "sh_call_id r" _ kept] by (simp add: dom_map_of_conv_image_fst)
    then show ?thesis using n by (intro exI[of _ "Suc n"]) (auto simp: total_cost_def)
  qed
qed (simp add: total_cost_def)

lemma absent_notice_length: "length ABSENT_NOTICE = 70"
  by (simp add: ABSENT_NOTICE_def)

lemma command_cost_pos: "0 < command_cost io count r"
  by (simp add: command_cost_def COMMAND_FRAMING_TOKENS_def)

lemma folded_notice_cost:
  assumes "folded_notice count folded remaining = (notice, tokens)" and "count ABSENT_NOTICE \<le> length ABSENT_NOTICE"
  shows "tokens \<le> max remaining (length ABSENT_NOTICE)"
proof -
  have "count ABSENT_NOTICE mod 2 ^ 32 \<le> length ABSENT_NOTICE" using assms(2) mod_less_eq_dividend order_trans by blast
  then show ?thesis using assms(1) by (auto simp: folded_notice_def Let_def split: if_splits)
qed

lemma keep_newest_suffix:
  assumes "keep_newest io count cb 0 [] (rev cs) = (spent, kept, folded)" and "cb < 2 ^ 32 - 1"
  shows "\<exists>k \<le> length cs. folded = take k cs \<and> fst ` set kept = sh_call_id ` set (drop k cs) \<and>
    spent = total_cost io count (drop k cs) \<and> spent \<le> cb \<and> (0 < k \<longrightarrow> cb < total_cost io count (drop (k - 1) cs))"
proof -
  obtain n where n: "n \<le> length cs" "folded = rev (drop n (rev cs))"
    "spent = total_cost io count (take n (rev cs))" "spent \<le> cb" "fst ` set kept = sh_call_id ` set (take n (rev cs))"
    "n < length cs \<longrightarrow> cb < spent + command_cost io count (rev cs ! n)"
    using keep_newest_run[OF assms(1) _ assms(2)] by auto
  define k where "k = length cs - n"
  have sfx: "take n (rev cs) = rev (drop k cs)" "folded = take k cs" "k \<le> length cs"
    using n(1,2) by (simp_all add: k_def take_rev drop_rev)
  have cost: "spent = total_cost io count (drop k cs)"
    unfolding n(3) sfx total_cost_def rev_map[symmetric] by (simp add: sum_list_rev)
  have "cb < total_cost io count (drop (k - 1) cs)" if "0 < k"
  proof -
    have idx: "rev cs ! n = cs ! (k - 1)" using that n(1) by (simp add: k_def rev_nth)
    have "drop (k - 1) cs = cs ! (k - 1) # drop k cs" using that sfx(3) Cons_nth_drop_Suc[of "k - 1" cs] by simp
    then show ?thesis using that n(1,6) idx cost by (simp add: k_def total_cost_def)
  qed
  then show ?thesis using n(4,5) sfx cost by (intro exI[of _ k]) simp
qed

lemma charged_within:
  assumes "folded_notice count folded (budget - spent) = (notice, tokens)" and "count ABSENT_NOTICE \<le> length ABSENT_NOTICE"
    and "spent \<le> budget - NOTICE_RESERVE_TOKENS"
  shows "min (spent + tokens) m \<le> max budget (length ABSENT_NOTICE)"
  using folded_notice_cost[OF assms(1,2)] assms(3)
  by (auto simp: absent_notice_length NOTICE_RESERVE_TOKENS_def max_def min_def split: if_splits)

text \<open>The plan is determined by the place where the walk over the commands stopped.\<close>

lemma plan_by_place:
  assumes "budget < 2 ^ 32" and "count ABSENT_NOTICE \<le> length ABSENT_NOTICE"
  shows "\<exists>k \<le> length (collect_commands evs).
    fst ` set (sp_kept (plan_shell_history io count budget evs)) = sh_call_id ` set (drop k (collect_commands evs)) \<and>
    total_cost io count (drop k (collect_commands evs)) \<le> budget - NOTICE_RESERVE_TOKENS \<and>
    (0 < k \<longrightarrow> budget - NOTICE_RESERVE_TOKENS < total_cost io count (drop (k - 1) (collect_commands evs))) \<and>
    (sp_notice (plan_shell_history io count budget evs) = None \<longleftrightarrow> k = 0) \<and>
    sp_charged_tokens (plan_shell_history io count budget evs) \<le> max budget (length ABSENT_NOTICE)"
proof (cases "collect_commands evs = []")
  case False
  define cs where "cs = collect_commands evs"
  define cb where "cb = budget - NOTICE_RESERVE_TOKENS"
  obtain spent kept folded where walk: "keep_newest io count cb 0 [] (rev cs) = (spent, kept, folded)" by (metis prod_cases3)
  have "cb < 2 ^ 32 - 1" using assms(1) by (simp add: cb_def NOTICE_RESERVE_TOKENS_def)
  from keep_newest_suffix[OF walk this] obtain k where k: "k \<le> length cs" "folded = take k cs"
    "fst ` set kept = sh_call_id ` set (drop k cs)" "spent = total_cost io count (drop k cs)" "spent \<le> cb"
    "0 < k \<longrightarrow> cb < total_cost io count (drop (k - 1) cs)" by blast
  have folded: "folded = [] \<longleftrightarrow> k = 0" using k(1,2) False by (auto simp: cs_def)
  define plan where "plan = plan_shell_history io count budget evs"
  obtain notice tokens where said: "folded_notice count folded (budget - spent) = (notice, tokens)" by fastforce
  have plan: "plan = (if folded = [] then \<lparr>sp_kept = kept, sp_notice = None, sp_charged_tokens = spent\<rparr>
      else \<lparr>sp_kept = kept, sp_notice = Some notice, sp_charged_tokens = min (spent + tokens) (2 ^ 32 - 1)\<rparr>)"
    using False walk said by (simp add: plan_def plan_shell_history_def cs_def cb_def)
  have "sp_charged_tokens plan \<le> max budget (length ABSENT_NOTICE)"
    using charged_within[OF said assms(2) k(5)[unfolded cb_def]] k(5) by (auto simp: plan cb_def)
  then show ?thesis using k folded unfolding plan_def[symmetric] cs_def[symmetric] cb_def[symmetric]
    by (intro exI[of _ k]) (auto simp: plan)
qed (simp add: plan_shell_history_def plan_default_def total_cost_def)

lemma plan_charged:
  assumes "budget < 2 ^ 32" and "\<And>t. count t \<le> length t"
  shows "sp_charged_tokens (plan_shell_history io count budget evs) \<le> max budget (length ABSENT_NOTICE)"
  using plan_by_place[where count = count, OF assms(1) assms(2)] by blast

text \<open>C21. A request keeps the newest commands the user typed, as many as fit: there is a place in the history such that
  the plan keeps exactly the commands after it, their cost fits the budget less the reserve for the notice, the next
  older command would not fit, a notice stands for the folded commands when there are any, and the tokens the plan
  commits are within the budget, or are those of the fixed line when the budget is smaller than that.\<close>

theorem shell_history_keeps_newest:
  assumes "budget < 2 ^ 32" and "\<And>t. count t \<le> length t"
  shows "\<exists>k \<le> length (collect_commands evs).
    (\<forall>id. plan_keeps (plan_shell_history io count budget evs) id \<longleftrightarrow> id \<in> sh_call_id ` set (drop k (collect_commands evs))) \<and>
    total_cost io count (drop k (collect_commands evs)) \<le> budget - NOTICE_RESERVE_TOKENS \<and>
    (0 < k \<longrightarrow> budget - NOTICE_RESERVE_TOKENS < total_cost io count (drop (k - 1) (collect_commands evs))) \<and>
    (sp_notice (plan_shell_history io count budget evs) = None \<longleftrightarrow> k = 0) \<and>
    sp_charged_tokens (plan_shell_history io count budget evs) \<le> max budget (length ABSENT_NOTICE)"
proof -
  have keeps: "plan_keeps plan id \<longleftrightarrow> id \<in> fst ` set (sp_kept plan)" for plan id
    by (auto simp: plan_keeps_def map_of_eq_None_iff)
  show ?thesis using plan_by_place[where count = count and evs = evs and io = io, OF assms(1) assms(2)]
    unfolding keeps set_eq_iff .
qed

text \<open>With no budget, the one command of the history is folded and the fixed line says so.\<close>

definition typed_command :: session_event where
  "typed_command = EV_ToolCall ''shell-01ARZ3NDEKTSV4RRFFQ69G5FAV'' ''bash'' (JObject [(''command'', JString ''ls'')])"

definition plain_io :: json_io where
  "plain_io = \<lparr>ji_print = (\<lambda>_. ''{}''), ji_parse = (\<lambda>_. None)\<rparr>"

theorem shell_history_keeps_newest_witness:
  "sp_notice (plan_shell_history plain_io length 0 [typed_command]) \<noteq> None \<and>
   sp_charged_tokens (plan_shell_history plain_io length 0 [typed_command]) \<le> 70"
proof -
  have cs: "length (collect_commands [typed_command]) = 1" by code_simp
  obtain k where k: "k \<le> length (collect_commands [typed_command])"
    "total_cost plain_io length (drop k (collect_commands [typed_command])) \<le> 0 - NOTICE_RESERVE_TOKENS"
    "sp_notice (plan_shell_history plain_io length 0 [typed_command]) = None \<longleftrightarrow> k = 0"
    "sp_charged_tokens (plan_shell_history plain_io length 0 [typed_command]) \<le> max 0 (length ABSENT_NOTICE)"
    using shell_history_keeps_newest[of 0 length "[typed_command]" plain_io] by auto
  have "k \<noteq> 0"
    using k(2) cs by (cases k; cases "collect_commands [typed_command]")
      (simp_all add: total_cost_def gr_implies_not_zero[OF command_cost_pos])
  then show ?thesis using k(3,4) by (simp add: absent_notice_length)
qed

end
