(* ===== verification/Request_Budget.thy ===== *)
theory Request_Budget
  imports Model_Input
begin

text \<open>
  What a request may take from the block store and from the history of typed commands, and the frame around untrusted
  text: properties of the assembly of \<open>turn_group.rs\<close> together with the policy of \<open>retention.rs\<close> and the frame of
  \<open>skill/body.rs\<close>.
\<close>

subsection \<open>The budget of a request\<close>

lemma materialize_result_within:
  assumes "rw_policy w = budgeted_policy inner count" and "within_budget B p" and "\<And>t. count t \<le> length t"
    and "markers_truthful (rw_backend w) out"
  shows "within_budget B (snd (materialize_result w plan evs i out p))"
  unfolding materialize_result_def assms(1) by (rule materialize_block_within[OF assms(2-4)])

fun result_truthful :: "blocks option \<Rightarrow> session_event \<Rightarrow> bool" where
  "result_truthful backend (EV_ToolResult _ out _) = markers_truthful backend out"
| "result_truthful backend _ = True"

definition budget_kept :: "nat \<Rightarrow> 'p budgeted retention_walk \<Rightarrow> 'p budgeted assembly \<Rightarrow> session_event list \<Rightarrow> bool" where
  "budget_kept B w s rest \<longleftrightarrow> within_budget B (ab_policy s) \<and> list_all (result_truthful (rw_backend w)) rest"

lemma truthful_rest: "budget_kept B w s (ev # rest) \<Longrightarrow> budget_kept B w s rest"
  by (simp add: budget_kept_def)

lemma answer_open_within:
  assumes "rw_policy w = budgeted_policy inner count" and "\<And>t. count t \<le> length t"
    and "list_all (result_truthful (rw_backend w)) evs"
    and "within_budget B (ab_policy s)"
  shows "within_budget B (ab_policy (answer_open w plan evs i c s))"
proof (cases "find_late_result evs i c")
  case (Some r)
  obtain idx raw where r: "r = (idx, raw)" by fastforce
  have "\<exists>ms. EV_ToolResult c raw ms \<in> set es" if "find_result c k es = Some (idx, raw)" for k es
    using that by (induction c k es rule: find_result.induct) (auto split: if_splits)
  then have "markers_truthful (rw_backend w) raw"
    using Some r assms(3) by (fastforce simp: find_late_result_def list_all_iff dest: in_set_dropD)
  then show ?thesis
    using materialize_result_within[OF assms(1,4,2), of raw plan evs idx] Some r by (simp add: answer_open_def case_prod_beta)
qed (use assms(4) in \<open>simp add: answer_open_def\<close>)

lemma finish_within:
  assumes "rw_policy w = budgeted_policy inner count" and "\<And>t. count t \<le> length t"
    and "list_all (result_truthful (rw_backend w)) evs"
    and "within_budget B (ab_policy s)"
  shows "within_budget B (ab_policy (finish_open_group w plan evs i s))"
proof -
  have "within_budget B (ab_policy (fold (answer_open w plan evs i) cs t))" if "within_budget B (ab_policy t)" for cs and t
    using that by (induction cs arbitrary: t) (simp_all add: answer_open_within[OF assms(1-3)])
  then show ?thesis using assms(4) by (simp add: finish_open_group_def)
qed

lemma gather_suffix: "set (snd (gather_tool_calls plan evs)) \<subseteq> set evs"
  by (induction plan evs rule: gather_tool_calls.induct) (auto simp: case_prod_beta)

lemma budget_walk:
  assumes "rw_policy w = budgeted_policy inner count" and "\<And>t. count t \<le> length t"
    and "list_all (result_truthful (rw_backend w)) evs"
  shows "walk_invariant w plan evs (budget_kept B w)"
proof (unfold_locales, goal_cases)
  case (1 s ev rest t)
  then show ?case by (auto simp: budget_kept_def held_push_def)
next
  case (2 s t thinking rest i)
  then show ?case
    using finish_within[OF assms, where B = B and s = s and plan = plan and i = i] gather_suffix[of plan rest]
    by (auto simp: budget_kept_def assistant_step_def list_all_iff)
next
  case (3 s call_id tool input rest)
  then show ?case by (auto simp: budget_kept_def call_step_def Let_def)
next
  case (4 s call_id out ms rest i)
  then have "within_budget B (snd (materialize_result w plan evs i out (ab_policy s)))"
    by (intro materialize_result_within[OF assms(1) _ assms(2)]) (auto simp: budget_kept_def)
  then show ?case using 4 by (auto simp: budget_kept_def result_step_def close_call_def Let_def case_prod_beta)
qed (rule truthful_rest)

lemma charged_plan_within:
  assumes "rw_policy w = budgeted_policy inner count" and "\<And>t. count t \<le> length t"
    and "bg_assembly p \<noteq> sc_id (rw_scope w)" and "length ABSENT_NOTICE \<le> bg_budget_tokens p" and "bg_budget_tokens p < 2 ^ 32"
  shows "within_budget (bg_budget_tokens p) (snd (charged_shell_plan w evs p))"
proof -
  let ?plan = "plan_shell_history (rw_io w) count (bg_budget_tokens p) evs"
  have "sp_charged_tokens ?plan \<le> max (bg_budget_tokens p) (length ABSENT_NOTICE)"
    by (rule plan_charged[OF assms(5,2)])
  then show ?thesis
    using assms(1,3,4,5) by (simp add: charged_shell_plan_def within_budget_def budgeted_charge_def start_assembly_def Let_def)
qed


text \<open>A window with a block of two bytes that is retrieved, under the policy a session runs with.\<close>

definition budget_walk_sample :: "unit budgeted retention_walk" where
  "budget_walk_sample = \<lparr>rw_io = \<lparr>ji_print = (\<lambda>_. ''{}''), ji_parse = (\<lambda>_. Some JNull)\<rparr>, rw_backend = Some (\<lambda>_. Inr ''{}''),
     rw_policy = budgeted_policy (age_policy age_default) length, rw_scope = \<lparr>sc_id = 1, sc_mutating = True\<rparr>\<rparr>"

definition stored_group :: "session_event list" where
  "stored_group = [EV_AssistantMessage ''ok'' None, EV_ToolCall ''a'' ''read'' JNull,
     EV_ToolResult ''a'' (JObject [(BLOCK_REF_KEY, JString ''h1''), (BLOCK_BYTES_KEY, JInt 2)]) 3]"


subsection \<open>Untrusted text stays in its frame\<close>

lemma sublist_sep: "c \<notin> set p \<Longrightarrow> p \<noteq> [] \<Longrightarrow> sublist p (xs @ c # ys) \<Longrightarrow> sublist p xs \<or> sublist p ys"
  by (induction xs) (auto simp: sublist_Cons_right prefix_Cons append_eq_Cons_conv prefix_append dest: prefix_imp_sublist)

lemma sublist_drop: "a \<notin> set new \<Longrightarrow> sublist (a # p) (new @ ys) \<Longrightarrow> sublist (a # p) ys"
  by (induction new) (auto simp: sublist_Cons_right)

lemma replace_free:
  assumes "a \<notin> set new" and "c \<notin> set (a # p)" and "\<And>w. w \<in> set ws \<Longrightarrow> \<not> sublist (a # p) w"
  shows "\<not> sublist (a # p) (str_join (c # new) ws)"
  using assms(3)
proof (induction ws)
  case (Cons w ws)
  show ?case
  proof (cases "ws = []")
    case False
    then have "str_join (c # new) (w # ws) = w @ c # (new @ str_join (c # new) ws)" by (simp add: str_join_Cons)
    then show ?thesis
      using Cons sublist_sep[OF assms(2), of w "new @ str_join (c # new) ws"] sublist_drop[OF assms(1)] by fastforce
  qed (use Cons in \<open>simp add: str_join_def\<close>)
qed (simp add: str_join_def)

lemma str_join_sublist: "w \<in> set ws \<Longrightarrow> sublist w (str_join sep ws)"
proof (induction ws)
  case (Cons v ws)
  show ?case
  proof (cases "ws = []")
    case False
    then have join: "str_join sep (v # ws) = v @ (sep @ str_join sep ws)" by (simp add: str_join_Cons)
    show ?thesis
    proof (cases "w = v")
      case False
      then have "sublist w (str_join sep ws)" using Cons by simp
      then show ?thesis unfolding join by (metis append.assoc sublist_appendI sublist_order.order_trans append_Nil2)
    qed (simp add: join)
  qed (use Cons in simp)
qed simp

lemma split_pattern_sublist: "w \<in> set (split_pattern p s) \<Longrightarrow> sublist w s"
  using str_join_sublist[of w "split_pattern p s" p] by (simp add: split_pattern_join)

text \<open>C27. A skill body from an untrusted source cannot close the frame it is put in or open one inside it: after escaping,
  neither the opening nor the closing tag of the wrapper occurs in the body, however the two are mixed or nested.\<close>

theorem untrusted_body_framed:
  "\<not> sublist ''<untrusted_skill'' (escape_wrapper_tokens content) \<and>
   \<not> sublist ''</untrusted_skill'' (escape_wrapper_tokens content)"
proof -
  define s where "s = str_replace ''<untrusted_skill'' ''&lt;untrusted_skill'' content"
  have s: "\<not> sublist ''<untrusted_skill'' s"
    unfolding s_def str_replace_def by (rule replace_free) (auto dest: split_pattern_pieces[rotated])
  have piece: "\<not> sublist ''<untrusted_skill'' w" if "w \<in> set (split_pattern ''</untrusted_skill'' s)" for w
    using that s split_pattern_sublist sublist_order.order_trans by blast
  show ?thesis
    unfolding escape_wrapper_tokens_def s_def[symmetric] str_replace_def[of "''</untrusted_skill''"]
    by (intro conjI replace_free) (use piece in \<open>auto dest: split_pattern_pieces[rotated]\<close>)
qed

end
