(* ===== verification/Compaction.thy ===== *)
theory Compaction
  imports Model_Input
begin

text \<open>
  Compaction of a session: the plan that folds the older rounds of a log
  (\<open>houyicoder-core/src/agent/compaction/manifest.rs\<close>, types in \<open>houyicoder-context/src/plan.rs\<close>), its application to the
  log (\<open>houyicoder-core/src/agent/context/selection.rs\<close>), the batches a folded span is summarised in
  (\<open>compaction/summarization.rs\<close>), and when an automatic compaction may run (\<open>compaction.rs\<close>,
  \<open>compaction/recording.rs\<close>). The tokenizer, the printer of JSON and the summarizer are arguments; ids, sessions and times
  that the code makes afresh are the fields of a record.
\<close>

subsection \<open>Plans\<close>

datatype disposition = DP_Verbatim | DP_Summarized | DP_Referenced

record turn_group =
  tg_turn_id :: str
  tg_disposition :: disposition
  tg_event_ids :: "str list"

record checkpoint_manifest =
  cm_id :: str
  cm_session :: str
  cm_last_event :: str
  cm_summary :: "str option"
  cm_plan :: "turn_group list"
  cm_ts :: nat

record compress_policy =
  cp_tail_turns :: nat
  cp_preserve_recent_tokens :: nat
  cp_large_output_bytes :: nat

definition compress_policy_default :: compress_policy where
  "compress_policy_default = \<lparr>cp_tail_turns = 4, cp_preserve_recent_tokens = 0, cp_large_output_bytes = 8192\<rparr>"

datatype summarize_error = SE_LlmFailed str | SE_Empty

type_synonym summarizer = "session_entry list \<Rightarrow> str option \<Rightarrow> summarize_error + str"

text \<open>What the code makes afresh: an id of an event, of a session and of a checkpoint, and the time in seconds.\<close>

record fresh_ids =
  fr_event :: str
  fr_session :: str
  fr_checkpoint :: str
  fr_now :: nat

definition heuristic_summarize :: summarizer where
  "heuristic_summarize events custom_instructions =
     (if events = [] then Inl SE_Empty
      else Inr (''Earlier conversation context ('' @ nat_str (length (filter (\<lambda>e. is_assistant (le_event e)) events)) @
                '' turns, '' @ nat_str (length events) @ '' events).''))"

fun is_delta_event :: "session_event \<Rightarrow> bool" where
  "is_delta_event (EV_AssistantTextDelta _) = True"
| "is_delta_event _ = False"

fun is_skill_body :: "session_event \<Rightarrow> bool" where
  "is_skill_body (EV_SkillBody _ _ _ _) = True"
| "is_skill_body _ = False"

subsection \<open>The boundary of the tail\<close>

text \<open>The loop from the last index down: the events left to look at, the last first; the index of an event is the number of
  events before it.\<close>

fun verbatim_scan :: "nat \<Rightarrow> nat \<Rightarrow> session_entry list \<Rightarrow> nat" where
  "verbatim_scan tail_turns count [] = 0"
| "verbatim_scan tail_turns count (e # before) =
     (if is_assistant (le_event e)
      then if count + 1 = tail_turns then length before else verbatim_scan tail_turns (count + 1) before
      else verbatim_scan tail_turns count before)"

definition verbatim_boundary :: "session_entry list \<Rightarrow> nat \<Rightarrow> nat" where
  "verbatim_boundary events tail_turns =
     (if events = [] \<or> tail_turns = 0 then (if events = [] then 0 else length events)
      else verbatim_scan tail_turns 0 (rev events))"

fun estimate_event_tokens :: "(str \<Rightarrow> nat) \<Rightarrow> (json \<Rightarrow> str) \<Rightarrow> session_event \<Rightarrow> nat" where
  "estimate_event_tokens count print_json (EV_UserInput text) = count text"
| "estimate_event_tokens count print_json (EV_MetaUser text) = count text"
| "estimate_event_tokens count print_json (EV_MidTurnInput text _) = count text"
| "estimate_event_tokens count print_json (EV_MemoryRecall text _ _) = count text"
| "estimate_event_tokens count print_json (EV_SkillListing text _ _) = count text"
| "estimate_event_tokens count print_json (EV_SkillBody skill_name content _ _) = count skill_name + count content"
| "estimate_event_tokens count print_json (EV_AssistantMessage text _) = count text"
| "estimate_event_tokens count print_json (EV_ToolCall _ tool input) = count tool + count (print_json input)"
| "estimate_event_tokens count print_json (EV_ToolResult _ out _) = count (print_json out)"
| "estimate_event_tokens count print_json (EV_NotificationInjected n) = count (nj_summary n)"
| "estimate_event_tokens count print_json _ = 0"

definition estimate_tokens :: "(str \<Rightarrow> nat) \<Rightarrow> (json \<Rightarrow> str) \<Rightarrow> session_entry list \<Rightarrow> nat" where
  "estimate_tokens count print_json events = sum_list (map (\<lambda>e. estimate_event_tokens count print_json (le_event e)) events)"

definition next_assistant :: "session_entry list \<Rightarrow> nat \<Rightarrow> nat option" where
  "next_assistant events start = find (\<lambda>i. is_assistant (le_event (events ! i))) [start..<length events]"

lemma next_assistant_Some:
  "next_assistant events start = Some i \<Longrightarrow> start \<le> i \<and> i < length events \<and> is_assistant (le_event (events ! i))"
  by (auto simp: next_assistant_def find_Some_iff)

function apply_token_ceiling :: "(session_entry list \<Rightarrow> nat) \<Rightarrow> session_entry list \<Rightarrow> nat \<Rightarrow> nat \<Rightarrow> nat" where
  "apply_token_ceiling estimate events boundary ceiling =
     (if boundary < length events
      then if estimate (drop boundary events) \<le> ceiling then boundary
           else (case next_assistant events (boundary + 1) of
                   Some i \<Rightarrow> apply_token_ceiling estimate events i ceiling
                 | None \<Rightarrow> length events)
      else boundary)"
  by pat_completeness auto
termination
  by (relation "measure (\<lambda>(estimate, events, boundary, ceiling). length events - boundary)")
    (auto dest!: next_assistant_Some)

declare apply_token_ceiling.simps [simp del]

text \<open>\<open>estimate\<close> stands for \<^const>\<open>estimate_tokens\<close> with a tokenizer; what follows holds for every estimate.\<close>

definition compress_boundary ::
  "(session_entry list \<Rightarrow> nat) \<Rightarrow> compress_policy \<Rightarrow> session_entry list \<Rightarrow> nat" where
  "compress_boundary estimate policy events =
     (let boundary = verbatim_boundary events (cp_tail_turns policy)
      in if cp_preserve_recent_tokens policy > 0
         then apply_token_ceiling estimate events boundary (cp_preserve_recent_tokens policy) else boundary)"

subsection \<open>Groups\<close>

record grouping =
  gr_groups :: "turn_group list"
  gr_ids :: "str list"
  gr_disp :: "disposition option"
  gr_turn :: "str option"

text \<open>Closing the open group: \<open>current_turn_id.unwrap_or(current_ids[0])\<close>.\<close>

definition push_group :: "grouping \<Rightarrow> grouping" where
  "push_group s =
     s\<lparr>gr_groups := gr_groups s @
         [\<lparr>tg_turn_id = (case gr_turn s of Some t \<Rightarrow> t | None \<Rightarrow> gr_ids s ! 0), tg_disposition = the (gr_disp s),
           tg_event_ids = gr_ids s\<rparr>], gr_ids := [], gr_turn := None\<rparr>"

definition group_step :: "grouping \<Rightarrow> session_entry \<times> disposition \<Rightarrow> grouping" where
  "group_step s ed =
     (case ed of (e, disp) \<Rightarrow>
        if is_delta_event (le_event e) then s
        else
          let is_asst = is_assistant (le_event e);
              start_new = (gr_disp s \<noteq> None \<and> (gr_disp s \<noteq> Some disp \<or> (is_asst \<and> gr_ids s \<noteq> [])));
              s1 = (if start_new then push_group s else s);
              s2 = s1\<lparr>gr_ids := gr_ids s1 @ [le_id e], gr_disp := Some disp\<rparr>
          in if is_asst then s2\<lparr>gr_turn := Some (le_id e)\<rparr> else s2)"

definition group_into_turn_groups :: "session_entry list \<Rightarrow> disposition list \<Rightarrow> turn_group list" where
  "group_into_turn_groups events dispositions =
     (let s = foldl group_step \<lparr>gr_groups = [], gr_ids = [], gr_disp = None, gr_turn = None\<rparr> (zip events dispositions)
      in gr_groups (if gr_ids s \<noteq> [] then push_group s else s))"

text \<open>The guard of a debug build; \<open>None\<close> where it stops at an empty group or an id seen before.\<close>

fun insert_ids :: "str list \<Rightarrow> str list \<Rightarrow> str list option" where
  "insert_ids seen [] = Some seen"
| "insert_ids seen (i # ids) = (if i \<in> set seen then None else insert_ids (i # seen) ids)"

fun insert_groups :: "str list \<Rightarrow> turn_group list \<Rightarrow> str list option" where
  "insert_groups seen [] = Some seen"
| "insert_groups seen (g # plan) =
     (if tg_event_ids g = [] then None
      else case insert_ids seen (tg_event_ids g) of None \<Rightarrow> None | Some seen' \<Rightarrow> insert_groups seen' plan)"

definition groups_cover_all :: "session_entry list \<Rightarrow> turn_group list \<Rightarrow> bool" where
  "groups_cover_all events plan =
     (case insert_groups [] plan of
        None \<Rightarrow> False
      | Some seen \<Rightarrow> list_all (\<lambda>e. is_delta_event (le_event e) \<or> le_id e \<in> set seen) events)"

subsection \<open>Building and applying a plan\<close>

definition dispositions_at :: "nat \<Rightarrow> session_entry list \<Rightarrow> disposition list" where
  "dispositions_at boundary events = map (\<lambda>i. if i \<ge> boundary then DP_Verbatim else DP_Summarized) [0..<length events]"

definition folded_events :: "session_entry list \<Rightarrow> disposition list \<Rightarrow> session_entry list" where
  "folded_events events dispositions =
     map fst (filter (\<lambda>(e, d). \<not> is_delta_event (le_event e) \<and> d = DP_Summarized \<and> \<not> is_skill_body (le_event e))
       (zip events dispositions))"

definition manifest_summary :: "summarizer \<Rightarrow> str option \<Rightarrow> session_entry list \<Rightarrow> str option" where
  "manifest_summary summarize custom_instructions folded =
     (if folded = [] then None
      else case summarize folded custom_instructions of
             Inr text \<Rightarrow> Some text
           | Inl SE_Empty \<Rightarrow> None
           | Inl (SE_LlmFailed _) \<Rightarrow>
               (case heuristic_summarize folded custom_instructions of Inr text \<Rightarrow> Some text | Inl _ \<Rightarrow> None))"

definition build_manifest ::
  "fresh_ids \<Rightarrow> (session_entry list \<Rightarrow> nat) \<Rightarrow> summarizer \<Rightarrow> session_entry list \<Rightarrow> compress_policy \<Rightarrow> str option \<Rightarrow>
   checkpoint_manifest" where
  "build_manifest fr estimate summarize events policy custom_instructions =
     (let dispositions = dispositions_at (compress_boundary estimate policy events) events
      in \<lparr>cm_id = fr_checkpoint fr,
          cm_session = (case events of [] \<Rightarrow> fr_session fr | e # _ \<Rightarrow> le_session e),
          cm_last_event = (if events = [] then fr_event fr else le_id (last events)),
          cm_summary = manifest_summary summarize custom_instructions (folded_events events dispositions),
          cm_plan = group_into_turn_groups events dispositions,
          cm_ts = fr_now fr\<rparr>)"

text \<open>The map built from the groups: the last group that names an id decides.\<close>

definition plan_pairs :: "turn_group list \<Rightarrow> (str \<times> disposition) list" where
  "plan_pairs plan = concat (map (\<lambda>g. map (\<lambda>i. (i, tg_disposition g)) (tg_event_ids g)) plan)"

definition plan_lookup :: "turn_group list \<Rightarrow> str \<Rightarrow> disposition option" where
  "plan_lookup plan i = map_of (rev (plan_pairs plan)) i"

text \<open>The walk of \<open>apply_manifest\<close>; \<open>summary\<close> is the text still to inject, \<open>injected\<close> the flag.\<close>

fun apply_walk ::
  "str \<Rightarrow> (str \<Rightarrow> disposition option) \<Rightarrow> bool \<Rightarrow> str option \<Rightarrow> session_entry list \<Rightarrow> session_entry list" where
  "apply_walk fresh_id look injected summary [] = []"
| "apply_walk fresh_id look injected summary (e # events) =
     (if is_delta_event (le_event e) then apply_walk fresh_id look injected summary events
      else case (case look (le_id e) of Some d \<Rightarrow> d | None \<Rightarrow> DP_Verbatim) of
             DP_Verbatim \<Rightarrow> e # apply_walk fresh_id look injected summary events
           | DP_Summarized \<Rightarrow>
               if injected then apply_walk fresh_id look injected summary events
               else (case summary of
                       Some text \<Rightarrow>
                         \<lparr>le_id = fresh_id, le_session = le_session e, le_ts = le_ts e, le_prev_hash = None,
                          le_event = EV_UserInput text\<rparr> # apply_walk fresh_id look True None events
                     | None \<Rightarrow> apply_walk fresh_id look True None events)
           | DP_Referenced \<Rightarrow> e # apply_walk fresh_id look injected summary events)"

definition apply_manifest :: "str \<Rightarrow> session_entry list \<Rightarrow> checkpoint_manifest \<Rightarrow> session_entry list" where
  "apply_manifest fresh_id events manifest =
     apply_walk fresh_id (plan_lookup (cm_plan manifest)) False (cm_summary manifest) events"

definition folded_event_count :: "checkpoint_manifest \<Rightarrow> nat" where
  "folded_event_count manifest =
     sum_list (map (\<lambda>g. length (tg_event_ids g)) (filter (\<lambda>g. tg_disposition g = DP_Summarized) (cm_plan manifest)))"

definition estimate_selected_transcript ::
  "(session_entry list \<Rightarrow> nat) \<Rightarrow> str \<Rightarrow> session_entry list \<Rightarrow> checkpoint_manifest option \<Rightarrow> nat" where
  "estimate_selected_transcript estimate fresh_id events manifest =
     estimate (case manifest of Some m \<Rightarrow> apply_manifest fresh_id events m | None \<Rightarrow> events)"

subsection \<open>Where the tail starts\<close>

abbreviation assistant_entry :: "session_entry \<Rightarrow> bool" where
  "assistant_entry e \<equiv> is_assistant (le_event e)"

abbreviation shown_entries :: "session_entry list \<Rightarrow> session_entry list" where
  "shown_entries es \<equiv> filter (\<lambda>e. \<not> is_delta_event (le_event e)) es"

definition turns_in :: "session_entry list \<Rightarrow> nat" where
  "turns_in es = length (filter assistant_entry es)"

definition round_start :: "session_entry list \<Rightarrow> nat \<Rightarrow> bool" where
  "round_start events i = (i = 0 \<or> i = length events \<or> (i < length events \<and> assistant_entry (events ! i)))"

lemma verbatim_scan_less: "es \<noteq> [] \<Longrightarrow> verbatim_scan t c es < length es"
proof (induction t c es rule: verbatim_scan.induct)
  case (2 t c e before)
  then show ?case by (cases "before = []") (auto simp: less_SucI)
qed simp

lemma verbatim_scan_turns:
  assumes "c < t"
  shows "let b = verbatim_scan t c (rev events)
    in b \<le> length events \<and> round_start events b \<and> turns_in (drop b events) = min (t - c) (turns_in events)"
  using assms
proof (induction events arbitrary: c rule: rev_induct)
  case (snoc e events)
  show ?case
  proof (cases "assistant_entry e \<and> c + 1 = t")
    case False
    define c' where "c' = (if assistant_entry e then c + 1 else c)"
    define b where "b = verbatim_scan t c' (rev events)"
    have "b \<le> length events \<and> round_start events b \<and> turns_in (drop b events) = min (t - c') (turns_in events)"
      using snoc.IH[of c'] snoc.prems False by (auto simp: c'_def b_def Let_def)
    moreover have "verbatim_scan t c (rev (events @ [e])) = b" using False by (auto simp: b_def c'_def)
    moreover have "b < length events \<or> events = []" using verbatim_scan_less[of "rev events" t c'] by (auto simp: b_def)
    moreover have "turns_in (events @ [e]) + c = turns_in events + c'" by (simp add: turns_in_def c'_def)
    moreover have "turns_in (drop b (events @ [e])) + c = turns_in (drop b events) + c'"
      using calculation(1) by (simp add: turns_in_def c'_def)
    moreover have "c' < t" using snoc.prems False by (auto simp: c'_def)
    ultimately show ?thesis by (auto simp: round_start_def nth_append Let_def)
  qed (auto simp: round_start_def turns_in_def)
qed (simp add: round_start_def turns_in_def)

lemma verbatim_boundary_turns:
  "verbatim_boundary events t \<le> length events \<and> round_start events (verbatim_boundary events t) \<and>
   turns_in (drop (verbatim_boundary events t) events) = min t (turns_in events)"
  using verbatim_scan_turns[of 0 t events]
  by (auto simp: verbatim_boundary_def round_start_def turns_in_def Let_def)

lemma next_assistant_between:
  assumes "next_assistant events start = r" and "start \<le> j" and "j < (case r of Some i \<Rightarrow> i | None \<Rightarrow> length events)"
    and "j < length events"
  shows "\<not> assistant_entry (events ! j)"
proof (cases r)
  case None
  then show ?thesis using assms by (auto simp: next_assistant_def find_None_iff)
next
  case (Some i)
  obtain k where k: "k < length [start..<length events]" "i = [start..<length events] ! k"
      "\<forall>m<k. \<not> assistant_entry (events ! ([start..<length events] ! m))"
    using assms(1) Some by (auto simp: next_assistant_def find_Some_iff)
  have "j - start < k" using assms(2,3) Some k(1,2) by auto
  then show ?thesis using k(3) assms(2,4) by auto
qed

lemma apply_token_ceiling_tail:
  assumes "boundary \<le> length events" and "round_start events boundary"
  shows "let b = apply_token_ceiling estimate events boundary ceiling
    in boundary \<le> b \<and> b \<le> length events \<and> round_start events b \<and>
       (b < length events \<longrightarrow> estimate (drop b events) \<le> ceiling) \<and>
       (\<forall>i. boundary \<le> i \<and> i < b \<and> (i = boundary \<or> round_start events i) \<longrightarrow> ceiling < estimate (drop i events))"
  using assms
proof (induction estimate events boundary ceiling rule: apply_token_ceiling.induct)
  case (1 estimate events boundary ceiling)
  let ?n = "next_assistant events (boundary + 1)"
  note rec = apply_token_ceiling.simps[of estimate events boundary ceiling]
  show ?case
  proof (cases "boundary < length events \<and> ceiling < estimate (drop boundary events)")
    case True
    define i where "i = (case ?n of Some i \<Rightarrow> i | None \<Rightarrow> length events)"
    have i: "boundary < i" "i \<le> length events" "round_start events i"
      using True by (auto simp: i_def round_start_def split: option.splits dest!: next_assistant_Some)
    have none: "\<not> round_start events j" if "boundary < j" "j < i" for j
      using next_assistant_between[OF refl, of "boundary + 1" j events] that i by (auto simp: round_start_def i_def)
    have b: "apply_token_ceiling estimate events boundary ceiling = apply_token_ceiling estimate events i ceiling"
      using True by (auto simp: rec i_def apply_token_ceiling.simps[of estimate events "length events"] split: option.splits)
    have "let b = apply_token_ceiling estimate events i ceiling
      in i \<le> b \<and> b \<le> length events \<and> round_start events b \<and> (b < length events \<longrightarrow> estimate (drop b events) \<le> ceiling) \<and>
         (\<forall>j. i \<le> j \<and> j < b \<and> (j = i \<or> round_start events j) \<longrightarrow> ceiling < estimate (drop j events))"
    proof (cases ?n)
      case None
      then show ?thesis
        by (auto simp: i_def apply_token_ceiling.simps[of estimate events "length events"] round_start_def Let_def)
    next
      case (Some k)
      then show ?thesis using "1.IH"[of k] True i by (simp add: i_def)
    qed
    then show ?thesis
      unfolding b Let_def using True i none by (metis le_neq_implies_less not_le order.strict_trans1 less_or_eq_imp_le)
  qed (use "1.prems" in \<open>auto simp: rec Let_def\<close>)
qed

lemma compress_boundary_bounds:
  "compress_boundary estimate policy events \<le> length events \<and> round_start events (compress_boundary estimate policy events)"
  using verbatim_boundary_turns[of events "cp_tail_turns policy"]
    apply_token_ceiling_tail[of "verbatim_boundary events (cp_tail_turns policy)" events estimate "cp_preserve_recent_tokens policy"]
  by (auto simp: compress_boundary_def Let_def)

subsection \<open>The groups are the rounds of the log\<close>

text \<open>The rounds of a run of events: a new one starts at every assistant message.\<close>

function rounds_of :: "session_entry list \<Rightarrow> session_entry list list" where
  "rounds_of [] = []"
| "rounds_of (e # es) =
     (e # takeWhile (\<lambda>x. \<not> assistant_entry x) es) # rounds_of (dropWhile (\<lambda>x. \<not> assistant_entry x) es)"
  by pat_completeness auto
termination
  by (relation "measure length") (auto simp: length_dropWhile_le le_imp_less_Suc)

definition round_group :: "disposition \<Rightarrow> session_entry list \<Rightarrow> turn_group" where
  "round_group d es = \<lparr>tg_turn_id = le_id (hd es), tg_disposition = d, tg_event_ids = map le_id es\<rparr>"

definition one_round :: "session_entry list \<Rightarrow> bool" where
  "one_round es = (es \<noteq> [] \<and> list_all (\<lambda>e. \<not> assistant_entry e) (tl es))"

lemma concat_rounds [simp]: "concat (rounds_of es) = es"
  by (induction es rule: rounds_of.induct) simp_all

lemma rounds_one: "one_round es \<Longrightarrow> rounds_of es = [es]"
  by (cases es) (simp_all add: one_round_def list_all_iff takeWhile_eq_all_conv[THEN iffD2] dropWhile_eq_Nil_conv[THEN iffD2])

lemma rounds_join: "one_round es \<Longrightarrow> assistant_entry x \<Longrightarrow> rounds_of (es @ x # xs) = es # rounds_of (x # xs)"
  by (cases es) (auto simp: one_round_def list_all_iff takeWhile_append dropWhile_append)

lemma rounds_append:
  "assistant_entry x \<Longrightarrow> rounds_of (es @ x # xs) = rounds_of es @ rounds_of (x # xs)"
proof (induction es rule: rounds_of.induct)
  case (2 e es)
  show ?case
  proof (cases "list_all (\<lambda>e. \<not> assistant_entry e) es")
    case True
    then have "one_round (e # es)" by (simp add: one_round_def)
    then show ?thesis using rounds_join[of "e # es" x xs] rounds_one[of "e # es"] 2 by (simp del: rounds_of.simps)
  next
    case False
    then obtain y where "y \<in> set es" "\<not> \<not> assistant_entry y" by (auto simp: list_all_iff)
    then show ?thesis using 2 by (simp del: not_not add: takeWhile_append1 dropWhile_append1)
  qed
qed simp

text \<open>The grouping with the events \<open>os\<close> of one round open.\<close>

definition open_round :: "turn_group list \<Rightarrow> disposition \<Rightarrow> session_entry list \<Rightarrow> grouping" where
  "open_round gs d os =
     \<lparr>gr_groups = gs, gr_ids = map le_id os, gr_disp = Some d, gr_turn = (if assistant_entry (hd os) then Some (le_id (hd os)) else None)\<rparr>"

lemma open_round_ids: "gr_ids (open_round gs d os) = map le_id os"
  by (simp add: open_round_def)

lemma push_open_round: "os \<noteq> [] \<Longrightarrow> gr_groups (push_group (open_round gs d os)) = gs @ [round_group d os]"
  by (cases os) (auto simp: push_group_def open_round_def round_group_def)

lemma group_step_first:
  "\<not> is_delta_event (le_event e) \<Longrightarrow>
   group_step \<lparr>gr_groups = [], gr_ids = [], gr_disp = None, gr_turn = None\<rparr> (e, d) = open_round [] d [e]"
  by (simp add: group_step_def open_round_def Let_def)

lemma group_step_open:
  assumes "\<not> is_delta_event (le_event e)" and "one_round os"
  shows "group_step (open_round gs d os) (e, d') =
    (if d' \<noteq> d \<or> assistant_entry e then open_round (gs @ [round_group d os]) d' [e] else open_round gs d (os @ [e]))"
  using assms by (cases os) (auto simp: group_step_def open_round_def push_group_def round_group_def one_round_def Let_def)

lemma group_steps_open:
  assumes "one_round os" and "list_all (\<lambda>e. \<not> is_delta_event (le_event e)) es"
  shows "\<exists>gs' os'. foldl group_step (open_round gs d os) (map (\<lambda>e. (e, d)) es) = open_round gs' d os' \<and> one_round os' \<and>
    gs' @ [round_group d os'] = gs @ map (round_group d) (rounds_of (os @ es))"
  using assms
proof (induction es arbitrary: gs os)
  case (Cons e es)
  show ?case
  proof (cases "assistant_entry e")
    case True
    then show ?thesis
      using Cons.IH[of "[e]" "gs @ [round_group d os]"] Cons.prems by (simp add: group_step_open one_round_def rounds_join)
  next
    case False
    then have "one_round (os @ [e])" using Cons.prems by (cases os) (simp_all add: one_round_def)
    then show ?thesis using Cons.IH[of "os @ [e]" gs] Cons.prems False by (simp add: group_step_open)
  qed
qed (use rounds_one in fastforce)

lemma group_steps_shown: "foldl group_step s eds = foldl group_step s (filter (\<lambda>ed. \<not> is_delta_event (le_event (fst ed))) eds)"
  by (induction eds arbitrary: s) (auto simp: group_step_def)

lemma group_runs:
  assumes "list_all (\<lambda>e. \<not> is_delta_event (le_event e)) (xs @ ys)" and "d \<noteq> d'"
  shows "gr_groups (let s = foldl group_step \<lparr>gr_groups = [], gr_ids = [], gr_disp = None, gr_turn = None\<rparr>
        (map (\<lambda>e. (e, d)) xs @ map (\<lambda>e. (e, d')) ys) in if gr_ids s \<noteq> [] then push_group s else s) =
    map (round_group d) (rounds_of xs) @ map (round_group d') (rounds_of ys)"
proof -
  have from_open: "gr_groups (let s = foldl group_step (open_round gs d1 [e]) (map (\<lambda>e. (e, d1)) es)
      in if gr_ids s \<noteq> [] then push_group s else s) = gs @ map (round_group d1) (rounds_of (e # es))"
    if es: "list_all (\<lambda>e. \<not> is_delta_event (le_event e)) es" for gs d1 e es
  proof -
    have "one_round [e]" by (simp add: one_round_def)
    from group_steps_open[OF this es, of gs d1] obtain gs' os' where
      "foldl group_step (open_round gs d1 [e]) (map (\<lambda>e. (e, d1)) es) = open_round gs' d1 os'" and "one_round os'"
      "gs' @ [round_group d1 os'] = gs @ map (round_group d1) (rounds_of (e # es))" by auto
    then show ?thesis by (simp add: push_open_round one_round_def open_round_ids)
  qed
  show ?thesis
  proof (cases xs)
    case Nil
    then show ?thesis using assms from_open[of _ "[]" d'] by (cases ys) (simp_all add: group_step_first)
  next
    case (Cons x xs')
    have "one_round [x]" by (simp add: one_round_def)
    from group_steps_open[OF this, of xs' "[]" d] assms Cons obtain gs os where run:
      "foldl group_step (open_round [] d [x]) (map (\<lambda>e. (e, d)) xs') = open_round gs d os" "one_round os"
      "gs @ [round_group d os] = map (round_group d) (rounds_of xs)" by auto
    show ?thesis
    proof (cases ys)
      case Nil
      then show ?thesis using assms Cons from_open[of xs' "[]" d x] by (simp add: group_step_first)
    next
      case (Cons y ys')
      then show ?thesis
        using assms \<open>xs = x # xs'\<close> run from_open[of ys' "gs @ [round_group d os]" d' y]
        by (simp add: group_step_first group_step_open)
    qed
  qed
qed

lemma zip_dispositions:
  "zip events (dispositions_at b events) = map (\<lambda>e. (e, DP_Summarized)) (take b events) @ map (\<lambda>e. (e, DP_Verbatim)) (drop b events)"
  by (rule nth_equalityI) (auto simp: dispositions_at_def nth_append)

lemma grouped_rounds:
  "group_into_turn_groups events (dispositions_at b events) =
   map (round_group DP_Summarized) (rounds_of (shown_entries (take b events))) @
   map (round_group DP_Verbatim) (rounds_of (shown_entries (drop b events)))"
proof -
  have "filter (\<lambda>ed. \<not> is_delta_event (le_event (fst ed))) (zip events (dispositions_at b events)) =
    map (\<lambda>e. (e, DP_Summarized)) (shown_entries (take b events)) @ map (\<lambda>e. (e, DP_Verbatim)) (shown_entries (drop b events))"
    by (simp add: zip_dispositions filter_map o_def)
  moreover have "list_all (\<lambda>e. \<not> is_delta_event (le_event e)) (shown_entries (take b events) @ shown_entries (drop b events))"
    by (auto simp: list_all_iff)
  ultimately show ?thesis
    unfolding group_into_turn_groups_def by (subst group_steps_shown) (simp add: Let_def group_runs[unfolded Let_def] del: foldl_append)
qed

lemma shown_rounds:
  assumes "round_start events b" and "b \<le> length events"
  shows "rounds_of (shown_entries events) = rounds_of (shown_entries (take b events)) @ rounds_of (shown_entries (drop b events))"
proof -
  have split: "shown_entries events = shown_entries (take b events) @ shown_entries (drop b events)"
    by (metis append_take_drop_id filter_append)
  consider "b = 0" | "b = length events" | "b < length events" "assistant_entry (events ! b)"
    using assms by (auto simp: round_start_def)
  then show ?thesis
  proof cases
    case 3
    then have "shown_entries (drop b events) = events ! b # shown_entries (drop (Suc b) events)"
      by (cases "le_event (events ! b)") (simp_all add: Cons_nth_drop_Suc[symmetric])
    then show ?thesis using split rounds_append 3(2) by metis
  qed simp_all
qed

text \<open>C17. The plan of a compaction keeps rounds whole: its groups are, in order, exactly the rounds of the log (an assistant
  message and everything up to the next one, streamed chunks left out), each anchored at its first event, those before
  the boundary folded and those from it on kept, and the boundary is the start of the log, its end, or an assistant
  message, so that no round lies on both sides.\<close>

theorem plan_keeps_rounds_whole:
  "let b = compress_boundary estimate policy events;
       rounds = rounds_of (shown_entries events);
       k = length (rounds_of (shown_entries (take b events)))
   in cm_plan (build_manifest fr estimate summarize events policy ci) =
        map (round_group DP_Summarized) (take k rounds) @ map (round_group DP_Verbatim) (drop k rounds) \<and>
      concat (take k rounds) = shown_entries (take b events) \<and> concat (drop k rounds) = shown_entries (drop b events) \<and>
      round_start events b"
  using compress_boundary_bounds[of estimate policy events]
    shown_rounds[of events "compress_boundary estimate policy events"]
  by (simp add: build_manifest_def grouped_rounds Let_def)

subsection \<open>The guard holds\<close>

lemma insert_ids_new:
  "distinct ids \<Longrightarrow> set ids \<inter> set seen = {} \<Longrightarrow> \<exists>s. insert_ids seen ids = Some s \<and> set s = set ids \<union> set seen"
proof (induction ids arbitrary: seen)
  case (Cons i ids)
  then show ?case using Cons.IH[of "i # seen"] by auto
qed simp

lemma insert_groups_new:
  assumes "distinct (concat (map tg_event_ids plan))" and "set (concat (map tg_event_ids plan)) \<inter> set seen = {}"
    and "list_all (\<lambda>g. tg_event_ids g \<noteq> []) plan"
  shows "\<exists>s. insert_groups seen plan = Some s \<and> set s = set (concat (map tg_event_ids plan)) \<union> set seen"
  using assms
proof (induction plan arbitrary: seen)
  case (Cons g plan)
  obtain s where s: "insert_ids seen (tg_event_ids g) = Some s" "set s = set (tg_event_ids g) \<union> set seen"
    using insert_ids_new[of "tg_event_ids g" seen] Cons.prems by auto
  moreover have "set (concat (map tg_event_ids plan)) \<inter> set s = {}" using Cons.prems s(2) by auto
  ultimately show ?case using Cons.IH[of s] Cons.prems by (auto simp: Un_ac)
qed simp

lemma group_ids: "concat (map tg_event_ids (map (round_group d) rs)) = map le_id (concat rs)"
  by (induction rs) (simp_all add: round_group_def)

lemma plan_ids: "concat (map tg_event_ids (group_into_turn_groups events (dispositions_at b events))) = map le_id (shown_entries events)"
proof -
  have "map le_id (shown_entries (take b events)) @ map le_id (shown_entries (drop b events)) = map le_id (shown_entries events)"
    by (metis append_take_drop_id filter_append map_append)
  then show ?thesis unfolding grouped_rounds map_append concat_append group_ids concat_rounds .
qed

lemma rounds_nonempty: "r \<in> set (rounds_of es) \<Longrightarrow> r \<noteq> []"
  by (induction es rule: rounds_of.induct) auto

lemma distinct_shown: "distinct (map le_id events) \<Longrightarrow> distinct (map le_id (shown_entries events))"
  by (induction events) auto

lemma guard_holds:
  assumes "distinct (map le_id events)"
  shows "groups_cover_all events (group_into_turn_groups events (dispositions_at b events))"
proof -
  let ?plan = "group_into_turn_groups events (dispositions_at b events)"
  have "list_all (\<lambda>g. tg_event_ids g \<noteq> []) ?plan"
    by (auto simp: grouped_rounds list_all_iff round_group_def dest: rounds_nonempty)
  then obtain seen where "insert_groups [] ?plan = Some seen" "set seen = set (map le_id (shown_entries events))"
    using insert_groups_new[of ?plan "[]"] distinct_shown[OF assms] by (auto simp: plan_ids)
  then show ?thesis by (auto simp: groups_cover_all_def list_all_iff)
qed

subsection \<open>The view of a compacted log\<close>

definition summary_entry :: "str \<Rightarrow> str \<Rightarrow> session_entry \<Rightarrow> session_entry" where
  "summary_entry fresh_id text e =
     \<lparr>le_id = fresh_id, le_session = le_session e, le_ts = le_ts e, le_prev_hash = None, le_event = EV_UserInput text\<rparr>"

lemma apply_walk_kept:
  "list_all (\<lambda>e. look (le_id e) \<in> {None, Some DP_Verbatim}) (shown_entries es) \<Longrightarrow>
   apply_walk f look injected summary es = shown_entries es"
  by (induction es) (auto split: option.splits)

lemma apply_walk_folded:
  assumes "list_all (\<lambda>e. look (le_id e) = Some DP_Summarized) (shown_entries es)"
    and "list_all (\<lambda>e. look (le_id e) \<in> {None, Some DP_Verbatim}) (shown_entries rest)"
  shows "apply_walk f look injected summary (es @ rest) =
    (if injected \<or> shown_entries es = [] then []
     else case summary of None \<Rightarrow> [] | Some t \<Rightarrow> [summary_entry f t (hd (shown_entries es))]) @ shown_entries rest"
  using assms
proof (induction es arbitrary: injected summary)
  case (Cons e es)
  then show ?case by (cases summary) (auto simp: summary_entry_def)
qed (simp add: apply_walk_kept)

lemma plan_pairs_rounds: "plan_pairs (map (round_group d) rs) = map (\<lambda>e. (le_id e, d)) (concat rs)"
  by (induction rs) (simp_all add: plan_pairs_def round_group_def o_def)

lemma plan_lookup_rounds:
  "plan_lookup (group_into_turn_groups events (dispositions_at b events)) i =
   map_of (rev (map (\<lambda>e. (le_id e, DP_Summarized)) (shown_entries (take b events)) @
     map (\<lambda>e. (le_id e, DP_Verbatim)) (shown_entries (drop b events)))) i"
proof -
  have "plan_pairs (p @ q) = plan_pairs p @ plan_pairs q" for p q by (simp add: plan_pairs_def)
  then show ?thesis by (simp add: plan_lookup_def grouped_rounds plan_pairs_rounds)
qed

lemma plan_lookup_side:
  assumes "distinct (map le_id (events @ later))"
  shows "list_all (\<lambda>e. plan_lookup (group_into_turn_groups events (dispositions_at b events)) (le_id e) = Some DP_Summarized)
      (shown_entries (take b events))"
    and "list_all (\<lambda>e. plan_lookup (group_into_turn_groups events (dispositions_at b events)) (le_id e) \<in> {None, Some DP_Verbatim})
      (shown_entries (drop b events @ later))"
proof -
  define pairs where "pairs = map (\<lambda>e. (le_id e, DP_Summarized)) (shown_entries (take b events)) @
     map (\<lambda>e. (le_id e, DP_Verbatim)) (shown_entries (drop b events))"
  have ids: "map fst pairs = map le_id (shown_entries events)"
    by (simp add: pairs_def o_def) (metis append_take_drop_id filter_append map_append)
  have lookup: "plan_lookup (group_into_turn_groups events (dispositions_at b events)) i = map_of (rev pairs) i" for i
    by (simp only: plan_lookup_rounds pairs_def)
  have "distinct (map fst (rev pairs))" using distinct_shown[of events] assms ids by (simp flip: rev_map)
  then have look: "plan_lookup (group_into_turn_groups events (dispositions_at b events)) (le_id e) = Some d"
    if "(le_id e, d) \<in> set pairs" for e d
    using that by (simp add: lookup map_of_is_SomeI)
  have none: "plan_lookup (group_into_turn_groups events (dispositions_at b events)) (le_id e) = None"
    if "e \<in> set later" for e
  proof -
    have "le_id e \<notin> set (map fst pairs)" using that assms ids by auto
    then show ?thesis by (simp add: lookup map_of_eq_None_iff)
  qed
  show "list_all (\<lambda>e. plan_lookup (group_into_turn_groups events (dispositions_at b events)) (le_id e) = Some DP_Summarized)
      (shown_entries (take b events))"
    using look by (auto simp: list_all_iff pairs_def)
  show "list_all (\<lambda>e. plan_lookup (group_into_turn_groups events (dispositions_at b events)) (le_id e) \<in> {None, Some DP_Verbatim})
      (shown_entries (drop b events @ later))"
    using look none by (auto simp: list_all_iff pairs_def)
qed

lemma compacted_view:
  assumes "distinct (map le_id (events @ later))"
    and "cm_plan m = group_into_turn_groups events (dispositions_at b events)"
    and "shown_entries (take b events) = [] \<longrightarrow> cm_summary m = None"
  shows "apply_manifest f (events @ later) m =
    (case cm_summary m of None \<Rightarrow> [] | Some t \<Rightarrow> [summary_entry f t (hd (shown_entries (take b events)))]) @
    shown_entries (drop b events @ later)"
proof -
  have "apply_manifest f (take b events @ drop b events @ later) m =
    (case cm_summary m of None \<Rightarrow> [] | Some t \<Rightarrow> [summary_entry f t (hd (shown_entries (take b events)))]) @
    shown_entries (drop b events @ later)"
    using apply_walk_folded[OF plan_lookup_side[OF assms(1), of b], of f False "cm_summary m"] assms(2,3)
    by (simp add: apply_manifest_def split: option.splits)
  moreover have "take b events @ drop b events @ later = events @ later" by (metis append_assoc append_take_drop_id)
  ultimately show ?thesis by (simp only:)
qed

lemma turns_in_drop: "i \<le> j \<Longrightarrow> turns_in (drop j es) \<le> turns_in (drop i es)"
proof -
  assume "i \<le> j"
  then have "drop j es = drop (j - i) (drop i es)" by simp
  then show ?thesis
    by (metis append_take_drop_id filter_append length_append le_add2 turns_in_def)
qed

text \<open>C18. The tail a compaction keeps is the one the policy asks for: it holds at most the configured number of assistant
  turns, exactly that many (or all there are) when no ceiling is set; with a ceiling it is empty or its estimate is at
  most the ceiling, and every longer tail that starts at a turn, within the configured number of them, is above it.\<close>

theorem tail_within_policy:
  "let b = compress_boundary estimate policy events; ceiling = cp_preserve_recent_tokens policy
   in turns_in (drop b events) \<le> cp_tail_turns policy \<and>
      (ceiling = 0 \<longrightarrow> turns_in (drop b events) = min (cp_tail_turns policy) (turns_in events)) \<and>
      (0 < ceiling \<longrightarrow>
        (drop b events = [] \<or> estimate (drop b events) \<le> ceiling) \<and>
        (\<forall>i<b. verbatim_boundary events (cp_tail_turns policy) \<le> i \<and> round_start events i \<longrightarrow>
           ceiling < estimate (drop i events)))"
proof -
  let ?start = "verbatim_boundary events (cp_tail_turns policy)" and ?b = "compress_boundary estimate policy events"
  note first = verbatim_boundary_turns[of events "cp_tail_turns policy"]
  note ceil = apply_token_ceiling_tail[of ?start events estimate "cp_preserve_recent_tokens policy", unfolded Let_def]
  have le: "?start \<le> ?b" using first ceil by (simp add: compress_boundary_def Let_def)
  have "turns_in (drop ?b events) \<le> cp_tail_turns policy" using turns_in_drop[OF le, of events] first by linarith
  then show ?thesis using first ceil by (cases "cp_preserve_recent_tokens policy = 0") (auto simp: compress_boundary_def Let_def)
qed

definition folding_entry :: "str \<Rightarrow> session_event \<Rightarrow> session_entry" where
  "folding_entry i ev = \<lparr>le_id = i, le_session = ''s'', le_ts = 7, le_prev_hash = None, le_event = ev\<rparr>"

definition folding_log :: "session_entry list" where
  "folding_log =
     [folding_entry ''1'' (EV_UserInput ''fix it''), folding_entry ''2'' (EV_AssistantMessage ''reading'' None),
      folding_entry ''3'' (EV_ToolCall ''a'' ''read'' (JObject [(''path'', JString ''m.rs'')])),
      folding_entry ''4'' (EV_ToolResult ''a'' (JString ''body'') 1), folding_entry ''5'' (EV_AssistantTextDelta ''do''),
      folding_entry ''6'' (EV_AssistantMessage ''done'' None), folding_entry ''7'' (EV_AssistantMessage ''more'' None)]"

definition folding_policy :: compress_policy where
  "folding_policy = \<lparr>cp_tail_turns = 2, cp_preserve_recent_tokens = 5, cp_large_output_bytes = 8192\<rparr>"

theorem tail_within_policy_witness:
  "compress_boundary (estimate_tokens length (\<lambda>_. [])) folding_policy folding_log = 6 \<and>
   turns_in (drop 6 folding_log) \<le> 2 \<and> estimate_tokens length (\<lambda>_. []) (drop 6 folding_log) \<le> 5 \<and>
   5 < estimate_tokens length (\<lambda>_. []) (drop 5 folding_log)"
proof -
  have b: "compress_boundary (estimate_tokens length (\<lambda>_. [])) folding_policy folding_log = 6" by code_simp
  have p: "cp_tail_turns folding_policy = 2" "cp_preserve_recent_tokens folding_policy = 5" by (simp_all add: folding_policy_def)
  have "round_start folding_log 5" "verbatim_boundary folding_log 2 \<le> 5" "drop 6 folding_log \<noteq> []" by code_simp+
  then show ?thesis
    using tail_within_policy[of "estimate_tokens length (\<lambda>_. [])" folding_policy folding_log, unfolded b p Let_def] b by auto
qed

lemma folded_count_shown:
  assumes "cm_plan m = group_into_turn_groups events (dispositions_at b events)"
  shows "folded_event_count m = length (shown_entries (take b events))"
proof -
  have "sum_list (map (\<lambda>g. length (tg_event_ids g)) (map (round_group d) rs)) = length (concat rs)" for d rs
    by (induction rs) (simp_all add: round_group_def)
  moreover have "filter (\<lambda>g. tg_disposition g = DP_Summarized) (map (round_group DP_Summarized) rs) = map (round_group DP_Summarized) rs"
      "filter (\<lambda>g. tg_disposition g = DP_Summarized) (map (round_group DP_Verbatim) rs) = []" for rs
    by (auto simp: filter_id_conv filter_empty_conv round_group_def)
  ultimately show ?thesis by (simp add: folded_event_count_def assms grouped_rounds)
qed

subsection \<open>Batches of a folded span\<close>

fun event_byte_len :: "(json \<Rightarrow> str) \<Rightarrow> session_event \<Rightarrow> nat" where
  "event_byte_len print_json (EV_UserInput text) = length text"
| "event_byte_len print_json (EV_MetaUser text) = length text"
| "event_byte_len print_json (EV_MidTurnInput text _) = length text"
| "event_byte_len print_json (EV_MemoryRecall text _ _) = length text"
| "event_byte_len print_json (EV_SkillListing text _ _) = length text"
| "event_byte_len print_json (EV_SkillBody _ content _ _) = length content"
| "event_byte_len print_json (EV_AssistantMessage text thinking) =
     length text + (case thinking of Some t \<Rightarrow> length t | None \<Rightarrow> 0)"
| "event_byte_len print_json (EV_ToolCall _ _ input) = length (print_json input)"
| "event_byte_len print_json (EV_ToolResult _ out _) = length (print_json out)"
| "event_byte_len print_json (EV_Reasoning text) = length text"
| "event_byte_len print_json (EV_Summary text) = length text"
| "event_byte_len print_json (EV_TurnAborted reason) = length reason"
| "event_byte_len print_json _ = 0"

text \<open>The loop over the events: the batches closed so far, the open one and its bytes. \<open>saturating_mul\<close> of the limit at 64
  bits is written out.\<close>

fun batch_walk ::
  "(session_event \<Rightarrow> nat) \<Rightarrow> nat \<Rightarrow> session_entry list list \<Rightarrow> session_entry list \<Rightarrow> nat \<Rightarrow> session_entry list \<Rightarrow>
   session_entry list list" where
  "batch_walk bytes limit batches current current_bytes [] = (if current \<noteq> [] then batches @ [current] else batches)"
| "batch_walk bytes limit batches current current_bytes (e # events) =
     (if is_delta_event (le_event e) then batch_walk bytes limit batches current current_bytes events
      else if is_assistant (le_event e) \<and> current \<noteq> [] \<and> current_bytes > limit
      then batch_walk bytes limit (batches @ [current]) [e] (0 + bytes (le_event e)) events
      else batch_walk bytes limit batches (current @ [e]) (current_bytes + bytes (le_event e)) events)"

definition build_summary_batches :: "(json \<Rightarrow> str) \<Rightarrow> session_entry list \<Rightarrow> nat \<Rightarrow> session_entry list list" where
  "build_summary_batches print_json events batch_token_limit =
     batch_walk (event_byte_len print_json) (min (batch_token_limit * 4) (2 ^ 64 - 1)) [] [] 0 events"

definition batch_bytes :: "(session_event \<Rightarrow> nat) \<Rightarrow> session_entry list \<Rightarrow> nat" where
  "batch_bytes bytes es = sum_list (map (\<lambda>e. bytes (le_event e)) es)"

lemma batch_walk_rounds:
  assumes "list_all (\<lambda>b. b \<noteq> []) batches"
  shows "concat (batch_walk bytes limit batches current n events) = concat batches @ current @ shown_entries events"
    and "list_all (\<lambda>b. b \<noteq> []) (batch_walk bytes limit batches current n events)"
    and "concat (map rounds_of (batch_walk bytes limit batches current n events)) =
      concat (map rounds_of batches) @ rounds_of (current @ shown_entries events)"
  using assms
  by (induction bytes limit batches current n events rule: batch_walk.induct) (auto simp: rounds_append simp del: rounds_of.simps(2))

text \<open>The batches of a folded span hold every event of it once, in order, and no round is split between two of them.\<close>

lemma batches_cover:
  "concat (build_summary_batches print_json events limit) = shown_entries events \<and>
   list_all (\<lambda>b. b \<noteq> []) (build_summary_batches print_json events limit) \<and>
   concat (map rounds_of (build_summary_batches print_json events limit)) = rounds_of (shown_entries events)"
  using batch_walk_rounds[of "[]" "event_byte_len print_json" "min (limit * 4) (2 ^ 64 - 1)" "[]" 0 events]
  by (simp add: build_summary_batches_def)

subsection \<open>When an automatic compaction may run\<close>

definition MAX_CONSECUTIVE_TRANSIENT_FAILURES :: "32 word" where
  "MAX_CONSECUTIVE_TRANSIENT_FAILURES = 3"

datatype compaction_suppression = CS_None | CS_Turn | CS_Sticky

fun suppression_as_u8 :: "compaction_suppression \<Rightarrow> 8 word" where
  "suppression_as_u8 CS_None = 0"
| "suppression_as_u8 CS_Turn = 1"
| "suppression_as_u8 CS_Sticky = 2"

definition suppression_from_u8 :: "8 word \<Rightarrow> compaction_suppression" where
  "suppression_from_u8 v = (if v = 1 then CS_Turn else if v = 2 then CS_Sticky else CS_None)"

fun clears_at_turn_start :: "compaction_suppression \<Rightarrow> bool" where
  "clears_at_turn_start CS_Turn = True"
| "clears_at_turn_start _ = False"

datatype suppression_cause = SC_Transient | SC_CorruptLog | SC_NoProgress

fun suppression_state :: "suppression_cause \<Rightarrow> compaction_suppression" where
  "suppression_state SC_Transient = CS_Turn"
| "suppression_state SC_CorruptLog = CS_Sticky"
| "suppression_state SC_NoProgress = CS_Sticky"

text \<open>The two counters of the runner.\<close>

record compaction_gate =
  sg_suppression :: "8 word"
  sg_transient_failures :: "32 word"

definition current_suppression :: "compaction_gate \<Rightarrow> compaction_suppression" where
  "current_suppression g = suppression_from_u8 (sg_suppression g)"

definition set_compaction_suppression :: "compaction_suppression \<Rightarrow> compaction_gate \<Rightarrow> compaction_gate" where
  "set_compaction_suppression level g = g\<lparr>sg_suppression := suppression_as_u8 level\<rparr>"

definition clear_sticky_compaction_suppression :: "compaction_gate \<Rightarrow> compaction_gate" where
  "clear_sticky_compaction_suppression g =
     (let prev = current_suppression g;
          g1 = (if prev \<noteq> CS_None \<and> prev \<noteq> CS_Turn then set_compaction_suppression CS_None g else g)
      in g1\<lparr>sg_transient_failures := 0\<rparr>)"

definition record_compaction_failure :: "suppression_cause \<Rightarrow> compaction_gate \<Rightarrow> compaction_gate" where
  "record_compaction_failure reason g =
     (case reason of
        SC_Transient \<Rightarrow>
          let prev = sg_transient_failures g; g1 = g\<lparr>sg_transient_failures := prev + 1\<rparr>
          in set_compaction_suppression (if prev + 1 \<ge> MAX_CONSECUTIVE_TRANSIENT_FAILURES then CS_Sticky else CS_Turn) g1
      | _ \<Rightarrow> set_compaction_suppression CS_Sticky g)"

definition heal_turn_start_suppression :: "compaction_gate \<Rightarrow> compaction_gate" where
  "heal_turn_start_suppression g =
     (if clears_at_turn_start (current_suppression g) then set_compaction_suppression CS_None g else g)"

text \<open>What \<open>run_compaction\<close> does to the counters when the record is written, and when writing it fails.\<close>

definition compaction_recorded :: "compaction_gate \<Rightarrow> compaction_gate" where
  "compaction_recorded g = (set_compaction_suppression CS_None g)\<lparr>sg_transient_failures := 0\<rparr>"

definition compaction_failed :: "bool \<Rightarrow> context_error \<Rightarrow> compaction_gate \<Rightarrow> compaction_gate" where
  "compaction_failed automatic e g =
     (if automatic then record_compaction_failure (case e of CE_Corrupt _ \<Rightarrow> SC_CorruptLog | _ \<Rightarrow> SC_Transient) g else g)"

definition pre_flight_threshold :: "32 word \<Rightarrow> 32 word \<Rightarrow> 32 word" where
  "pre_flight_threshold window max_output_tokens =
     (let reserve = min max_output_tokens 20000 + 13000 in if window \<le> reserve then 0 else window - reserve)"

lemma suppression_roundtrip [simp]: "suppression_from_u8 (suppression_as_u8 level) = level"
  by (cases level) (simp_all add: suppression_from_u8_def)

lemma set_suppression_sel [simp]:
  "current_suppression (set_compaction_suppression level g) = level"
  "sg_transient_failures (set_compaction_suppression level g) = sg_transient_failures g"
  by (simp_all add: current_suppression_def set_compaction_suppression_def)

lemma current_suppression_count [simp]: "current_suppression (g\<lparr>sg_transient_failures := n\<rparr>) = current_suppression g"
  by (simp add: current_suppression_def)

fun transient_error :: "context_error \<Rightarrow> bool" where
  "transient_error (CE_Corrupt _) = False"
| "transient_error _ = True"

lemma failed_transient: "transient_error e \<Longrightarrow> compaction_failed True e g = record_compaction_failure SC_Transient g"
  by (cases e) (simp_all add: compaction_failed_def)

text \<open>What may happen to the counters while no compaction is recorded and the model stays: \<open>n\<close> automatic compactions fail
  to be recorded.\<close>

inductive gate_moves :: "compaction_gate \<Rightarrow> nat \<Rightarrow> compaction_gate \<Rightarrow> bool" where
  gate_stays: "gate_moves g 0 g"
| gate_fails: "gate_moves g n g' \<Longrightarrow> transient_error e \<Longrightarrow> gate_moves g (Suc n) (compaction_failed True e g')"
| gate_corrupt: "gate_moves g n g' \<Longrightarrow> gate_moves g n (compaction_failed True (CE_Corrupt line) g')"
| gate_manual: "gate_moves g n g' \<Longrightarrow> gate_moves g n (compaction_failed False e g')"
| gate_no_progress: "gate_moves g n g' \<Longrightarrow> gate_moves g n (set_compaction_suppression (suppression_state SC_NoProgress) g')"
| gate_turn: "gate_moves g n g' \<Longrightarrow> gate_moves g n (heal_turn_start_suppression g')"

text \<open>The counter is the number of failures since it was last reset, and from the third on the gate stays shut.\<close>

lemma record_transient:
  "sg_transient_failures g = of_nat n \<Longrightarrow> Suc n < 2 ^ 32 \<Longrightarrow>
   sg_transient_failures (record_compaction_failure SC_Transient g) = of_nat (Suc n) \<and>
   current_suppression (record_compaction_failure SC_Transient g) = (if 3 \<le> Suc n then CS_Sticky else CS_Turn)"
proof -
  assume count: "sg_transient_failures g = of_nat n" and n: "Suc n < 2 ^ 32"
  have "(of_nat n :: 32 word) + 1 = of_nat (Suc n)" by simp
  moreover have "unat (of_nat (Suc n) :: 32 word) = Suc n"
    using n by (simp only: unat_of_nat) (simp add: take_bit_nat_eq_self)
  ultimately show ?thesis
    by (simp add: count record_compaction_failure_def Let_def MAX_CONSECUTIVE_TRANSIENT_FAILURES_def word_le_nat_alt
        del: of_nat_Suc)
qed

lemma gate_counts:
  assumes "gate_moves g n g'" and "sg_transient_failures g = 0" and "n < 2 ^ 32"
  shows "sg_transient_failures g' = of_nat n \<and> (3 \<le> n \<longrightarrow> current_suppression g' = CS_Sticky)"
  using assms
proof (induction rule: gate_moves.induct)
  case (gate_fails g n g' e)
  then show ?case using record_transient[of g' n] by (simp add: failed_transient split: if_splits)
qed (auto simp: compaction_failed_def record_compaction_failure_def heal_turn_start_suppression_def)


definition open_gate :: compaction_gate where
  "open_gate = \<lparr>sg_suppression = 0, sg_transient_failures = 0\<rparr>"


text \<open>
  Sticky suppression is lifted by one more failure: a compaction that makes no progress shuts the gate for good, but a
  later automatic one (the overflow path does not ask the gate) that fails to be recorded lowers the level to the one that
  the next turn clears.
\<close>

theorem transient_failure_lifts_sticky:
  "current_suppression (set_compaction_suppression (suppression_state SC_NoProgress) (compaction_recorded g)) = CS_Sticky \<and>
   current_suppression (heal_turn_start_suppression (compaction_failed True CE_Io
     (set_compaction_suppression (suppression_state SC_NoProgress) (compaction_recorded g)))) = CS_None"
  by (simp add: compaction_failed_def record_compaction_failure_def heal_turn_start_suppression_def compaction_recorded_def
      MAX_CONSECUTIVE_TRANSIENT_FAILURES_def Let_def word_le_nat_alt)

text \<open>A request at the pre-flight threshold leaves room for the reply and the margin, whatever the window.\<close>

lemma pre_flight_room:
  assumes "input \<le> pre_flight_threshold window out" and "input \<noteq> 0"
  shows "unat input + min (unat out) 20000 + 13000 \<le> unat window"
proof -
  let ?r = "min out 20000 + 13000 :: 32 word"
  have "unat (min out 20000 :: 32 word) = min (unat out) 20000"
    by (simp add: min_def word_le_nat_alt)
  then have r: "unat ?r = min (unat out) 20000 + 13000" by (subst unat_add_lem[THEN iffD1]) simp_all
  have w: "?r < window" using assms by (auto simp: pre_flight_threshold_def Let_def split: if_splits)
  then have "unat (window - ?r) = unat window - unat ?r" by (intro unat_sub) simp
  moreover have "unat input \<le> unat (window - ?r)"
    using assms(1) w by (simp add: pre_flight_threshold_def Let_def word_le_nat_alt not_le split: if_splits)
  ultimately show ?thesis using r w by (simp add: word_less_nat_alt)
qed

end
