(* ===== verification/Compaction_Run.thy ===== *)
theory Compaction_Run
  imports Compaction
begin

text \<open>
  One compaction from the log to the next request: the block derived from the folded events
  (\<open>houyicoder-core/src/agent/compaction/backbone.rs\<close>) is merged into the summary of the plan
  (\<open>merge_backbone_summary\<close> in \<open>compaction.rs\<close>), and the log is read through that plan. The lowering of text
  (\<open>str::to_lowercase\<close>) and what the git probe reports are arguments; the rate of paths that only the summary names is not
  modelled.
\<close>

subsection \<open>The derived block\<close>

datatype test_outcome = TO_Pass | TO_Fail | TO_Unknown

record test_result =
  tr_command :: str
  tr_outcome :: test_outcome

record todo_line =
  td_content :: str
  td_status :: str

record backbone_derivation =
  bd_last_folded_event_id :: str
  bd_workspace_revision :: "str option"
  bd_dirty_tree_hash :: "str option"

record compact_backbone =
  bb_file_touch_set :: "str list"
  bb_test_results :: "test_result list"
  bb_todo_snapshot :: "todo_line list option"
  bb_derivation :: backbone_derivation

record workspace_probe =
  wp_git_rev :: "str option"
  wp_dirty_tree_hash :: "str option"

definition looks_like_test :: "(str \<Rightarrow> str) \<Rightarrow> str \<Rightarrow> bool" where
  "looks_like_test lower command =
     list_ex (\<lambda>p. str_contains p (lower command))
       [''cargo test'', ''cargo nextest'', ''pytest'', ''npm test'', ''npm run test'', ''jest'', ''make test'', ''make check'']"

definition outcome_of_result :: "(str \<Rightarrow> str) \<Rightarrow> json \<Rightarrow> test_outcome" where
  "outcome_of_result lower out =
     (let failed = str_contains ''failed'' (lower (case get_str out ''stdout'' of Some s \<Rightarrow> s | None \<Rightarrow> []))
      in case Option.bind (json_get out ''exit_code'') as_i64 of
           Some c \<Rightarrow> if c = 0 \<and> \<not> failed then TO_Pass else TO_Fail
         | None \<Rightarrow> if failed then TO_Fail else TO_Unknown)"

fun parse_todo_lines :: "json list \<Rightarrow> todo_line list option" where
  "parse_todo_lines [] = Some []"
| "parse_todo_lines (t # ts) =
     (case get_str t ''content'' of
        None \<Rightarrow> None
      | Some content \<Rightarrow>
          map_option (\<lambda>lines. \<lparr>td_content = content,
              td_status = (case get_str t ''status'' of Some s \<Rightarrow> s | None \<Rightarrow> ''pending'')\<rparr> # lines) (parse_todo_lines ts))"

definition parse_todos :: "json list \<Rightarrow> todo_line list option" where
  "parse_todos todos =
     (case parse_todo_lines todos of None \<Rightarrow> None | Some lines \<Rightarrow> if lines = [] then None else Some lines)"

definition todos_in :: "json \<Rightarrow> todo_line list option" where
  "todos_in v = Option.bind (Option.bind (json_get v ''todos'') json_array) parse_todos"

text \<open>The result the map of results holds for a call: the last one of the folded events.\<close>

definition result_by_call :: "session_event list \<Rightarrow> str \<Rightarrow> json option" where
  "result_by_call folded call_id = map_option snd (find_result call_id 0 (rev folded))"

definition todos_of_call :: "session_event list \<Rightarrow> str \<Rightarrow> json \<Rightarrow> todo_line list option" where
  "todos_of_call folded call_id input =
     (case Option.bind (result_by_call folded call_id) todos_in of Some t \<Rightarrow> Some t | None \<Rightarrow> todos_in input)"

record backbone_walk =
  bw_files :: "str list"
  bw_tests :: "test_result list"
  bw_todo :: "todo_line list option"

fun backbone_step :: "(str \<Rightarrow> str) \<Rightarrow> session_event list \<Rightarrow> backbone_walk \<Rightarrow> session_event \<Rightarrow> backbone_walk" where
  "backbone_step lower folded s (EV_ToolCall call_id tool input) =
     (if tool \<in> set [''read'', ''write'', ''edit'', ''multiedit'']
      then case get_str input ''path'' of
             Some path \<Rightarrow> if path \<in> set (bw_files s) then s else s\<lparr>bw_files := bw_files s @ [path]\<rparr>
           | None \<Rightarrow> s
      else if tool = ''bash''
      then case get_str input ''command'' of
             Some cmd \<Rightarrow>
               if looks_like_test lower cmd
               then s\<lparr>bw_tests := bw_tests s @
                       [\<lparr>tr_command = cmd, tr_outcome =
                          (case result_by_call folded call_id of Some out \<Rightarrow> outcome_of_result lower out | None \<Rightarrow> TO_Unknown)\<rparr>]\<rparr>
               else s
           | None \<Rightarrow> s
      else if tool = ''todo_write''
      then case todos_of_call folded call_id input of Some todos \<Rightarrow> s\<lparr>bw_todo := Some todos\<rparr> | None \<Rightarrow> s
      else s)"
| "backbone_step lower folded s _ = s"

definition derive_backbone ::
  "str \<Rightarrow> (str \<Rightarrow> str) \<Rightarrow> session_entry list \<Rightarrow> str set \<Rightarrow> workspace_probe option \<Rightarrow> compact_backbone" where
  "derive_backbone fresh_id lower events folded_ids probe =
     (let folded = filter (\<lambda>e. le_id e \<in> folded_ids) events;
          evs = map le_event folded;
          s = foldl (backbone_step lower evs) \<lparr>bw_files = [], bw_tests = [], bw_todo = None\<rparr> evs
      in \<lparr>bb_file_touch_set = remdups_adj (sort (bw_files s)),
          bb_test_results = bw_tests s,
          bb_todo_snapshot = bw_todo s,
          bb_derivation = \<lparr>bd_last_folded_event_id = (if folded = [] then fresh_id else le_id (last folded)),
            bd_workspace_revision = Option.bind probe wp_git_rev, bd_dirty_tree_hash = Option.bind probe wp_dirty_tree_hash\<rparr>\<rparr>)"

fun test_label :: "test_outcome \<Rightarrow> str" where
  "test_label TO_Pass = ''pass''"
| "test_label TO_Fail = ''fail''"
| "test_label TO_Unknown = ''unknown''"

definition render_backbone_block :: "compact_backbone \<Rightarrow> str" where
  "render_backbone_block b =
     ''--- derived-from-log (authoritative) ---'' @ [NL] @
     (if bb_file_touch_set b \<noteq> []
      then ''Files touched:'' @ [NL] @ concat (map (\<lambda>p. ''- '' @ p @ [NL]) (bb_file_touch_set b)) else []) @
     (if bb_test_results b \<noteq> []
      then ''Test results:'' @ [NL] @
           concat (map (\<lambda>t. ''- ['' @ test_label (tr_outcome t) @ ''] '' @ tr_command t @ [NL]) (bb_test_results b)) else []) @
     (case bb_todo_snapshot b of
        Some todos \<Rightarrow> ''Todo snapshot:'' @ [NL] @
          concat (map (\<lambda>l. ''- ['' @ td_status l @ ''] '' @ td_content l @ [NL]) todos)
      | None \<Rightarrow> []) @
     ''Derivation: event='' @ bd_last_folded_event_id (bb_derivation b) @
     '' rev='' @ (case bd_workspace_revision (bb_derivation b) of Some r \<Rightarrow> r | None \<Rightarrow> ''none'') @
     '' dirty='' @ (case bd_dirty_tree_hash (bb_derivation b) of Some h \<Rightarrow> h | None \<Rightarrow> ''none'') @ [NL]"

definition merge_summary :: "str \<Rightarrow> compact_backbone \<Rightarrow> str" where
  "merge_summary llm_summary backbone =
     (let block = render_backbone_block backbone
      in if llm_summary = [] then block else llm_summary @ [NL, NL] @ block)"

definition folded_ids_of :: "checkpoint_manifest \<Rightarrow> str set" where
  "folded_ids_of manifest =
     set (concat (map tg_event_ids (filter (\<lambda>g. tg_disposition g = DP_Summarized) (cm_plan manifest))))"

definition merge_backbone_summary ::
  "str \<Rightarrow> (str \<Rightarrow> str) \<Rightarrow> workspace_probe option \<Rightarrow> session_entry list \<Rightarrow> checkpoint_manifest \<Rightarrow> checkpoint_manifest" where
  "merge_backbone_summary fresh_id lower probe events manifest =
     (case cm_summary manifest of
        None \<Rightarrow> manifest
      | Some summary \<Rightarrow>
          manifest\<lparr>cm_summary :=
            Some (merge_summary summary (derive_backbone fresh_id lower events (folded_ids_of manifest) probe))\<rparr>)"

text \<open>The manifest that \<open>run_compaction\<close> records.\<close>

definition compaction_manifest ::
  "fresh_ids \<Rightarrow> (session_entry list \<Rightarrow> nat) \<Rightarrow> summarizer \<Rightarrow> (str \<Rightarrow> str) \<Rightarrow> workspace_probe option \<Rightarrow> session_entry list \<Rightarrow>
   compress_policy \<Rightarrow> str option \<Rightarrow> checkpoint_manifest" where
  "compaction_manifest fr estimate summarize lower probe events policy custom_instructions =
     merge_backbone_summary (fr_event fr) lower probe events
       (build_manifest fr estimate summarize events policy custom_instructions)"

subsection \<open>The block is the ground truth of the folded events\<close>

text \<open>What one event contributes to each part of the block.\<close>

fun touched_path :: "session_event \<Rightarrow> str option" where
  "touched_path (EV_ToolCall _ tool input) =
     (if tool \<in> set [''read'', ''write'', ''edit'', ''multiedit''] then get_str input ''path'' else None)"
| "touched_path _ = None"

fun test_run :: "(str \<Rightarrow> str) \<Rightarrow> session_event list \<Rightarrow> session_event \<Rightarrow> test_result option" where
  "test_run lower folded (EV_ToolCall call_id tool input) =
     (case get_str input ''command'' of
        Some cmd \<Rightarrow>
          if tool = ''bash'' \<and> looks_like_test lower cmd
          then Some \<lparr>tr_command = cmd, tr_outcome =
                 (case result_by_call folded call_id of Some out \<Rightarrow> outcome_of_result lower out | None \<Rightarrow> TO_Unknown)\<rparr>
          else None
      | None \<Rightarrow> None)"
| "test_run lower folded _ = None"

fun todo_write :: "session_event list \<Rightarrow> session_event \<Rightarrow> todo_line list option" where
  "todo_write folded (EV_ToolCall call_id tool input) = (if tool = ''todo_write'' then todos_of_call folded call_id input else None)"
| "todo_write folded _ = None"

definition last_of :: "'a list \<Rightarrow> 'a option" where
  "last_of xs = (if xs = [] then None else Some (last xs))"

lemma map_filter_snoc: "List.map_filter f (xs @ [x]) = List.map_filter f xs @ (case f x of None \<Rightarrow> [] | Some y \<Rightarrow> [y])"
  by (auto simp: List.map_filter_def)

lemma backbone_step_eq:
  "backbone_step lower folded s ev =
   s\<lparr>bw_files := (case touched_path ev of Some p \<Rightarrow> if p \<in> set (bw_files s) then bw_files s else bw_files s @ [p] | None \<Rightarrow> bw_files s),
     bw_tests := bw_tests s @ (case test_run lower folded ev of Some t \<Rightarrow> [t] | None \<Rightarrow> []),
     bw_todo := (case todo_write folded ev of Some t \<Rightarrow> Some t | None \<Rightarrow> bw_todo s)\<rparr>"
  by (cases ev) (auto split: option.splits)

lemma backbone_walk_eq:
  fixes evs folded lower
  defines "s \<equiv> foldl (backbone_step lower folded) \<lparr>bw_files = [], bw_tests = [], bw_todo = None\<rparr> evs"
  shows "distinct (bw_files s) \<and> set (bw_files s) = set (List.map_filter touched_path evs) \<and>
    bw_tests s = List.map_filter (test_run lower folded) evs \<and> bw_todo s = last_of (List.map_filter (todo_write folded) evs)"
  unfolding s_def
proof (induction evs rule: rev_induct)
  case (snoc ev evs)
  then show ?case
    by (auto simp: backbone_step_eq map_filter_snoc last_of_def split: option.splits)
qed (simp add: last_of_def)

lemma derive_backbone_eq:
  fixes events ids
  defines "evs \<equiv> map le_event (filter (\<lambda>e. le_id e \<in> ids) events)"
  shows "bb_file_touch_set (derive_backbone i lower events ids probe) =
      sorted_list_of_set (set (List.map_filter touched_path evs)) \<and>
    bb_test_results (derive_backbone i lower events ids probe) = List.map_filter (test_run lower evs) evs \<and>
    bb_todo_snapshot (derive_backbone i lower events ids probe) = last_of (List.map_filter (todo_write evs) evs)"
proof -
  have "remdups_adj (sort xs) = sorted_list_of_set (set xs)" if "distinct xs" for xs :: "str list"
    using that by (simp add: remdups_adj_distinct sorted_list_of_set_sort_remdups distinct_remdups_id)
  then show ?thesis
    using backbone_walk_eq[of lower evs evs] unfolding derive_backbone_def evs_def[symmetric] Let_def by simp
qed

lemma folded_ids_shown:
  assumes "cm_plan m = group_into_turn_groups events (dispositions_at b events)"
  shows "folded_ids_of m = set (map le_id (shown_entries (take b events)))"
proof -
  have "filter (\<lambda>g. tg_disposition g = DP_Summarized) (cm_plan m) =
      map (round_group DP_Summarized) (rounds_of (shown_entries (take b events)))"
    unfolding assms grouped_rounds by (auto simp: filter_id_conv filter_empty_conv round_group_def)
  then show ?thesis unfolding folded_ids_of_def by (simp only: group_ids concat_rounds)
qed

lemma folded_entries:
  assumes "distinct (map le_id (events @ later))"
  shows "filter (\<lambda>e. le_id e \<in> set (map le_id (shown_entries (take b events)))) (events @ later) = shown_entries (take b events)"
proof -
  let ?P = "\<lambda>e. le_id e \<in> set (map le_id (shown_entries (take b events)))"
  have inj: "inj_on le_id (set (events @ later))" using assms by (simp only: distinct_map)
  have P: "?P e = (e \<in> set (shown_entries (take b events)))" if "e \<in> set (events @ later)" for e
    using that inj_onD[OF inj] by (auto dest: in_set_takeD)
  have "filter ?P (events @ later) = filter ?P (take b events @ drop b events @ later)"
    by (metis append_assoc append_take_drop_id)
  moreover have "filter ?P (drop b events @ later) = []"
  proof -
    have "distinct (take b events @ drop b events @ later)"
      using assms by (metis append_assoc append_take_drop_id distinct_map)
    then have "e \<notin> set (take b events)" if "e \<in> set (drop b events @ later)" for e using that by auto
    then show ?thesis using P by (auto simp: filter_empty_conv dest: in_set_dropD)
  qed
  moreover have "filter ?P (take b events) = shown_entries (take b events)"
    by (rule filter_cong[OF refl]) (use P in \<open>auto dest: in_set_takeD\<close>)
  ultimately show ?thesis by simp
qed

lemma compaction_plan:
  "cm_plan (compaction_manifest fr estimate summarize lower probe events policy ci) =
   group_into_turn_groups events (dispositions_at (compress_boundary estimate policy events) events)"
  by (simp add: compaction_manifest_def merge_backbone_summary_def build_manifest_def Let_def split: option.splits)

lemma folded_events_shown:
  "folded_events events (dispositions_at b events) = filter (\<lambda>e. \<not> is_skill_body (le_event e)) (shown_entries (take b events))"
  by (simp add: folded_events_def zip_dispositions filter_map o_def filter_filter conj_commute)

lemma compaction_summary:
  "cm_summary (compaction_manifest fr estimate summarize lower probe events policy ci) =
   map_option (\<lambda>t. merge_summary t (derive_backbone (fr_event fr) lower events
       (set (map le_id (shown_entries (take (compress_boundary estimate policy events) events)))) probe))
     (manifest_summary summarize ci (filter (\<lambda>e. \<not> is_skill_body (le_event e))
       (shown_entries (take (compress_boundary estimate policy events) events))))"
proof -
  let ?m = "build_manifest fr estimate summarize events policy ci" and ?b = "compress_boundary estimate policy events"
  have "folded_ids_of ?m = set (map le_id (shown_entries (take ?b events)))"
    by (rule folded_ids_shown) (simp add: build_manifest_def Let_def)
  moreover have "cm_summary ?m = manifest_summary summarize ci (filter (\<lambda>e. \<not> is_skill_body (le_event e)) (shown_entries (take ?b events)))"
    by (simp only: build_manifest_def Let_def checkpoint_manifest.simps folded_events_shown)
  ultimately show ?thesis
    unfolding compaction_manifest_def merge_backbone_summary_def by (simp split: option.splits)
qed


definition folding_fresh :: fresh_ids where
  "folding_fresh = \<lparr>fr_event = ''new'', fr_session = ''s'', fr_checkpoint = ''c1'', fr_now = 9\<rparr>"

definition folding_manifest :: checkpoint_manifest where
  "folding_manifest = compaction_manifest folding_fresh (estimate_tokens length (\<lambda>_. [])) heuristic_summarize id None folding_log
     folding_policy None"

definition folding_later :: "session_entry list" where
  "folding_later = [folding_entry ''8'' (EV_UserInput ''and now''), folding_entry ''9'' (EV_ToolResult ''a'' (JString ''late'') 2)]"


subsection \<open>The view and the request\<close>

text \<open>C16. Reading the log through the plan of a compaction gives one message with the summary, in front, and then every event
  of the tail and every event appended since, in order and unchanged, streamed chunks left out; nothing folded comes back,
  and unless the summarizer reports that there is nothing, a folded event that is not the body of a skill leaves a
  summary.\<close>

theorem compacted_view_exact:
  fixes estimate and policy and fr and summarize and lower and probe and ci and events
  assumes "distinct (map le_id (events @ later))"
  defines "b \<equiv> compress_boundary estimate policy events"
    and "m \<equiv> compaction_manifest fr estimate summarize lower probe events policy ci"
  shows "apply_manifest f (events @ later) m =
      (case cm_summary m of None \<Rightarrow> [] | Some t \<Rightarrow> [summary_entry f t (hd (shown_entries (take b events)))]) @
      shown_entries (drop b events @ later) \<and>
    (list_ex (\<lambda>e. \<not> is_skill_body (le_event e)) (shown_entries (take b events)) \<and>
      (\<forall>es. summarize es ci \<noteq> Inl SE_Empty) \<longrightarrow> cm_summary m \<noteq> None)"
proof
  have "shown_entries (take b events) = [] \<longrightarrow> cm_summary m = None"
    unfolding m_def compaction_summary b_def by (simp add: manifest_summary_def)
  with compacted_view[OF assms(1), of m b f] show "apply_manifest f (events @ later) m =
      (case cm_summary m of None \<Rightarrow> [] | Some t \<Rightarrow> [summary_entry f t (hd (shown_entries (take b events)))]) @
      shown_entries (drop b events @ later)"
    by (simp add: m_def b_def compaction_plan)
  show "list_ex (\<lambda>e. \<not> is_skill_body (le_event e)) (shown_entries (take b events)) \<and>
      (\<forall>es. summarize es ci \<noteq> Inl SE_Empty) \<longrightarrow> cm_summary m \<noteq> None"
    unfolding m_def compaction_summary b_def
    by (auto simp: manifest_summary_def heuristic_summarize_def list_ex_iff filter_empty_conv split: sum.splits summarize_error.splits)
qed

theorem compacted_view_exact_witness:
  "map le_event (apply_manifest ''n'' (folding_log @ folding_later) folding_manifest) =
     (case cm_summary folding_manifest of Some t \<Rightarrow> [EV_UserInput t] | None \<Rightarrow> []) @
     [EV_AssistantMessage ''more'' None, EV_UserInput ''and now'', EV_ToolResult ''a'' (JString ''late'') 2] \<and>
   cm_summary folding_manifest \<noteq> None"
proof -
  have d: "distinct (map le_id (folding_log @ folding_later))" by code_simp
  have b: "compress_boundary (estimate_tokens length (\<lambda>_. [])) folding_policy folding_log = 6" by code_simp
  have e: "map le_event (shown_entries (drop 6 folding_log @ folding_later)) =
     [EV_AssistantMessage ''more'' None, EV_UserInput ''and now'', EV_ToolResult ''a'' (JString ''late'') 2]" by code_simp
  have s: "cm_summary folding_manifest \<noteq> None" by code_simp
  show ?thesis
    using compacted_view_exact[OF d, where estimate = "estimate_tokens length (\<lambda>_. [])" and policy = folding_policy
        and fr = folding_fresh and summarize = heuristic_summarize and lower = id and probe = None and ci = None and f = "''n''",
        folded folding_manifest_def] s e
    by (auto simp: b summary_entry_def simp del: filter_append)
qed

lemma orderly_less:
  assumes "orderly (\<lambda>_. True) pending part evs" and "set pending' \<subseteq> set pending" and "part' \<and> pending' \<noteq> [] \<longrightarrow> part"
  shows "orderly (\<lambda>_. True) pending' part' evs"
  using assms
proof (induction "\<lambda>_ :: str. True" pending part evs arbitrary: pending' part' rule: orderly.induct)
  case (3 pending part call_id tool input evs)
  have "orderly (\<lambda>_. True) (pending' @ [call_id]) False evs"
    using "3.prems" "3.hyps"(1)[of "pending' @ [call_id]" False] by simp blast
  moreover have "pending' = [] \<or> \<not> part'" using "3.prems" by (auto split: if_splits)
  ultimately show ?case by simp
next
  case (4 pending part call_id out ms evs)
  show ?case
  proof (cases "call_id \<in> set pending'")
    case True
    then have "call_id \<in> set pending" using "4.prems"(2) by blast
    moreover have "set (filter (\<lambda>id. id \<noteq> call_id) pending') \<subseteq> set (filter (\<lambda>id. id \<noteq> call_id) pending)"
      using "4.prems"(2) by auto
    ultimately show ?thesis using True "4.prems"(1) "4.hyps"(1)[of "filter (\<lambda>id. id \<noteq> call_id) pending'" True] by simp
  next
    case False
    then have "set pending' \<subseteq> set (filter (\<lambda>id. id \<noteq> call_id) pending)" using "4.prems"(2) by auto
    then show ?thesis using False "4.prems" "4.hyps"(1)[of pending' part'] "4.hyps"(2)[of pending' part']
      by (cases "call_id \<in> set pending") simp_all
  qed
qed (auto split: if_splits)

lemma orderly_suffix: "orderly (\<lambda>_. True) pending part (xs @ ys) \<Longrightarrow> orderly_log ys"
proof (induction "\<lambda>_ :: str. True" pending part xs rule: orderly.induct)
  case (1 pending part)
  then show ?case using orderly_less[of pending part ys "[]" False] by (simp add: orderly_log_def)
qed (auto split: if_splits)

lemma orderly_shown:
  "orderly keep pending part (map le_event (shown_entries es)) = orderly keep pending part (map le_event es)"
proof (induction es arbitrary: pending part)
  case (Cons e es)
  then show ?case by (cases "le_event e") simp_all
qed simp

lemma call_ids_append: "call_ids (xs @ ys) = call_ids xs @ call_ids ys"
  by (simp add: call_ids_def List.map_filter_def)

lemma call_ids_shown: "call_ids (map le_event (shown_entries es)) = call_ids (map le_event es)"
proof (induction es)
  case (Cons e es)
  then show ?case by (cases "le_event e") simp_all
qed simp



text \<open>
  A todo list that is cleared once everything on it is done leaves an empty list in the result of the write, and an empty list
  is not taken from it: the block shows the list of the call instead.
\<close>

theorem cleared_todos_fall_back:
  "todos_of_call [EV_ToolResult ''t'' (JObject [(''todos'', JArray []), (''cleared'', JBool True)]) 1] ''t''
     (JObject [(''todos'', JArray [JObject [(''content'', JString ''ship''), (''status'', JString ''completed'')]])]) =
   Some [\<lparr>td_content = ''ship'', td_status = ''completed''\<rparr>]"
  by code_simp

text \<open>
  A result that arrives after the next assistant message lies in that message's round: the plan can fold the call and keep
  the result, which the assembly then leaves out.
\<close>

definition late_log :: "session_entry list" where
  "late_log =
     [folding_entry ''1'' (EV_AssistantMessage ''run'' None), folding_entry ''2'' (EV_ToolCall ''a'' ''bash'' JNull),
      folding_entry ''3'' (EV_AssistantMessage ''wait'' None), folding_entry ''4'' (EV_ToolResult ''a'' (JString ''out'') 1)]"

theorem late_result_outlives_call:
  "cm_plan (build_manifest folding_fresh (\<lambda>_. 0) heuristic_summarize late_log (compress_policy_default\<lparr>cp_tail_turns := 1\<rparr>) None) =
   [\<lparr>tg_turn_id = ''1'', tg_disposition = DP_Summarized, tg_event_ids = [''1'', ''2'']\<rparr>,
    \<lparr>tg_turn_id = ''3'', tg_disposition = DP_Verbatim, tg_event_ids = [''3'', ''4'']\<rparr>]"
  by code_simp

end
