(* ===== verification/Spec2Isabelle.thy ===== *)
theory Spec2Isabelle
  imports Guarded_Tool Breaker Index_Writer File_Edit Block_Gc Trajectory_Log Cache_Liveness Request_Budget Compaction_Run
begin

text \<open>
  HouYiCoder is a coding agent: a model proposes tool calls, and the program decides which of them run.
  This development verifies the layer that makes that decision and the layers it rests on, from the
  source under \<open>src/crates\<close>.

  \<^bold>\<open>The parts and how they meet.\<close> A tool is wrapped by a guard (\<open>houyicoder-permission/src/guarded_tool.rs\<close>).
  The guard asks the gate (\<open>gate.rs\<close>) about every call. The gate matches the call against the user's
  rules (\<open>rule.rs\<close>, kept in scope files by \<open>store.rs\<close>), builds a context and runs a ladder of validators
  (\<open>pipeline.rs\<close> and \<open>pipeline/\<close>); the ladder's answer passes a final transform that knows the fence and
  whether a human is present. The validators read shell commands with a lexer (\<open>compound.rs\<close>,
  \<open>heredoc.rs\<close>) and classify them: read-only, effects confined to the session's temporary directory,
  writes to protected paths, network destinations, git operations, signals. Beside this stand the
  failure isolation of the engine (\<open>houyicoder-resilience\<close>), the session log with its hash chain and its
  offset index (\<open>houyicoder-session\<close> over the file backend of \<open>houyicoder-memory\<close>), the block store, and
  the tools that read and change files (\<open>houyicoder-core/src/agent/tools\<close>): what they write goes through a
  journal (\<open>houyicoder-core/src/snapshot/file_transaction.rs\<close>) that keeps both sides of a write as blocks,
  so that a crash leaves something to go back to. Each request to the model is assembled anew from the events of
  the log (\<open>houyicoder-core/src/agent/context\<close>): which tool results are retrieved from the block store, which are
  served as a preview or a pointer, and how the messages are ordered so that a provider accepts them.

  \<^bold>\<open>Theories, in the order of their imports.\<close>
  \<^item> \<open>Prelude\<close>: the part of Rust's text library the code uses, on lists of characters, and its facts.
  \<^item> \<open>Shell_Lexer\<close> (\<open>heredoc.rs\<close>, \<open>compound.rs\<close>): scanners as recursions over the rest of the text. On plain
    text the splitter is the textbook one; segments come out trimmed and non-empty.
  \<^item> \<open>Tool_Api\<close> (api crate: \<open>tool.rs\<close>, \<open>sandbox.rs\<close>, \<open>credentials.rs\<close>, \<open>boundary.rs\<close>, \<open>path.rs\<close>): JSON values,
    argument checks, fence capabilities, credential names, boundary grants. The record \<open>host\<close> is the
    file system.
  \<^item> \<open>Decision\<close> (\<open>decision.rs\<close>, \<open>mode.rs\<close>, \<open>side_effect.rs\<close>, \<open>metrics.rs\<close>, \<open>wire.rs\<close>): verdicts with their reasons,
    modes, the decision counter.
  \<^item> \<open>Consent\<close> (\<open>consent.rs\<close>): the trait is the locale \<open>consent_store\<close>, interpreted on the in-memory store.
  \<^item> \<open>Rules\<close> (\<open>rule.rs\<close>, \<open>rule/cwd.rs\<close>): effects (ordered by strictness), patterns, the evaluator, builtin
    rules. The record \<open>externals\<close> holds what is outside the repository: glob matching, JSON printing
    and the file system.
  \<^item> \<open>Readonly\<close>, \<open>Effect_Check\<close>, \<open>Protected_Write\<close> (\<open>compound/\<close>), \<open>Safety\<close> (\<open>safety.rs\<close>), \<open>Git_Safety\<close>
    (\<open>git_safety.rs\<close>), \<open>Detect\<close> (\<open>pipeline/detection.rs\<close>, \<open>detection/\<close>), \<open>Egress\<close> (\<open>egress.rs\<close>): the classifiers.
  \<^item> \<open>Pipeline\<close> (\<open>pipeline.rs\<close>, \<open>pipeline/\<close>): validators as a datatype with their names, stages, immunity and
    checks; the two ladders; the transform. The locale \<open>ladder_run\<close> is what running a ladder means.
    Proved: both ladders are ordered and total, a protected path is a floor no mode, allow rule or fence
    removes, an automatic allow passed every check, the transform never relaxes a denial or an immune
    question, and when fence coverage waves a call through.
  \<^item> \<open>Store\<close> (\<open>store.rs\<close>): scope files as values, every operation with its error results; the trait is the
    locale \<open>rule_store\<close>. Proved: add and remove are inverse, a removal is complete, failures change nothing.
  \<^item> \<open>Gate\<close> (\<open>gate.rs\<close>): the gate's state as a record, each operation a function on it, the interleaving of
    operations the step relation \<open>gate_step\<close> with reachable gates and their invariant by rule induction.
    Proved: deny wins, protected paths hold, rule changes are all or nothing and exact, the mode history
    is a chain, the checkpoint toggle works when it changes the setting.
  \<^item> \<open>Guarded_Tool\<close> (\<open>guarded_tool.rs\<close>): the guard over any gate that satisfies the locale \<open>gate_port\<close>, interpreted
    on the default gate. A tool is a function on a world, so that not running is an unchanged world.
  \<^item> \<open>Saturating\<close>: additions and subtractions of words that stop at the ends.
  \<^item> \<open>Breaker\<close> (\<open>houyicoder-resilience\<close>): the circuit breaker as a state machine, the retry loops, the resource
    breaker over the locale \<open>tripping_breaker\<close>. Counters are words and saturate.
  \<^item> \<open>Utf8\<close>: texts as bytes. Validation, lossy decoding, character boundaries, lines, and the search and
    replacement of a pattern.
  \<^item> \<open>Log_File\<close> (\<open>local_file/log_windows.rs\<close>): forward and backward windows over the bytes of a log; the locale
    \<open>log_source\<close> is what a reader relies on, interpreted on the file backend for every log.
  \<^item> \<open>Chain\<close> (\<open>chain.rs\<close>, the durable append): the verifier through windows decides what the list of lines
    decides, appends keep the chain, tampering is seen.
  \<^item> \<open>Session_Event\<close> (\<open>event.rs\<close> of the context crate and its modules): the events of a session's log.
  \<^item> \<open>Failure_Rule\<close> (\<open>tool/failure.rs\<close>, \<open>bash_command.rs\<close> of the protocol): when a tool result is a failure.
  \<^item> \<open>Summary\<close> (\<open>trajectory/summary.rs\<close> and its modules, the audits of the api crate): the figures a session folds from
    its events, on 64-bit counts that saturate. Proved: a card is counted once however often its records are
    replayed, every result is judged as by a reference that keeps all calls whole, a percentile bounds the
    share of samples it names.
  \<^item> \<open>Trajectory\<close> (\<open>trajectory.rs\<close>): the resident window of a session, its counts and pages, and a history folded from
    the log. Proved: the window is the longest end of the rows that fits its budget, everything that is
    numbered is absolute, and a restored session answers as the one that wrote the log.
  \<^item> \<open>Trajectory_Log\<close> (\<open>log_windows.rs\<close>, \<open>lib.rs\<close> of the session crate, \<open>trajectory_paging.rs\<close>): folding an epoch and reading
    pages through windows, and the store's appends, clears, restores and imports. The locale \<open>paged_log\<close> is what a
    walk over pages relies on, interpreted on the store; the relation \<open>traj_run\<close> has the stores that appends, clears
    and restarts lead to. Proved: on each of them a walk reads the current epoch whole, and a resume gives it back.
  \<^item> \<open>Log_Index\<close> (\<open>houyicoder-context/src/log_index.rs\<close>): the offset index as bytes. The locale \<open>entry_source\<close>
    is what the floor search relies on. Proved: the format round-trips, the search finds the floor.
  \<^item> \<open>Index_Writer\<close> (\<open>local_file/log_index.rs\<close>, \<open>index_check.rs\<close>): the writer beside the log, with the failure of
    every write it makes, as the step relation \<open>index_step\<close>. Proved: whatever failed, an answer of a reachable
    index names a record that is there; without failures the answer is within one sampling interval; the
    indexed append is the append of \<open>Chain\<close>.
  \<^item> \<open>Block_Store\<close> (\<open>local_file/blocks.rs\<close>, \<open>in_memory.rs\<close>): content-addressed blocks; the locale \<open>block_backend\<close>
    is interpreted on both backends. Proved: a put reads back, a window is the slice of the whole read.
  \<^item> \<open>Block_Ref\<close> (\<open>block_ref.rs\<close> of the protocol): the addresses a record names.
  \<^item> \<open>Block_Gc\<close> (\<open>local_file/blocks/gc.rs\<close> and its modules): a pass that marks, lists
    again and sweeps, over a workspace that survives between passes; every write takes its outcome from a
    stream. The relation \<open>gc_reach\<close> has the workspaces that passes leave which end or stop at their budget.
    Proved: a freed block is named by no source of the marked listing, and only a file past the lease goes.
  \<^item> \<open>File_Tx\<close> (\<open>file_transaction.rs\<close> and its modules): the recorded write in its stages and the recovery. The
    relation \<open>tx_crash\<close> has the worlds a crash can leave. Proved: a write can be undone from each of them, a
    torn write never costs the earlier bytes, a restore overwrites only what the write itself left, a
    refused write touched nothing, a recovery only reports.
  \<^item> \<open>File_Edit\<close> (\<open>file_edit.rs\<close>, \<open>edit.rs\<close>, \<open>multiedit.rs\<close>, \<open>write.rs\<close>, \<open>read.rs\<close>): the tools on JSON input.
    Proved: what a replacement does, a batch is all or nothing, a read not marked truncated is complete,
    what is shown stays within its bounds, a write of the tool can be taken back.
  \<^item> \<open>Retention\<close> (\<open>context/retention.rs\<close>, \<open>cas_views.rs\<close>, \<open>budget.rs\<close>): a policy as a record of operations over its
    state, the policy by age, the policy that bounds an assembly over any other, and the form a stored result is served
    in. \<open>within_budget\<close> is kept by every retrieval.
  \<^item> \<open>Cache_Liveness\<close> (\<open>cache_liveness.rs\<close> and its state, \<open>SeedState\<close> of \<open>status.rs\<close>): the decisions held while the
    provider reports cache reads. Proved: a request decides as the one before it, a measurement reports the request, a
    reopened session decides as recorded.
  \<^item> \<open>Shell_History\<close> (\<open>shell_history.rs\<close>, \<open>user_shell.rs\<close>): the commands a user typed, the ones a request keeps, and
    the ids that mark them. Proved: the newest that fit are kept; every model call gets an id of its own.
  \<^item> \<open>Model_Input\<close> (\<open>turn_group.rs\<close>, \<open>skill/body.rs\<close>): the walk over the events. The locale \<open>walk_invariant\<close> is what a
    relation needs to hold along the walk; it is interpreted for the two relations of the theory. Proved: nothing is
    lost, and every call is answered straight after its message.
  \<^item> \<open>Request_Budget\<close>: the walk under the bounding policy stays within its budget (the locale once more, for every walk
    with that policy), and untrusted text cannot leave its frame.
  \<^item> \<open>Compaction\<close> (\<open>compaction/manifest.rs\<close>, \<open>context/selection.rs\<close>, \<open>plan.rs\<close>, \<open>compaction.rs\<close>): the plan that folds the
    older rounds of a log, its application, the batches of a folded span, and the counters that suppress automatic
    compactions, with the relation \<open>gate_moves\<close> for what happens to them between two successes. Proved: the groups of a
    plan are the rounds of the log, the tail is the one the policy asks for, failing compactions are not retried for
    ever.
  \<^item> \<open>Compaction_Run\<close> (\<open>compaction/backbone.rs\<close>, \<open>compaction.rs\<close>): one compaction from the log to the next request.
    Proved: the derived block is what the folded events say, the view is the summary and then the tail, and the request
    assembled from it is one a provider accepts.

  This theory holds the property that spans rules, gate and guard.

  \<^bold>\<open>State, errors, bounds.\<close> State is passed explicitly; a panic is \<open>None\<close>, an error a value of a sum type.
  Loops are structural recursions or functions with a measure. The nesting depth of the two recursive
  command checks is the limit the code has (\<open>READONLY_DEPTH\<close>, \<open>MAX_DEPTH\<close>). The widening read, the
  verifier's loop, the fold of an epoch and the page reader could run forever on a bad backend and are partial
  functions into \<open>option\<close>; the theorems prove that they return. The search for a free call id has fuel one more than the
  ids taken, which the theorem shows to be enough. Characters are the code points below 256; in the theories over
  \<open>Utf8\<close> (the logs, the file tools, the assembly of a request) a text is its UTF-8 bytes.

  \<^bold>\<open>Where the code departs from its own documentation\<close>, the theorem states what the code does: a headless
  Manual session gets a question nobody answers; a stored consent with an ask rule passes a protected
  path; enabling the git checkpoint twice doubles its rules; a record with a repeated id breaks the
  chain; the CPU budget never recovers; a half-open breaker admits every call; an append after a torn tail
  loses its record; an edit of a string that overlaps itself is not refused; a failed write may have
  touched its target; a pass that resumes after a failed one can free a block that a log names, and so can
  one that meets a copy of a block beside it; a call asked about after it was answered is two approval cards; a record
  appended after a resume over an unreadable one is paged at the wrong ordinal; a record that fits a window can be
  passed over behind one that does not; an imported clear starts no epoch in memory; a call after part of the group
  before it was answered splits that group; a continuation counts what its turn retrieved a second time; a cleared todo
  list is shown as it was before it was cleared; one failed compaction more lifts the suppression that was to last; a late
  result is not folded with its call.

  \<^bold>\<open>Not modelled\<close>: floating-point jitter, logging, the wake-ups of asynchronous readers, poisoned locks,
  Windows paths, the JSON codec, the digest and glob matching (parameters with the laws the code relies
  on), and the crates that are input, output or glue: terminal, service, sandbox processes, providers.  Of the engine, the run loop and its concurrency gate, the writing of checkpoints and the hooks are left out, and so are
  the stream decoder of the providers, the merge of settings and the listing of the block reclamation: they are
  asynchronous code around what is modelled, or rest on codecs and clients outside the repository.
\<close>

section \<open>Rules, gate and tool together\<close>

text \<open>C4. A deny rule that matches the call keeps the tool from running, on the plain path and on the path
  taken after a human approved the call: the world is unchanged and the error names the rule's denial.\<close>

theorem deny_rule_blocks_tool:
  assumes "gate_reachable m g" and "r \<in> set (g_rules g)" and "r_effect r = E_Deny"
    and "rule_matches x (t_name t) (request_content x (request_for t (Some input))) r"
    and "invalid_arguments t input = []"
  shows "\<exists>g' g''.
     guarded_execute (gate_decide x wall) g w t input =
       (Some (Inl (TE_Failed ''denied by mode: a deny rule matched this call'')), g', w) \<and>
     guarded_execute_authorized (gate_decide x wall) g w t input =
       (Some (Inl (TE_Failed ''denied by mode: a deny rule matched this call'')), g'', w)"
proof -
  let ?r = "request_for t (Some input)"
  have "rules_evaluate x (g_rules g) (tq_tool_name ?r) (request_content x ?r) = Some E_Deny"
    using assms(2-4) by (auto simp: evaluate_Deny_iff request_for_def)
  from gate_verdict_denied [OF assms(1) this, of wall] gate_verdict_Some [OF assms(1), of x wall ?r]
  have "default_verdict x wall g ?r = Deny \<lparr>dr_source = DS_UserRule, dr_validator = ''rule_deny'',
                 dr_detail = ''a deny rule matched this call''\<rparr>" by simp
  then show ?thesis
    using port.execute_cases [OF assms(1), of x wall w t input]
      port.authorized_cases [OF assms(1), of x wall w t input] assms(5) by simp
qed

theorem deny_rule_blocks_tool_witness:
  "\<exists>e g'. guarded_execute_authorized (gate_decide demo_externals 7) demo_deny_gate 0 demo_tool
     (demo_input ''curl https://docs.rs'') = (Some (Inl e), g', 0)"
proof -
  have r: "demo_deny_rule \<in> set (g_rules demo_deny_gate)" by code_simp
  have e: "r_effect demo_deny_rule = E_Deny" by (simp add: demo_deny_rule_def)
  have m: "rule_matches demo_externals (t_name demo_tool)
      (request_content demo_externals (request_for demo_tool (Some (demo_input ''curl https://docs.rs''))))
      demo_deny_rule" by code_simp
  have a: "invalid_arguments demo_tool (demo_input ''curl https://docs.rs'') = []" by code_simp
  from deny_rule_blocks_tool [OF demo_deny_gate_reachable r e m a, of 7 0] show ?thesis by blast
qed

end
